(* ===== verification/Bridge_Prelude.thy ===== *)
theory Bridge_Prelude
  imports Main "HOL-Library.Word" "HOL-Library.AList"
begin

text \<open>
  Shared vocabulary of the development: the machine types of the Go sources, Go maps as
  association lists (a Go map has no iteration order of its own, so the list order stands for
  one arbitrary iteration order), the collections of facts the component proofs share and the
  generic list, map and word lemmas they need.
\<close>

section \<open>Types\<close>

type_synonym u64 = "64 word"
type_synonym u32 = "32 word"
type_synonym byte = "8 word"
type_synonym bytes = "byte list"

text \<open>
  A \<open>time.Time\<close> is its distance in nanoseconds from Go's zero time, so that
  \<open>IsZero\<close> is equality with 0, and a \<open>time.Duration\<close> is a number of nanoseconds.
\<close>

type_synonym go_time = int
type_synonym duration = int

abbreviation second :: duration where "second \<equiv> 1000000000"
abbreviation millisecond :: duration where "millisecond \<equiv> 1000000"
abbreviation minute :: duration where "minute \<equiv> 60000000000"

type_synonym ('k, 'v) gomap = "('k \<times> 'v) list"

abbreviation gm_get :: "('k, 'v) gomap \<Rightarrow> 'k \<Rightarrow> 'v option" where
  "gm_get m k \<equiv> map_of m k"

abbreviation gm_put :: "'k \<Rightarrow> 'v \<Rightarrow> ('k, 'v) gomap \<Rightarrow> ('k, 'v) gomap" where
  "gm_put k v m \<equiv> AList.update k v m"

abbreviation gm_del :: "'k \<Rightarrow> ('k, 'v) gomap \<Rightarrow> ('k, 'v) gomap" where
  "gm_del k m \<equiv> AList.delete k m"

abbreviation gm_ok :: "('k, 'v) gomap \<Rightarrow> bool" where
  "gm_ok m \<equiv> distinct (map fst m)"

section \<open>Collections of facts\<close>

named_theorems buffer_defs \<open>definitions of the byte buffer operations\<close>
named_theorems session_defs \<open>definitions of the operations on one managed session\<close>
named_theorems sup_defs \<open>definitions of the supervisor operations\<close>
named_theorems rpc_defs \<open>definitions of the request handlers\<close>
named_theorems control_defs \<open>definitions of the control client\<close>
named_theorems gomap_simps \<open>lookups in updated Go maps\<close>

section \<open>Go maps\<close>

declare map_of_eq_Some_iff [simp del] Some_eq_map_of_iff [simp del]

lemma gm_get_put [gomap_simps]: "gm_get (gm_put k v m) k' = (if k = k' then Some v else gm_get m k')"
  by (simp add: update_conv')

lemma gm_get_del [gomap_simps]: "gm_get (gm_del k m) k' = (if k = k' then None else gm_get m k')"
  by (simp add: delete_conv')

lemma gm_ok_put [simp]: "gm_ok m \<Longrightarrow> gm_ok (gm_put k v m)"
  by (rule distinct_update)

lemma gm_ok_del [simp]: "gm_ok m \<Longrightarrow> gm_ok (gm_del k m)"
  by (rule distinct_delete)

lemma gm_mem_get: "gm_ok m \<Longrightarrow> (k, v) \<in> set m \<longleftrightarrow> gm_get m k = Some v"
  by (auto intro: map_of_is_SomeI dest: map_of_SomeD)

lemma gm_del_absent: "gm_get m k = None \<Longrightarrow> gm_del k m = m"
  by (simp add: delete_idem map_of_eq_None_iff)

lemma gm_put_Nil_iff [simp]: "gm_put k v m \<noteq> []"
  by (cases m) (auto split: prod.splits)

section \<open>Lists\<close>

lemma filter_upt_greater: "filter (\<lambda>x. n < x) [a..<b] = [max a (Suc n)..<b]"
proof (induction b)
  case 0
  show ?case by simp
next
  case (Suc b)
  then show ?case by (auto simp: max_def)
qed

lemma map_filter_comp: "map f (filter (P \<circ> f) xs) = filter P (map f xs)"
  by (simp add: filter_map)

lemma sorted_wrt_snoc: "sorted_wrt P (xs @ [x]) \<longleftrightarrow> sorted_wrt P xs \<and> (\<forall>y \<in> set xs. P y x)"
  by (auto simp: sorted_wrt_append)

text \<open>A list that is strictly sorted by a key is determined by its elements.\<close>

lemma sorted_by_unique:
  fixes f :: "'a \<Rightarrow> 'k::linorder"
  assumes "sorted_wrt (\<lambda>a b. f a < f b) xs" and "sorted_wrt (\<lambda>a b. f a < f b) ys"
    and "set xs = set ys"
  shows "xs = ys"
  using assms
proof (induction xs arbitrary: ys)
  case (Cons x xs)
  then obtain y zs where ys: "ys = y # zs" by (cases ys) auto
  with Cons.prems have "x = y" by (metis list.set_intros(1) order_less_asym set_ConsD sorted_wrt.simps(2))
  moreover have "x \<notin> set xs" and "y \<notin> set zs" using Cons.prems ys by auto
  ultimately have "set xs = set zs" using Cons.prems(3) ys by auto
  with Cons.IH [of zs] Cons.prems ys \<open>x = y\<close> show ?case by simp
qed simp

lemma takeWhile_eq_filter_sorted:
  assumes "sorted_wrt R xs" and "\<And>x y. x \<in> set xs \<Longrightarrow> y \<in> set xs \<Longrightarrow> R x y \<Longrightarrow> P y \<Longrightarrow> P x"
  shows "takeWhile P xs = filter P xs"
  using assms
proof (induction xs)
  case (Cons x xs)
  show ?case
  proof (cases "P x")
    case True
    have "takeWhile P xs = filter P xs"
      using Cons.prems by (intro Cons.IH) (auto intro: Cons.prems(2))
    with True show ?thesis by simp
  next
    case False
    then have "\<forall>y \<in> set xs. \<not> P y" using Cons.prems by auto
    with False show ?thesis by (simp add: filter_empty_conv)
  qed
qed simp

section \<open>Words\<close>

lemma unat_inc_u64:
  fixes w :: u64
  assumes "unat w < 2 ^ 64 - 1"
  shows "unat (w + 1) = unat w + 1"
proof -
  from assms have "unat w + unat (1 :: u64) < 2 ^ 64" by simp
  then show ?thesis by (subst unat_add_lem [THEN iffD1]) simp_all
qed

lemma unat_u64_less: "unat (w :: u64) < 2 ^ 64"
  by (rule order_less_le_trans [OF unsigned_less]) simp

lemma unat_dec_u64:
  fixes w :: u64
  assumes "w \<noteq> 0"
  shows "unat (w - 1) = unat w - 1"
  using assms by (simp add: unat_minus_one)

lemma u64_le_nat: "(a :: u64) \<le> b \<longleftrightarrow> unat a \<le> unat b"
  by (rule word_le_nat_alt)

lemma u64_less_nat: "(a :: u64) < b \<longleftrightarrow> unat a < unat b"
  by (rule word_less_nat_alt)

lemmas u64_nat = u64_le_nat u64_less_nat word_unat_eq_iff

end
