(* ===== verification/Output_Log.thy ===== *)
theory Output_Log
  imports Bridge_Prelude
begin

text \<open>
  The contract between the session output buffer and its readers (attach, terminal windows, the
  durable replay): output is numbered consecutively, a reader holds a cursor, and reading from a
  cursor that is not older than the first retained number returns exactly the numbers after it.
  The client lemmas are about readers that come back with the cursor they reached.
\<close>

locale output_log =
  fixes app :: "'x \<Rightarrow> 'b \<Rightarrow> 'b"
    and last_no :: "'b \<Rightarrow> nat"
    and first_no :: "'b \<Rightarrow> nat"
    and read :: "'b \<Rightarrow> 'c \<Rightarrow> nat list"
    and pos :: "'c \<Rightarrow> nat"
    and ok :: "'b \<Rightarrow> bool"
    and room :: nat
  assumes app_ok: "ok b \<Longrightarrow> last_no b < room \<Longrightarrow> ok (app x b)"
    and app_last: "ok b \<Longrightarrow> last_no b < room \<Longrightarrow> last_no (app x b) = Suc (last_no b)"
    and app_first: "ok b \<Longrightarrow> last_no b < room \<Longrightarrow> first_no b \<le> first_no (app x b)"
    and read_range: "ok b \<Longrightarrow> first_no b \<le> Suc (pos c) \<Longrightarrow>
                       read b c = [Suc (pos c)..<Suc (last_no b)]"
begin

definition apps :: "'x list \<Rightarrow> 'b \<Rightarrow> 'b" where
  "apps xs b = fold app xs b"

lemma apps_props:
  assumes "ok b" and "last_no b + length xs \<le> room"
  shows "ok (apps xs b)" and "last_no (apps xs b) = last_no b + length xs"
    and "first_no b \<le> first_no (apps xs b)"
proof -
  have "ok (fold app xs b) \<and> last_no (fold app xs b) = last_no b + length xs \<and>
          first_no b \<le> first_no (fold app xs b)"
    using assms
  proof (induction xs arbitrary: b)
    case Nil
    then show ?case by simp
  next
    case (Cons x xs)
    then have lt: "last_no b < room" by simp
    from Cons.IH [of "app x b"] app_ok [OF Cons.prems(1) lt] app_last [OF Cons.prems(1) lt]
      app_first [OF Cons.prems(1) lt, of x] Cons.prems
    show ?case by auto
  qed
  then show "ok (apps xs b)" and "last_no (apps xs b) = last_no b + length xs"
    and "first_no b \<le> first_no (apps xs b)"
    by (auto simp: apps_def)
qed

text \<open>
  A reader that read to the end, disconnects, and reads again from its cursor after more output
  sees every number after its first cursor once and in order, as long as the buffer has not
  evicted past the cursor.
\<close>

lemma resume:
  assumes "ok b" and "last_no b + length xs \<le> room"
    and "first_no b \<le> Suc (pos c)" and "pos c \<le> last_no b"
    and "pos c' = last_no b" and "first_no (apps xs b) \<le> Suc (last_no b)"
  shows "read b c @ read (apps xs b) c' = [Suc (pos c)..<Suc (last_no b + length xs)]"
proof -
  from assms apps_props [OF assms(1,2)] have
    "read b c = [Suc (pos c)..<Suc (last_no b)]"
    "read (apps xs b) c' = [Suc (last_no b)..<Suc (last_no b + length xs)]"
    by (simp_all add: read_range)
  with assms(4) show ?thesis
    using upt_add_eq_append [of "Suc (pos c)" "Suc (last_no b)" "length xs"] by simp
qed

end

end
