(* ===== verification/Byte_Buffer.thy ===== *)
theory Byte_Buffer
  imports Output_Log
begin

text \<open>
  \<open>internal/bridge/bytebuf.go\<close>: the bounded buffer of terminal output of one session.
  Each appended payload gets the next sequence number; the oldest chunks are evicted while the
  buffer holds more bytes than its capacity or more than 65536 chunks. The \<open>changed\<close> channel
  is a channel identifier, the closed channels are recorded, and \<open>freshChan\<close> is the next
  unused identifier; every method runs under \<open>b.mu\<close>, so it is one function on the state.
\<close>

section \<open>Data\<close>

datatype ChunkType =
    ChunkTypeOutput
  | ChunkTypeThinking
  | ChunkTypeWriterClaimed
  | ChunkTypeWriterReleased

record OutputChunk =
  Cols :: u32
  Rows :: u32
  Seq :: u64
  Timestamp :: go_time
  Payload :: bytes
  Type :: ChunkType

record ByteBuffer =
  capacity :: int
  total :: int
  nextSeq :: u64
  chunks :: "OutputChunk list"
  changed :: "nat option"
  closedChans :: "nat list"
  freshChan :: nat

section \<open>Operations\<close>

definition NewByteBuffer :: "int \<Rightarrow> ByteBuffer" where
  "NewByteBuffer cap =
     \<lparr>capacity = (if cap \<le> 0 then 8 * 2 ^ 20 else cap), total = 0, nextSeq = 1, chunks = [],
      changed = None, closedChans = [], freshChan = 0\<rparr>"

definition notifyLocked :: "ByteBuffer \<Rightarrow> ByteBuffer" where
  [buffer_defs]: "notifyLocked b =
     b\<lparr>closedChans := (case changed b of None \<Rightarrow> closedChans b | Some c \<Rightarrow> c # closedChans b),
       changed := Some (freshChan b),
       freshChan := Suc (freshChan b)\<rparr>"

definition changes :: "ByteBuffer \<Rightarrow> nat \<times> ByteBuffer" where
  [buffer_defs]: "changes b =
     (case changed b of
        Some c \<Rightarrow> (c, b)
      | None \<Rightarrow> (freshChan b, b\<lparr>changed := Some (freshChan b), freshChan := Suc (freshChan b)\<rparr>))"

text \<open>The eviction loop, with the running byte total.\<close>

fun evict :: "int \<Rightarrow> int \<Rightarrow> OutputChunk list \<Rightarrow> int \<times> OutputChunk list" where
  "evict cap tot [] = (tot, [])"
| "evict cap tot (c # cs) =
     (if cap < tot \<or> 65536 < length (c # cs)
      then evict cap (tot - int (length (Payload c))) cs
      else (tot, c # cs))"

definition AppendSized ::
  "go_time \<Rightarrow> ByteBuffer \<Rightarrow> bytes \<Rightarrow> ChunkType \<Rightarrow> u32 \<Rightarrow> u32 \<Rightarrow> OutputChunk \<times> ByteBuffer" where
  [buffer_defs]: "AppendSized now b payload ctype cols rows =
     (let chunk = \<lparr>Cols = cols, Rows = rows, Seq = nextSeq b, Timestamp = now,
                   Payload = payload, Type = ctype\<rparr>;
          b1 = notifyLocked (b\<lparr>nextSeq := nextSeq b + 1\<rparr>);
          (tot, cs) = evict (capacity b) (total b + int (length payload)) (chunks b @ [chunk])
      in (chunk, b1\<lparr>total := tot, chunks := cs\<rparr>))"

definition AppendTyped ::
  "go_time \<Rightarrow> ByteBuffer \<Rightarrow> bytes \<Rightarrow> ChunkType \<Rightarrow> OutputChunk \<times> ByteBuffer" where
  [buffer_defs]: "AppendTyped now b payload ctype = AppendSized now b payload ctype 0 0"

definition Append :: "go_time \<Rightarrow> ByteBuffer \<Rightarrow> bytes \<Rightarrow> OutputChunk \<times> ByteBuffer" where
  [buffer_defs]: "Append now b payload = AppendTyped now b payload ChunkTypeOutput"

definition AppendChunk :: "ByteBuffer \<Rightarrow> OutputChunk \<Rightarrow> ByteBuffer" where
  [buffer_defs]: "AppendChunk b chunk =
     (let b1 = notifyLocked b;
          n = (if nextSeq b \<le> Seq chunk then Seq chunk + 1 else nextSeq b);
          (tot, cs) = evict (capacity b) (total b + int (length (Payload chunk))) (chunks b @ [chunk])
      in b1\<lparr>nextSeq := n, total := tot, chunks := cs\<rparr>)"

definition After :: "ByteBuffer \<Rightarrow> u64 \<Rightarrow> OutputChunk list" where
  [buffer_defs]: "After b afterSeq = filter (\<lambda>c. \<not> Seq c \<le> afterSeq) (chunks b)"

definition OldestSeq :: "ByteBuffer \<Rightarrow> u64" where
  [buffer_defs]: "OldestSeq b = (case chunks b of [] \<Rightarrow> 0 | c # _ \<Rightarrow> Seq c)"

definition LastSeq :: "ByteBuffer \<Rightarrow> u64" where
  [buffer_defs]: "LastSeq b = nextSeq b - 1"

section \<open>Reference behaviour: the longest suffix of the output log that fits\<close>

definition payload_bytes :: "OutputChunk list \<Rightarrow> int" where
  "payload_bytes cs = (\<Sum>c \<leftarrow> cs. int (length (Payload c)))"

definition fits :: "int \<Rightarrow> OutputChunk list \<Rightarrow> bool" where
  "fits cap cs \<longleftrightarrow> payload_bytes cs \<le> cap \<and> length cs \<le> 65536"

fun retained :: "int \<Rightarrow> OutputChunk list \<Rightarrow> OutputChunk list" where
  "retained cap [] = []"
| "retained cap (c # cs) = (if fits cap (c # cs) then c # cs else retained cap cs)"

lemma payload_bytes_simps [simp]:
  "payload_bytes [] = 0"
  "payload_bytes (c # cs) = int (length (Payload c)) + payload_bytes cs"
  "payload_bytes (cs @ ds) = payload_bytes cs + payload_bytes ds"
  by (simp_all add: payload_bytes_def)

lemma payload_bytes_nonneg: "0 \<le> payload_bytes cs"
  by (induction cs) auto

lemma fits_appendD: "fits cap (cs @ ds) \<Longrightarrow> fits cap cs \<and> fits cap ds"
  using payload_bytes_nonneg [of cs] payload_bytes_nonneg [of ds] by (auto simp: fits_def)

lemma evict_eq_retained:
  "evict cap (payload_bytes cs) cs = (payload_bytes (retained cap cs), retained cap cs)"
  by (induction cs) (auto simp: fits_def not_less)

lemma retained_fits: "0 \<le> cap \<Longrightarrow> fits cap (retained cap cs)"
  by (induction cs) (simp_all add: fits_def)

lemma retained_suffix: "\<exists>pre. cs = pre @ retained cap cs"
proof (induction cs)
  case Nil
  show ?case by simp
next
  case (Cons c cs)
  then obtain pre where "cs = pre @ retained cap cs" by blast
  then have "c # cs = (c # pre) @ retained cap cs" by simp
  then show ?case by (metis retained.simps(2) append_Nil)
qed

text \<open>No longer suffix fits: eviction drops nothing it could have kept.\<close>

lemma retained_longest:
  assumes "cs = pre @ suf" and "fits cap suf"
  shows "length suf \<le> length (retained cap cs)"
  using assms
proof (induction cs arbitrary: pre)
  case Nil
  then show ?case by simp
next
  case (Cons c cs)
  show ?case
  proof (cases pre)
    case Nil
    with Cons.prems show ?thesis by auto
  next
    case (Cons p ps)
    with Cons.prems have "cs = ps @ suf" by simp
    with Cons.IH Cons.prems(2) have "length suf \<le> length (retained cap cs)" by blast
    moreover have "length suf \<le> length (c # cs)" using \<open>cs = ps @ suf\<close> by simp
    ultimately show ?thesis by simp
  qed
qed

text \<open>Evicting after every append gives the same chunks as evicting once at the end.\<close>

lemma retained_append: "retained cap (retained cap xs @ [c]) = retained cap (xs @ [c])"
proof (induction xs)
  case Nil
  show ?case by simp
next
  case (Cons x xs)
  show ?case
  proof (cases "fits cap (x # xs)")
    case True
    then show ?thesis by simp
  next
    case False
    then have "\<not> fits cap (x # xs @ [c])"
      using fits_appendD [of cap "x # xs" "[c]"] by auto
    with False Cons.IH show ?thesis by simp
  qed
qed


section \<open>Histories of appends\<close>

text \<open>One append: the time, the payload, its type and the geometry it was written at.\<close>

type_synonym append_op = "go_time \<times> bytes \<times> ChunkType \<times> u32 \<times> u32"

fun append_op :: "append_op \<Rightarrow> ByteBuffer \<Rightarrow> ByteBuffer" where
  "append_op (now, payload, ctype, cols, rows) b = snd (AppendSized now b payload ctype cols rows)"

fun append_all :: "ByteBuffer \<Rightarrow> append_op list \<Rightarrow> ByteBuffer" where
  "append_all b [] = b"
| "append_all b (x # xs) = append_all (append_op x b) xs"

text \<open>The unbounded log the same appends would produce, numbered from \<open>s\<close>.\<close>

fun output_log_from :: "u64 \<Rightarrow> append_op list \<Rightarrow> OutputChunk list" where
  "output_log_from s [] = []"
| "output_log_from s ((now, payload, ctype, cols, rows) # xs) =
     \<lparr>Cols = cols, Rows = rows, Seq = s, Timestamp = now, Payload = payload, Type = ctype\<rparr>
       # output_log_from (s + 1) xs"

section \<open>Invariants\<close>

definition bb_ok :: "ByteBuffer \<Rightarrow> bool" where
  "bb_ok b \<longleftrightarrow> 0 < capacity b \<and> total b = payload_bytes (chunks b) \<and> fits (capacity b) (chunks b)"

text \<open>The retained sequence numbers are the consecutive ones that end just below \<open>nextSeq\<close>.\<close>

definition bb_seq :: "ByteBuffer \<Rightarrow> bool" where
  "bb_seq b \<longleftrightarrow> length (chunks b) < unat (nextSeq b) \<and>
     map (unat \<circ> Seq) (chunks b) = [unat (nextSeq b) - length (chunks b)..<unat (nextSeq b)]"

text \<open>The weaker order that also holds for a buffer rebuilt from durable storage.\<close>

definition bb_sorted :: "ByteBuffer \<Rightarrow> bool" where
  "bb_sorted b \<longleftrightarrow> nextSeq b \<noteq> 0 \<and> sorted_wrt (<) (map Seq (chunks b)) \<and>
     (\<forall>c \<in> set (chunks b). Seq c < nextSeq b)"

text \<open>The current notification channel is open, so closing it never panics.\<close>

definition bb_chan :: "ByteBuffer \<Rightarrow> bool" where
  "bb_chan b \<longleftrightarrow> (\<forall>c \<in> set (closedChans b). c < freshChan b) \<and>
     (\<forall>c. changed b = Some c \<longrightarrow> c < freshChan b \<and> c \<notin> set (closedChans b))"

lemmas bb_inv_defs = bb_ok_def bb_seq_def bb_chan_def

text \<open>What an append does to each field, for a buffer whose total is right.\<close>

lemma AppendSized_fields:
  fixes b :: ByteBuffer and cols rows :: u32 and now :: go_time and p :: bytes and ty :: ChunkType
  assumes "total b = payload_bytes (chunks b)"
  defines "c \<equiv> \<lparr>Cols = cols, Rows = rows, Seq = nextSeq b, Timestamp = now,
                Payload = p, Type = ty\<rparr>"
  defines "b' \<equiv> snd (AppendSized now b p ty cols rows)"
  shows "fst (AppendSized now b p ty cols rows) = c"
    and "chunks b' = retained (capacity b) (chunks b @ [c])"
    and "total b' = payload_bytes (chunks b')"
    and "nextSeq b' = nextSeq b + 1"
    and "capacity b' = capacity b"
    and "changed b' = Some (freshChan b)"
    and "closedChans b' = (case changed b of None \<Rightarrow> closedChans b | Some c \<Rightarrow> c # closedChans b)"
    and "freshChan b' = Suc (freshChan b)"
proof -
  have "evict (capacity b) (total b + int (length p)) (chunks b @ [c]) =
          (payload_bytes (retained (capacity b) (chunks b @ [c])),
           retained (capacity b) (chunks b @ [c]))"
    using evict_eq_retained [of "capacity b" "chunks b @ [c]"] assms by simp
  then show "fst (AppendSized now b p ty cols rows) = c"
    and "chunks b' = retained (capacity b) (chunks b @ [c])"
    and "total b' = payload_bytes (chunks b')"
    and "nextSeq b' = nextSeq b + 1"
    and "capacity b' = capacity b"
    and "changed b' = Some (freshChan b)"
    and "closedChans b' = (case changed b of None \<Rightarrow> closedChans b | Some c \<Rightarrow> c # closedChans b)"
    and "freshChan b' = Suc (freshChan b)"
    by (simp_all add: AppendSized_def b'_def c_def notifyLocked_def Let_def split: option.splits)
qed

lemma AppendChunk_fields:
  fixes b :: ByteBuffer and c :: OutputChunk
  assumes "total b = payload_bytes (chunks b)"
  defines "b' \<equiv> AppendChunk b c"
  shows "chunks b' = retained (capacity b) (chunks b @ [c])"
    and "total b' = payload_bytes (chunks b')"
    and "nextSeq b' = (if nextSeq b \<le> Seq c then Seq c + 1 else nextSeq b)"
    and "capacity b' = capacity b"
proof -
  have "evict (capacity b) (total b + int (length (Payload c))) (chunks b @ [c]) =
          (payload_bytes (retained (capacity b) (chunks b @ [c])),
           retained (capacity b) (chunks b @ [c]))"
    using evict_eq_retained [of "capacity b" "chunks b @ [c]"] assms by simp
  then show "chunks b' = retained (capacity b) (chunks b @ [c])"
    and "total b' = payload_bytes (chunks b')"
    and "nextSeq b' = (if nextSeq b \<le> Seq c then Seq c + 1 else nextSeq b)"
    and "capacity b' = capacity b"
    by (simp_all add: AppendChunk_def b'_def notifyLocked_def Let_def split: option.splits)
qed

lemma NewByteBuffer_ok [simp]: "bb_ok (NewByteBuffer cap)" "bb_seq (NewByteBuffer cap)"
  "bb_sorted (NewByteBuffer cap)" "bb_chan (NewByteBuffer cap)"
  by (simp_all add: bb_ok_def bb_seq_def bb_sorted_def bb_chan_def NewByteBuffer_def fits_def)

lemma NewByteBuffer_next [simp]: "nextSeq (NewByteBuffer cap) = 1"
  by (simp add: NewByteBuffer_def)

lemma AppendSized_ok: "bb_ok b \<Longrightarrow> bb_ok (snd (AppendSized now b p ty cols rows))"
  using AppendSized_fields [of b now p ty cols rows] by (simp add: bb_ok_def retained_fits)

lemma AppendChunk_ok: "bb_ok b \<Longrightarrow> bb_ok (AppendChunk b c)"
  using AppendChunk_fields [of b c] by (simp add: bb_ok_def retained_fits)

lemma AppendSized_chan: "bb_ok b \<Longrightarrow> bb_chan b \<Longrightarrow> bb_chan (snd (AppendSized now b p ty cols rows))"
  using AppendSized_fields [of b now p ty cols rows]
  by (auto simp: bb_ok_def bb_chan_def less_Suc_eq split: option.splits)

lemma changes_chan: "bb_chan b \<Longrightarrow> bb_chan (snd (changes b))"
  by (auto simp: changes_def bb_chan_def less_Suc_eq split: option.splits)

text \<open>Dropping a prefix of a consecutive run leaves a consecutive run.\<close>

lemma bb_seq_suffix:
  assumes "map (unat \<circ> Seq) (pre @ cs) = [a..<b]"
  shows "map (unat \<circ> Seq) cs = [b - length cs..<b]"
proof -
  from assms have len: "length pre + length cs = b - a"
    by (metis length_append length_map length_upt)
  from assms have "map (unat \<circ> Seq) cs = drop (length pre) [a..<b]"
    by (metis append_eq_conv_conj drop_map length_map map_append)
  also have "\<dots> = [a + length pre..<b]" by simp
  finally have "map (unat \<circ> Seq) cs = [a + length pre..<b]" .
  moreover have "a + length pre = b - length cs \<or> cs = []" using len by (cases cs) auto
  ultimately show ?thesis by auto
qed

lemma AppendSized_seq:
  assumes "bb_ok b" and "bb_seq b" and "unat (nextSeq b) < 2 ^ 64 - 1"
  shows "bb_seq (snd (AppendSized now b p ty cols rows))"
proof -
  define c where "c = \<lparr>Cols = cols, Rows = rows, Seq = nextSeq b, Timestamp = now,
                       Payload = p, Type = ty\<rparr>"
  let ?b' = "snd (AppendSized now b p ty cols rows)"
  let ?n = "unat (nextSeq b)"
  have fields: "chunks ?b' = retained (capacity b) (chunks b @ [c])" "nextSeq ?b' = nextSeq b + 1"
    using AppendSized_fields [of b now p ty cols rows] assms(1) by (simp_all add: bb_ok_def c_def)
  have nxt: "unat (nextSeq ?b') = Suc ?n"
    using assms(3) by (simp add: fields unat_inc_u64)
  obtain pre where pre: "chunks b @ [c] = pre @ chunks ?b'"
    using retained_suffix [of "chunks b @ [c]" "capacity b"] fields by auto
  have "map (unat \<circ> Seq) (chunks b @ [c]) = [?n - length (chunks b)..<Suc ?n]"
    using assms(2) by (simp add: bb_seq_def c_def)
  then have "map (unat \<circ> Seq) (chunks ?b') = [Suc ?n - length (chunks ?b')..<Suc ?n]"
    unfolding pre by (rule bb_seq_suffix)
  moreover have "length (chunks ?b') \<le> Suc (length (chunks b))"
    using arg_cong [OF pre, of length] by simp
  ultimately show ?thesis
    using assms(2) nxt by (simp add: bb_seq_def)
qed

lemma retained_sorted:
  assumes "sorted_wrt P (map f cs)"
  shows "sorted_wrt P (map f (retained cap cs))"
proof -
  obtain pre where "cs = pre @ retained cap cs" using retained_suffix by blast
  with assms show ?thesis by (metis map_append sorted_wrt_append)
qed

lemma retained_subset: "set (retained cap cs) \<subseteq> set cs"
  by (induction cs) auto

lemma AppendChunk_sorted:
  assumes "bb_ok b" and "bb_sorted b" and "nextSeq b \<le> Seq c" and "unat (Seq c) < 2 ^ 64 - 1"
  shows "bb_sorted (AppendChunk b c)"
proof -
  have fields: "chunks (AppendChunk b c) = retained (capacity b) (chunks b @ [c])"
      "nextSeq (AppendChunk b c) = Seq c + 1"
    using AppendChunk_fields [of b c] assms(1,3) by (simp_all add: bb_ok_def)
  have "Seq c < Seq c + 1"
    using assms(4) by (simp add: u64_less_nat unat_inc_u64)
  moreover have "sorted_wrt (<) (map Seq (chunks b @ [c]))"
    using assms(2,3) by (auto simp: bb_sorted_def sorted_wrt_snoc)
  ultimately show ?thesis
    using assms(2,3) retained_subset [of "capacity b" "chunks b @ [c]"] fields
    by (fastforce simp: bb_sorted_def intro: retained_sorted)
qed


section \<open>Reading\<close>

lemma After_numbers: "map (unat \<circ> Seq) (After b n) = filter (\<lambda>x. unat n < x) (map (unat \<circ> Seq) (chunks b))"
  by (simp add: After_def filter_map comp_def u64_nat not_le)

lemma LastSeq_unat: "nextSeq b \<noteq> 0 \<Longrightarrow> unat (LastSeq b) = unat (nextSeq b) - 1"
  by (simp add: LastSeq_def unat_dec_u64)

lemma bb_seq_next: "bb_seq b \<Longrightarrow> nextSeq b \<noteq> 0"
  by (auto simp: bb_seq_def)

lemma bb_seq_last: "bb_seq b \<Longrightarrow> Suc (unat (LastSeq b)) = unat (nextSeq b)"
  by (simp add: LastSeq_unat bb_seq_next) (simp add: bb_seq_def)

lemma bb_seq_oldest: "bb_seq b \<Longrightarrow> chunks b \<noteq> [] \<Longrightarrow>
    unat (OldestSeq b) = unat (nextSeq b) - length (chunks b)"
  by (cases "chunks b") (auto simp: bb_seq_def OldestSeq_def dest!: arg_cong [where f = hd])

interpretation bb: output_log append_op "\<lambda>b. unat (LastSeq b)"
  "\<lambda>b. unat (nextSeq b) - length (chunks b)" "\<lambda>b c. map (unat \<circ> Seq) (After b c)"
  unat "\<lambda>b. bb_ok b \<and> bb_seq b" "2 ^ 64 - 2"
proof (unfold_locales, goal_cases)
  case (1 b x)
  then have "unat (nextSeq b) < 2 ^ 64 - 1" using bb_seq_last [of b] by simp
  with 1 show ?case by (cases x) (simp add: AppendSized_ok AppendSized_seq)
next
  case (2 b x)
  then have lt: "unat (nextSeq b) < 2 ^ 64 - 1" using bb_seq_last [of b] by simp
  obtain now p ty cols rows where x: "x = (now, p, ty, cols, rows)" by (cases x)
  have "bb_seq (append_op x b)" using 2 lt x by (simp add: AppendSized_seq)
  from bb_seq_last [OF this] bb_seq_last [of b] 2 lt show ?case
    using AppendSized_fields(4) [of b now p ty cols rows]
    by (simp add: x bb_ok_def unat_inc_u64)
next
  case (3 b x)
  then have lt: "unat (nextSeq b) < 2 ^ 64 - 1" using bb_seq_last [of b] by simp
  obtain now p ty cols rows where x: "x = (now, p, ty, cols, rows)" by (cases x)
  let ?c = "\<lparr>Cols = cols, Rows = rows, Seq = nextSeq b, Timestamp = now, Payload = p, Type = ty\<rparr>"
  obtain pre where "chunks b @ [?c] = pre @ retained (capacity b) (chunks b @ [?c])"
    using retained_suffix by blast
  then have "length (retained (capacity b) (chunks b @ [?c])) \<le> Suc (length (chunks b))"
    by (metis length_append length_append_singleton le_add2)
  with 3 lt show ?case
    using AppendSized_fields [of b now p ty cols rows] by (simp add: x bb_ok_def unat_inc_u64)
next
  case (4 b c)
  then show ?case
    using bb_seq_last [of b] by (simp add: After_numbers bb_seq_def filter_upt_greater max_def)
qed

lemma apps_append_all: "bb.apps xs b = append_all b xs"
  unfolding bb.apps_def by (induction xs arbitrary: b) auto

section \<open>Properties\<close>

lemma append_all_fields:
  "bb_ok b \<Longrightarrow> bb_ok (append_all b xs) \<and> capacity (append_all b xs) = capacity b \<and>
     nextSeq (append_all b xs) = nextSeq b + of_nat (length xs)"
proof (induction xs arbitrary: b)
  case (Cons x xs)
  obtain now p ty cols rows where x: "x = (now, p, ty, cols, rows)" by (cases x)
  have "nextSeq (append_op x b) = nextSeq b + 1" "capacity (append_op x b) = capacity b"
    using AppendSized_fields [of b now p ty cols rows] Cons.prems x by (simp_all add: bb_ok_def)
  moreover have "bb_ok (append_op x b)" using Cons.prems x by (simp add: AppendSized_ok)
  ultimately show ?case using Cons.IH [of "append_op x b"] by (simp add: algebra_simps)
qed simp

lemma append_all_chunks:
  assumes "bb_ok b" and "chunks b = retained (capacity b) pre"
  shows "chunks (append_all b xs) = retained (capacity b) (pre @ output_log_from (nextSeq b) xs)"
  using assms
proof (induction xs arbitrary: b pre)
  case (Cons x xs)
  obtain now p ty cols rows where x: "x = (now, p, ty, cols, rows)" by (cases x)
  let ?c = "\<lparr>Cols = cols, Rows = rows, Seq = nextSeq b, Timestamp = now, Payload = p, Type = ty\<rparr>"
  have f: "nextSeq (append_op x b) = nextSeq b + 1" "capacity (append_op x b) = capacity b"
      "chunks (append_op x b) = retained (capacity b) (chunks b @ [?c])"
    using AppendSized_fields [of b now p ty cols rows] Cons.prems x by (simp_all add: bb_ok_def)
  have "chunks (append_op x b) = retained (capacity (append_op x b)) (pre @ [?c])"
    using f Cons.prems(2) by (simp add: retained_append)
  from Cons.IH [OF _ this] Cons.prems(1) f x show ?case
    by (simp add: AppendSized_ok)
qed simp


text \<open>
  C12. Evicting on every append is equivalent to keeping the longest suffix of the whole output
  log that fits: after any appends to a new buffer, the retained chunks are exactly that suffix
  of the log numbered from 1, and the next sequence number counts every append, also those whose
  bytes are gone.
\<close>

theorem append_all_is_longest_suffix:
  "let b = append_all (NewByteBuffer cap) xs in
     chunks b = retained (capacity (NewByteBuffer cap)) (output_log_from 1 xs) \<and>
     fits (capacity b) (chunks b) \<and>
     nextSeq b = 1 + of_nat (length xs) \<and> LastSeq b = of_nat (length xs)"
proof -
  let ?b = "append_all (NewByteBuffer cap) xs"
  have "chunks (NewByteBuffer cap) = retained (capacity (NewByteBuffer cap)) []"
    by (simp add: NewByteBuffer_def)
  from append_all_chunks [OF NewByteBuffer_ok(1) this, of xs]
  have "chunks ?b = retained (capacity (NewByteBuffer cap)) (output_log_from 1 xs)" by simp
  moreover have "bb_ok ?b" and "nextSeq ?b = 1 + of_nat (length xs)"
    using append_all_fields [of "NewByteBuffer cap" xs] by simp_all
  ultimately show ?thesis by (simp add: bb_ok_def LastSeq_def Let_def)
qed

text \<open>
  Cursor resume: a client that read everything after its cursor \<open>c\<close>, and later reads
  again from the last sequence it saw, receives every sequence number after \<open>c\<close> exactly once
  and in order, provided the buffer has not evicted past its cursor in between.
\<close>

theorem After_resume:
  assumes "bb_ok b" and "bb_seq b" and "unat (LastSeq b) + length xs \<le> 2 ^ 64 - 2"
    and "unat (nextSeq b) - length (chunks b) \<le> Suc (unat c)" and "c \<le> LastSeq b"
    and "unat (nextSeq (append_all b xs)) - length (chunks (append_all b xs)) \<le> unat (nextSeq b)"
  shows "map (unat \<circ> Seq) (After b c) @ map (unat \<circ> Seq) (After (append_all b xs) (LastSeq b)) =
           [Suc (unat c)..<Suc (unat (LastSeq b) + length xs)]"
  using bb.resume [of b xs c "LastSeq b"] assms bb_seq_last [OF assms(2)]
  by (simp add: apps_append_all u64_le_nat)

theorem After_resume_witness:
  "map (unat \<circ> Seq) (After (append_all (NewByteBuffer 4) [(0, [1, 2], ChunkTypeOutput, 0, 0)]) 0) @
   map (unat \<circ> Seq)
     (After (append_all (append_all (NewByteBuffer 4) [(0, [1, 2], ChunkTypeOutput, 0, 0)])
               [(1, [3], ChunkTypeOutput, 0, 0)])
        (LastSeq (append_all (NewByteBuffer 4) [(0, [1, 2], ChunkTypeOutput, 0, 0)]))) = [1, 2]"
proof -
  let ?b = "append_all (NewByteBuffer 4) [(0, [1, 2], ChunkTypeOutput, 0, 0)]"
  note ev = NewByteBuffer_def AppendSized_def notifyLocked_def LastSeq_def Let_def
  have "bb_ok ?b" "bb_seq ?b" by (simp_all add: AppendSized_ok AppendSized_seq)
  moreover have "unat (LastSeq ?b) + length [(1, [3], ChunkTypeOutput, 0, 0) :: append_op] \<le> 2 ^ 64 - 2"
    "unat (nextSeq ?b) - length (chunks ?b) \<le> Suc (unat (0 :: u64))" "(0 :: u64) \<le> LastSeq ?b"
    "unat (nextSeq (append_all ?b [(1, [3], ChunkTypeOutput, 0, 0)])) -
       length (chunks (append_all ?b [(1, [3], ChunkTypeOutput, 0, 0)])) \<le> unat (nextSeq ?b)"
    by (simp_all add: ev)
  ultimately have "map (unat \<circ> Seq) (After ?b 0) @
      map (unat \<circ> Seq) (After (append_all ?b [(1, [3], ChunkTypeOutput, 0, 0)]) (LastSeq ?b)) =
      [Suc (unat (0 :: u64))..<Suc (unat (LastSeq ?b) + length [(1, [3], ChunkTypeOutput, 0, 0) :: append_op])]"
    by (rule After_resume)
  also have "\<dots> = [1, 2]" by (simp add: ev upt_rec)
  finally show ?thesis .
qed

text \<open>
  No lost wake-up: a reader that subscribes with \<open>changes\<close> before it looks at the buffer
  holds an open channel, and any later append closes that channel. Closing it never hits an
  already closed channel.
\<close>

theorem changes_wakeup:
  assumes "bb_ok b" and "bb_chan b"
  shows "fst (changes b) \<notin> set (closedChans (snd (changes b))) \<and>
         fst (changes b) \<in> set (closedChans (snd (AppendSized now (snd (changes b)) p ty cols rows)))"
proof -
  have ok: "bb_ok (snd (changes b))"
    using assms(1) by (auto simp: bb_ok_def changes_def split: option.splits)
  have ch: "changed (snd (changes b)) = Some (fst (changes b))"
    by (auto simp: changes_def split: option.splits)
  with changes_chan [OF assms(2)] have "fst (changes b) \<notin> set (closedChans (snd (changes b)))"
    by (simp add: bb_chan_def)
  moreover have "fst (changes b) \<in> set (closedChans (snd (AppendSized now (snd (changes b)) p ty cols rows)))"
    using ok ch AppendSized_fields(7) [of "snd (changes b)" now p ty cols rows] by (simp add: bb_ok_def)
  ultimately show ?thesis by blast
qed

theorem changes_wakeup_witness:
  "fst (changes (NewByteBuffer 1)) \<in>
     set (closedChans (snd (AppendSized 0 (snd (changes (NewByteBuffer 1))) [7] ChunkTypeOutput 0 0)))"
  using changes_wakeup [of "NewByteBuffer 1" 0 "[7]" ChunkTypeOutput 0 0] by simp

end
