(* ===== verification/Pending_Input.thy ===== *)
theory Pending_Input
  imports Bridge_Prelude
begin

unbundle bit_operations_syntax

text \<open>
  \<open>internal/bridge/screen_pending.go\<close>: the escape sequence or UTF-8 character that a chunk
  boundary left incomplete. \<open>byte_step\<close> is one round of the loop of \<open>feed\<close>; its second
  component is \<open>False\<close> where the source steps back (\<open>i--\<close>) to process the byte again.
\<close>

section \<open>Tracker\<close>

definition maxPendingInput :: nat where "maxPendingInput = 4096"

datatype pendingState =
    pendGround
  | pendEsc
  | pendEscInter
  | pendCSI
  | pendOSC
  | pendString
  | pendStringEsc
  | pendUTF8

record pendingInput =
  pstate :: pendingState
  utf8Left :: int
  pbuf :: bytes
  overflow :: bool
  executed :: bool

definition newPendingInput :: pendingInput where
  "newPendingInput = \<lparr>pstate = pendGround, utf8Left = 0, pbuf = [], overflow = False, executed = False\<rparr>"

definition pending_start :: "pendingInput \<Rightarrow> byte \<Rightarrow> pendingState \<Rightarrow> pendingInput" where
  "pending_start p c st = p\<lparr>pstate := st, pbuf := [c], overflow := False, executed := False\<rparr>"

definition pending_ground :: "pendingInput \<Rightarrow> pendingInput" where
  "pending_ground p = p\<lparr>pstate := pendGround, pbuf := [], overflow := False, executed := False\<rparr>"

text \<open>The bookkeeping before the state switch: keep the byte, note an executed control.\<close>

definition pending_note :: "pendingInput \<Rightarrow> byte \<Rightarrow> pendingInput" where
  "pending_note p c =
     (let p1 = (if pstate p = pendGround then p
                else if length (pbuf p) < maxPendingInput then p\<lparr>pbuf := pbuf p @ [c]\<rparr>
                else p\<lparr>overflow := True\<rparr>)
      in if c < 0x20 \<and> c \<noteq> 0x1b \<and> c \<noteq> 0x18 \<and> c \<noteq> 0x1a \<and>
            (pstate p = pendEsc \<or> pstate p = pendEscInter \<or> pstate p = pendCSI)
         then p1\<lparr>executed := True\<rparr> else p1)"

definition byte_step :: "pendingInput \<Rightarrow> byte \<Rightarrow> pendingInput \<times> bool" where
  "byte_step p0 c =
     (let p = pending_note p0 c in
      case pstate p0 of
        pendGround \<Rightarrow>
          (if c = 0x1b then (pending_start p c pendEsc, True)
           else if 0xc2 \<le> c \<and> c \<le> 0xf4 then
             ((pending_start p c pendUTF8)\<lparr>utf8Left :=
                (if 0xf0 \<le> c then 3 else if 0xe0 \<le> c then 2 else 1)\<rparr>, True)
           else (p, True))
      | pendUTF8 \<Rightarrow>
          (if c AND 0xc0 \<noteq> 0x80 then (pending_ground p, False)
           else let q = p\<lparr>utf8Left := utf8Left p - 1\<rparr>
                in (if utf8Left q = 0 then pending_ground q else q, True))
      | pendEsc \<Rightarrow>
          (if c = 0x5b then p\<lparr>pstate := pendCSI\<rparr>
           else if c = 0x5d then p\<lparr>pstate := pendOSC\<rparr>
           else if c = 0x50 \<or> c = 0x58 \<or> c = 0x5e \<or> c = 0x5f then p\<lparr>pstate := pendString\<rparr>
           else if c = 0x1b then pending_start p c pendEsc
           else if 0x20 \<le> c \<and> c \<le> 0x2f then p\<lparr>pstate := pendEscInter\<rparr>
           else if c = 0x18 \<or> c = 0x1a \<or> 0x30 \<le> c then pending_ground p
           else p, True)
      | pendEscInter \<Rightarrow>
          (if c = 0x1b then pending_start p c pendEsc
           else if 0x30 \<le> c \<or> c = 0x18 \<or> c = 0x1a then pending_ground p
           else p, True)
      | pendCSI \<Rightarrow>
          (if c = 0x1b then pending_start p c pendEsc
           else if (0x40 \<le> c \<and> c \<le> 0x7e) \<or> c = 0x18 \<or> c = 0x1a then pending_ground p
           else p, True)
      | pendOSC \<Rightarrow>
          (if c = 0x07 \<or> c = 0x18 \<or> c = 0x1a then pending_ground p
           else if c = 0x1b then p\<lparr>pstate := pendStringEsc\<rparr>
           else p, True)
      | pendString \<Rightarrow>
          (if c = 0x18 \<or> c = 0x1a then pending_ground p
           else if c = 0x1b then p\<lparr>pstate := pendStringEsc\<rparr>
           else p, True)
      | pendStringEsc \<Rightarrow>
          (if c = 0x5c then (pending_ground p, True)
           else (pending_start p 0x1b pendEsc, False)))"

text \<open>A byte is processed again at most once: the state it is processed in again consumes it.\<close>

definition feed1 :: "pendingInput \<Rightarrow> byte \<Rightarrow> pendingInput" where
  "feed1 p c = (let (q, fin) = byte_step p c in if fin then q else fst (byte_step q c))"

fun feed :: "pendingInput \<Rightarrow> bytes \<Rightarrow> pendingInput" where
  "feed p [] = p"
| "feed p (c # cs) = feed (feed1 p c) cs"

definition prefix :: "pendingInput \<Rightarrow> bytes \<times> bool" where
  "prefix p =
     (if pstate p = pendGround then ([], True)
      else if overflow p \<or> executed p then ([], False)
      else (pbuf p, True))"

lemma byte_step_again: "\<not> snd (byte_step p c) \<Longrightarrow> snd (byte_step (fst (byte_step p c)) c)"
  by (cases "pstate p")
     (auto simp: byte_step_def pending_note_def pending_ground_def pending_start_def Let_def
       split: if_splits)

lemma feed_append: "feed p (xs @ ys) = feed (feed p xs) ys"
  by (induction xs arbitrary: p) auto

section \<open>Well-formed trackers\<close>

definition pending_ok :: "pendingInput \<Rightarrow> bool" where
  "pending_ok p \<longleftrightarrow> length (pbuf p) \<le> maxPendingInput \<and>
     (if pstate p = pendGround then pbuf p = [] \<and> \<not> overflow p \<and> \<not> executed p
      else pbuf p \<noteq> [])"

lemma byte_step_ok: "pending_ok p \<Longrightarrow> pending_ok (fst (byte_step p c))"
  by (cases "pstate p")
     (auto simp: byte_step_def pending_note_def pending_ground_def pending_start_def Let_def
       pending_ok_def maxPendingInput_def)

lemma feed1_ok: "pending_ok p \<Longrightarrow> pending_ok (feed1 p c)"
  by (auto simp: feed1_def Let_def byte_step_ok split: prod.splits)
     (metis byte_step_ok fst_conv)+

lemma feed_ok: "pending_ok p \<Longrightarrow> pending_ok (feed p cs)"
  by (induction cs arbitrary: p) (auto simp: feed1_ok)

lemma newPendingInput_ok: "pending_ok newPendingInput"
  by (simp add: pending_ok_def newPendingInput_def)

section \<open>Replaying the prefix\<close>

text \<open>
  Two trackers that agree on everything but a stale \<open>utf8Left\<close> behave the same.
\<close>

definition same :: "pendingInput \<Rightarrow> pendingInput \<Rightarrow> bool" where
  "same p q \<longleftrightarrow> pstate p = pstate q \<and> pbuf p = pbuf q \<and> overflow p = overflow q \<and>
     executed p = executed q \<and> (pstate p = pendUTF8 \<longrightarrow> utf8Left p = utf8Left q)"

lemma byte_step_same:
  assumes "same p q"
  shows "same (fst (byte_step p c)) (fst (byte_step q c))" "snd (byte_step p c) = snd (byte_step q c)"
  using assms
  by (cases "pstate p";
      simp add: same_def byte_step_def pending_note_def pending_ground_def pending_start_def Let_def)+

lemma feed1_same: "same p q \<Longrightarrow> same (feed1 p c) (feed1 q c)"
  using byte_step_same [of p q c] byte_step_same [of "fst (byte_step p c)" "fst (byte_step q c)" c]
  by (auto simp: feed1_def Let_def split: prod.splits)

lemma feed_same: "same p q \<Longrightarrow> same (feed p cs) (feed q cs)"
  by (induction cs arbitrary: p q) (auto simp: feed1_same)

lemma same_sym: "same p q \<Longrightarrow> same q p"
  by (auto simp: same_def)

lemma same_trans: "same p q \<Longrightarrow> same q r \<Longrightarrow> same p r"
  by (auto simp: same_def)

text \<open>
  A byte returns to ground, starts a sequence that its kept byte alone reproduces, extends the
  kept bytes, or overflows them.
\<close>

lemma byte_step_shape:
  assumes "pending_ok p"
  shows "pstate (fst (byte_step p c)) = pendGround \<or>
    same (feed newPendingInput (pbuf (fst (byte_step p c)))) (fst (byte_step p c)) \<or>
    (snd (byte_step p c) \<and> pbuf (fst (byte_step p c)) = pbuf p @ [c] \<and>
       pstate p \<noteq> pendGround \<and> overflow (fst (byte_step p c)) = overflow p) \<or>
    overflow (fst (byte_step p c))"
  using assms
  by (cases "pstate p")
     (auto simp: byte_step_def pending_note_def pending_ground_def pending_start_def Let_def
       feed1_def same_def newPendingInput_def pending_ok_def)

text \<open>The kept bytes, fed to a fresh tracker, reproduce the tracker.\<close>

definition reproducible :: "pendingInput \<Rightarrow> bool" where
  "reproducible p \<longleftrightarrow> (pstate p = pendGround \<or> overflow p \<or> same (feed newPendingInput (pbuf p)) p)"

lemma feed1_split: "feed1 p c = (if snd (byte_step p c) then fst (byte_step p c)
    else fst (byte_step (fst (byte_step p c)) c))"
  by (cases "byte_step p c") (simp add: feed1_def)

lemma byte_step_reproducible:
  assumes "pending_ok p" and "reproducible p"
  shows "reproducible (fst (byte_step p c))"
proof -
  let ?q = "fst (byte_step p c)"
  consider "pstate ?q = pendGround \<or> overflow ?q" | "same (feed newPendingInput (pbuf ?q)) ?q"
    | "snd (byte_step p c)" "pbuf ?q = pbuf p @ [c]" "pstate p \<noteq> pendGround" "\<not> overflow p"
    using byte_step_shape [OF assms(1), of c] by blast
  then show ?thesis
  proof cases
    case 3
    then have "same (feed newPendingInput (pbuf p)) p" using assms(2) by (simp add: reproducible_def)
    then have "same (feed newPendingInput (pbuf p @ [c])) (feed1 p c)"
      by (simp add: feed_append feed1_same)
    moreover have "feed1 p c = ?q" using 3(1) by (simp add: feed1_split)
    ultimately show ?thesis using 3(2) by (simp add: reproducible_def)
  qed (auto simp: reproducible_def)
qed

lemma feed_reproducible: "pending_ok p \<Longrightarrow> reproducible p \<Longrightarrow> reproducible (feed p cs)"
  by (induction cs arbitrary: p) (auto simp: feed1_ok feed1_split byte_step_reproducible byte_step_ok)

text \<open>The kept bytes are the last bytes that were fed.\<close>

definition tail_of :: "bytes \<Rightarrow> pendingInput \<Rightarrow> bool" where
  "tail_of data p \<longleftrightarrow> (overflow p \<or> (\<exists>d. data = d @ pbuf p)) \<and>
     (pstate p = pendStringEsc \<longrightarrow> (\<exists>d. data = d @ [0x1b]))"

lemma tail_of_byte_step:
  assumes "pending_ok p" and "tail_of data p"
  shows "if snd (byte_step p c) then tail_of (data @ [c]) (fst (byte_step p c))
         else tail_of data (fst (byte_step p c))"
  using assms
  by (cases "pstate p")
     (auto simp: byte_step_def pending_note_def pending_ground_def pending_start_def Let_def
       tail_of_def pending_ok_def)

lemma tail_of_feed1: "pending_ok p \<Longrightarrow> tail_of data p \<Longrightarrow> tail_of (data @ [c]) (feed1 p c)"
  using tail_of_byte_step [of p data c] tail_of_byte_step [of "fst (byte_step p c)" data c]
    byte_step_again [of p c] byte_step_ok [of p c]
  by (auto simp: feed1_split split: if_splits)

lemma tail_of_feed: "pending_ok p \<Longrightarrow> tail_of data p \<Longrightarrow> tail_of (data @ cs) (feed p cs)"
proof (induction cs arbitrary: p data)
  case (Cons c cs)
  from Cons.IH [OF feed1_ok [OF Cons.prems(1)] tail_of_feed1 [OF Cons.prems]] show ?case by simp
qed simp

section \<open>Properties\<close>

text \<open>
  C17. A checkpoint may replace the output it follows: whenever the tracker hands out a prefix,
  that prefix is the tail of the output fed so far (of at most 4096 bytes), and a viewer that
  starts fresh and is fed the prefix is left in the same state, so that any later output is
  tracked from there exactly as on the uninterrupted terminal.
\<close>

theorem prefix_resumes:
  assumes "prefix (feed newPendingInput data) = (pre, True)"
  shows "(\<exists>d. data = d @ pre) \<and> length pre \<le> 4096 \<and>
         same (feed newPendingInput (pre @ later)) (feed newPendingInput (data @ later))"
proof -
  let ?p = "feed newPendingInput data"
  have ok: "pending_ok ?p" by (simp add: feed_ok newPendingInput_ok)
  have rep: "reproducible ?p"
    by (rule feed_reproducible [OF newPendingInput_ok]) (simp add: reproducible_def newPendingInput_def)
  have tl: "tail_of data ?p"
    using tail_of_feed [OF newPendingInput_ok, of "[]" data]
    by (simp add: tail_of_def newPendingInput_def)
  have "same (feed newPendingInput pre) ?p"
  proof (cases "pstate ?p = pendGround")
    case True
    with assms ok show ?thesis by (auto simp: prefix_def pending_ok_def same_def newPendingInput_def)
  next
    case False
    with assms rep show ?thesis by (auto simp: prefix_def reproducible_def split: if_splits)
  qed
  then have "same (feed newPendingInput (pre @ later)) (feed newPendingInput (data @ later))"
    by (simp add: feed_append feed_same)
  moreover have "length pre \<le> 4096" and "\<exists>d. data = d @ pre"
    using assms ok tl by (auto simp: prefix_def pending_ok_def maxPendingInput_def tail_of_def split: if_splits)
  ultimately show ?thesis by blast
qed

theorem prefix_resumes_witness:
  "same (feed newPendingInput ([0x1b, 0x5b] @ [0x33]))
        (feed newPendingInput ([0x41, 0x1b, 0x5b] @ [0x33]))"
proof -
  have "prefix (feed newPendingInput [0x41, 0x1b, 0x5b]) = ([0x1b, 0x5b], True)"
    by (simp add: prefix_def feed1_def byte_step_def pending_note_def newPendingInput_def
        pending_start_def maxPendingInput_def Let_def)
  from prefix_resumes [OF this, of "[0x33]"] show ?thesis by blast
qed

end
