(* ===== verification/Live_Screen.thy ===== *)
theory Live_Screen
  imports Byte_Buffer Pending_Input
begin

text \<open>
  \<open>internal/bridge/screen.go\<close>: the current screen of a terminal session. The VT emulator is
  third-party code: an emulator is represented by the calls made on it (its construction size,
  then writes and resizes), and what those calls draw is the parameter \<open>vt\<close>: \<open>vtPipe\<close> is
  whether the reply pipe can be closed at construction, \<open>vtBody\<close> the redraw of an emulator
  without the pending input, or \<open>None\<close> for a state the redraw cannot reproduce. A nil byte slice
  is the empty list. \<open>freeze\<close> starts \<open>finalize\<close> in the background; \<open>finalize\<close> runs once.
\<close>

datatype emu_call = EmuWrite bytes | EmuResize u32 u32

record emulator =
  emuCols :: u32
  emuRows :: u32
  emuCalls :: "emu_call list"

record vt =
  vtPipe :: bool
  vtBody :: "emulator \<Rightarrow> bytes option"

record liveScreen =
  emu :: "emulator option"
  screenSeq :: u64
  disabled :: bool
  pending :: pendingInput
  frozen :: bytes
  closed :: bool
  finalized :: bool

definition maxTerminalCheckpointBytes :: nat where "maxTerminalCheckpointBytes = 65536"
definition maxScreenCols :: u32 where "maxScreenCols = 500"
definition maxScreenRows :: u32 where "maxScreenRows = 300"

definition newLiveScreen :: liveScreen where
  "newLiveScreen = \<lparr>emu = None, screenSeq = 0, disabled = False, pending = newPendingInput,
     frozen = [], closed = False, finalized = False\<rparr>"

definition ensure :: "vt \<Rightarrow> liveScreen \<Rightarrow> u32 \<Rightarrow> u32 \<Rightarrow> bool \<times> liveScreen" where
  "ensure V l cols rows =
     (if disabled l \<or> closed l then (False, l)
      else if cols = 0 \<or> rows = 0 \<or> maxScreenCols < cols \<or> maxScreenRows < rows then
        (False, l\<lparr>disabled := True, emu := None\<rparr>)
      else case emu l of
             None \<Rightarrow>
               if \<not> vtPipe V then (False, l\<lparr>disabled := True\<rparr>)
               else (True, l\<lparr>emu := Some \<lparr>emuCols = cols, emuRows = rows, emuCalls = []\<rparr>\<rparr>)
           | Some e \<Rightarrow>
               if emuCols e \<noteq> cols \<or> emuRows e \<noteq> rows then
                 (True, l\<lparr>emu := Some \<lparr>emuCols = cols, emuRows = rows,
                                     emuCalls = emuCalls e @ [EmuResize cols rows]\<rparr>\<rparr>)
               else (True, l))"

definition screen_apply :: "vt \<Rightarrow> liveScreen \<Rightarrow> OutputChunk \<Rightarrow> liveScreen" where
  "screen_apply V l chunk =
     (let (ok, l1) = ensure V l (Cols chunk) (Rows chunk)
      in if \<not> ok then l1
         else if Seq chunk \<noteq> screenSeq l1 + 1 then l1\<lparr>disabled := True, emu := None\<rparr>
         else let l2 = (if Payload chunk = [] then l1
                        else l1\<lparr>emu := map_option (\<lambda>e. e\<lparr>emuCalls := emuCalls e @ [EmuWrite (Payload chunk)]\<rparr>) (emu l1),
                                pending := feed (pending l1) (Payload chunk)\<rparr>)
              in l2\<lparr>screenSeq := Seq chunk\<rparr>)"

definition freeze :: "liveScreen \<Rightarrow> liveScreen" where
  "freeze l = (if closed l then l else l\<lparr>closed := True\<rparr>)"

text \<open>\<open>render\<close>: the redraw followed by the incomplete trailing input.\<close>

definition render :: "vt \<Rightarrow> emulator \<Rightarrow> pendingInput \<Rightarrow> bytes" where
  "render V e p =
     (case vtBody V e of
        None \<Rightarrow> []
      | Some body \<Rightarrow> (let (pre, ok) = prefix p in if ok then body @ pre else []))"

definition finalize :: "vt \<Rightarrow> liveScreen \<Rightarrow> liveScreen" where
  "finalize V l =
     (if finalized l then l
      else l\<lparr>frozen := (case emu l of
                          Some e \<Rightarrow> if disabled l then frozen l else render V e (pending l)
                        | None \<Rightarrow> frozen l),
             emu := None, finalized := True\<rparr>)"

definition checkpoint :: "vt \<Rightarrow> liveScreen option \<Rightarrow> u64 \<Rightarrow> bytes \<times> liveScreen option" where
  "checkpoint V screen seq =
     (case screen of
        None \<Rightarrow> ([], None)
      | Some l \<Rightarrow>
          if disabled l \<or> seq = 0 \<or> screenSeq l \<noteq> seq then ([], Some l)
          else
            let l1 = (if closed l then finalize V l else l);
                data = (if closed l then frozen l1
                        else case emu l of None \<Rightarrow> [] | Some e \<Rightarrow> render V e (pending l))
            in (if data = [] \<or> maxTerminalCheckpointBytes < length data then [] else data, Some l1))"

section \<open>What the screen shows\<close>

definition good_geometry :: "OutputChunk \<Rightarrow> bool" where
  "good_geometry c \<longleftrightarrow> Cols c \<noteq> 0 \<and> Rows c \<noteq> 0 \<and> Cols c \<le> maxScreenCols \<and> Rows c \<le> maxScreenRows"

text \<open>
  The reference: the emulator that draws a sequence of chunks, from the size of the first one. Each chunk is
  drawn at its own size.
\<close>

definition draw :: "emulator \<Rightarrow> OutputChunk \<Rightarrow> emulator" where
  "draw e c =
     \<lparr>emuCols = Cols c, emuRows = Rows c,
      emuCalls = emuCalls e @ (if emuCols e \<noteq> Cols c \<or> emuRows e \<noteq> Rows c then [EmuResize (Cols c) (Rows c)] else []) @
                 (if Payload c = [] then [] else [EmuWrite (Payload c)])\<rparr>"

definition drawn :: "OutputChunk list \<Rightarrow> emulator" where
  "drawn cs = foldl draw \<lparr>emuCols = Cols (hd cs), emuRows = Rows (hd cs), emuCalls = []\<rparr> cs"

lemma drawn_snoc: "cs \<noteq> [] \<Longrightarrow> drawn (cs @ [c]) = draw (drawn cs) c"
  by (simp add: drawn_def)

lemma drawn_one: "drawn [c] = draw \<lparr>emuCols = Cols c, emuRows = Rows c, emuCalls = []\<rparr> c"
  by (simp add: drawn_def)

fun emu_writes :: "emu_call list \<Rightarrow> bytes list" where
  "emu_writes [] = []"
| "emu_writes (EmuWrite b # cs) = b # emu_writes cs"
| "emu_writes (EmuResize c r # cs) = emu_writes cs"

lemma emu_writes_append [simp]: "emu_writes (xs @ ys) = emu_writes xs @ emu_writes ys"
  by (induction xs rule: emu_writes.induct) auto

lemma drawn_writes: "concat (emu_writes (emuCalls (drawn cs))) = concat (map Payload cs)"
proof -
  have "concat (emu_writes (emuCalls (foldl draw e cs))) = concat (emu_writes (emuCalls e)) @ concat (map Payload cs)" for e
    by (induction cs arbitrary: e) (simp_all add: draw_def)
  then show ?thesis by (simp add: drawn_def)
qed

text \<open>The output a screen can follow: numbered from 1 without a hole, every chunk with a supported size.\<close>

definition followable :: "vt \<Rightarrow> OutputChunk list \<Rightarrow> bool" where
  "followable V cs \<longleftrightarrow> (cs = [] \<or> vtPipe V) \<and> list_all good_geometry cs \<and> map Seq cs = map (\<lambda>i. of_nat i + 1) [0..<length cs]"

lemma followable_snoc:
  "followable V (cs @ [c]) \<longleftrightarrow> followable V cs \<and> vtPipe V \<and> good_geometry c \<and> Seq c = of_nat (length cs) + 1"
  by (auto simp: followable_def)

text \<open>
  The life of a screen: output is applied under the session lock, the end of the output freezes it, and \<open>finalize\<close>
  runs at any time afterwards, in the goroutine that \<open>freeze\<close> starts or in a \<open>checkpoint\<close>.
\<close>

datatype screen_op = ScApply OutputChunk | ScFreeze | ScFinalize

fun screen_step :: "vt \<Rightarrow> liveScreen \<Rightarrow> screen_op \<Rightarrow> liveScreen" where
  "screen_step V l (ScApply c) = screen_apply V l c"
| "screen_step V l ScFreeze = freeze l"
| "screen_step V l ScFinalize = (if closed l then finalize V l else l)"

definition screen_run :: "vt \<Rightarrow> screen_op list \<Rightarrow> liveScreen" where
  "screen_run V ops = foldl (screen_step V) newLiveScreen ops"

text \<open>The output before the screen was frozen.\<close>

fun shown :: "screen_op list \<Rightarrow> OutputChunk list" where
  "shown [] = []"
| "shown (ScApply c # ops) = c # shown ops"
| "shown (ScFreeze # ops) = []"
| "shown (ScFinalize # ops) = shown ops"

lemma shown_snoc:
  "shown (ops @ [x]) = (if ScFreeze \<in> set ops then shown ops else case x of ScApply c \<Rightarrow> shown ops @ [c] | _ \<Rightarrow> shown ops)"
  by (induction ops rule: shown.induct) (auto split: screen_op.splits)

text \<open>A screen that shows \<open>cs\<close>: in step with them when they can be followed, disabled otherwise.\<close>

definition displays :: "vt \<Rightarrow> OutputChunk list \<Rightarrow> liveScreen \<Rightarrow> bool" where
  "displays V cs l \<longleftrightarrow> (disabled l \<longleftrightarrow> \<not> followable V cs) \<and> (finalized l \<longrightarrow> closed l) \<and>
     (followable V cs \<longrightarrow>
        screenSeq l = of_nat (length cs) \<and> pending l = feed newPendingInput (concat (map Payload cs)) \<and>
        (if finalized l then frozen l = (if cs = [] then [] else render V (drawn cs) (pending l))
         else frozen l = [] \<and> emu l = (if cs = [] then None else Some (drawn cs))))"

lemma displays_new: "displays V [] newLiveScreen"
  by (simp add: displays_def newLiveScreen_def followable_def)

lemma displays_apply:
  assumes "displays V cs l" and "\<not> closed l"
  shows "displays V (cs @ [c]) (screen_apply V l c) \<and> \<not> closed (screen_apply V l c)"
proof (cases "followable V cs")
  case False
  with assms show ?thesis by (auto simp: displays_def followable_snoc screen_apply_def ensure_def)
next
  case True
  with assms have l: "\<not> disabled l" "\<not> finalized l" "screenSeq l = of_nat (length cs)" "frozen l = []"
    "pending l = feed newPendingInput (concat (map Payload cs))" "emu l = (if cs = [] then None else Some (drawn cs))"
    by (auto simp: displays_def)
  show ?thesis
  proof (cases "cs = []")
    case True
    with l assms(2) \<open>followable V cs\<close> show ?thesis
      by (auto simp: displays_def followable_def screen_apply_def ensure_def good_geometry_def drawn_one draw_def Let_def not_less)
  next
    case False
    have pipe: "vtPipe V" using \<open>followable V cs\<close> False by (simp add: followable_def)
    have "displays V (cs @ [c]) (screen_apply V l c) \<and> \<not> closed (screen_apply V l c)"
      if "emuCols (drawn cs) = a" "emuRows (drawn cs) = b" for a b
      using l assms(2) \<open>followable V cs\<close> False pipe that
      by (auto simp: displays_def followable_snoc screen_apply_def ensure_def good_geometry_def drawn_snoc draw_def feed_append
          Let_def not_less)
    then show ?thesis by blast
  qed
qed

lemma displays_closed:
  assumes "displays V cs l" and "closed l"
  shows "screen_apply V l c = l" and "freeze l = l" and "displays V cs (finalize V l)" and "closed (finalize V l)"
proof -
  show "screen_apply V l c = l" using assms(2) by (simp add: screen_apply_def ensure_def)
  show "freeze l = l" using assms(2) by (simp add: freeze_def)
  show "closed (finalize V l)" using assms(2) by (simp add: finalize_def)
  show "displays V cs (finalize V l)" using assms by (auto simp: displays_def finalize_def)
qed

lemma screen_run_displays:
  "displays V (shown ops) (screen_run V ops) \<and> (closed (screen_run V ops) \<longleftrightarrow> ScFreeze \<in> set ops)"
proof (induction ops rule: rev_induct)
  case Nil
  show ?case using displays_new by (simp add: screen_run_def newLiveScreen_def)
next
  case (snoc x ops)
  define l where "l = screen_run V ops"
  have run: "screen_run V (ops @ [x]) = screen_step V l x" by (simp add: screen_run_def l_def)
  have l: "displays V (shown ops) l" "closed l \<longleftrightarrow> ScFreeze \<in> set ops" using snoc unfolding l_def by blast+
  show ?case
  proof (cases "closed l")
    case True
    with displays_closed [OF l(1)] l show ?thesis unfolding run by (cases x) (simp_all add: shown_snoc)
  next
    case False
    with displays_apply [OF l(1)] l show ?thesis
      unfolding run by (cases x) (auto simp: shown_snoc freeze_def displays_def)
  qed
qed

section \<open>Properties\<close>

text \<open>
  C18. A checkpoint is never stale. Whatever output a screen was given, whether or not it was frozen and finalized, a
  checkpoint for a sequence number is nil unless the output before the freeze was numbered from 1 without a hole, every
  chunk of it had a supported size and the sequence number is that of the last one. Then it is the redraw of an
  emulator that was given exactly these chunks, each at its size, followed by the unfinished input of their bytes; and
  it is nil only when there is no such redraw or it exceeds 64 KiB.
\<close>

theorem checkpoint_current:
  "(let cs = shown ops; n = of_nat (length cs) :: u64
    in concat (emu_writes (emuCalls (drawn cs))) = concat (map Payload cs) \<and>
       fst (checkpoint V (Some (screen_run V ops)) s) =
         (if cs \<noteq> [] \<and> vtPipe V \<and> list_all good_geometry cs \<and> map Seq cs = map (\<lambda>i. of_nat i + 1) [0..<length cs] \<and> s = n \<and> s \<noteq> 0
          then case (vtBody V (drawn cs), prefix (feed newPendingInput (concat (map Payload cs)))) of
                 (Some body, pre, True) \<Rightarrow> if length (body @ pre) \<le> 65536 then body @ pre else []
               | _ \<Rightarrow> []
          else []))"
proof -
  define l where "l = screen_run V ops"
  define cs where "cs = shown ops"
  have l: "displays V cs l" using screen_run_displays unfolding l_def cs_def by blast
  have fin: "frozen (finalize V l) = (if cs = [] then [] else render V (drawn cs) (pending l))" if "closed l" "followable V cs"
    using displays_closed(3) [OF l that(1)] that(2) by (auto simp: displays_def finalize_def split: if_splits)
  have cp: "fst (checkpoint V (Some l) s) =
      (if cs \<noteq> [] \<and> followable V cs \<and> s = of_nat (length cs) \<and> s \<noteq> 0
       then (let d = render V (drawn cs) (feed newPendingInput (concat (map Payload cs))) in if length d \<le> 65536 then d else []) else [])"
    (is "_ = (if ?A then ?d else [])")
  proof (cases "followable V cs")
    case True
    show ?thesis
    proof (cases "closed l")
      case c: True
      with True l fin show ?thesis by (auto simp: checkpoint_def displays_def maxTerminalCheckpointBytes_def Let_def)
    next
      case c: False
      with l have "\<not> finalized l" by (auto simp: displays_def)
      with c True l show ?thesis by (auto simp: checkpoint_def displays_def maxTerminalCheckpointBytes_def Let_def)
    qed
  qed (use l in \<open>simp add: checkpoint_def displays_def\<close>)
  have "(let d = render V (drawn cs) p in if length d \<le> 65536 then d else []) =
      (case (vtBody V (drawn cs), prefix p) of
         (Some body, pre, True) \<Rightarrow> if length (body @ pre) \<le> 65536 then body @ pre else []
       | _ \<Rightarrow> [])" for p
    by (simp add: render_def Let_def split: option.split prod.split bool.split)
  moreover have "?A \<longleftrightarrow> cs \<noteq> [] \<and> vtPipe V \<and> list_all good_geometry cs \<and> map Seq cs = map (\<lambda>i. of_nat i + 1) [0..<length cs] \<and>
      s = of_nat (length cs) \<and> s \<noteq> 0" by (auto simp: followable_def)
  ultimately show ?thesis
    using cp drawn_writes [of cs] unfolding l_def [symmetric] cs_def [symmetric] Let_def by simp
qed

end
