(* ===== verification/Go_Std.thy ===== *)
theory Go_Std
  imports Bridge_Prelude
begin

text \<open>
  The parts of Go's standard library the sources call: UTF-8 decoding (\<open>unicode/utf8\<close>),
  string helpers (\<open>strings\<close>), zero-padded hexadecimal (\<open>fmt\<close>) and lexical paths
  (\<open>path/filepath\<close> on Unix). A Go string is a list of bytes, here a list of \<open>char\<close>.
\<close>

section \<open>Strings and bytes\<close>

definition to_bytes :: "string \<Rightarrow> bytes" where
  "to_bytes s = map (\<lambda>c. of_nat (of_char c)) s"

definition of_bytes :: "bytes \<Rightarrow> string" where
  "of_bytes bs = map (\<lambda>b. char_of (unat b)) bs"

lemma of_to_bytes [simp]: "of_bytes (to_bytes s) = s"
  by (induction s) (simp_all add: to_bytes_def of_bytes_def unat_of_nat)

definition has_prefix :: "string \<Rightarrow> string \<Rightarrow> bool" where
  "has_prefix s p \<longleftrightarrow> take (length p) s = p"

definition trim_prefix :: "string \<Rightarrow> string \<Rightarrow> string" where
  "trim_prefix s p = (if has_prefix s p then drop (length p) s else s)"

definition trim_suffix :: "string \<Rightarrow> string \<Rightarrow> string" where
  "trim_suffix s p = (if has_prefix (rev s) (rev p) then take (length s - length p) s else s)"

definition trim_right :: "string \<Rightarrow> string \<Rightarrow> string" where
  "trim_right s cutset = rev (dropWhile (\<lambda>c. c \<in> set cutset) (rev s))"

lemma has_prefix_append: "has_prefix s p \<longleftrightarrow> (\<exists>r. s = p @ r)"
  by (auto simp: has_prefix_def) (metis append_take_drop_id)

section \<open>UTF-8\<close>

text \<open>
  \<open>DecodeRuneInString\<close>: the code point, the number of bytes it takes, and whether the
  encoding is valid. An invalid first byte is the replacement character U+FFFD of width 1.
\<close>

abbreviation rune_error :: nat where "rune_error \<equiv> 65533"

definition cont_byte :: "nat \<Rightarrow> nat \<Rightarrow> nat \<Rightarrow> bool" where
  "cont_byte lo hi b \<longleftrightarrow> lo \<le> b \<and> b \<le> hi"

definition second_lo :: "nat \<Rightarrow> nat" where
  "second_lo b0 = (if b0 = 224 then 160 else if b0 = 240 then 144 else 128)"

definition second_hi :: "nat \<Rightarrow> nat" where
  "second_hi b0 = (if b0 = 237 then 159 else if b0 = 244 then 143 else 191)"

definition decode_rune :: "nat list \<Rightarrow> nat \<times> nat \<times> bool" where
  "decode_rune s =
     (case s of
        [] \<Rightarrow> (rune_error, 0, False)
      | b0 # s1 \<Rightarrow>
          if b0 < 128 then (b0, 1, True)
          else case s1 of
                 [] \<Rightarrow> (rune_error, 1, False)
               | b1 # s2 \<Rightarrow>
                   if \<not> (194 \<le> b0 \<and> b0 \<le> 244) \<or> \<not> cont_byte (second_lo b0) (second_hi b0) b1 then (rune_error, 1, False)
                   else if b0 \<le> 223 then ((b0 - 192) * 64 + (b1 - 128), 2, True)
                   else case s2 of
                          [] \<Rightarrow> (rune_error, 1, False)
                        | b2 # s3 \<Rightarrow>
                            if \<not> cont_byte 128 191 b2 then (rune_error, 1, False)
                            else if b0 \<le> 239
                            then ((b0 - 224) * 4096 + (b1 - 128) * 64 + (b2 - 128), 3, True)
                            else case s3 of
                                   [] \<Rightarrow> (rune_error, 1, False)
                                 | b3 # _ \<Rightarrow>
                                     if \<not> cont_byte 128 191 b3 then (rune_error, 1, False)
                                     else ((b0 - 240) * 262144 + (b1 - 128) * 4096 +
                                             (b2 - 128) * 64 + (b3 - 128), 4, True))"

definition codes :: "string \<Rightarrow> nat list" where
  "codes s = map of_char s"

text \<open>\<open>for _, r := range s\<close>: the runes of a string, invalid bytes as U+FFFD.\<close>

fun runes :: "nat list \<Rightarrow> nat list" where
  "runes [] = []"
| "runes (b # bs) = fst (decode_rune (b # bs)) # runes (drop (fst (snd (decode_rune (b # bs))) - 1) bs)"

fun valid_utf8 :: "nat list \<Rightarrow> bool" where
  "valid_utf8 [] = True"
| "valid_utf8 (b # bs) \<longleftrightarrow> snd (snd (decode_rune (b # bs))) \<and>
     valid_utf8 (drop (fst (snd (decode_rune (b # bs))) - 1) bs)"

definition ValidString :: "string \<Rightarrow> bool" where
  "ValidString s = valid_utf8 (codes s)"

text \<open>\<open>unicode.IsSpace\<close>, and \<open>strings.TrimSpace(s) == ""\<close>.\<close>

definition is_space :: "nat \<Rightarrow> bool" where
  "is_space r \<longleftrightarrow> (9 \<le> r \<and> r \<le> 13) \<or> r \<in> {32, 133, 160, 5760, 8232, 8233, 8239, 8287, 12288} \<or>
     (8192 \<le> r \<and> r \<le> 8202)"

definition blank :: "string \<Rightarrow> bool" where
  "blank s \<longleftrightarrow> list_all is_space (runes (codes s))"

text \<open>A control byte of a string is one of its runes, whatever surrounds it.\<close>

lemma decode_rune_ascii: "b < 128 \<Longrightarrow> decode_rune (b # bs) = (b, 1, True)"
  by (simp add: decode_rune_def)

lemma second_lo_ge: "second_lo b \<le> x \<Longrightarrow> 128 \<le> x"
  by (simp add: second_lo_def split: if_splits)

lemma decode_rune_width:
  "\<not> b < 128 \<Longrightarrow> \<forall>x \<in> set (take (fst (snd (decode_rune (b # bs))) - 1) bs). 128 \<le> x"
  by (auto simp: decode_rune_def cont_byte_def dest: second_lo_ge split: list.splits)

lemma runes_ascii: "x \<in> set bs \<Longrightarrow> x < 128 \<Longrightarrow> x \<in> set (runes bs)"
proof (induction bs rule: runes.induct)
  case (2 b bs)
  show ?case
  proof (cases "b < 128")
    case True
    with 2 show ?thesis by (auto simp: decode_rune_ascii)
  next
    case False
    let ?n = "fst (snd (decode_rune (b # bs))) - 1"
    have "x \<in> set bs" and "x \<notin> set (take ?n bs)"
      using decode_rune_width [OF False, of bs] False 2(2,3) by auto
    then have "x \<in> set (drop ?n bs)" by (metis Un_iff append_take_drop_id set_append)
    with 2 show ?thesis by simp
  qed
qed simp

section \<open>Lexical paths\<close>

fun split_on :: "'a \<Rightarrow> 'a list \<Rightarrow> 'a list list" where
  "split_on x [] = [[]]"
| "split_on x (c # cs) =
     (if c = x then [] # split_on x cs
      else case split_on x cs of [] \<Rightarrow> [[c]] | w # ws \<Rightarrow> (c # w) # ws)"

fun join_slash :: "string list \<Rightarrow> string" where
  "join_slash [] = []"
| "join_slash [w] = w"
| "join_slash (w # ws) = w @ ''/'' @ join_slash ws"

text \<open>The elements that survive \<open>filepath.Clean\<close>; \<open>out\<close> is reversed.\<close>

fun clean_elems :: "bool \<Rightarrow> string list \<Rightarrow> string list \<Rightarrow> string list" where
  "clean_elems rooted out [] = rev out"
| "clean_elems rooted out (w # ws) =
     (if w = [] \<or> w = ''.'' then clean_elems rooted out ws
      else if w = ''..'' then
        (case out of
           [] \<Rightarrow> clean_elems rooted (if rooted then [] else [''..'']) ws
         | o1 # os \<Rightarrow> if o1 = ''..'' then clean_elems rooted (''..'' # out) ws
                     else clean_elems rooted os ws)
      else clean_elems rooted (w # out) ws)"

definition is_abs :: "string \<Rightarrow> bool" where
  "is_abs p = has_prefix p ''/''"

definition path_clean :: "string \<Rightarrow> string" where
  "path_clean p =
     (let es = clean_elems (is_abs p) [] (split_on CHR ''/'' p);
          q = (if is_abs p then ''/'' else '''') @ join_slash es
      in if q = [] then ''.'' else q)"

text \<open>\<open>filepath.Abs\<close>; the working directory is \<open>None\<close> when \<open>os.Getwd\<close> fails.\<close>

definition path_abs :: "string option \<Rightarrow> string \<Rightarrow> string option" where
  "path_abs cwd p =
     (if is_abs p then Some (path_clean p)
      else map_option (\<lambda>wd. path_clean (if p = [] then wd else wd @ ''/'' @ p)) cwd)"

section \<open>Shell patterns: \<open>filepath.Match\<close>\<close>

text \<open>\<open>scanChunk\<close>: the text up to the next star outside a bracket.\<close>

fun scan_body :: "bool \<Rightarrow> string \<Rightarrow> string \<times> string" where
  "scan_body inrange [] = ([], [])"
| "scan_body inrange [c] = (if c = CHR ''*'' \<and> \<not> inrange then ([], [c]) else ([c], []))"
| "scan_body inrange (c # d # cs) =
     (if c = CHR 0x5C then apfst (\<lambda>a. c # d # a) (scan_body inrange cs)
      else if c = CHR ''*'' \<and> \<not> inrange then ([], c # d # cs)
      else apfst (\<lambda>a. c # a)
             (scan_body (if c = CHR ''['' then True else if c = CHR '']'' then False else inrange)
                (d # cs)))"

lemma scan_body_length: "length (snd (scan_body r p)) \<le> length p"
  by (induction r p rule: scan_body.induct) auto

lemma scan_body_less: "p \<noteq> [] \<Longrightarrow> hd p \<noteq> CHR ''*'' \<Longrightarrow> length (snd (scan_body r p)) < length p"
proof (cases "(r, p)" rule: scan_body.cases)
  case (3 inrange c d cs)
  assume "hd p \<noteq> CHR ''*''"
  with 3 show ?thesis
    using scan_body_length [of r cs] scan_body_length [of r "d # cs"]
      scan_body_length [of True "d # cs"] scan_body_length [of False "d # cs"]
    by auto
qed auto

function scan_chunks :: "string \<Rightarrow> (bool \<times> string) list" where
  "scan_chunks p =
     (if p = [] then []
      else (hd p = CHR ''*'', fst (scan_body False (dropWhile (\<lambda>c. c = CHR ''*'') p))) #
             scan_chunks (snd (scan_body False (dropWhile (\<lambda>c. c = CHR ''*'') p))))"
  by pat_completeness auto
termination
proof (relation "measure length", goal_cases)
  case (2 p)
  show ?case
  proof (cases "hd p = CHR ''*''")
    case True
    with 2 have "length (dropWhile (\<lambda>c. c = CHR ''*'') p) < length p"
      by (cases p) (auto simp: less_Suc_eq_le length_dropWhile_le)
    with scan_body_length [of False "dropWhile (\<lambda>c. c = CHR ''*'') p"] show ?thesis by simp
  next
    case False
    with 2 have "dropWhile (\<lambda>c. c = CHR ''*'') p = p" by (cases p) auto
    with 2 False show ?thesis by (simp add: scan_body_less)
  qed
qed simp

declare scan_chunks.simps [simp del]

text \<open>\<open>getEsc\<close>: one possibly escaped character of a bracket; \<open>None\<close> is \<open>ErrBadPattern\<close>.\<close>

definition get_esc :: "string \<Rightarrow> (nat \<times> string) option" where
  "get_esc p =
     (case p of
        [] \<Rightarrow> None
      | c # cs \<Rightarrow>
          if c = CHR ''-'' \<or> c = CHR '']'' then None
          else
            let q = (if c = CHR 0x5C then cs else p)
            in if q = [] then None
               else let (r, n, _) = decode_rune (codes q); rest = drop n q
                    in if (r = rune_error \<and> n = 1) \<or> rest = [] then None else Some (r, rest))"

lemma decode_rune_pos: "s \<noteq> [] \<Longrightarrow> 0 < fst (snd (decode_rune s))"
  by (auto simp: decode_rune_def Let_def split: list.splits)

lemma get_esc_shorter: "get_esc p = Some (r, q) \<Longrightarrow> length q < length p"
  using decode_rune_pos [of "codes p"] decode_rune_pos [of "codes (tl p)"]
  by (auto simp: get_esc_def Let_def codes_def split: list.splits if_splits prod.splits)

text \<open>The ranges of a bracket: whether \<open>r\<close> is in one of them, and the pattern after it.\<close>

function class_loop :: "nat \<Rightarrow> string \<Rightarrow> bool \<Rightarrow> bool \<Rightarrow> (bool \<times> string) option" where
  "class_loop r p some mtch =
     (if some \<and> p \<noteq> [] \<and> hd p = CHR '']'' then Some (mtch, tl p)
      else case get_esc p of
             None \<Rightarrow> None
           | Some (lo, p1) \<Rightarrow>
               if hd p1 = CHR ''-'' then
                 (case get_esc (tl p1) of
                    None \<Rightarrow> None
                  | Some (hi, p2) \<Rightarrow> class_loop r p2 True (mtch \<or> (lo \<le> r \<and> r \<le> hi)))
               else class_loop r p1 True (mtch \<or> (lo \<le> r \<and> r \<le> lo)))"
  by pat_completeness auto
termination
  by (relation "measure (\<lambda>(r, p, s, m). length p)")
     (auto dest!: get_esc_shorter)

declare class_loop.simps [simp del]


text \<open>
  \<open>matchChunk\<close>: a chunk has no star. \<open>None\<close> is \<open>ErrBadPattern\<close>, \<open>Some None\<close> no
  match, \<open>Some (Some rest)\<close> a match with the rest of the name. After a mismatch the name is no
  longer read (\<open>None\<close> as the name) but the chunk is still checked.
\<close>

lemma class_loop_shorter: "class_loop r p s m = Some (mt, q) \<Longrightarrow> length q < length p"
proof (induction r p s m rule: class_loop.induct)
  case (1 r p s m)
  show ?case
  proof (cases "s \<and> p \<noteq> [] \<and> hd p = CHR '']''")
    case True
    with 1(3) show ?thesis by (cases p) (auto simp: class_loop.simps)
  next
    case False
    with 1(3) obtain lo p1 where g: "get_esc p = Some (lo, p1)"
      by (auto simp: class_loop.simps [of r p s m] split: option.splits)
    note lt = get_esc_shorter [OF g]
    show ?thesis
    proof (cases "hd p1 = CHR ''-''")
      case True
      with 1(3) False g obtain hi p2 where g2: "get_esc (tl p1) = Some (hi, p2)"
        and rec: "class_loop r p2 True (m \<or> (lo \<le> r \<and> r \<le> hi)) = Some (mt, q)"
        by (auto simp: class_loop.simps [of r p s m] split: option.splits)
      from 1(1) [OF False g refl True g2 refl rec] get_esc_shorter [OF g2] lt show ?thesis by simp
    next
      case False2: False
      with 1(3) False g have rec: "class_loop r p1 True (m \<or> (lo \<le> r \<and> r \<le> lo)) = Some (mt, q)"
        by (auto simp: class_loop.simps [of r p s m])
      from 1(2) [OF False g refl False2 rec] lt show ?thesis by simp
    qed
  qed
qed

function match_chunk :: "string \<Rightarrow> string option \<Rightarrow> string option option" where
  "match_chunk chunk name =
     (case chunk of
        [] \<Rightarrow> Some name
      | c # cs \<Rightarrow>
          let nm = (case name of Some [] \<Rightarrow> None | _ \<Rightarrow> name)
          in if c = CHR ''['' then
               let (r, w, _) = decode_rune (codes (case nm of None \<Rightarrow> [] | Some s \<Rightarrow> s));
                   neg = (cs \<noteq> [] \<and> hd cs = CHR 0x5E);
                   cs' = (if neg then tl cs else cs)
               in (case class_loop (if nm = None then 0 else r) cs' False False of
                     None \<Rightarrow> None
                   | Some (mt, rest) \<Rightarrow>
                       match_chunk rest (if mt = neg then None else map_option (drop w) nm))
             else if c = CHR ''?'' then
               match_chunk cs
                 (case nm of
                    None \<Rightarrow> None
                  | Some s \<Rightarrow> if hd s = CHR ''/'' then None
                              else Some (drop (fst (snd (decode_rune (codes s)))) s))
             else if c = CHR 0x5C then
               (case cs of
                  [] \<Rightarrow> None
                | d # ds \<Rightarrow>
                    match_chunk ds
                      (case nm of None \<Rightarrow> None | Some s \<Rightarrow> if hd s = d then Some (tl s) else None))
             else
               match_chunk cs
                 (case nm of None \<Rightarrow> None | Some s \<Rightarrow> if hd s = c then Some (tl s) else None))"
  by pat_completeness auto
termination
  by (relation "measure (\<lambda>(p, n). length p)")
     (auto dest!: class_loop_shorter split: if_splits simp: neq_Nil_conv less_Suc_eq_le)

declare match_chunk.simps [simp del]

text \<open>The star of a chunk may skip bytes that are not separators.\<close>

fun star_skip :: "string \<Rightarrow> bool \<Rightarrow> string \<Rightarrow> string option option" where
  "star_skip chunk lst [] = Some None"
| "star_skip chunk lst (n # ns) =
     (if n = CHR ''/'' then Some None
      else case match_chunk chunk (Some ns) of
             None \<Rightarrow> None
           | Some None \<Rightarrow> star_skip chunk lst ns
           | Some (Some t) \<Rightarrow> if lst \<and> t \<noteq> [] then star_skip chunk lst ns else Some (Some t))"

text \<open>The remaining chunks are still checked for syntax before a mismatch is reported.\<close>

definition well_formed :: "(bool \<times> string) list \<Rightarrow> bool" where
  "well_formed cs = list_all (\<lambda>(_, c). match_chunk c (Some []) \<noteq> None) cs"

fun match_chunks :: "(bool \<times> string) list \<Rightarrow> string \<Rightarrow> bool option" where
  "match_chunks [] name = Some (name = [])"
| "match_chunks ((star, chunk) # cs) name =
     (if star \<and> chunk = [] then Some (CHR ''/'' \<notin> set name)
      else
        let miss = (if well_formed cs then Some False else None);
            retry = (if \<not> star then miss
                     else case star_skip chunk (cs = []) name of
                            None \<Rightarrow> None
                          | Some None \<Rightarrow> miss
                          | Some (Some t) \<Rightarrow> match_chunks cs t)
        in case match_chunk chunk (Some name) of
             None \<Rightarrow> None
           | Some None \<Rightarrow> retry
           | Some (Some t) \<Rightarrow> if t = [] \<or> cs \<noteq> [] then match_chunks cs t else retry)"

text \<open>\<open>filepath.Match\<close>; \<open>None\<close> is \<open>ErrBadPattern\<close>.\<close>

definition path_match :: "string \<Rightarrow> string \<Rightarrow> bool option" where
  "path_match pattern name = match_chunks (scan_chunks pattern) name"

end
