(* ===== verification/Session_Types.thy ===== *)
theory Session_Types
  imports Byte_Buffer Go_Std
begin

text \<open>
  The data of \<open>internal/bridge\<close>: the error sentinels (\<open>errors.go\<close>, \<open>respond.go\<close>), the
  provider interface and session metadata (\<open>provider.go\<close>) and the interaction state of a
  session with its change test (\<open>interaction.go\<close>). An \<open>error\<close> result is an option,
  \<open>None\<close> for \<open>nil\<close>; wrapping a sentinel with more text keeps the sentinel, which is all
  \<open>errors.Is\<close> looks at.
\<close>

section \<open>Errors\<close>

datatype bridge_error =
    ErrInvalidArgument
  | ErrSessionNotFound
  | ErrSessionAlreadyExists
  | ErrSessionNotRunning
  | ErrSessionRecoveryUnavailable
  | ErrSessionAlreadyAttached
  | ErrClientNotAttached
  | ErrClientMismatch
  | ErrProviderUnavailable
  | ErrRepoSetupFailed
  | ErrSupervisorShuttingDown
  | ErrSessionLimitReached
  | ErrInputTooLarge
  | ErrWriterConflict
  | ErrPendingRequestMismatch
  | ErrRemoteResponseUnsupported
  | ErrInvalidResponse
  | ErrOther string

section \<open>Interaction state\<close>

definition InteractionUnknown :: string where "InteractionUnknown = ''unknown''"
definition InteractionWorking :: string where "InteractionWorking = ''working''"
definition InteractionWaitingForInput :: string where
  "InteractionWaitingForInput = ''waiting_for_input''"
definition InteractionWaitingForApproval :: string where
  "InteractionWaitingForApproval = ''waiting_for_approval''"
definition InteractionIdle :: string where "InteractionIdle = ''idle''"

definition PendingRequestInput :: string where "PendingRequestInput = ''input''"
definition PendingRequestApproval :: string where "PendingRequestApproval = ''approval''"

lemmas interaction_consts = InteractionUnknown_def InteractionWorking_def
  InteractionWaitingForInput_def InteractionWaitingForApproval_def InteractionIdle_def
  PendingRequestInput_def PendingRequestApproval_def

record PendingRequest =
  PendingID :: string
  PendingType :: string
  PendingSummary :: string
  PendingKind :: string

record InteractionCapabilities =
  RemoteResponseSupported :: bool
  StructuredApprovalSupported :: bool
  InteractionStateSupported :: bool
  ApprovalStateSupported :: bool
  PendingSummarySupported :: bool

definition noCapabilities :: InteractionCapabilities where
  "noCapabilities = \<lparr>RemoteResponseSupported = False, StructuredApprovalSupported = False,
     InteractionStateSupported = False, ApprovalStateSupported = False,
     PendingSummarySupported = False\<rparr>"

record InteractionEvidence =
  Source :: string
  Capability :: InteractionCapabilities

record Interaction =
  IState :: string
  Revision :: u64
  UpdatedAt :: go_time
  LastActivityAt :: go_time
  Pending :: "PendingRequest option"
  Evidence :: InteractionEvidence

definition EffectiveState :: "Interaction \<Rightarrow> string" where
  "EffectiveState i = (if IState i = '''' then InteractionUnknown else IState i)"

definition samePendingIdentity :: "PendingRequest option \<Rightarrow> PendingRequest option \<Rightarrow> bool" where
  "samePendingIdentity p nxt =
     (case (p, nxt) of
        (Some a, Some b) \<Rightarrow> PendingID a = PendingID b \<and> PendingType a = PendingType b
      | _ \<Rightarrow> p = None \<and> nxt = None)"

definition interaction_changed :: "Interaction \<Rightarrow> Interaction \<Rightarrow> bool" where
  "interaction_changed i nxt =
     (if Capability (Evidence i) \<noteq> Capability (Evidence nxt) then True
      else if EffectiveState i \<noteq> EffectiveState nxt then True
      else if \<not> samePendingIdentity (Pending i) (Pending nxt) then True
      else case (Pending i, Pending nxt) of
             (Some a, Some b) \<Rightarrow> PendingSummary a \<noteq> PendingSummary b
           | _ \<Rightarrow> False)"

text \<open>The view of an interaction that a change of revision announces.\<close>

definition interaction_view ::
  "Interaction \<Rightarrow> InteractionCapabilities \<times> string \<times> (string \<times> string \<times> string) option" where
  "interaction_view i = (Capability (Evidence i), EffectiveState i,
     map_option (\<lambda>p. (PendingID p, PendingType p, PendingSummary p)) (Pending i))"

lemma interaction_changed_iff: "interaction_changed i j \<longleftrightarrow> interaction_view i \<noteq> interaction_view j"
  by (auto simp: interaction_changed_def interaction_view_def samePendingIdentity_def
      split: option.splits)

section \<open>Sessions\<close>

datatype SessionState =
    SessionStateStarting
  | SessionStateRunning
  | SessionStateAttached
  | SessionStateStopping
  | SessionStateStopped
  | SessionStateFailed
  | SessionStateOther int

record SessionInfo =
  SessionID :: string
  ProjectID :: string
  ProviderID :: string
  RepoPath :: string
  State :: SessionState
  ProcessID :: int
  CreatedAt :: go_time
  StoppedAt :: go_time
  Error :: string
  Attached :: bool
  AttachedClientID :: string
  Recovered :: bool
  ExitRecorded :: bool
  ExitCode :: int
  InfoOldestSeq :: u64
  InfoLastSeq :: u64
  InfoCols :: u32
  InfoRows :: u32
  ActiveWriterClientID :: string
  ObserverCount :: int
  InfoInteraction :: Interaction
  InfoCapabilities :: InteractionCapabilities

record SessionConfig =
  CfgProjectID :: string
  CfgSessionID :: string
  CfgRepoPath :: string
  Options :: "(string, string) gomap"
  Env :: "string list option"
  Fallbacks :: "string list"
  InitialCols :: u32
  InitialRows :: u32

definition zeroInteraction :: Interaction where
  "zeroInteraction = \<lparr>IState = '''', Revision = 0, UpdatedAt = 0, LastActivityAt = 0,
     Pending = None, Evidence = \<lparr>Source = '''', Capability = noCapabilities\<rparr>\<rparr>"

definition zeroInfo :: SessionInfo where
  "zeroInfo = \<lparr>SessionID = '''', ProjectID = '''', ProviderID = '''', RepoPath = '''',
     State = SessionStateOther 0, ProcessID = 0, CreatedAt = 0, StoppedAt = 0, Error = '''',
     Attached = False, AttachedClientID = '''', Recovered = False, ExitRecorded = False,
     ExitCode = 0, InfoOldestSeq = 0, InfoLastSeq = 0, InfoCols = 0, InfoRows = 0,
     ActiveWriterClientID = '''', ObserverCount = 0, InfoInteraction = zeroInteraction,
     InfoCapabilities = noCapabilities\<rparr>"

abbreviation terminal_state :: "SessionState \<Rightarrow> bool" where
  "terminal_state st \<equiv> st = SessionStateStopped \<or> st = SessionStateFailed"

section \<open>Activity windows\<close>

record Activity =
  ActSequence :: u64
  ActAt :: go_time
  ActKind :: string
  ActSummary :: string

record ActivityWindow =
  Events :: "Activity list"
  NextSequence :: u64
  Gap :: bool
  InstructionSupported :: bool

section \<open>Providers\<close>

text \<open>
  A provider is an interface value: the identifier, what its methods return, and for each
  optional interface (\<open>EnvHealthProvider\<close>, \<open>InteractionCapableProvider\<close>,
  \<open>ActivityProvider\<close>, \<open>InstructionProvider\<close>, \<open>PendingInputResponder\<close>,
  \<open>PendingApprovalResponder\<close>) the method, or \<open>None\<close> when the type assertion fails.
\<close>

record Provider =
  pvID :: string
  pvStopGrace :: duration
  pvBuildCommand :: "SessionConfig \<Rightarrow> bridge_error option"
  pvHealth :: "string option"
  pvVersion :: string
  pvHealthWithEnv :: "(string list \<Rightarrow> string option) option"
  pvStreamJSON :: bool
  pvStripANSI :: bool
  pvCapabilities :: "InteractionCapabilities option"
  pvObserveActivity :: "(string \<Rightarrow> u64 \<Rightarrow> int \<Rightarrow> int \<Rightarrow> bridge_error + ActivityWindow) option"
  pvSendInstruction :: "(string \<Rightarrow> string \<Rightarrow> bridge_error option) option"
  pvRespondToInput :: "(string \<Rightarrow> string \<Rightarrow> string \<Rightarrow> bridge_error option) option"
  pvDecideApproval :: "(string \<Rightarrow> string \<Rightarrow> string \<Rightarrow> bridge_error option) option"

definition interactionCapabilitiesFor :: "Provider \<Rightarrow> InteractionCapabilities" where
  "interactionCapabilitiesFor p =
     (case pvCapabilities p of Some c \<Rightarrow> c | None \<Rightarrow> noCapabilities)"

text \<open>A provider with no optional interface, as the tests use.\<close>

definition plainProvider :: "string \<Rightarrow> Provider" where
  "plainProvider i = \<lparr>pvID = i, pvStopGrace = 500 * millisecond, pvBuildCommand = (\<lambda>_. None),
     pvHealth = None, pvVersion = '''', pvHealthWithEnv = None, pvStreamJSON = False,
     pvStripANSI = False, pvCapabilities = None, pvObserveActivity = None,
     pvSendInstruction = None, pvRespondToInput = None, pvDecideApproval = None\<rparr>"

end
