(* ===== verification/Policy.thy ===== *)
theory Policy
  imports Session_Types
begin

text \<open>
  \<open>internal/bridge/policy.go\<close>: session limits, input size and the allowlist of repository
  paths. The working directory that \<open>filepath.Abs\<close> reads is an argument.
\<close>

record Policy =
  MaxPerProject :: int
  MaxGlobal :: int
  MaxInputBytes :: int
  AllowedPaths :: "string list"

definition DefaultPolicy :: Policy where
  "DefaultPolicy = \<lparr>MaxPerProject = 5, MaxGlobal = 20, MaxInputBytes = 65536, AllowedPaths = []\<rparr>"

text \<open>One round of the pattern loop: whether this pattern lets the absolute path through.\<close>

definition pattern_allows :: "string \<Rightarrow> string \<Rightarrow> bool" where
  "pattern_allows apath pattern =
     (case path_match pattern apath of
        None \<Rightarrow> False
      | Some matched \<Rightarrow>
          if matched then True
          else let patternDir = trim_suffix (trim_right pattern ''*?'') ''/''
               in patternDir \<noteq> '''' \<and> (apath = patternDir \<or> has_prefix apath (patternDir @ ''/'')))"

definition ValidateRepoPath :: "string option \<Rightarrow> Policy \<Rightarrow> string \<Rightarrow> bridge_error option" where
  "ValidateRepoPath cwd p repoPath =
     (if AllowedPaths p = [] then None
      else case path_abs cwd repoPath of
             None \<Rightarrow> Some ErrInvalidArgument
           | Some apath \<Rightarrow>
               if list_ex (pattern_allows apath) (AllowedPaths p) then None
               else Some ErrInvalidArgument)"

definition ValidateInput :: "Policy \<Rightarrow> string \<Rightarrow> bridge_error option" where
  "ValidateInput p text =
     (if 0 < MaxInputBytes p \<and> MaxInputBytes p < int (length text) then Some ErrInputTooLarge
      else None)"

definition ValidateInputBytes :: "Policy \<Rightarrow> bytes \<Rightarrow> bridge_error option" where
  "ValidateInputBytes p data =
     (if 0 < MaxInputBytes p \<and> MaxInputBytes p < int (length data) then Some ErrInputTooLarge
      else None)"

definition CheckSessionLimits :: "Policy \<Rightarrow> int \<Rightarrow> int \<Rightarrow> bridge_error option" where
  "CheckSessionLimits p projectCount globalCount =
     (if 0 < MaxPerProject p \<and> MaxPerProject p \<le> projectCount then Some ErrSessionLimitReached
      else if 0 < MaxGlobal p \<and> MaxGlobal p \<le> globalCount then Some ErrSessionLimitReached
      else None)"

section \<open>Clean absolute paths\<close>

text \<open>Path elements of a cleaned absolute path: never empty, \<open>.\<close>, \<open>..\<close> or with a slash.\<close>

definition plain_elem :: "string \<Rightarrow> bool" where
  "plain_elem w \<longleftrightarrow> w \<noteq> [] \<and> w \<noteq> ''.'' \<and> w \<noteq> ''..'' \<and> CHR ''/'' \<notin> set w"

lemma split_on_no_sep: "w \<in> set (split_on x cs) \<Longrightarrow> x \<notin> set w"
  by (induction cs arbitrary: w) (auto split: list.splits if_splits)

lemma split_on_nonempty [simp]: "split_on x cs \<noteq> []"
  by (cases cs) (auto split: list.splits)

lemma clean_elems_plain:
  assumes "\<forall>w \<in> set ws. CHR ''/'' \<notin> set w" and "\<forall>w \<in> set out. plain_elem w"
  shows "\<forall>w \<in> set (clean_elems True out ws). plain_elem w"
  using assms
proof (induction ws arbitrary: out)
  case (Cons w ws)
  consider (skip) "w = [] \<or> w = ''.''" | (up) "w = ''..''" | (plain) "plain_elem w" "w \<noteq> ''..''"
    using Cons.prems(1) by (auto simp: plain_elem_def)
  then show ?case
  proof cases
    case skip
    then have eq: "clean_elems True out (w # ws) = clean_elems True out ws" by auto
    show ?thesis unfolding eq using Cons.prems by (intro Cons.IH) auto
  next
    case up
    show ?thesis
    proof (cases out)
      case Nil
      then have eq: "clean_elems True out (w # ws) = clean_elems True [] ws" using up by simp
      show ?thesis unfolding eq using Cons.prems by (intro Cons.IH) auto
    next
      case out: (Cons o1 os)
      then have "o1 \<noteq> ''..''" using Cons.prems(2) by (auto simp: plain_elem_def)
      then have eq: "clean_elems True out (w # ws) = clean_elems True os ws" using up out by simp
      show ?thesis unfolding eq using Cons.prems out by (intro Cons.IH) auto
    qed
  next
    case plain
    then have eq: "clean_elems True out (w # ws) = clean_elems True (w # out) ws"
      by (auto simp: plain_elem_def)
    show ?thesis unfolding eq using Cons.prems plain by (intro Cons.IH) auto
  qed
qed simp

lemma split_on_append: "x \<notin> set w \<Longrightarrow> split_on x (w @ x # cs) = w # split_on x cs"
  by (induction w) auto

lemma split_on_single: "x \<notin> set w \<Longrightarrow> split_on x w = [w]"
  by (induction w) auto

lemma split_join_slash:
  "es \<noteq> [] \<Longrightarrow> \<forall>w \<in> set es. CHR ''/'' \<notin> set w \<Longrightarrow> split_on CHR ''/'' (join_slash es) = es"
  by (induction es rule: join_slash.induct) (auto simp: split_on_append split_on_single)

lemma path_clean_elems:
  assumes "is_abs p"
  shows "\<forall>w \<in> set (tl (split_on CHR ''/'' (path_clean p))). w = [] \<or> plain_elem w"
proof -
  define es where "es = clean_elems True [] (split_on CHR ''/'' p)"
  have es: "\<forall>w \<in> set es. plain_elem w"
    unfolding es_def by (rule clean_elems_plain) (auto dest: split_on_no_sep)
  have "path_clean p = CHR ''/'' # join_slash es"
    using assms by (simp add: path_clean_def es_def Let_def)
  moreover have "split_on CHR ''/'' (join_slash es) = (if es = [] then [[]] else es)"
    using es by (auto simp: split_join_slash plain_elem_def)
  ultimately show ?thesis using es by auto
qed

lemma is_abs_append: "is_abs wd \<Longrightarrow> is_abs (wd @ r)"
  by (auto simp: is_abs_def has_prefix_append)

lemma path_abs_elems:
  assumes "path_abs cwd p = Some a" and "\<forall>wd. cwd = Some wd \<longrightarrow> is_abs wd"
  shows "''..'' \<notin> set (split_on CHR ''/'' a)"
proof -
  from assms obtain q where q: "a = path_clean q" "is_abs q"
    by (cases "is_abs p") (auto simp: path_abs_def is_abs_append split: if_splits)
  then have "\<exists>r. a = CHR ''/'' # r" by (simp add: path_clean_def Let_def)
  then have "split_on CHR ''/'' a = [] # tl (split_on CHR ''/'' a)" by auto
  with path_clean_elems [OF q(2)] q(1) show ?thesis
    by (metis list.distinct(1) plain_elem_def set_ConsD)
qed

section \<open>Literal patterns\<close>

definition literal :: "string \<Rightarrow> bool" where
  "literal p \<longleftrightarrow> set p \<inter> {CHR ''*'', CHR ''?'', CHR ''['', CHR 0x5C} = {}"

lemma scan_body_literal: "literal p \<Longrightarrow> CHR '']'' \<notin> set p \<or> \<not> r \<Longrightarrow> scan_body r p = (p, [])"
  by (induction r p rule: scan_body.induct) (auto simp: literal_def)

lemma scan_chunks_literal: "literal p \<Longrightarrow> p \<noteq> [] \<Longrightarrow> scan_chunks p = [(False, p)]"
proof -
  assume p: "literal p" "p \<noteq> []"
  then have "hd p \<noteq> CHR ''*''" by (cases p) (auto simp: literal_def)
  with p have "dropWhile (\<lambda>c. c = CHR ''*'') p = p" by (cases p) auto
  with p \<open>hd p \<noteq> CHR ''*''\<close> show ?thesis
    by (simp add: scan_chunks.simps [of p] scan_chunks.simps [of "[]"] scan_body_literal)
qed

lemma match_chunk_literal:
  "literal c \<Longrightarrow> match_chunk c name =
     Some (case name of None \<Rightarrow> None
           | Some s \<Rightarrow> if has_prefix s c then Some (drop (length c) s) else None)"
proof (induction c arbitrary: name)
  case Nil
  then show ?case by (cases name) (auto simp: match_chunk.simps has_prefix_def)
next
  case (Cons x c)
  then have "literal c" and "x \<noteq> CHR ''['' \<and> x \<noteq> CHR ''?'' \<and> x \<noteq> CHR 0x5C"
    by (auto simp: literal_def)
  with Cons.IH show ?case
    by (cases name; cases "the name")
       (auto simp: match_chunk.simps [of "x # c"] has_prefix_def split: list.splits)
qed

lemma path_match_literal: "literal p \<Longrightarrow> p \<noteq> [] \<Longrightarrow> path_match p name = Some (name = p)"
  by (auto simp: path_match_def scan_chunks_literal match_chunk_literal well_formed_def
      has_prefix_def Let_def split: option.splits) 

lemma trim_right_literal: "literal p \<Longrightarrow> trim_right p ''*?'' = p"
  by (cases "rev p") (auto simp: trim_right_def literal_def rev_eq_Cons_iff)

lemma trim_suffix_other: "p \<noteq> [] \<Longrightarrow> last p \<noteq> CHR ''/'' \<Longrightarrow> trim_suffix p ''/'' = p"
  by (cases p rule: rev_cases) (auto simp: trim_suffix_def has_prefix_def)

lemma pattern_allows_literal:
  assumes "literal d" and "d \<noteq> []" and "last d \<noteq> CHR ''/''"
  shows "pattern_allows a d \<longleftrightarrow> a = d \<or> (\<exists>rest. a = d @ ''/'' @ rest)"
  using assms
  by (auto simp: pattern_allows_def path_match_literal trim_right_literal trim_suffix_other
      has_prefix_append Let_def)

section \<open>Properties\<close>

text \<open>
  C21. With an allowlist of plain directories, a repository path is accepted exactly when its
  absolute form is one of them or lies below one at a path-component boundary, so a sibling such
  as \<open>/home/mark-other\<close> of \<open>/home/mark\<close> is refused; and the accepted absolute path has no
  \<open>..\<close> component left with which it could leave the directory again.
\<close>

theorem ValidateRepoPath_tree:
  assumes "AllowedPaths p \<noteq> []"
    and "\<forall>d \<in> set (AllowedPaths p). literal d \<and> d \<noteq> [] \<and> last d \<noteq> CHR ''/''"
    and "\<forall>wd. cwd = Some wd \<longrightarrow> is_abs wd"
    and "path_abs cwd r = Some a"
  shows "(ValidateRepoPath cwd p r = None \<longleftrightarrow>
           (\<exists>d \<in> set (AllowedPaths p). a = d \<or> (\<exists>rest. a = d @ ''/'' @ rest))) \<and>
         ''..'' \<notin> set (split_on CHR ''/'' a)"
proof -
  have "ValidateRepoPath cwd p r = None \<longleftrightarrow> list_ex (pattern_allows a) (AllowedPaths p)"
    using assms(1,4) by (simp add: ValidateRepoPath_def)
  also have "\<dots> \<longleftrightarrow> (\<exists>d \<in> set (AllowedPaths p). a = d \<or> (\<exists>rest. a = d @ ''/'' @ rest))"
    using assms(2) by (auto simp: list_ex_iff pattern_allows_literal)
  finally show ?thesis using path_abs_elems [OF assms(4,3)] by blast
qed

theorem ValidateRepoPath_tree_witness:
  "ValidateRepoPath None (DefaultPolicy\<lparr>AllowedPaths := [''/home/mark'']\<rparr>) ''/home/mark/../mark-x'' \<noteq> None"
proof -
  have a: "path_abs None ''/home/mark/../mark-x'' = Some ''/home/mark-x''"
    by (simp add: path_abs_def path_clean_def is_abs_def has_prefix_def)
  let ?p = "DefaultPolicy\<lparr>AllowedPaths := [''/home/mark'']\<rparr>"
  have "ValidateRepoPath None ?p ''/home/mark/../mark-x'' = None \<longleftrightarrow>
          (\<exists>d \<in> set (AllowedPaths ?p). ''/home/mark-x'' = d \<or> (\<exists>rest. ''/home/mark-x'' = d @ ''/'' @ rest))"
    using ValidateRepoPath_tree [of ?p None "''/home/mark/../mark-x''" "''/home/mark-x''"] a
    by (simp add: literal_def)
  then show ?thesis by simp
qed

end
