(* ===== verification/Managed_Session.thy ===== *)
theory Managed_Session
  imports Live_Screen Session_Types Policy
begin

text \<open>
  \<open>managedSession\<close> of \<open>internal/bridge/supervisor.go\<close>: what the supervisor's operations do to
  one session while they hold \<open>ms.mu\<close>. Each critical section is one function on the session.
  What it does outside the session (writes to the store, notifications, signals, bytes written to
  the process) is returned as a list of effects in program order; \<open>Supervisor\<close> performs them.

  Observer channels are cells of \<open>chans\<close>: a queue of at most 128 chunks and a closed flag. A
  channel that is created closed and handed to a single caller is \<open>None\<close> in \<open>Live\<close>. Sending on
  or closing a closed channel is a panic in Go: the outcome \<open>Panic\<close>.
\<close>

section \<open>Data\<close>

datatype AttachRole = AttachRoleWriter | AttachRoleObserver

datatype 'a outcome = Ret 'a | Panic

fun outcome_bind :: "'a outcome \<Rightarrow> ('a \<Rightarrow> 'b outcome) \<Rightarrow> 'b outcome" where
  "outcome_bind (Ret x) f = f x"
| "outcome_bind Panic f = Panic"

lemma outcome_bind_Ret_iff: "outcome_bind x f = Ret y \<longleftrightarrow> (\<exists>z. x = Ret z \<and> f z = Ret y)"
  by (cases x) auto

record chan =
  chQueue :: "OutputChunk list"
  chClosed :: bool

record observerEntry =
  ech :: nat
  role :: AttachRole

record AttachState =
  AsClientID :: string
  AsRole :: AttachRole
  Replay :: "OutputChunk list"
  Live :: "nat option"
  ReplayGap :: bool
  AsOldestSeq :: u64
  AsLastSeq :: u64
  Checkpoint :: bytes
  AsExitRecorded :: bool
  AsExitCode :: int
  AsCols :: u32
  AsRows :: u32

text \<open>\<open>telemetry.Session\<close>, the copy of the metadata handed to the telemetry observer.\<close>

record tsession =
  tsSessionID :: string
  tsProjectID :: string
  tsProvider :: string
  tsRepoPath :: string
  tsCols :: u32
  tsRows :: u32

datatype effect =
    PersistSession SessionInfo
  | PersistChunk string OutputChunk
  | NotifyControl SessionInfo
  | TelStarted tsession
  | TelOutput tsession ChunkType bytes
  | TelInput tsession bytes
  | TelEnded tsession
  | WriteStdin string bytes
  | WritePty string bytes
  | CloseStdin string
  | KillGroup int
  | TermGroup int
  | SpawnStop string bool
  | RespondInput string string string
  | DecideApprovalTo string string string
  | InstructionTo string string

text \<open>
  \<open>cmdPid\<close> is \<open>ms.cmd.Process.Pid\<close>. \<open>readerDone\<close> is whether that channel is closed, \<open>waited\<close>
  whether \<open>waitLoop\<close> has run, and \<open>cancelled\<close> whether \<open>ms.cancel\<close> was called.
\<close>

record managedSession =
  info :: SessionInfo
  provider :: "Provider option"
  cmdPid :: int
  streamJSON :: bool
  stripANSI :: bool
  buf :: ByteBuffer
  stopGrace :: duration
  lastActivity :: go_time
  forceStop :: bool
  recovered :: bool
  readerDone :: bool
  waited :: bool
  cancelled :: bool
  observers :: "(string, observerEntry) gomap"
  liveClosed :: bool
  screen :: "liveScreen option"
  chans :: "chan list"

section \<open>Channels\<close>

definition live_capacity :: nat where "live_capacity = 128"

text \<open>A non-blocking send, and \<open>close\<close>.\<close>

definition try_send :: "chan \<Rightarrow> OutputChunk \<Rightarrow> chan outcome" where
  "try_send c chunk =
     (if chClosed c then Panic
      else if length (chQueue c) < live_capacity then Ret (c\<lparr>chQueue := chQueue c @ [chunk]\<rparr>)
      else Ret c)"

definition close_chan :: "chan \<Rightarrow> chan outcome" where
  "close_chan c = (if chClosed c then Panic else Ret (c\<lparr>chClosed := True\<rparr>))"

text \<open>The loops over \<open>ms.observers\<close>.\<close>

fun send_all :: "OutputChunk \<Rightarrow> (string, observerEntry) gomap \<Rightarrow> chan list \<Rightarrow> chan list outcome" where
  "send_all chunk [] cs = Ret cs"
| "send_all chunk ((k, e) # es) cs =
     outcome_bind (try_send (cs ! ech e) chunk) (\<lambda>c. send_all chunk es (cs[ech e := c]))"

fun close_all :: "(string, observerEntry) gomap \<Rightarrow> chan list \<Rightarrow> chan list outcome" where
  "close_all [] cs = Ret cs"
| "close_all ((k, e) # es) cs =
     outcome_bind (close_chan (cs ! ech e)) (\<lambda>c. close_all es (cs[ech e := c]))"

section \<open>Output\<close>

text \<open>
  \<open>ansiEscape.ReplaceAll(payload, nil)\<close>: remove each ESC \<open>[\<close> parameters final, and each ESC
  followed by a byte of \<open>@-Z\<close> or \<open>\-_\<close>, from left to right.
\<close>

definition csi_param :: "byte \<Rightarrow> bool" where
  "csi_param b \<longleftrightarrow> 48 \<le> b \<and> b \<le> 57 \<or> b = 59 \<or> b = 63 \<or> b = 61 \<or> b = 60 \<or> b = 62"

definition csi_final :: "byte \<Rightarrow> bool" where
  "csi_final b \<longleftrightarrow> 97 \<le> b \<and> b \<le> 122 \<or> 65 \<le> b \<and> b \<le> 90 \<or> b = 126"

definition two_char :: "byte \<Rightarrow> bool" where
  "two_char b \<longleftrightarrow> 64 \<le> b \<and> b \<le> 90 \<or> 92 \<le> b \<and> b \<le> 95"

text \<open>The length of the match that starts at the ESC before \<open>bs\<close>, without the ESC; 0 for none.\<close>

definition ansi_match :: "bytes \<Rightarrow> nat" where
  "ansi_match bs =
     (case bs of
        [] \<Rightarrow> 0
      | b # r \<Rightarrow>
          if b = 91 then
            (case dropWhile csi_param r of
               f # _ \<Rightarrow> if csi_final f then 2 + length (takeWhile csi_param r) else 0
             | [] \<Rightarrow> 0)
          else if two_char b then 1 else 0)"

function (sequential) stripEscapes :: "bytes \<Rightarrow> bytes" where
  "stripEscapes [] = []"
| "stripEscapes (b # bs) =
     (if b = 27 \<and> ansi_match bs \<noteq> 0 then stripEscapes (drop (ansi_match bs) bs)
      else b # stripEscapes bs)"
  by pat_completeness auto
termination by (relation "measure length") auto

definition telemetrySessionLocked :: "managedSession \<Rightarrow> tsession" where
  "telemetrySessionLocked ms =
     \<lparr>tsSessionID = SessionID (info ms), tsProjectID = ProjectID (info ms),
      tsProvider = ProviderID (info ms), tsRepoPath = RepoPath (info ms),
      tsCols = (if streamJSON ms then 0 else InfoCols (info ms)),
      tsRows = (if streamJSON ms then 0 else InfoRows (info ms))\<rparr>"

definition snapshotInfo :: "managedSession \<Rightarrow> SessionInfo" where
  "snapshotInfo ms = (info ms)\<lparr>InfoOldestSeq := OldestSeq (buf ms), InfoLastSeq := LastSeq (buf ms)\<rparr>"

definition appendChunkLocked ::
  "vt \<Rightarrow> go_time \<Rightarrow> managedSession \<Rightarrow> bytes \<Rightarrow> ChunkType \<Rightarrow> (managedSession \<times> effect list) outcome" where
  [session_defs]: "appendChunkLocked V now ms displayPayload ctype =
     (if liveClosed ms then Ret (ms, [])
      else
        let (chunk, b) = AppendSized now (buf ms) displayPayload ctype (InfoCols (info ms)) (InfoRows (info ms));
            scr = (if ctype = ChunkTypeOutput then map_option (\<lambda>l. screen_apply V l chunk) (screen ms)
                   else screen ms);
            ms1 = ms\<lparr>buf := b, screen := scr,
                     info := (info ms)\<lparr>InfoOldestSeq := OldestSeq b, InfoLastSeq := LastSeq b\<rparr>,
                     lastActivity := now\<rparr>
        in outcome_bind (send_all chunk (observers ms) (chans ms))
             (\<lambda>cs. Ret (ms1\<lparr>chans := cs\<rparr>, [PersistChunk (SessionID (info ms)) chunk])))"

definition appendChunk ::
  "vt \<Rightarrow> go_time \<Rightarrow> managedSession \<Rightarrow> bytes \<Rightarrow> ChunkType \<Rightarrow> (managedSession \<times> effect list) outcome" where
  [session_defs]: "appendChunk V now ms payload ctype =
     (let tel = (if ctype = ChunkTypeOutput \<or> ctype = ChunkTypeThinking
                 then [TelOutput (telemetrySessionLocked ms) ctype payload] else []);
          displayPayload = (if ctype = ChunkTypeOutput \<and> stripANSI ms then stripEscapes payload else payload)
      in outcome_bind (appendChunkLocked V now ms displayPayload ctype)
           (\<lambda>(ms1, eff). Ret (ms1, tel @ eff)))"

definition fanoutControlEvent :: "managedSession \<Rightarrow> ChunkType \<Rightarrow> bytes \<Rightarrow> managedSession outcome" where
  [session_defs]: "fanoutControlEvent ms ctype payload =
     (let chunk = \<lparr>Cols = 0, Rows = 0, Seq = 0, Timestamp = 0, Payload = payload, Type = ctype\<rparr>
      in if liveClosed ms then Ret ms
         else outcome_bind (send_all chunk (observers ms) (chans ms)) (\<lambda>cs. Ret (ms\<lparr>chans := cs\<rparr>)))"

definition closeLive :: "managedSession \<Rightarrow> managedSession outcome" where
  [session_defs]: "closeLive ms =
     outcome_bind (close_all (observers ms) (chans ms))
       (\<lambda>cs. Ret (ms\<lparr>liveClosed := True, screen := map_option freeze (screen ms), chans := cs\<rparr>))"

definition signalReaderDone :: "managedSession \<Rightarrow> managedSession outcome" where
  [session_defs]: "signalReaderDone ms =
     (if readerDone ms then Panic else Ret (ms\<lparr>readerDone := True\<rparr>))"

section \<open>Readers\<close>

datatype read_error = EOF | ReadError string

text \<open>\<open>readLoop\<close> on its way out: the deferred \<open>closeLive\<close> and \<open>signalReaderDone\<close>.\<close>

definition reader_exit :: "managedSession \<Rightarrow> effect list \<Rightarrow> (managedSession \<times> effect list \<times> bool) outcome" where
  [session_defs]: "reader_exit ms eff =
     outcome_bind (closeLive ms) (\<lambda>ms1. outcome_bind (signalReaderDone ms1) (\<lambda>ms2. Ret (ms2, eff, True)))"

text \<open>
  One round of \<open>readLoop\<close>: a \<open>Read\<close> of the terminal returned \<open>dat\<close> and \<open>err\<close>. The flag of the
  result is whether the loop has returned.
\<close>

definition readLoop ::
  "vt \<Rightarrow> go_time \<Rightarrow> managedSession \<Rightarrow> bytes \<Rightarrow> read_error option \<Rightarrow>
     (managedSession \<times> effect list \<times> bool) outcome" where
  [session_defs]: "readLoop V now ms dat err =
     outcome_bind (if dat = [] then Ret (ms, []) else appendChunk V now ms dat ChunkTypeOutput)
       (\<lambda>(ms1, eff).
          case err of
            None \<Rightarrow> Ret (ms1, eff, False)
          | Some EOF \<Rightarrow> reader_exit ms1 eff
          | Some (ReadError e) \<Rightarrow>
              let stopping = (State (info ms1) = SessionStateStopping);
                  ms2 = (if Error (info ms1) = '''' \<and> \<not> ExitRecorded (info ms1) \<and> \<not> stopping
                         then ms1\<lparr>info := (info ms1)\<lparr>Error := e\<rparr>\<rparr> else ms1)
              in reader_exit ms2 (eff @ (if stopping then [] else [SpawnStop (SessionID (info ms2)) True])))"

record claudeDelta =
  cdType :: string
  cdText :: string
  cdThinking :: string

record claudeStreamEvent =
  evType :: string
  evDelta :: "claudeDelta option"

definition trim_line :: "bytes \<Rightarrow> bytes" where
  "trim_line l =
     (let l1 = (if l \<noteq> [] \<and> last l = 10 then butlast l else l)
      in if l1 \<noteq> [] \<and> last l1 = 13 then butlast l1 else l1)"

text \<open>\<open>UpdateInteraction\<close> once the session is found and the evidence source is not empty.\<close>

definition updateInteractionLocked :: "go_time \<Rightarrow> managedSession \<Rightarrow> Interaction \<Rightarrow> managedSession \<times> effect list" where
  [session_defs]: "updateInteractionLocked now ms nxt =
     (let cur = InfoInteraction (info ms);
          n1 = nxt\<lparr>LastActivityAt := now\<rparr>;
          n2 = (if interaction_changed cur n1
                then n1\<lparr>Revision := Revision cur + 1, UpdatedAt := now\<rparr>
                else n1\<lparr>Revision := Revision cur, UpdatedAt := UpdatedAt cur,
                       Pending := (case (Pending cur, Pending n1) of
                          (Some c, Some i) \<Rightarrow>
                            if PendingKind i \<noteq> '''' \<and> PendingKind c \<noteq> PendingKind i
                            then Some (c\<lparr>PendingKind := PendingKind i\<rparr>) else Some c
                        | _ \<Rightarrow> Pending cur)\<rparr>);
          ms1 = ms\<lparr>info := (info ms)\<lparr>InfoInteraction := n2\<rparr>\<rparr>
      in (ms1, [NotifyControl (info ms1)]))"

definition observeStreamJSONInteraction :: "go_time \<Rightarrow> managedSession \<Rightarrow> string \<Rightarrow> managedSession \<times> effect list" where
  [session_defs]: "observeStreamJSONInteraction now ms eventType =
     (let caps = InfoCapabilities (info ms);
          report = (\<lambda>st. updateInteractionLocked now ms
             \<lparr>IState = st, Revision = 0, UpdatedAt = 0, LastActivityAt = 0, Pending = None,
              Evidence = \<lparr>Source = ProviderID (info ms) @ ''-stream-json'', Capability = caps\<rparr>\<rparr>)
      in if \<not> InteractionStateSupported caps then (ms, [])
         else if eventType = ''message_start'' then report InteractionWorking
         else if eventType = ''message_stop'' then report InteractionIdle
         else (ms, []))"

text \<open>The chunk a stream event carries, if any.\<close>

definition stream_delta :: "claudeStreamEvent \<Rightarrow> (bytes \<times> ChunkType) option" where
  "stream_delta ev =
     (case evDelta ev of
        None \<Rightarrow> None
      | Some d \<Rightarrow>
          if evType ev \<noteq> ''content_block_delta'' then None
          else if cdType d = ''thinking_delta'' then
            (if cdThinking d = '''' then None else Some (to_bytes (cdThinking d), ChunkTypeThinking))
          else if cdType d = ''text_delta'' then
            (if cdText d = '''' then None else Some (to_bytes (cdText d), ChunkTypeOutput))
          else None)"

text \<open>
  One round of \<open>readLoopStreamJSON\<close>: \<open>ReadBytes('\n')\<close> returned \<open>line\<close> and \<open>err\<close>. \<open>unmarshal\<close> is
  \<open>json.Unmarshal\<close> into a \<open>claudeStreamEvent\<close>, \<open>None\<close> for an error.
\<close>

definition readLoopStreamJSON ::
  "vt \<Rightarrow> (bytes \<Rightarrow> claudeStreamEvent option) \<Rightarrow> go_time \<Rightarrow> managedSession \<Rightarrow> bytes \<Rightarrow> read_error option \<Rightarrow>
     (managedSession \<times> effect list \<times> bool) outcome" where
  [session_defs]: "readLoopStreamJSON V unmarshal now ms line0 err =
     (if err = Some EOF \<and> line0 = [] then reader_exit ms []
      else
        let line = trim_line line0
        in if line = [] then (if err \<noteq> None then reader_exit ms [] else Ret (ms, [], False))
           else case unmarshal line of
                  None \<Rightarrow>
                    outcome_bind (appendChunk V now ms line ChunkTypeOutput) (\<lambda>(ms1, eff). Ret (ms1, eff, False))
                | Some ev \<Rightarrow>
                    outcome_bind
                      (case stream_delta ev of
                         None \<Rightarrow> Ret (ms, [])
                       | Some (payload, ctype) \<Rightarrow> appendChunk V now ms payload ctype)
                      (\<lambda>(ms1, eff).
                         let (ms2, eff2) = observeStreamJSONInteraction now ms1 (evType ev);
                             ms3 = (case err of
                                      Some (ReadError e) \<Rightarrow>
                                        if Error (info ms2) = '''' \<and> \<not> ExitRecorded (info ms2)
                                        then ms2\<lparr>info := (info ms2)\<lparr>Error := e\<rparr>\<rparr> else ms2
                                    | _ \<Rightarrow> ms2)
                         in if err = None then Ret (ms2, eff @ eff2, False)
                            else reader_exit ms3 (eff @ eff2)))"

section \<open>Process exit and stop\<close>

text \<open>The result of \<open>cmd.Wait\<close>: success, an \<open>ExitError\<close> with its code, or another error.\<close>

datatype wait_result = WaitOk | WaitExit int string | WaitError string

definition waitLoop :: "go_time \<Rightarrow> managedSession \<Rightarrow> wait_result \<Rightarrow> managedSession \<times> effect list" where
  [session_defs]: "waitLoop now ms res =
     (let exitCode = (case res of WaitOk \<Rightarrow> 0 | WaitExit c _ \<Rightarrow> c | WaitError _ \<Rightarrow> -1);
          stopping = (State (info ms) = SessionStateStopping);
          i1 = (info ms)\<lparr>StoppedAt := now, ExitRecorded := True, ExitCode := exitCode, ProcessID := 0\<rparr>;
          i2 = (case res of
                  WaitOk \<Rightarrow> i1\<lparr>State := SessionStateStopped\<rparr>
                | _ \<Rightarrow>
                    if \<not> forceStop ms \<and> \<not> stopping
                    then i1\<lparr>State := SessionStateFailed,
                           Error := (if Error i1 = '''' then (case res of WaitExit _ m \<Rightarrow> m | WaitError m \<Rightarrow> m | WaitOk \<Rightarrow> '''')
                                     else Error i1)\<rparr>
                    else i1\<lparr>State := SessionStateStopped\<rparr>);
          ms1 = ms\<lparr>info := i2, cancelled := True, waited := True\<rparr>
      in (ms1, [TelEnded (telemetrySessionLocked ms1), NotifyControl i2, PersistSession (snapshotInfo ms1)]))"

text \<open>\<open>process_unix.go\<close>; \<open>alive\<close> is whether signal 0 to a positive pid finds a process.\<close>

definition processAlive :: "(int \<Rightarrow> bool) \<Rightarrow> int \<Rightarrow> bool" where
  [session_defs]: "processAlive alive pid = (if pid \<le> 0 then False else alive pid)"

definition killProcessGroup :: "int \<Rightarrow> effect list" where
  [session_defs]: "killProcessGroup pid = (if 0 < pid then [KillGroup pid] else [])"

definition terminateProcessGroup :: "int \<Rightarrow> effect list" where
  [session_defs]: "terminateProcessGroup pid = (if 0 < pid then [TermGroup pid] else [])"

text \<open>
  \<open>Stop\<close> on a session that was found. The background part that follows is \<open>stopGraceExpired\<close>, or
  for a recovered process \<open>recoveredStopPoll\<close> every 100 ms and \<open>recoveredStopDeadline\<close>.
\<close>

definition stopLocked :: "managedSession \<Rightarrow> bool \<Rightarrow> managedSession \<times> effect list" where
  [session_defs]: "stopLocked ms force =
     (if terminal_state (State (info ms)) then (ms, [])
      else
        let ms1 = ms\<lparr>info := (info ms)\<lparr>State := SessionStateStopping\<rparr>, forceStop := force\<rparr>;
            pid = (if recovered ms then ProcessID (info ms) else cmdPid ms)
        in (ms1, [NotifyControl (info ms1)] @
                 (if \<not> recovered ms \<and> streamJSON ms then [CloseStdin (SessionID (info ms))] else []) @
                 (if force then killProcessGroup pid else terminateProcessGroup pid)))"

definition stopGraceExpired :: "managedSession \<Rightarrow> effect list" where
  [session_defs]: "stopGraceExpired ms =
     (if State (info ms) = SessionStateStopping \<and> 0 < cmdPid ms then killProcessGroup (cmdPid ms) else [])"

definition recovered_stopped :: "go_time \<Rightarrow> managedSession \<Rightarrow> managedSession \<times> effect list" where
  [session_defs]: "recovered_stopped now ms =
     (let ms1 = ms\<lparr>info := (info ms)\<lparr>State := SessionStateStopped, StoppedAt := now, ProcessID := 0\<rparr>\<rparr>
      in (ms1, [PersistSession (snapshotInfo ms1), NotifyControl (info ms1)]))"

definition recoveredStopPoll ::
  "(int \<Rightarrow> bool) \<Rightarrow> go_time \<Rightarrow> int \<Rightarrow> managedSession \<Rightarrow> managedSession \<times> effect list \<times> bool" where
  [session_defs]: "recoveredStopPoll alive now pid ms =
     (if processAlive alive pid then (ms, [], False)
      else let (ms1, eff) = recovered_stopped now ms in (ms1, eff, True))"

definition recoveredStopDeadline ::
  "(int \<Rightarrow> bool) \<Rightarrow> go_time \<Rightarrow> int \<Rightarrow> bool \<Rightarrow> managedSession \<Rightarrow> managedSession \<times> effect list" where
  [session_defs]: "recoveredStopDeadline alive now pid force ms =
     (let (ms1, eff) = recovered_stopped now ms
      in (ms1, (if \<not> force \<and> 0 < pid \<and> processAlive alive pid then killProcessGroup pid else []) @ eff))"

text \<open>One tick of \<open>monitorRecoveredProcess\<close>; the flag is whether the monitor returned.\<close>

definition monitorRecoveredProcess ::
  "(int \<Rightarrow> bool) \<Rightarrow> go_time \<Rightarrow> managedSession \<Rightarrow> managedSession \<times> effect list \<times> bool" where
  [session_defs]: "monitorRecoveredProcess alive now ms =
     (if terminal_state (State (info ms)) then (ms, [], True)
      else if processAlive alive (ProcessID (info ms)) then (ms, [], False)
      else let ms1 = ms\<lparr>info := (info ms)\<lparr>State := SessionStateStopped, StoppedAt := now, ProcessID := 0\<rparr>\<rparr>
           in (ms1, [PersistSession (snapshotInfo ms1)], True))"

section \<open>Clients\<close>

definition countObservers :: "managedSession \<Rightarrow> int" where
  [session_defs]: "countObservers ms = int (length (filter (\<lambda>(_, e). role e = AttachRoleObserver) (observers ms)))"

text \<open>
  \<open>WriteInput\<close> once the session is found: the bytes go to the process only after the writer check.
  What the final \<open>Write\<close> returns is the argument \<open>wr\<close>.
\<close>

definition writeInputLocked ::
  "go_time \<Rightarrow> managedSession \<Rightarrow> string \<Rightarrow> bytes \<Rightarrow> int \<times> bridge_error option \<Rightarrow>
     (int \<times> bridge_error option) \<times> managedSession \<times> effect list" where
  [session_defs]: "writeInputLocked now ms clientID dat wr =
     (if recovered ms then ((0, Some ErrSessionRecoveryUnavailable), ms, [])
      else if State (info ms) \<noteq> SessionStateRunning \<and> State (info ms) \<noteq> SessionStateAttached
        then ((0, Some ErrSessionNotRunning), ms, [])
      else if ActiveWriterClientID (info ms) = '''' then ((0, Some ErrClientNotAttached), ms, [])
      else if ActiveWriterClientID (info ms) \<noteq> clientID then ((0, Some ErrClientMismatch), ms, [])
      else (wr, ms\<lparr>lastActivity := now\<rparr>,
            [TelInput (telemetrySessionLocked ms) dat,
             if streamJSON ms then WriteStdin (SessionID (info ms)) dat else WritePty (SessionID (info ms)) dat]))"

text \<open>\<open>Resize\<close> once the session is found; \<open>setsize\<close> is the error of \<open>pty.Setsize\<close>.\<close>

definition resizeLocked ::
  "vt \<Rightarrow> go_time \<Rightarrow> managedSession \<Rightarrow> string \<Rightarrow> u32 \<Rightarrow> u32 \<Rightarrow> bridge_error option \<Rightarrow>
     (bridge_error option \<times> managedSession \<times> effect list) outcome" where
  [session_defs]: "resizeLocked V now ms clientID cols rows setsize =
     (if recovered ms then Ret (Some ErrSessionRecoveryUnavailable, ms, [])
      else if ActiveWriterClientID (info ms) = '''' then Ret (Some ErrClientNotAttached, ms, [])
      else if ActiveWriterClientID (info ms) \<noteq> clientID then Ret (Some ErrClientMismatch, ms, [])
      else
        let ms1 = ms\<lparr>info := (info ms)\<lparr>InfoCols := cols, InfoRows := rows\<rparr>, lastActivity := now\<rparr>
        in if streamJSON ms then Ret (None, ms1, [])
           else case setsize of
                  Some e \<Rightarrow> Ret (Some e, ms, [])
                | None \<Rightarrow>
                    outcome_bind (appendChunkLocked V now ms1 [] ChunkTypeOutput)
                      (\<lambda>(ms2, eff). Ret (None, ms2, eff)))"

definition replay_gap :: "u64 \<Rightarrow> u64 \<Rightarrow> bool" where
  [session_defs]: "replay_gap oldest afterSeq \<longleftrightarrow> 0 < oldest \<and> 0 < afterSeq \<and> afterSeq < oldest - 1"

text \<open>\<open>Attach\<close> on a session that was found.\<close>

definition attachLocked ::
  "vt \<Rightarrow> go_time \<Rightarrow> managedSession \<Rightarrow> string \<Rightarrow> u64 \<Rightarrow> AttachRole \<Rightarrow>
     ((bridge_error + AttachState) \<times> managedSession \<times> effect list) outcome" where
  [session_defs]: "attachLocked V now ms clientID afterSeq r =
     (let oldest = OldestSeq (buf ms);
          lst = LastSeq (buf ms);
          st = \<lparr>AsClientID = clientID, AsRole = AttachRoleObserver, Replay = After (buf ms) afterSeq,
                Live = None, ReplayGap = replay_gap oldest afterSeq, AsOldestSeq = oldest, AsLastSeq = lst,
                Checkpoint = [], AsExitRecorded = ExitRecorded (info ms), AsExitCode = ExitCode (info ms),
                AsCols = InfoCols (info ms), AsRows = InfoRows (info ms)\<rparr>
      in if recovered ms then Ret (Inr st, ms, [])
         else if r = AttachRoleWriter \<and> ActiveWriterClientID (info ms) \<noteq> '''' then Ret (Inl ErrWriterConflict, ms, [])
         else
           outcome_bind
             (case gm_get (observers ms) clientID of
                None \<Rightarrow> Ret ms
              | Some e \<Rightarrow>
                  outcome_bind (close_chan (chans ms ! ech e))
                    (\<lambda>c. Ret (ms\<lparr>chans := (chans ms)[ech e := c], observers := gm_del clientID (observers ms)\<rparr>)))
             (\<lambda>ms1.
                let ch = length (chans ms1);
                    ms2 = (if liveClosed ms1 then ms1
                           else ms1\<lparr>chans := chans ms1 @ [\<lparr>chQueue = [], chClosed = False\<rparr>],
                                    observers := gm_put clientID \<lparr>ech = ch, role = r\<rparr> (observers ms1)\<rparr>);
                    ms3 = (if r = AttachRoleWriter
                           then ms2\<lparr>info := (info ms2)\<lparr>ActiveWriterClientID := clientID, Attached := True,
                                      AttachedClientID := clientID, State := SessionStateAttached\<rparr>\<rparr>
                           else ms2);
                    eff = (if r = AttachRoleWriter then [NotifyControl (info ms3)] else []);
                    ms4 = ms3\<lparr>info := (info ms3)\<lparr>ObserverCount := countObservers ms3\<rparr>, lastActivity := now\<rparr>;
                    (cp, scr) = checkpoint V (screen ms4) lst
                in Ret (Inr (st\<lparr>AsRole := r, Live := (if liveClosed ms1 then None else Some ch), Checkpoint := cp\<rparr>),
                        ms4\<lparr>screen := scr\<rparr>, eff)))"

text \<open>\<open>Detach\<close> on a session that was found.\<close>

definition detachLocked :: "managedSession \<Rightarrow> string \<Rightarrow> (bool \<times> bridge_error option) \<times> managedSession \<times> effect list" where
  [session_defs]: "detachLocked ms clientID =
     (if recovered ms then ((False, None), ms, [])
      else case gm_get (observers ms) clientID of
             None \<Rightarrow> ((False, Some ErrClientMismatch), ms, [])
           | Some _ \<Rightarrow>
               let ms1 = ms\<lparr>observers := gm_del clientID (observers ms)\<rparr>;
                   wasWriter = (ActiveWriterClientID (info ms) = clientID);
                   ms2 = (if wasWriter
                          then ms1\<lparr>info := (info ms1)\<lparr>ActiveWriterClientID := '''', Attached := False, AttachedClientID := ''''\<rparr>\<rparr>
                          else ms1);
                   ms3 = ms2\<lparr>info := (info ms2)\<lparr>ObserverCount := countObservers ms2\<rparr>\<rparr>
               in if observers ms3 = [] \<and> State (info ms3) = SessionStateAttached
                  then let ms4 = ms3\<lparr>info := (info ms3)\<lparr>State := SessionStateRunning\<rparr>\<rparr>
                       in ((wasWriter, None), ms4, [NotifyControl (info ms4)])
                  else ((wasWriter, None), ms3, []))"

text \<open>The assignments \<open>entry.role = \<dots>\<close>, a no-op when the client has no entry.\<close>

definition set_role :: "string \<Rightarrow> AttachRole \<Rightarrow> (string, observerEntry) gomap \<Rightarrow> (string, observerEntry) gomap" where
  [session_defs]: "set_role c r obs =
     (case gm_get obs c of None \<Rightarrow> obs | Some e \<Rightarrow> gm_put c (e\<lparr>role := r\<rparr>) obs)"

text \<open>\<open>ClaimWriter\<close> and \<open>ReleaseWriter\<close> on a session that was found; the result names the evicted writer.\<close>

definition claimWriterLocked :: "managedSession \<Rightarrow> string \<Rightarrow> bool \<Rightarrow> (bridge_error + string) \<times> managedSession" where
  [session_defs]: "claimWriterLocked ms clientID force =
     (let prevWriter = ActiveWriterClientID (info ms)
      in if recovered ms then (Inl ErrSessionRecoveryUnavailable, ms)
         else if prevWriter = clientID then (Inr '''', ms)
         else if prevWriter \<noteq> '''' \<and> \<not> force then (Inl ErrWriterConflict, ms)
         else if gm_get (observers ms) clientID = None then (Inl ErrClientNotAttached, ms)
         else
           let obs = set_role clientID AttachRoleWriter (set_role prevWriter AttachRoleObserver (observers ms));
               ms1 = ms\<lparr>observers := obs,
                        info := (info ms)\<lparr>ActiveWriterClientID := clientID, Attached := True, AttachedClientID := clientID,
                          State := (if State (info ms) = SessionStateRunning then SessionStateAttached else State (info ms))\<rparr>\<rparr>
           in (Inr prevWriter, ms1\<lparr>info := (info ms1)\<lparr>ObserverCount := countObservers ms1\<rparr>\<rparr>))"

definition releaseWriterLocked :: "managedSession \<Rightarrow> string \<Rightarrow> bridge_error option \<times> managedSession" where
  [session_defs]: "releaseWriterLocked ms clientID =
     (if recovered ms then (None, ms)
      else if ActiveWriterClientID (info ms) \<noteq> clientID then (Some ErrClientMismatch, ms)
      else
        let ms1 = ms\<lparr>observers := set_role clientID AttachRoleObserver (observers ms),
                     info := (info ms)\<lparr>ActiveWriterClientID := '''', Attached := False, AttachedClientID := ''''\<rparr>\<rparr>;
            ms2 = ms1\<lparr>info := (info ms1)\<lparr>ObserverCount := countObservers ms1\<rparr>\<rparr>
        in (None, if observers ms2 = [] \<and> State (info ms2) = SessionStateAttached
                  then ms2\<lparr>info := (info ms2)\<lparr>State := SessionStateRunning\<rparr>\<rparr> else ms2))"

section \<open>Structured responses\<close>

definition ValidateResponse :: "string \<Rightarrow> bridge_error option" where
  [session_defs]: "ValidateResponse text =
     (if 16384 < length text \<or> \<not> ValidString text \<or> blank text then Some ErrInvalidResponse
      else if \<exists>r \<in> set (runes (codes text)). r < 32 \<and> r \<noteq> 10 \<and> r \<noteq> 9 \<or> r = 127 then Some ErrInvalidResponse
      else None)"

text \<open>\<open>pendingOperation\<close> under the session lock; the effect is the call of the provider's responder.\<close>

definition pendingLocked :: "managedSession \<Rightarrow> string \<Rightarrow> string \<Rightarrow> bool \<Rightarrow> bridge_error option \<times> effect list" where
  [session_defs]: "pendingLocked ms pendingID text approval =
     (let i = InfoInteraction (info ms);
          sid = SessionID (info ms);
          st = (if approval then InteractionWaitingForApproval else InteractionWaitingForInput);
          kind = (if approval then PendingRequestApproval else PendingRequestInput)
      in if recovered ms then (Some ErrSessionRecoveryUnavailable, [])
         else if State (info ms) \<noteq> SessionStateRunning \<and> State (info ms) \<noteq> SessionStateAttached
           then (Some ErrSessionNotRunning, [])
         else if ActiveWriterClientID (info ms) \<noteq> '''' then (Some ErrWriterConflict, [])
         else if pendingID = '''' \<or> IState i \<noteq> st \<or>
                 (case Pending i of None \<Rightarrow> True | Some p \<Rightarrow> PendingType p \<noteq> kind \<or> PendingID p \<noteq> pendingID)
           then (Some ErrPendingRequestMismatch, [])
         else if approval then
           (case Option.bind (provider ms) pvDecideApproval of
              None \<Rightarrow> (Some ErrRemoteResponseUnsupported, [])
            | Some f \<Rightarrow>
                if \<not> StructuredApprovalSupported (Capability (Evidence i)) then (Some ErrRemoteResponseUnsupported, [])
                else (f sid pendingID text, [DecideApprovalTo sid pendingID text]))
         else
           (case Option.bind (provider ms) pvRespondToInput of
              None \<Rightarrow> (Some ErrRemoteResponseUnsupported, [])
            | Some f \<Rightarrow> (f sid pendingID text, [RespondInput sid pendingID text])))"

definition sendInstructionLocked :: "managedSession \<Rightarrow> string \<Rightarrow> bridge_error option \<times> effect list" where
  [session_defs]: "sendInstructionLocked ms text =
     (let sid = SessionID (info ms)
      in if recovered ms then (Some ErrSessionRecoveryUnavailable, [])
         else if State (info ms) \<noteq> SessionStateRunning \<and> State (info ms) \<noteq> SessionStateAttached
           then (Some ErrSessionNotRunning, [])
         else if ActiveWriterClientID (info ms) \<noteq> '''' then (Some ErrWriterConflict, [])
         else case Option.bind (provider ms) pvSendInstruction of
                None \<Rightarrow> (Some ErrRemoteResponseUnsupported, [])
              | Some f \<Rightarrow> (f sid text, [InstructionTo sid text]))"

definition observeActivityLocked ::
  "managedSession \<Rightarrow> u64 \<Rightarrow> int \<Rightarrow> int \<Rightarrow> bridge_error + ActivityWindow" where
  [session_defs]: "observeActivityLocked ms after events bytes =
     (case Option.bind (provider ms) pvObserveActivity of
        None \<Rightarrow> Inl ErrRemoteResponseUnsupported
      | Some f \<Rightarrow> f (SessionID (info ms)) after events bytes)"

section \<open>New sessions\<close>

text \<open>The session \<open>Start\<close> builds for a process that was started with identifier \<open>pid\<close>.\<close>

definition startedSession :: "int \<Rightarrow> Provider \<Rightarrow> SessionConfig \<Rightarrow> go_time \<Rightarrow> int \<Rightarrow> managedSession" where
  "startedSession bufSize p cfg now pid =
     (let caps = interactionCapabilitiesFor p
      in \<lparr>info = zeroInfo\<lparr>SessionID := CfgSessionID cfg, ProjectID := CfgProjectID cfg, ProviderID := pvID p,
            RepoPath := CfgRepoPath cfg, State := SessionStateRunning, CreatedAt := now,
            InfoCols := InitialCols cfg, InfoRows := InitialRows cfg,
            InfoInteraction := \<lparr>IState = InteractionUnknown, Revision = 0, UpdatedAt = now, LastActivityAt = now,
               Pending = None, Evidence = \<lparr>Source = '''', Capability = caps\<rparr>\<rparr>,
            InfoCapabilities := caps, ProcessID := pid\<rparr>,
          provider = Some p, cmdPid = pid, streamJSON = pvStreamJSON p, stripANSI = pvStripANSI p,
          buf = NewByteBuffer bufSize, stopGrace = pvStopGrace p, lastActivity = now, forceStop = False,
          recovered = False, readerDone = False, waited = False, cancelled = False, observers = [],
          liveClosed = False, screen = (if pvStreamJSON p then None else Some newLiveScreen), chans = []\<rparr>)"

text \<open>
  The session \<open>recoverProcess\<close> builds for a stored session whose process is still alive, with the
  chunks the store returned.
\<close>

definition recoveredSession :: "int \<Rightarrow> SessionInfo \<Rightarrow> OutputChunk list \<Rightarrow> go_time \<Rightarrow> managedSession" where
  "recoveredSession bufSize i cs now =
     (let b = foldl AppendChunk (NewByteBuffer bufSize) cs
      in \<lparr>info = zeroInfo\<lparr>SessionID := SessionID i, ProjectID := ProjectID i, ProviderID := ProviderID i,
            State := SessionStateRunning, ProcessID := ProcessID i, CreatedAt := CreatedAt i,
            Error := ''recovered after daemon restart; live attach/input unavailable'', Recovered := True,
            ExitRecorded := ExitRecorded i, ExitCode := ExitCode i, InfoCols := InfoCols i, InfoRows := InfoRows i,
            InfoOldestSeq := OldestSeq b, InfoLastSeq := LastSeq b\<rparr>,
          provider = None, cmdPid = 0, streamJSON = False, stripANSI = False, buf = b,
          stopGrace = 500 * millisecond, lastActivity = now, forceStop = False, recovered = True,
          readerDone = False, waited = False, cancelled = False, observers = [], liveClosed = False,
          screen = None, chans = []\<rparr>)"

end
