(* ===== verification/Session_Invariants.thy ===== *)
theory Session_Invariants
  imports Managed_Session
begin

text \<open>
  The states one session of the supervisor can reach: a step relation with one rule for every
  critical section of \<open>supervisor.go\<close>, in any order the goroutines can run them, the invariant of
  the reachable states, and what follows for writers, observers and their channels.
\<close>

section \<open>Channels\<close>

definition push :: "OutputChunk \<Rightarrow> chan \<Rightarrow> chan" where
  "push chunk c = (if length (chQueue c) < live_capacity then c\<lparr>chQueue := chQueue c @ [chunk]\<rparr> else c)"

definition entry_ids :: "(string, observerEntry) gomap \<Rightarrow> nat list" where
  "entry_ids es = map (\<lambda>(_, e). ech e) es"

lemma entry_ids_simps [simp]:
  "entry_ids [] = []" "entry_ids ((k, e) # es) = ech e # entry_ids es"
  by (simp_all add: entry_ids_def)

lemma send_all_open:
  assumes "\<forall>i \<in> set (entry_ids es). i < length cs \<and> \<not> chClosed (cs ! i)" and "distinct (entry_ids es)"
  shows "send_all chunk es cs =
    Ret (map (\<lambda>i. if i \<in> set (entry_ids es) then push chunk (cs ! i) else cs ! i) [0..<length cs])"
  using assms
proof (induction es arbitrary: cs)
  case Nil
  show ?case by (simp add: map_nth)
next
  case (Cons x es)
  obtain k e where x: "x = (k, e)" by (cases x)
  let ?cs = "cs[ech e := push chunk (cs ! ech e)]"
  have "try_send (cs ! ech e) chunk = Ret (push chunk (cs ! ech e))"
    using Cons.prems x by (auto simp: try_send_def push_def)
  then have "send_all chunk (x # es) cs = send_all chunk es ?cs" by (simp add: x)
  also have "\<dots> = Ret (map (\<lambda>i. if i \<in> set (entry_ids es) then push chunk (?cs ! i) else ?cs ! i) [0..<length ?cs])"
    using Cons.prems x by (intro Cons.IH) (auto simp: nth_list_update)
  also have "\<dots> = Ret (map (\<lambda>i. if i \<in> set (entry_ids (x # es)) then push chunk (cs ! i) else cs ! i) [0..<length cs])"
    using Cons.prems x by (auto simp: nth_list_update)
  finally show ?case .
qed

lemma close_all_open:
  assumes "\<forall>i \<in> set (entry_ids es). i < length cs \<and> \<not> chClosed (cs ! i)" and "distinct (entry_ids es)"
  shows "close_all es cs =
    Ret (map (\<lambda>i. if i \<in> set (entry_ids es) then (cs ! i)\<lparr>chClosed := True\<rparr> else cs ! i) [0..<length cs])"
  using assms
proof (induction es arbitrary: cs)
  case Nil
  show ?case by (simp add: map_nth)
next
  case (Cons x es)
  obtain k e where x: "x = (k, e)" by (cases x)
  let ?cs = "cs[ech e := (cs ! ech e)\<lparr>chClosed := True\<rparr>]"
  have "close_chan (cs ! ech e) = Ret ((cs ! ech e)\<lparr>chClosed := True\<rparr>)"
    using Cons.prems x by (auto simp: close_chan_def)
  then have "close_all (x # es) cs = close_all es ?cs" by (simp add: x)
  also have "\<dots> = Ret (map (\<lambda>i. if i \<in> set (entry_ids es) then (?cs ! i)\<lparr>chClosed := True\<rparr> else ?cs ! i) [0..<length ?cs])"
    using Cons.prems x by (intro Cons.IH) (auto simp: nth_list_update)
  also have "\<dots> = Ret (map (\<lambda>i. if i \<in> set (entry_ids (x # es)) then (cs ! i)\<lparr>chClosed := True\<rparr> else cs ! i) [0..<length cs])"
    using Cons.prems x by (auto simp: nth_list_update)
  finally show ?case .
qed

section \<open>The invariant\<close>

text \<open>The channels behind the observers: allocated, not shared, and closed exactly once \<open>closeLive\<close> ran.\<close>

definition chans_ok :: "managedSession \<Rightarrow> bool" where
  "chans_ok ms \<longleftrightarrow> distinct (entry_ids (observers ms)) \<and>
     (\<forall>i \<in> set (entry_ids (observers ms)). i < length (chans ms) \<and> chClosed (chans ms ! i) = liveClosed ms) \<and>
     (\<forall>c \<in> set (chans ms). length (chQueue c) \<le> live_capacity)"

text \<open>The writer slot: who holds it, what the observer entries and the session metadata say about it.\<close>

definition writer_ok :: "managedSession \<Rightarrow> bool" where
  "writer_ok ms \<longleftrightarrow> gm_ok (observers ms) \<and>
     (Attached (info ms) \<longleftrightarrow> ActiveWriterClientID (info ms) \<noteq> '''') \<and>
     AttachedClientID (info ms) = ActiveWriterClientID (info ms) \<and>
     (\<forall>c e. gm_get (observers ms) c = Some e \<longrightarrow> role e = AttachRoleWriter \<longrightarrow> c = ActiveWriterClientID (info ms) \<and> c \<noteq> '''') \<and>
     ObserverCount (info ms) = countObservers ms"

text \<open>While output is live, the writer is attached, and a session marked attached has a client.\<close>

definition live_ok :: "managedSession \<Rightarrow> bool" where
  "live_ok ms \<longleftrightarrow> (\<not> liveClosed ms \<longrightarrow>
     (ActiveWriterClientID (info ms) \<noteq> '''' \<longrightarrow> gm_get (observers ms) (ActiveWriterClientID (info ms)) \<noteq> None) \<and>
     (State (info ms) = SessionStateAttached \<longrightarrow> observers ms \<noteq> []))"

definition loops_ok :: "managedSession \<Rightarrow> bool" where
  "loops_ok ms \<longleftrightarrow> readerDone ms = liveClosed ms \<and> (waited ms \<longrightarrow> readerDone ms) \<and> cancelled ms = waited ms \<and>
     (recovered ms \<longrightarrow> observers ms = [] \<and> ActiveWriterClientID (info ms) = '''' \<and> \<not> liveClosed ms)"

definition session_ok :: "managedSession \<Rightarrow> bool" where
  "session_ok ms \<longleftrightarrow> chans_ok ms \<and> writer_ok ms \<and> live_ok ms \<and> loops_ok ms"

lemmas session_ok_defs = session_ok_def chans_ok_def writer_ok_def live_ok_def loops_ok_def

text \<open>What the invariant depends on: operations that leave this view alone preserve it.\<close>

definition client_view where
  "client_view ms = (observers ms, chans ms, liveClosed ms, readerDone ms, waited ms, cancelled ms, recovered ms,
     Attached (info ms), AttachedClientID (info ms), ActiveWriterClientID (info ms), ObserverCount (info ms),
     State (info ms) = SessionStateAttached)"

lemma session_ok_cong: "client_view ms' = client_view ms \<Longrightarrow> session_ok ms' = session_ok ms"
  by (simp add: client_view_def session_ok_defs countObservers_def)

lemma startedSession_ok: "session_ok (startedSession bs p cfg now pid)"
  by (simp add: session_ok_defs startedSession_def zeroInfo_def Let_def countObservers_def)

lemma recoveredSession_ok: "session_ok (recoveredSession bs i cs now)"
  by (simp add: session_ok_defs recoveredSession_def zeroInfo_def Let_def countObservers_def)

text \<open>Delivering a chunk to every observer.\<close>

definition fan :: "managedSession \<Rightarrow> OutputChunk \<Rightarrow> chan list" where
  "fan ms chunk = map (\<lambda>i. if i \<in> set (entry_ids (observers ms)) then push chunk (chans ms ! i) else chans ms ! i)
     [0..<length (chans ms)]"

lemma send_all_fan: "session_ok ms \<Longrightarrow> \<not> liveClosed ms \<Longrightarrow> send_all chunk (observers ms) (chans ms) = Ret (fan ms chunk)"
  unfolding fan_def by (rule send_all_open) (auto simp: session_ok_defs)

lemma length_fan [simp]: "length (fan ms chunk) = length (chans ms)"
  by (simp add: fan_def)

lemma push_closed [simp]: "chClosed (push chunk c) = chClosed c"
  by (simp add: push_def)

lemma push_length: "length (chQueue c) \<le> live_capacity \<Longrightarrow> length (chQueue (push chunk c)) \<le> live_capacity"
  by (simp add: push_def)

lemma fan_ok: "chans_ok ms \<Longrightarrow> chans_ok (ms\<lparr>chans := fan ms chunk\<rparr>)"
  by (auto simp: chans_ok_def fan_def push_length)

lemma session_ok_fan: "session_ok ms \<Longrightarrow> session_ok (ms\<lparr>chans := fan ms chunk\<rparr>)"
  using fan_ok by (auto simp: session_ok_def writer_ok_def live_ok_def loops_ok_def countObservers_def)

section \<open>Every operation keeps it\<close>

text \<open>The identity of a session and the progress of its goroutines, which client operations leave alone.\<close>

definition loop_view where
  "loop_view ms = (SessionID (info ms), recovered ms, streamJSON ms, readerDone ms, waited ms, liveClosed ms)"

lemma appendChunkLocked_ok:
  assumes "session_ok ms"
  shows "\<exists>ms' eff. appendChunkLocked V now ms p t = Ret (ms', eff) \<and> session_ok ms' \<and> loop_view ms' = loop_view ms"
proof (cases "liveClosed ms")
  case True
  with assms show ?thesis by (simp add: appendChunkLocked_def)
next
  case False
  obtain chunk b where ap: "AppendSized now (buf ms) p t (InfoCols (info ms)) (InfoRows (info ms)) = (chunk, b)"
    by (cases "AppendSized now (buf ms) p t (InfoCols (info ms)) (InfoRows (info ms))")
  from False assms obtain ms' eff where r: "appendChunkLocked V now ms p t = Ret (ms', eff)"
    and v: "client_view ms' = client_view (ms\<lparr>chans := fan ms chunk\<rparr>)" and l: "loop_view ms' = loop_view ms"
    by (auto simp: appendChunkLocked_def ap send_all_fan client_view_def loop_view_def Let_def)
  from session_ok_cong [OF v] session_ok_fan [OF assms] r l show ?thesis by blast
qed

lemma appendChunk_ok:
  assumes "session_ok ms"
  shows "\<exists>ms' eff. appendChunk V now ms p t = Ret (ms', eff) \<and> session_ok ms' \<and> loop_view ms' = loop_view ms"
proof -
  let ?d = "if t = ChunkTypeOutput \<and> stripANSI ms then stripEscapes p else p"
  from appendChunkLocked_ok [OF assms, of V now ?d t] show ?thesis by (auto simp: appendChunk_def Let_def)
qed

lemma fanout_ok:
  assumes "session_ok ms"
  shows "\<exists>ms'. fanoutControlEvent ms t p = Ret ms' \<and> session_ok ms' \<and> loop_view ms' = loop_view ms"
  using assms session_ok_fan [OF assms]
  by (cases "liveClosed ms") (auto simp: fanoutControlEvent_def Let_def send_all_fan loop_view_def)

lemma closeLive_ok:
  assumes "session_ok ms" and "\<not> readerDone ms" and "\<not> recovered ms"
  shows "\<exists>ms'. reader_exit ms eff = Ret (ms', eff, True) \<and> session_ok ms' \<and>
    loop_view ms' = (SessionID (info ms), recovered ms, streamJSON ms, True, waited ms, True)"
proof -
  have "\<not> liveClosed ms" using assms by (simp add: session_ok_defs)
  then have "close_all (observers ms) (chans ms) = Ret (map (\<lambda>i. if i \<in> set (entry_ids (observers ms))
      then (chans ms ! i)\<lparr>chClosed := True\<rparr> else chans ms ! i) [0..<length (chans ms)])"
    using assms by (intro close_all_open) (auto simp: session_ok_defs)
  with assms show ?thesis
    by (auto simp: reader_exit_def closeLive_def signalReaderDone_def loop_view_def session_ok_defs countObservers_def)
qed

lemma session_ok_info [simp]:
  "session_ok (ms\<lparr>info := (info ms)\<lparr>Error := e\<rparr>\<rparr>) = session_ok ms"
  "session_ok (ms\<lparr>lastActivity := t\<rparr>) = session_ok ms"
  "session_ok (ms\<lparr>info := (info ms)\<lparr>InfoInteraction := it\<rparr>\<rparr>) = session_ok ms"
  "session_ok (ms\<lparr>info := (info ms)\<lparr>InfoCols := c, InfoRows := r\<rparr>, lastActivity := t\<rparr>) = session_ok ms"
  by (rule session_ok_cong, simp add: client_view_def)+

lemma loop_view_info [simp]:
  "loop_view (ms\<lparr>info := (info ms)\<lparr>Error := e\<rparr>\<rparr>) = loop_view ms"
  "loop_view (ms\<lparr>info := (info ms)\<lparr>InfoInteraction := it\<rparr>\<rparr>) = loop_view ms"
  by (simp_all add: loop_view_def)

lemma updateInteraction_ok:
  "session_ok ms \<Longrightarrow> session_ok (fst (updateInteractionLocked now ms nxt))"
  "loop_view (fst (updateInteractionLocked now ms nxt)) = loop_view ms"
  by (simp_all add: updateInteractionLocked_def Let_def)

lemma observeStreamJSON_ok:
  "session_ok ms \<Longrightarrow> session_ok (fst (observeStreamJSONInteraction now ms t))"
  "loop_view (fst (observeStreamJSONInteraction now ms t)) = loop_view ms"
  by (simp_all add: observeStreamJSONInteraction_def Let_def updateInteraction_ok)

text \<open>A reader that is still running never panics, and leaves a good session behind.\<close>

definition reader_result where
  "reader_result ms r \<longleftrightarrow> (\<exists>ms' eff done. r = Ret (ms', eff, done) \<and> session_ok ms' \<and>
     loop_view ms' = (if done then (SessionID (info ms), recovered ms, streamJSON ms, True, waited ms, True)
                      else loop_view ms))"

lemma reader_continues:
  "session_ok ms' \<Longrightarrow> loop_view ms' = loop_view ms \<Longrightarrow> reader_result ms (Ret (ms', eff, False))"
  unfolding reader_result_def by (intro exI [of _ ms'] exI [of _ eff] exI [of _ False]) simp

lemma reader_exit_result:
  assumes "session_ok ms'" and "loop_view ms' = loop_view ms" and "\<not> readerDone ms" and "\<not> recovered ms"
  shows "reader_result ms (reader_exit ms' eff)"
proof -
  from assms have "\<not> readerDone ms'" "\<not> recovered ms'" by (auto simp: loop_view_def)
  from closeLive_ok [OF assms(1) this, of eff] assms(2) show ?thesis
    by (auto simp: reader_result_def loop_view_def)
qed

lemma reader_append:
  assumes "session_ok ms"
  obtains ms' eff where "(if d = [] then Ret (ms, []) else appendChunk V now ms d t) = Ret (ms', eff)"
    and "session_ok ms'" and "loop_view ms' = loop_view ms"
  using appendChunk_ok [OF assms, of V now d t] assms by (cases "d = []") auto

lemma readLoop_ok:
  assumes "session_ok ms" and "\<not> readerDone ms" and "\<not> recovered ms"
  shows "reader_result ms (readLoop V now ms d err)"
proof -
  obtain ms1 eff where ap: "(if d = [] then Ret (ms, []) else appendChunk V now ms d ChunkTypeOutput) = Ret (ms1, eff)"
    and ok: "session_ok ms1" "loop_view ms1 = loop_view ms" by (rule reader_append [OF assms(1)])
  show ?thesis
  proof (cases err)
    case None
    then show ?thesis using ap ok by (simp add: readLoop_def reader_continues)
  next
    case (Some e)
    then show ?thesis
      using ap ok assms by (cases e) (auto simp: readLoop_def Let_def intro!: reader_exit_result)
  qed
qed

lemma readLoopStreamJSON_ok:
  assumes "session_ok ms" and "\<not> readerDone ms" and "\<not> recovered ms"
  shows "reader_result ms (readLoopStreamJSON V um now ms l err)"
proof -
  note quit = reader_exit_result [OF _ _ assms(2,3)]
  consider (eof) "err = Some EOF \<and> l = []" | (empty) "\<not> (err = Some EOF \<and> l = [])" "trim_line l = []"
    | (raw) "\<not> (err = Some EOF \<and> l = [])" "trim_line l \<noteq> []" "um (trim_line l) = None"
    | (ev) e where "\<not> (err = Some EOF \<and> l = [])" "trim_line l \<noteq> []" "um (trim_line l) = Some e" by blast
  then show ?thesis
  proof cases
    case eof
    then show ?thesis using assms by (auto simp: readLoopStreamJSON_def intro!: quit)
  next
    case empty
    then show ?thesis using assms
      by (cases "err = None") (auto simp: readLoopStreamJSON_def Let_def intro!: quit reader_continues)
  next
    case raw
    then show ?thesis using appendChunk_ok [OF assms(1), of V now "trim_line l" ChunkTypeOutput]
      by (auto simp: readLoopStreamJSON_def Let_def reader_continues)
  next
    case ev
    obtain ms1 eff where ap: "(case stream_delta e of None \<Rightarrow> Ret (ms, [])
        | Some (payload, ctype) \<Rightarrow> appendChunk V now ms payload ctype) = Ret (ms1, eff)"
      and ok: "session_ok ms1" "loop_view ms1 = loop_view ms"
      using appendChunk_ok [OF assms(1)] assms(1) by (cases "stream_delta e") (auto, metis)
    obtain ms2 eff2 where ob: "observeStreamJSONInteraction now ms1 (evType e) = (ms2, eff2)"
      by (cases "observeStreamJSONInteraction now ms1 (evType e)")
    with ok observeStreamJSON_ok [where ms = ms1 and now = now and t = "evType e"]
    have ok2: "session_ok ms2" "loop_view ms2 = loop_view ms" by auto
    show ?thesis
    proof (cases "err = None")
      case True
      with ev ap ob ok2 show ?thesis by (simp add: readLoopStreamJSON_def Let_def reader_continues)
    next
      case False
      define ms3 where "ms3 = (case err of Some (ReadError x) \<Rightarrow>
          if Error (info ms2) = '''' \<and> \<not> ExitRecorded (info ms2) then ms2\<lparr>info := (info ms2)\<lparr>Error := x\<rparr>\<rparr> else ms2
        | _ \<Rightarrow> ms2)"
      have "session_ok ms3" "loop_view ms3 = loop_view ms"
        using ok2 by (simp_all add: ms3_def split: option.split read_error.split)
      moreover have "readLoopStreamJSON V um now ms l err = reader_exit ms3 (eff @ eff2)"
        using ev ap ob False by (auto simp: readLoopStreamJSON_def Let_def ms3_def)
      ultimately show ?thesis by (simp add: quit)
    qed
  qed
qed

lemma waitLoop_ok:
  "session_ok ms \<Longrightarrow> readerDone ms \<Longrightarrow> session_ok (fst (waitLoop now ms res))"
  by (cases res) (auto simp: waitLoop_def Let_def session_ok_defs countObservers_def)

lemma stopLocked_ok: "session_ok ms \<Longrightarrow> session_ok (fst (stopLocked ms force))"
  by (auto simp: stopLocked_def Let_def session_ok_defs countObservers_def)

lemma recovered_stopped_ok: "session_ok ms \<Longrightarrow> session_ok (fst (recovered_stopped now ms))"
  by (auto simp: recovered_stopped_def Let_def session_ok_defs countObservers_def)

lemma monitor_ok: "session_ok ms \<Longrightarrow> session_ok (fst (monitorRecoveredProcess alive now ms))"
  by (auto simp: monitorRecoveredProcess_def Let_def session_ok_defs countObservers_def)

lemma writeInput_ok: "session_ok ms \<Longrightarrow> session_ok (fst (snd (writeInputLocked now ms c d wr)))"
  by (simp add: writeInputLocked_def)

lemma resize_ok:
  assumes "session_ok ms"
  shows "\<exists>r ms' eff. resizeLocked V now ms c w h ss = Ret (r, ms', eff) \<and> session_ok ms'"
proof -
  let ?ms = "ms\<lparr>info := (info ms)\<lparr>InfoCols := w, InfoRows := h\<rparr>, lastActivity := now\<rparr>"
  from assms have ok: "session_ok ?ms" by (subst session_ok_cong [of _ ms]) (simp_all add: client_view_def)
  from appendChunkLocked_ok [OF ok, of V now "[]" ChunkTypeOutput]
  obtain ms' eff where "appendChunkLocked V now ?ms [] ChunkTypeOutput = Ret (ms', eff)" "session_ok ms'" by blast
  with ok assms show ?thesis
    unfolding resizeLocked_def Let_def by (cases ss) (simp_all del: session_ok_info)
qed

text \<open>Roles change in place: the clients and their channels stay.\<close>

lemma set_role_get: "gm_get (set_role c r obs) k =
    (if k = c then map_option (\<lambda>e. e\<lparr>role := r\<rparr>) (gm_get obs c) else gm_get obs k)"
  by (auto simp: set_role_def gomap_simps split: option.splits)

lemma update_ids: "gm_get obs c = Some e \<Longrightarrow> ech e' = ech e \<Longrightarrow> entry_ids (gm_put c e' obs) = entry_ids obs"
  by (induction obs) (auto split: if_splits)

lemma set_role_ids [simp]: "entry_ids (set_role c r obs) = entry_ids obs"
  by (auto simp: set_role_def update_ids split: option.splits)

lemma set_role_keys [simp]: "map fst (set_role c r obs) = map fst obs"
  by (auto simp: set_role_def update_keys map_of_eq_None_iff split: option.splits)

lemma set_role_Nil [simp]: "set_role c r obs = [] \<longleftrightarrow> obs = []"
  by (metis map_is_Nil_conv set_role_keys)

text \<open>A claim that changes anything gives the slot to an attached client.\<close>

lemma claimWriter_cases:
  obtains (same) "snd (claimWriterLocked ms c force) = ms"
  | (claimed) e ms' where "gm_get (observers ms) c = Some e" and "\<not> recovered ms"
      and "ActiveWriterClientID (info ms) = '''' \<or> force"
      and "claimWriterLocked ms c force = (Inr (ActiveWriterClientID (info ms)), ms')"
      and "observers ms' = set_role c AttachRoleWriter (set_role (ActiveWriterClientID (info ms)) AttachRoleObserver (observers ms))"
      and "ms' = ms\<lparr>observers := observers ms', info := info ms'\<rparr>"
      and "ActiveWriterClientID (info ms') = c" and "Attached (info ms')" and "AttachedClientID (info ms') = c"
      and "ObserverCount (info ms') = countObservers ms'"
proof (cases "recovered ms \<or> ActiveWriterClientID (info ms) = c \<or>
    (ActiveWriterClientID (info ms) \<noteq> '''' \<and> \<not> force) \<or> gm_get (observers ms) c = None")
  case True
  then have "snd (claimWriterLocked ms c force) = ms" by (auto simp: claimWriterLocked_def Let_def)
  then show thesis by (rule same)
next
  case False
  then obtain e where "gm_get (observers ms) c = Some e" by auto
  with False show thesis
    by (intro claimed [where ms' = "snd (claimWriterLocked ms c force)"])
      (auto simp: claimWriterLocked_def Let_def countObservers_def)
qed

lemma claimWriter_ok:
  assumes "session_ok ms" and "c \<noteq> ''''"
  shows "session_ok (snd (claimWriterLocked ms c force))"
proof (cases rule: claimWriter_cases [of ms c force])
  case same
  with assms show ?thesis by simp
next
  case (claimed e ms')
  note ms' = claimed(6)
  have keep: "entry_ids (observers ms') = entry_ids (observers ms)" "map fst (observers ms') = map fst (observers ms)"
      "chans ms' = chans ms" "liveClosed ms' = liveClosed ms" "loop_view ms' = (SessionID (info ms'), snd (loop_view ms))"
      "cancelled ms' = cancelled ms"
    using claimed(5) by (simp_all) (subst ms', simp add: loop_view_def)+
  have "chans_ok ms'" using assms(1) keep by (simp add: session_ok_def chans_ok_def)
  moreover have "writer_ok ms'"
    using assms claimed(5,7-10) keep(2) by (auto simp: session_ok_def writer_ok_def set_role_get split: if_splits)
  moreover have "live_ok ms'"
    using claimed(1,5,7) by (auto simp: live_ok_def set_role_get)
  moreover have "loops_ok ms'"
    using assms keep claimed(2) by (auto simp: session_ok_def loops_ok_def loop_view_def)
  ultimately show ?thesis using claimed(4) by (simp add: session_ok_def)
qed

lemma releaseWriter_ok:
  assumes "session_ok ms"
  shows "session_ok (snd (releaseWriterLocked ms c))"
proof (cases "recovered ms \<or> ActiveWriterClientID (info ms) \<noteq> c")
  case True
  then show ?thesis using assms by (auto simp: releaseWriterLocked_def)
next
  case False
  define ms' where "ms' = snd (releaseWriterLocked ms c)"
  from False have f: "observers ms' = set_role c AttachRoleObserver (observers ms)" "ActiveWriterClientID (info ms') = ''''"
      "\<not> Attached (info ms')" "AttachedClientID (info ms') = ''''" "ObserverCount (info ms') = countObservers ms'"
      "State (info ms') = SessionStateAttached \<longrightarrow> observers ms' \<noteq> []"
      "chans ms' = chans ms" "cancelled ms' = cancelled ms" "loop_view ms' = loop_view ms"
    by (auto simp: ms'_def releaseWriterLocked_def Let_def countObservers_def loop_view_def)
  have "chans_ok ms'" using assms f by (simp add: session_ok_def chans_ok_def loop_view_def)
  moreover have "writer_ok ms'"
    using assms f(1-5) False by (auto simp: session_ok_def writer_ok_def set_role_get split: if_splits)
  moreover have "live_ok ms'" using f by (simp add: live_ok_def)
  moreover have "loops_ok ms'" using assms f(2,8,9) False by (auto simp: session_ok_def loops_ok_def loop_view_def)
  ultimately show ?thesis by (simp add: session_ok_def ms'_def)
qed

lemma delete_ids: "gm_ok obs \<Longrightarrow> set (entry_ids (gm_del c obs)) \<subseteq> set (entry_ids obs)"
  by (induction obs) (auto simp: delete_simps split: if_splits)

lemma delete_ids_distinct: "distinct (entry_ids obs) \<Longrightarrow> distinct (entry_ids (gm_del c obs))"
  by (simp add: entry_ids_def AList.delete_eq distinct_map_filter)

lemma detach_cases:
  obtains (same) "fst (snd (detachLocked ms c)) = ms"
  | (gone) e r ms' eff where "gm_get (observers ms) c = Some e" and "\<not> recovered ms"
      and "detachLocked ms c = (r, ms', eff)"
      and "observers ms' = gm_del c (observers ms)"
      and "ms' = ms\<lparr>observers := observers ms', info := info ms'\<rparr>"
      and "ActiveWriterClientID (info ms') = (if ActiveWriterClientID (info ms) = c then '''' else ActiveWriterClientID (info ms))"
      and "Attached (info ms') = (Attached (info ms) \<and> ActiveWriterClientID (info ms) \<noteq> c)"
      and "AttachedClientID (info ms') = (if ActiveWriterClientID (info ms) = c then '''' else AttachedClientID (info ms))"
      and "ObserverCount (info ms') = countObservers ms'"
      and "State (info ms') = SessionStateAttached \<longrightarrow> observers ms' \<noteq> []"
      and "SessionID (info ms') = SessionID (info ms)"
proof (cases "recovered ms \<or> gm_get (observers ms) c = None")
  case True
  then have "fst (snd (detachLocked ms c)) = ms" by (auto simp: detachLocked_def)
  then show thesis by (rule same)
next
  case False
  then obtain e where "gm_get (observers ms) c = Some e" by auto
  with False show thesis
    by (intro gone [where ms' = "fst (snd (detachLocked ms c))" and r = "fst (detachLocked ms c)"
          and eff = "snd (snd (detachLocked ms c))"])
      (auto simp: detachLocked_def Let_def countObservers_def)
qed

lemma detach_ok:
  assumes "session_ok ms"
  shows "session_ok (fst (snd (detachLocked ms c)))"
proof (cases rule: detach_cases [of ms c])
  case same
  with assms show ?thesis by simp
next
  case (gone e r ms' eff)
  note ms' = gone(5)
  have keep: "chans ms' = chans ms" "liveClosed ms' = liveClosed ms" "loop_view ms' = (SessionID (info ms'), snd (loop_view ms))"
      "cancelled ms' = cancelled ms"
    by (subst ms', simp add: loop_view_def)+
  have "chans_ok ms'" using assms keep gone(4) delete_ids [of "observers ms" c] delete_ids_distinct [of "observers ms" c]
    by (auto simp: session_ok_def chans_ok_def writer_ok_def)
  moreover have "writer_ok ms'"
    using assms gone(4,6-9) by (auto simp: session_ok_def writer_ok_def gomap_simps split: if_splits)
  moreover have "live_ok ms'"
    using assms gone(4,6,10) keep(2) by (auto simp: session_ok_def live_ok_def gomap_simps)
  moreover have "loops_ok ms'"
    using assms keep gone(2) by (auto simp: session_ok_def loops_ok_def loop_view_def)
  ultimately show ?thesis using gone(3) by (simp add: session_ok_def)
qed

text \<open>
  An attachment is refused or read-only and changes nothing, or finds the output already closed, or
  replaces the client's previous channel by a fresh one.
\<close>

definition attach_info :: "managedSession \<Rightarrow> string \<Rightarrow> AttachRole \<Rightarrow> managedSession \<Rightarrow> bool" where
  "attach_info ms c r ms' \<longleftrightarrow>
     loop_view ms' = loop_view ms \<and> cancelled ms' = cancelled ms \<and> buf ms' = buf ms \<and>
     ObserverCount (info ms') = countObservers ms' \<and>
     (if r = AttachRoleWriter
      then ActiveWriterClientID (info ms) = '''' \<and> ActiveWriterClientID (info ms') = c \<and> Attached (info ms') \<and>
           AttachedClientID (info ms') = c
      else ActiveWriterClientID (info ms') = ActiveWriterClientID (info ms) \<and> Attached (info ms') = Attached (info ms) \<and>
           AttachedClientID (info ms') = AttachedClientID (info ms) \<and> State (info ms') = State (info ms))"

definition evicted :: "managedSession \<Rightarrow> string \<Rightarrow> chan list" where
  "evicted ms c = (case gm_get (observers ms) c of None \<Rightarrow> chans ms
     | Some e \<Rightarrow> (chans ms)[ech e := (chans ms ! ech e)\<lparr>chClosed := True\<rparr>])"

lemma attach_cases:
  assumes "session_ok ms"
  obtains (same) res eff where "attachLocked V now ms c a r = Ret (res, ms, eff)"
      and "recovered ms \<or> r = AttachRoleWriter \<and> ActiveWriterClientID (info ms) \<noteq> ''''"
  | (late) st ms' eff where "attachLocked V now ms c a r = Ret (Inr st, ms', eff)" and "liveClosed ms"
      and "\<not> recovered ms" and "gm_get (observers ms) c = None" and "attach_info ms c r ms'"
      and "observers ms' = observers ms" and "chans ms' = chans ms" and "Live st = None"
  | (panic) "attachLocked V now ms c a r = Panic" and "liveClosed ms" and "gm_get (observers ms) c \<noteq> None"
  | (fresh) st ms' eff where "attachLocked V now ms c a r = Ret (Inr st, ms', eff)" and "\<not> liveClosed ms"
      and "\<not> recovered ms" and "attach_info ms c r ms'"
      and "observers ms' = gm_put c \<lparr>ech = length (chans ms), role = r\<rparr> (gm_del c (observers ms))"
      and "chans ms' = evicted ms c @ [\<lparr>chQueue = [], chClosed = False\<rparr>]"
      and "Live st = Some (length (chans ms))"
proof (cases "recovered ms \<or> r = AttachRoleWriter \<and> ActiveWriterClientID (info ms) \<noteq> ''''")
  case True
  then have "\<exists>res eff. attachLocked V now ms c a r = Ret (res, ms, eff)" by (auto simp: attachLocked_def Let_def)
  with True show thesis using same by blast
next
  case False
  obtain cp scr where cp: "checkpoint V (screen ms) (LastSeq (buf ms)) = (cp, scr)"
    by (cases "checkpoint V (screen ms) (LastSeq (buf ms))")
  show thesis
  proof (cases "liveClosed ms")
    case True
    show thesis
    proof (cases "gm_get (observers ms) c")
      case None
      with True False cp have "\<exists>st ms' eff. attachLocked V now ms c a r = Ret (Inr st, ms', eff) \<and> attach_info ms c r ms' \<and>
          observers ms' = observers ms \<and> chans ms' = chans ms \<and> Live st = None"
        by (auto simp: attachLocked_def Let_def attach_info_def loop_view_def countObservers_def)
      with True False None show thesis using late by blast
    next
      case (Some e)
      have "chClosed (chans ms ! ech e)"
        using assms True Some map_of_SomeD [OF Some] by (fastforce simp: session_ok_defs entry_ids_def)
      with True False Some show thesis by (intro panic) (auto simp: attachLocked_def Let_def close_chan_def)
    qed
  next
    case live: False
    have "gm_get (observers ms) c = Some e \<Longrightarrow> \<not> chClosed (chans ms ! ech e)" for e
      using assms live map_of_SomeD [of "observers ms" c e] by (fastforce simp: session_ok_defs entry_ids_def)
    moreover have "gm_get (observers ms) c = None \<Longrightarrow> gm_del c (observers ms) = observers ms" by (rule gm_del_absent)
    ultimately have "\<exists>st ms' eff. attachLocked V now ms c a r = Ret (Inr st, ms', eff) \<and> attach_info ms c r ms' \<and>
        observers ms' = gm_put c \<lparr>ech = length (chans ms), role = r\<rparr> (gm_del c (observers ms)) \<and>
        chans ms' = evicted ms c @ [\<lparr>chQueue = [], chClosed = False\<rparr>] \<and> Live st = Some (length (chans ms))"
      using live False cp
      by (cases "gm_get (observers ms) c")
        (auto simp: attachLocked_def Let_def attach_info_def loop_view_def countObservers_def close_chan_def evicted_def)
    with live False show thesis using fresh by blast
  qed
qed

lemma put_absent: "gm_get m k = None \<Longrightarrow> gm_put k v m = m @ [(k, v)]"
  by (induction m) (auto split: if_splits)

lemma delete_id_gone:
  assumes "distinct (entry_ids obs)" and "gm_get obs c = Some e" and "gm_ok obs"
  shows "ech e \<notin> set (entry_ids (gm_del c obs))"
proof
  assume "ech e \<in> set (entry_ids (gm_del c obs))"
  then obtain k e' where k: "(k, e') \<in> set obs" "k \<noteq> c" "ech e' = ech e"
    by (auto simp: entry_ids_def AList.delete_eq)
  from assms(2) have "(c, e) \<in> set obs" by (rule map_of_SomeD)
  with k assms(1) show False by (auto simp: entry_ids_def distinct_map inj_on_def)
qed

lemma length_evicted [simp]: "length (evicted ms c) = length (chans ms)"
  by (simp add: evicted_def split: option.split)

lemma remaining_id:
  assumes "session_ok ms" and "i \<in> set (entry_ids (gm_del c (observers ms)))"
  shows "i < length (chans ms)" and "chClosed (chans ms ! i) = liveClosed ms"
  using assms delete_ids [of "observers ms" c] by (auto simp: session_ok_defs)

lemma evicted_nth:
  assumes "session_ok ms" and i: "i \<in> set (entry_ids (gm_del c (observers ms)))"
  shows "evicted ms c ! i = chans ms ! i"
proof (cases "gm_get (observers ms) c")
  case None
  then show ?thesis by (simp add: evicted_def)
next
  case (Some e)
  have "distinct (entry_ids (observers ms))" "gm_ok (observers ms)" using assms(1) by (simp_all add: session_ok_defs)
  with Some have "ech e \<noteq> i" using i delete_id_gone by blast
  with Some show ?thesis by (simp add: evicted_def)
qed

lemma evicted_queue:
  assumes "session_ok ms" and "c' \<in> set (evicted ms c)"
  shows "length (chQueue c') \<le> live_capacity"
proof (cases "gm_get (observers ms) c")
  case None
  with assms show ?thesis by (simp add: evicted_def session_ok_defs)
next
  case (Some e)
  from assms(1) map_of_SomeD [OF Some] have "ech e < length (chans ms)"
    by (fastforce simp: session_ok_defs entry_ids_def)
  then have "chans ms ! ech e \<in> set (chans ms)" by simp
  moreover have "c' \<in> set (chans ms) \<or> c' = (chans ms ! ech e)\<lparr>chClosed := True\<rparr>"
    using assms(2) Some set_update_subset_insert by (fastforce simp: evicted_def)
  ultimately show ?thesis using assms(1) by (auto simp: session_ok_defs)
qed

lemma attach_chans_ok:
  assumes ok: "session_ok ms" and "\<not> liveClosed ms"
    and obs: "observers ms' = gm_put c \<lparr>ech = length (chans ms), role = r\<rparr> (gm_del c (observers ms))"
    and ch: "chans ms' = evicted ms c @ [\<lparr>chQueue = [], chClosed = False\<rparr>]"
    and live: "liveClosed ms' = liveClosed ms"
  shows "chans_ok ms'"
proof -
  let ?old = "entry_ids (gm_del c (observers ms))"
  have ids: "entry_ids (observers ms') = ?old @ [length (chans ms)]"
    by (simp add: obs put_absent gomap_simps entry_ids_def)
  have "distinct (entry_ids (observers ms))" using ok by (simp add: session_ok_defs)
  then have "distinct (entry_ids (observers ms'))"
    using delete_ids_distinct remaining_id [OF ok] by (fastforce simp: ids)
  moreover have "i < length (chans ms') \<and> chClosed (chans ms' ! i) = liveClosed ms'"
    if "i \<in> set (entry_ids (observers ms'))" for i
    using that assms(2) remaining_id [OF ok, of i c] evicted_nth [OF ok, of i c]
    by (auto simp: ids ch live nth_append)
  moreover have "length (chQueue d) \<le> live_capacity" if "d \<in> set (chans ms')" for d
    using that evicted_queue [OF ok, of d c] by (auto simp: ch)
  ultimately show ?thesis by (simp add: chans_ok_def)
qed

lemma attach_ok:
  assumes ok: "session_ok ms" and c: "c \<noteq> []" and ret: "attachLocked V now ms c a r = Ret (res, ms', eff)"
  shows "session_ok ms'"
  using ok
proof (cases rule: attach_cases [where V = V and now = now and c = c and a = a and r = r])
  case same
  with ok ret show ?thesis by simp
next
  case (late st ms2 eff2)
  with ret have "ms' = ms2" by simp
  with late ok show ?thesis
    by (auto simp: session_ok_def chans_ok_def writer_ok_def live_ok_def loops_ok_def attach_info_def loop_view_def c split: if_splits)
next
  case panic
  with ret show ?thesis by simp
next
  case (fresh st ms2 eff2)
  with ret have eq: "ms' = ms2" by simp
  have lv: "loop_view ms2 = loop_view ms" "cancelled ms2 = cancelled ms" using fresh(4) by (simp_all add: attach_info_def)
  have "chans_ok ms2" using attach_chans_ok [OF ok fresh(2,5,6)] lv(1) by (simp add: loop_view_def)
  moreover have "writer_ok ms2"
    using ok fresh(4,5) c by (auto simp: session_ok_def writer_ok_def attach_info_def gomap_simps split: if_splits)
  moreover have "live_ok ms2"
    using ok fresh(4,5) c lv by (auto simp: session_ok_def live_ok_def attach_info_def loop_view_def gomap_simps split: if_splits)
  moreover have "loops_ok ms2"
    using ok fresh(3) lv by (auto simp: session_ok_def loops_ok_def loop_view_def)
  ultimately show ?thesis by (simp add: session_ok_def eq)
qed

section \<open>Steps and reachable states\<close>

text \<open>
  One rule per critical section. A reader rule is enabled until its loop has returned, \<open>waitLoop\<close>
  once the reader is done, and the recovery rules for recovered processes; every client operation is
  enabled at any time, with a client identifier that is not empty, as the server checks. \<open>Receive\<close> is
  a client taking a chunk from its channel. A panic has no successor: it ends the daemon.
\<close>

inductive session_step :: "vt \<Rightarrow> managedSession \<Rightarrow> managedSession \<Rightarrow> bool" for V where
  Read: "\<not> readerDone ms \<Longrightarrow> \<not> recovered ms \<Longrightarrow> \<not> streamJSON ms \<Longrightarrow>
    readLoop V now ms dat err = Ret (ms', eff, fin) \<Longrightarrow> session_step V ms ms'"
| ReadStream: "\<not> readerDone ms \<Longrightarrow> \<not> recovered ms \<Longrightarrow> streamJSON ms \<Longrightarrow>
    readLoopStreamJSON V unmarshal now ms line err = Ret (ms', eff, fin) \<Longrightarrow> session_step V ms ms'"
| Wait: "readerDone ms \<Longrightarrow> \<not> waited ms \<Longrightarrow> session_step V ms (fst (waitLoop now ms res))"
| StopStep: "session_step V ms (fst (stopLocked ms force))"
| RecoveredGone: "recovered ms \<Longrightarrow> session_step V ms (fst (recovered_stopped now ms))"
| Monitor: "recovered ms \<Longrightarrow> session_step V ms (fst (monitorRecoveredProcess alive now ms))"
| Write: "session_step V ms (fst (snd (writeInputLocked now ms c dat wr)))"
| ResizeStep: "resizeLocked V now ms c cols rows ss = Ret (r, ms', eff) \<Longrightarrow> session_step V ms ms'"
| AttachStep: "c \<noteq> '''' \<Longrightarrow> attachLocked V now ms c after r = Ret (res, ms', eff) \<Longrightarrow> session_step V ms ms'"
| DetachStep: "session_step V ms (fst (snd (detachLocked ms c)))"
| Claim: "c \<noteq> '''' \<Longrightarrow> session_step V ms (snd (claimWriterLocked ms c force))"
| Release: "session_step V ms (snd (releaseWriterLocked ms c))"
| Interact: "session_step V ms (fst (updateInteractionLocked now ms nxt))"
| Fanout: "fanoutControlEvent ms ctype payload = Ret ms' \<Longrightarrow> session_step V ms ms'"
| Receive: "gm_get (observers ms) c = Some e \<Longrightarrow> chQueue (chans ms ! ech e) = x # xs \<Longrightarrow>
    session_step V ms (ms\<lparr>chans := (chans ms)[ech e := (chans ms ! ech e)\<lparr>chQueue := xs\<rparr>]\<rparr>)"

inductive reachable :: "vt \<Rightarrow> managedSession \<Rightarrow> bool" for V where
  Started: "reachable V (startedSession bs p cfg now pid)"
| RecoveredS: "reachable V (recoveredSession bs i cs now)"
| Step: "reachable V ms \<Longrightarrow> session_step V ms ms' \<Longrightarrow> reachable V ms'"

lemma receive_ok:
  assumes "session_ok ms" and "gm_get (observers ms) c = Some e" and "chQueue (chans ms ! ech e) = x # xs"
  shows "session_ok (ms\<lparr>chans := (chans ms)[ech e := (chans ms ! ech e)\<lparr>chQueue := xs\<rparr>]\<rparr>)"
proof -
  from assms(1) map_of_SomeD [OF assms(2)] have i: "ech e < length (chans ms)"
    by (fastforce simp: session_ok_defs entry_ids_def)
  have "length (chQueue (chans ms ! ech e)) \<le> live_capacity"
    using assms(1) nth_mem [OF i] by (simp only: session_ok_def chans_ok_def)
  then have len: "length xs \<le> live_capacity" using assms(3) by simp
  have "chans_ok (ms\<lparr>chans := (chans ms)[ech e := (chans ms ! ech e)\<lparr>chQueue := xs\<rparr>]\<rparr>)"
    using assms(1) len i set_update_subset_insert [of "chans ms" "ech e" "(chans ms ! ech e)\<lparr>chQueue := xs\<rparr>"]
    by (auto simp: session_ok_defs nth_list_update)
  then show ?thesis using assms(1) by (auto simp: session_ok_def writer_ok_def live_ok_def loops_ok_def countObservers_def)
qed

lemma reader_resultD:
  "reader_result ms (Ret (ms', eff, fin)) \<Longrightarrow> session_ok ms'"
  by (auto simp: reader_result_def)

lemma session_step_ok: "session_step V ms ms' \<Longrightarrow> session_ok ms \<Longrightarrow> session_ok ms'"
proof (induction rule: session_step.induct)
  case (Read ms now dat err ms' eff fin)
  then show ?case using readLoop_ok [of ms V now dat err] by (auto dest: reader_resultD)
next
  case (ReadStream ms unmarshal now line err ms' eff fin)
  then show ?case using readLoopStreamJSON_ok [of ms V unmarshal now line err] by (auto dest: reader_resultD)
next
  case (ResizeStep now ms c cols rows ss r ms' eff)
  then show ?case using resize_ok [of ms V now c cols rows ss] by auto
next
  case (Fanout ms ctype payload ms')
  then show ?case using fanout_ok [of ms ctype payload] by auto
qed (simp_all add: waitLoop_ok stopLocked_ok recovered_stopped_ok monitor_ok writeInput_ok detach_ok claimWriter_ok
    releaseWriter_ok updateInteraction_ok receive_ok attach_ok del: session_ok_info)

lemma reachable_ok: "reachable V ms \<Longrightarrow> session_ok ms"
  by (induction rule: reachable.induct) (auto intro: startedSession_ok recoveredSession_ok session_step_ok)

end
