(* ===== verification/Session_Properties.thy ===== *)
theory Session_Properties
  imports Session_Invariants
begin

text \<open>
  What the invariant of \<open>Session_Invariants\<close> gives for the clients of a session: who may write, what
  an attached client sees, when a channel operation can panic, how the lifecycle state moves and when
  a structured response reaches the provider.
\<close>

inductive_simps session_step_simps: "session_step V ms ms'"

section \<open>The writer slot\<close>

text \<open>
  C1. Whatever the clients, the reader, the process and \<open>Stop\<close> have done to a session, at most one
  attached client has the writer role and it is the session's active writer; the metadata agrees
  with the slot; the observer count counts the read-only clients; and while output is live the
  active writer is attached.
\<close>

theorem single_writer:
  assumes "reachable V ms"
  shows "(\<forall>c e c' e'. gm_get (observers ms) c = Some e \<longrightarrow> role e = AttachRoleWriter \<longrightarrow>
            gm_get (observers ms) c' = Some e' \<longrightarrow> role e' = AttachRoleWriter \<longrightarrow>
            c = c' \<and> c = ActiveWriterClientID (info ms)) \<and>
         (Attached (info ms) \<longleftrightarrow> ActiveWriterClientID (info ms) \<noteq> '''') \<and>
         AttachedClientID (info ms) = ActiveWriterClientID (info ms) \<and>
         ObserverCount (info ms) = int (card {c. \<exists>e. gm_get (observers ms) c = Some e \<and> role e = AttachRoleObserver}) \<and>
         (\<not> liveClosed ms \<longrightarrow> ActiveWriterClientID (info ms) \<noteq> '''' \<longrightarrow>
            gm_get (observers ms) (ActiveWriterClientID (info ms)) \<noteq> None)"
proof -
  have ok: "session_ok ms" using assms by (rule reachable_ok)
  then have gm: "gm_ok (observers ms)" by (simp add: session_ok_def writer_ok_def)
  have "{c. \<exists>e. gm_get (observers ms) c = Some e \<and> role e = AttachRoleObserver} =
      fst ` set (filter (\<lambda>(_, e). role e = AttachRoleObserver) (observers ms))"
    using gm_mem_get [OF gm] by (force simp: image_iff)
  also have "card \<dots> = length (filter (\<lambda>(_, e). role e = AttachRoleObserver) (observers ms))"
    using distinct_card [OF distinct_map_filter [OF gm], of "\<lambda>(_, e). role e = AttachRoleObserver"] by simp
  finally have "ObserverCount (info ms) =
      int (card {c. \<exists>e. gm_get (observers ms) c = Some e \<and> role e = AttachRoleObserver})"
    using ok by (simp add: session_ok_def writer_ok_def countObservers_def)
  moreover have "c = c' \<and> c = ActiveWriterClientID (info ms)"
    if "gm_get (observers ms) c = Some e" "role e = AttachRoleWriter"
      "gm_get (observers ms) c' = Some e'" "role e' = AttachRoleWriter" for c e c' e'
    using ok that unfolding session_ok_def writer_ok_def by blast
  moreover have "Attached (info ms) \<longleftrightarrow> ActiveWriterClientID (info ms) \<noteq> ''''"
      "AttachedClientID (info ms) = ActiveWriterClientID (info ms)"
    using ok by (simp_all add: session_ok_def writer_ok_def)
  moreover have "\<not> liveClosed ms \<longrightarrow> ActiveWriterClientID (info ms) \<noteq> '''' \<longrightarrow>
      gm_get (observers ms) (ActiveWriterClientID (info ms)) \<noteq> None"
    using ok by (simp add: session_ok_def live_ok_def)
  ultimately show ?thesis by blast
qed

text \<open>A concrete session with two clients, for the witnesses.\<close>

definition demo_vt :: vt where
  "demo_vt = \<lparr>vtPipe = True, vtBody = (\<lambda>_. Some [])\<rparr>"

definition demo_cfg :: SessionConfig where
  "demo_cfg = \<lparr>CfgProjectID = ''p'', CfgSessionID = ''s'', CfgRepoPath = ''/r'', Options = [], Env = None,
     Fallbacks = [], InitialCols = 80, InitialRows = 24\<rparr>"

definition demo_session :: managedSession where
  "demo_session = startedSession 1024 (plainProvider ''p'') demo_cfg 0 7"

fun ret_state :: "('a \<times> managedSession \<times> 'b) outcome \<Rightarrow> managedSession" where
  "ret_state (Ret (_, ms, _)) = ms"
| "ret_state Panic = demo_session"

definition demo_attached :: managedSession where
  "demo_attached = ret_state (attachLocked demo_vt 2 (ret_state (attachLocked demo_vt 1 demo_session ''w'' 0 AttachRoleWriter))
     ''o'' 0 AttachRoleObserver)"

lemmas demo_simps = demo_vt_def demo_cfg_def demo_session_def demo_attached_def startedSession_def zeroInfo_def
  zeroInteraction_def plainProvider_def interactionCapabilitiesFor_def noCapabilities_def newLiveScreen_def
  attachLocked_def NewByteBuffer_def Let_def countObservers_def checkpoint_def OldestSeq_def LastSeq_def After_def

lemma demo_attached_reachable: "reachable demo_vt demo_attached"
proof -
  have 0: "reachable demo_vt demo_session" unfolding demo_session_def by (rule Started)
  obtain r1 ms1 e1 where 1: "attachLocked demo_vt 1 demo_session ''w'' 0 AttachRoleWriter = Ret (r1, ms1, e1)"
    by (simp add: demo_simps)
  have r1: "reachable demo_vt ms1" by (rule Step [OF 0 AttachStep [OF _ 1]]) simp
  obtain r2 ms2 e2 where 2: "attachLocked demo_vt 2 ms1 ''o'' 0 AttachRoleObserver = Ret (r2, ms2, e2)"
    using 1 by (auto simp: demo_simps)
  have "reachable demo_vt ms2" by (rule Step [OF r1 AttachStep [OF _ 2]]) simp
  with 1 2 show ?thesis by (simp add: demo_attached_def)
qed

theorem single_writer_witness:
  "ActiveWriterClientID (info demo_attached) = ''w'' \<and> ObserverCount (info demo_attached) = 1 \<and>
   gm_get (observers demo_attached) ''w'' \<noteq> None \<and> AttachedClientID (info demo_attached) = ''w''"
proof -
  have w: "ActiveWriterClientID (info demo_attached) = ''w''" "\<not> liveClosed demo_attached" 
    "ObserverCount (info demo_attached) = 1"
    by (simp_all add: demo_simps)
  from single_writer [OF demo_attached_reachable] w show ?thesis by simp
qed

section \<open>Input\<close>

text \<open>
  C9. \<open>WriteInput\<close> hands bytes to the process of a session exactly when the session is not a
  recovered one, is running or attached, and the caller is its active writer; then it hands over
  exactly the caller's bytes, once, after the telemetry observer has seen the same bytes, and
  otherwise it reports an error and leaves the session unchanged.
\<close>

theorem writeInput_only_writer:
  assumes "reachable V ms" and "c \<noteq> ''''"
  shows "let accepted = (\<not> recovered ms \<and> State (info ms) \<in> {SessionStateRunning, SessionStateAttached} \<and>
                         Attached (info ms) \<and> AttachedClientID (info ms) = c);
             (r, ms', eff) = writeInputLocked now ms c dat wr
         in (if accepted
             then r = wr \<and> ms' = ms\<lparr>lastActivity := now\<rparr> \<and>
                  (\<exists>ts. tsSessionID ts = SessionID (info ms) \<and>
                     eff = [TelInput ts dat, (if streamJSON ms then WriteStdin else WritePty) (SessionID (info ms)) dat])
             else fst r = 0 \<and> snd r \<noteq> None \<and> ms' = ms \<and> eff = []) \<and>
            (accepted \<longrightarrow> \<not> liveClosed ms \<longrightarrow> gm_get (observers ms) c \<noteq> None)"
proof -
  have ok: "session_ok ms" using assms(1) by (rule reachable_ok)
  then have slot: "Attached (info ms) \<longleftrightarrow> ActiveWriterClientID (info ms) \<noteq> ''''"
      "AttachedClientID (info ms) = ActiveWriterClientID (info ms)"
      "\<not> liveClosed ms \<longrightarrow> ActiveWriterClientID (info ms) \<noteq> '''' \<longrightarrow>
         gm_get (observers ms) (ActiveWriterClientID (info ms)) \<noteq> None"
    by (simp_all add: session_ok_def writer_ok_def live_ok_def)
  have "tsSessionID (telemetrySessionLocked ms) = SessionID (info ms)" by (simp add: telemetrySessionLocked_def)
  with slot assms(2) show ?thesis
    by (auto simp: writeInputLocked_def Let_def)
qed

theorem writeInput_only_writer_witness:
  "snd (snd (writeInputLocked 3 demo_attached ''o'' [65] (1, None))) = [] \<and>
   (\<exists>ts. snd (snd (writeInputLocked 3 demo_attached ''w'' [65] (1, None))) = [TelInput ts [65], WritePty ''s'' [65]])"
proof -
  have s: "AttachedClientID (info demo_attached) = ''w''" "State (info demo_attached) = SessionStateAttached"
      "Attached (info demo_attached)" "\<not> recovered demo_attached" "\<not> streamJSON demo_attached"
      "SessionID (info demo_attached) = ''s''"
    by (simp_all add: demo_simps)
  from writeInput_only_writer [OF demo_attached_reachable, of "''o''" 3 "[65]" "(1, None)"]
    writeInput_only_writer [OF demo_attached_reachable, of "''w''" 3 "[65]" "(1, None)"] s
  show ?thesis by (auto simp: Let_def case_prod_beta)
qed

section \<open>Panics\<close>

text \<open>
  C11. In every reachable state no channel operation of the readers, of \<open>Resize\<close> or of a control
  event panics, whatever the reader reads. \<open>Attach\<close> panics in exactly one situation: the session's output
  has been closed and a client with the same identifier is still registered.
\<close>

theorem channel_panics:
  assumes "reachable V ms"
  shows "(\<not> readerDone ms \<longrightarrow> \<not> recovered ms \<longrightarrow>
            readLoop V now ms dat err \<noteq> Panic \<and> readLoopStreamJSON V unmarshal now ms line err \<noteq> Panic) \<and>
         resizeLocked V now ms c cols rows ss \<noteq> Panic \<and>
         fanoutControlEvent ms ctype payload \<noteq> Panic \<and>
         (attachLocked V now ms c after r = Panic \<longleftrightarrow>
            liveClosed ms \<and> gm_get (observers ms) c \<noteq> None \<and> \<not> (r = AttachRoleWriter \<and> Attached (info ms)))"
proof -
  have ok: "session_ok ms" using assms by (rule reachable_ok)
  have "readLoop V now ms dat err \<noteq> Panic \<and> readLoopStreamJSON V unmarshal now ms line err \<noteq> Panic"
    if "\<not> readerDone ms" "\<not> recovered ms"
    using readLoop_ok [OF ok that, of V now dat err] readLoopStreamJSON_ok [OF ok that, of V unmarshal now line err]
    by (auto simp: reader_result_def)
  moreover have "resizeLocked V now ms c cols rows ss \<noteq> Panic"
    using resize_ok [OF ok, of V now c cols rows ss] by auto
  moreover have "fanoutControlEvent ms ctype payload \<noteq> Panic"
    using fanout_ok [OF ok, of ctype payload] by auto
  moreover have slot: "Attached (info ms) \<longleftrightarrow> ActiveWriterClientID (info ms) \<noteq> ''''"
      "recovered ms \<longrightarrow> \<not> liveClosed ms"
    using ok by (simp_all add: session_ok_def writer_ok_def loops_ok_def)
  moreover have "attachLocked V now ms c after r = Panic \<longleftrightarrow>
      liveClosed ms \<and> gm_get (observers ms) c \<noteq> None \<and> \<not> (r = AttachRoleWriter \<and> Attached (info ms))"
    using ok
  proof (cases rule: attach_cases [where V = V and now = now and c = c and a = after and r = r])
    case same
    then show ?thesis using slot by auto
  next
    case panic
    then have "\<not> (r = AttachRoleWriter \<and> ActiveWriterClientID (info ms) \<noteq> '''')"
      by (auto simp: attachLocked_def Let_def split: if_splits)
    with panic slot show ?thesis by auto
  qed auto
  ultimately show ?thesis by blast
qed

text \<open>The demo session after its process closed the terminal.\<close>

definition demo_closed :: managedSession where
  "demo_closed = (case readLoop demo_vt 3 demo_attached [] (Some EOF) of Ret (ms, _) \<Rightarrow> ms | Panic \<Rightarrow> demo_session)"

lemma demo_closed_simps:
  "liveClosed demo_closed" "readerDone demo_closed" "\<not> waited demo_closed" "\<not> recovered demo_closed"
  "gm_get (observers demo_closed) ''o'' \<noteq> None" "gm_get (observers demo_closed) ''x'' = None"
  by (simp_all add: demo_closed_def readLoop_def reader_exit_def closeLive_def signalReaderDone_def demo_simps close_chan_def)

lemma demo_closed_reachable: "reachable demo_vt demo_closed"
proof -
  obtain ms eff fin where r: "readLoop demo_vt 3 demo_attached [] (Some EOF) = Ret (ms, eff, fin)"
    using readLoop_ok [OF reachable_ok [OF demo_attached_reachable], of demo_vt 3 "[]" "Some EOF"]
    by (auto simp: reader_result_def demo_simps)
  then have "session_step demo_vt demo_attached ms"
    by (rule session_step.Read [rotated 3]) (simp_all add: demo_simps)
  with r show ?thesis using Step [OF demo_attached_reachable] by (simp add: demo_closed_def)
qed

theorem channel_panics_witness:
  "attachLocked demo_vt 4 demo_closed ''o'' 0 AttachRoleObserver = Panic \<and>
   attachLocked demo_vt 4 demo_closed ''x'' 0 AttachRoleObserver \<noteq> Panic"
  using channel_panics [OF demo_closed_reachable, where r = AttachRoleObserver and now = 4 and after = 0 and c = "''o''"]
    channel_panics [OF demo_closed_reachable, where r = AttachRoleObserver and now = 4 and after = 0 and c = "''x''"]
    demo_closed_simps
  by simp

section \<open>The stream an attached client sees\<close>

fun append_many :: "vt \<Rightarrow> managedSession \<Rightarrow> (go_time \<times> bytes \<times> ChunkType) list \<Rightarrow> managedSession outcome" where
  "append_many V ms [] = Ret ms"
| "append_many V ms ((now, p, t) # ps) =
     outcome_bind (appendChunkLocked V now ms p t) (\<lambda>(ms1, eff). append_many V ms1 ps)"

lemma AppendSized_chunk:
  "AppendSized now b p t cols rows = (chunk, b') \<Longrightarrow> Seq chunk = nextSeq b \<and> Payload chunk = p \<and> Type chunk = t \<and> nextSeq b' = nextSeq b + 1"
  by (auto simp: AppendSized_def Let_def notifyLocked_def split: prod.splits)

lemma appendChunkLocked_live:
  assumes "session_ok ms" and "\<not> liveClosed ms"
  obtains ms' eff chunk where "appendChunkLocked V now ms p t = Ret (ms', eff)" and "session_ok ms'"
    and "\<not> liveClosed ms'" and "observers ms' = observers ms" and "chans ms' = fan ms chunk"
    and "nextSeq (buf ms') = nextSeq (buf ms) + 1"
    and "Seq chunk = nextSeq (buf ms)" and "Payload chunk = p" and "Type chunk = t"
    and "eff = [PersistChunk (SessionID (info ms)) chunk]"
proof -
  obtain chunk b where ap: "AppendSized now (buf ms) p t (InfoCols (info ms)) (InfoRows (info ms)) = (chunk, b)"
    by (cases "AppendSized now (buf ms) p t (InfoCols (info ms)) (InfoRows (info ms))")
  note ch = AppendSized_chunk [OF ap]
  obtain ms' eff where r: "appendChunkLocked V now ms p t = Ret (ms', eff)" "session_ok ms'"
    using appendChunkLocked_ok [OF assms(1), of V now p t] by blast
  moreover from r(1) have "\<not> liveClosed ms'" "observers ms' = observers ms" "chans ms' = fan ms chunk" "buf ms' = b"
      "eff = [PersistChunk (SessionID (info ms)) chunk]"
    using assms by (auto simp: appendChunkLocked_def ap send_all_fan Let_def)
  ultimately show thesis using ch that by auto
qed

lemma fan_queue:
  "i \<in> set (entry_ids (observers ms)) \<Longrightarrow> i < length (chans ms) \<Longrightarrow> length (chQueue (chans ms ! i)) < live_capacity \<Longrightarrow>
   chQueue (fan ms chunk ! i) = chQueue (chans ms ! i) @ [chunk]"
  by (simp add: fan_def push_def)

lemma append_many_queue:
  assumes "session_ok ms" and "\<not> liveClosed ms" and "i \<in> set (entry_ids (observers ms))"
    and "length (chQueue (chans ms ! i)) + length ps \<le> live_capacity"
  shows "\<exists>ms' q. append_many V ms ps = Ret ms' \<and> chQueue (chans ms' ! i) = chQueue (chans ms ! i) @ q \<and>
    map Payload q = map (fst \<circ> snd) ps \<and> map Type q = map (snd \<circ> snd) ps \<and>
    map Seq q = map (\<lambda>k. nextSeq (buf ms) + of_nat k) [0..<length ps]"
  using assms
proof (induction ps arbitrary: ms)
  case Nil
  then show ?case by simp
next
  case (Cons x ps)
  obtain now p t where x: "x = (now, p, t)" by (cases x)
  obtain ms1 eff chunk where a: "appendChunkLocked V now ms p t = Ret (ms1, eff)" "session_ok ms1" "\<not> liveClosed ms1"
      "observers ms1 = observers ms" "chans ms1 = fan ms chunk" "nextSeq (buf ms1) = nextSeq (buf ms) + 1"
      "Seq chunk = nextSeq (buf ms)" "Payload chunk = p" "Type chunk = t"
    by (rule appendChunkLocked_live [OF Cons.prems(1,2), of V now p t])
  have "i < length (chans ms)" using Cons.prems(1,3) by (simp add: session_ok_defs)
  then have q1: "chQueue (chans ms1 ! i) = chQueue (chans ms ! i) @ [chunk]"
    using fan_queue [OF Cons.prems(3)] Cons.prems(4) a(5) by simp
  then have "\<exists>ms' q. append_many V ms1 ps = Ret ms' \<and> chQueue (chans ms' ! i) = chQueue (chans ms1 ! i) @ q \<and>
      map Payload q = map (fst \<circ> snd) ps \<and> map Type q = map (snd \<circ> snd) ps \<and>
      map Seq q = map (\<lambda>k. nextSeq (buf ms1) + of_nat k) [0..<length ps]"
    using a Cons.prems by (intro Cons.IH) simp_all
  then obtain ms' q where q: "append_many V ms1 ps = Ret ms'" "chQueue (chans ms' ! i) = chQueue (chans ms1 ! i) @ q"
      "map Payload q = map (fst \<circ> snd) ps" "map Type q = map (snd \<circ> snd) ps"
      "map Seq q = map (\<lambda>k. nextSeq (buf ms1) + of_nat k) [0..<length ps]" by blast
  have "map Seq (chunk # q) = map (\<lambda>k. nextSeq (buf ms) + of_nat k) [0..<length (x # ps)]"
    using q(5) a(6,7) by (simp add: upt_rec [of 0] add.assoc map_Suc_upt [symmetric] o_def del: upt_Suc)
  with q q1 a show ?case
    by (intro exI [of _ ms'] exI [of _ "chunk # q"]) (simp add: x)
qed

text \<open>
  C3. A client that attaches to a session with live output gets, in its channel, every later chunk
  exactly once and in order, starting at the sequence number right after the \<open>LastSeq\<close> it was
  told, as long as it is at most 128 chunks behind: between the replay and the live channel nothing is
  lost and nothing is delivered twice.
\<close>

theorem attach_stream:
  assumes "reachable V ms" and "\<not> liveClosed ms" and "c \<noteq> ''''"
    and "attachLocked V now ms c after r = Ret (Inr st, ms1, eff)" and "Live st = Some ch"
    and "length ps \<le> 128"
  shows "Replay st = After (buf ms) after \<and>
         (\<exists>ms2. append_many V ms1 ps = Ret ms2 \<and>
            map Payload (chQueue (chans ms2 ! ch)) = map (fst \<circ> snd) ps \<and>
            map Type (chQueue (chans ms2 ! ch)) = map (snd \<circ> snd) ps \<and>
            map Seq (chQueue (chans ms2 ! ch)) = map (\<lambda>k. AsLastSeq st + 1 + of_nat k) [0..<length ps])"
proof -
  have ok: "session_ok ms" using assms(1) by (rule reachable_ok)
  have ok1: "session_ok ms1" using attach_ok [OF ok _ assms(4)] assms(3) by simp
  from assms(4) have st: "Replay st = After (buf ms) after" "AsLastSeq st = LastSeq (buf ms)"
    by (auto simp: attachLocked_def Let_def split: if_splits option.splits outcome.splits prod.splits
        elim!: outcome_bind.elims)
  have "\<not> liveClosed ms1 \<and> ch \<in> set (entry_ids (observers ms1)) \<and> chQueue (chans ms1 ! ch) = [] \<and> buf ms1 = buf ms"
    using ok
  proof (cases rule: attach_cases [where V = V and now = now and c = c and a = after and r = r])
    case same
    then have "Live st = None" using assms(4) by (auto simp: attachLocked_def Let_def split: if_splits)
    with assms(5) show ?thesis by simp
  next
    case (fresh st' ms' eff')
    with assms(4,5) have "ms' = ms1" "ch = length (chans ms)" by auto
    with fresh assms(2) show ?thesis
      by (auto simp: attach_info_def loop_view_def put_absent gomap_simps entry_ids_def nth_append)
  qed (use assms in auto)
  then show ?thesis
    using append_many_queue [OF ok1, of ch ps V] assms(6) st by (simp add: live_capacity_def LastSeq_def)
qed

theorem attach_stream_witness:
  "\<exists>st ms1 eff ms2. attachLocked demo_vt 1 demo_session ''w'' 0 AttachRoleWriter = Ret (Inr st, ms1, eff) \<and>
     Live st = Some 0 \<and> append_many demo_vt ms1 [(2, [65], ChunkTypeOutput), (3, [66], ChunkTypeOutput)] = Ret ms2 \<and>
     map Seq (chQueue (chans ms2 ! 0)) = [1, 2]"
proof -
  obtain st ms1 eff where a: "attachLocked demo_vt 1 demo_session ''w'' 0 AttachRoleWriter = Ret (Inr st, ms1, eff)"
      "Live st = Some 0" "AsLastSeq st = 0"
    by (simp add: demo_simps)
  have r: "reachable demo_vt demo_session" unfolding demo_session_def by (rule Started)
  have "\<not> liveClosed demo_session" "''w'' \<noteq> ''''" "length [(2 :: int, [65 :: byte], ChunkTypeOutput), (3, [66], ChunkTypeOutput)] \<le> 128"
    by (simp_all add: demo_simps)
  from attach_stream [OF r this(1,2) a(1,2) this(3)] a show ?thesis by (auto simp: upt_rec)
qed

section \<open>Lifecycle\<close>

text \<open>
  C22. Once \<open>waitLoop\<close> has recorded the exit of the process in a terminal state, the exit code and the
  end of the session stay as they are, and one step of anything but an attach by a new writer leaves
  the session in the same terminal state; after such an attach the session is marked attached again,
  although its process is gone.
\<close>

theorem terminal_step:
  assumes "reachable V ms" and "waited ms" and "terminal_state (State (info ms))" and "session_step V ms ms'"
  shows "waited ms' \<and> ExitCode (info ms') = ExitCode (info ms) \<and> StoppedAt (info ms') = StoppedAt (info ms) \<and>
         (State (info ms') = State (info ms) \<or>
          State (info ms') = SessionStateAttached \<and> \<not> Attached (info ms) \<and> Attached (info ms'))"
proof -
  have ok: "session_ok ms" using assms(1) by (rule reachable_ok)
  have rd: "readerDone ms" and lc: "liveClosed ms" and nr: "\<not> recovered ms"
    using ok assms(2) by (auto simp: session_ok_def loops_ok_def)
  have slot: "ActiveWriterClientID (info ms) = '''' \<Longrightarrow> \<not> Attached (info ms)"
    using ok by (simp add: session_ok_def writer_ok_def)
  from assms(4) show ?thesis
  proof (cases rule: session_step.cases)
    case (StopStep force)
    then show ?thesis using assms(2,3) by (auto simp: stopLocked_def)
  next
    case (Write now c dat wr)
    then show ?thesis using assms(2) by (simp add: writeInputLocked_def)
  next
    case (ResizeStep now c cols rows ss r eff)
    then show ?thesis using assms(2) lc
      by (auto simp: resizeLocked_def Let_def appendChunkLocked_def split: if_splits option.splits)
  next
    case (AttachStep c now after r res eff)
    from ok show ?thesis
    proof (cases rule: attach_cases [where V = V and now = now and c = c and a = after and r = r])
      case (late st ms2 eff2)
      then have "ms2 = ms'" using AttachStep by simp
      with AttachStep late assms(2,3) nr lc slot show ?thesis
        by (cases "checkpoint V (screen ms) (LastSeq (buf ms))") (auto simp: attachLocked_def Let_def split: if_splits)
    qed (use AttachStep assms(2) lc in auto)
  next
    case (DetachStep c)
    then show ?thesis using assms(2,3) by (auto simp: detachLocked_def Let_def split: option.splits)
  next
    case (Claim c force)
    then show ?thesis using assms(2,3) by (auto simp: claimWriterLocked_def Let_def)
  next
    case (Release c)
    then show ?thesis using assms(2,3) by (auto simp: releaseWriterLocked_def Let_def)
  next
    case (Interact now nxt)
    then show ?thesis using assms(2) by (simp add: updateInteractionLocked_def Let_def)
  next
    case (Fanout ctype payload)
    then show ?thesis using assms(2) lc by (simp add: fanoutControlEvent_def Let_def)
  qed (use rd nr assms(2) in auto)
qed

text \<open>The demo session after its process exited with code 3.\<close>

definition demo_exited :: managedSession where
  "demo_exited = fst (waitLoop 5 (fst (snd (detachLocked demo_closed ''w''))) (WaitExit 3 ''exit status 3''))"

lemma demo_exited_reachable: "reachable demo_vt demo_exited"
proof -
  have "reachable demo_vt (fst (snd (detachLocked demo_closed ''w'')))"
    by (rule Step [OF demo_closed_reachable DetachStep])
  moreover have "readerDone (fst (snd (detachLocked demo_closed ''w'')))" "\<not> waited (fst (snd (detachLocked demo_closed ''w'')))"
    using demo_closed_simps by (auto simp: detachLocked_def Let_def split: option.splits)
  ultimately show ?thesis unfolding demo_exited_def by (blast intro: Step Wait)
qed

lemma demo_exited_simps:
  "waited demo_exited" "State (info demo_exited) = SessionStateFailed" "ExitCode (info demo_exited) = 3"
  "StoppedAt (info demo_exited) = 5"
  by (simp_all add: demo_exited_def waitLoop_def detachLocked_def demo_closed_def readLoop_def reader_exit_def closeLive_def
      signalReaderDone_def demo_simps close_chan_def)

theorem terminal_step_witness:
  "ExitCode (info (fst (stopLocked demo_exited True))) = 3 \<and>
   State (info (fst (stopLocked demo_exited True))) \<in> {SessionStateFailed, SessionStateAttached}"
  using terminal_step [OF demo_exited_reachable _ _ StopStep [of _ _ True]] demo_exited_simps by auto

text \<open>
  A graceful \<open>Stop\<close> of a session with no writer is not final: a client that attaches as writer
  before the process exits moves the session from stopping back to attached, so that the grace
  timer of that \<open>Stop\<close> no longer kills the process, and its later non-zero exit is recorded as a failure
  instead of a stop.
\<close>

theorem attach_cancels_stop:
  assumes "reachable V ms" and "\<not> recovered ms" and "\<not> liveClosed ms" and "\<not> Attached (info ms)"
    and "\<not> terminal_state (State (info ms))" and "c \<noteq> ''''" and "0 < cmdPid ms"
  shows "\<exists>st ms' eff. attachLocked V now (fst (stopLocked ms False)) c after AttachRoleWriter = Ret (Inr st, ms', eff) \<and>
           stopGraceExpired (fst (stopLocked ms False)) = [KillGroup (cmdPid ms)] \<and>
           stopGraceExpired ms' = [] \<and> State (info ms') = SessionStateAttached \<and>
           State (info (fst (waitLoop now' ms' (WaitExit code msg)))) = SessionStateFailed"
proof -
  let ?ms = "fst (stopLocked ms False)"
  have ok: "session_ok ?ms" using reachable_ok [OF assms(1)] by (rule stopLocked_ok)
  have st: "State (info ?ms) = SessionStateStopping" "\<not> forceStop ?ms" "\<not> recovered ?ms" "\<not> liveClosed ?ms"
      "ActiveWriterClientID (info ?ms) = ''''" "cmdPid ?ms = cmdPid ms"
    using assms reachable_ok [OF assms(1)] by (auto simp: stopLocked_def Let_def session_ok_def writer_ok_def)
  from ok obtain r ms' eff where a: "attachLocked V now ?ms c after AttachRoleWriter = Ret (Inr r, ms', eff)"
    by (cases rule: attach_cases [where V = V and now = now and c = c and a = after and r = AttachRoleWriter])
      (use st in auto)
  then have "State (info ms') = SessionStateAttached" "\<not> forceStop ms'"
    using st by (auto simp: attachLocked_def Let_def split: option.splits if_splits prod.splits elim!: outcome_bind.elims)
  with a st assms(7) show ?thesis
    by (auto simp: stopGraceExpired_def killProcessGroup_def waitLoop_def Let_def)
qed

theorem attach_cancels_stop_witness:
  "\<exists>st ms' eff. attachLocked demo_vt 2 (fst (stopLocked demo_session False)) ''w'' 0 AttachRoleWriter = Ret (Inr st, ms', eff) \<and>
     stopGraceExpired (fst (stopLocked demo_session False)) = [KillGroup 7] \<and> stopGraceExpired ms' = []"
proof -
  have r: "reachable demo_vt demo_session" unfolding demo_session_def by (rule Started)
  have "\<not> recovered demo_session" "\<not> liveClosed demo_session" "\<not> Attached (info demo_session)"
      "\<not> terminal_state (State (info demo_session))" "''w'' \<noteq> ''''" "0 < cmdPid demo_session" "cmdPid demo_session = 7"
    by (simp_all add: demo_simps)
  from attach_cancels_stop [OF r this(1-6), where now = 2 and after = 0 and now' = 3 and code = 1 and msg = "''''"] this(7)
  show ?thesis by auto
qed

section \<open>Interaction state\<close>

fun interaction_run :: "managedSession \<Rightarrow> (go_time \<times> Interaction) list \<Rightarrow> managedSession" where
  "interaction_run ms [] = ms"
| "interaction_run ms ((now, i) # rs) = interaction_run (fst (updateInteractionLocked now ms i)) rs"

definition seen where "seen ms = interaction_view (InfoInteraction (info ms))"

fun transitions :: "'a \<Rightarrow> 'a list \<Rightarrow> nat" where
  "transitions v [] = 0"
| "transitions v (w # ws) = (if v = w then 0 else 1) + transitions w ws"

lemma interaction_view_times [simp]:
  "interaction_view (i\<lparr>LastActivityAt := t\<rparr>) = interaction_view i"
  "interaction_view (i\<lparr>Revision := r, UpdatedAt := t\<rparr>) = interaction_view i"
  by (simp_all add: interaction_view_def EffectiveState_def)

lemma updateInteraction_step:
  "let ms' = fst (updateInteractionLocked now ms i)
   in seen ms' = interaction_view i \<and> LastActivityAt (InfoInteraction (info ms')) = now \<and>
      Revision (InfoInteraction (info ms')) =
        Revision (InfoInteraction (info ms)) + (if seen ms = interaction_view i then 0 else 1)"
proof (cases "interaction_changed (InfoInteraction (info ms)) (i\<lparr>LastActivityAt := now\<rparr>)")
  case True
  then show ?thesis
    by (auto simp: updateInteractionLocked_def Let_def seen_def interaction_changed_iff)
next
  case False
  then have eq: "interaction_view (InfoInteraction (info ms)) = interaction_view i"
    by (simp add: interaction_changed_iff)
  with False show ?thesis
    by (auto simp: updateInteractionLocked_def Let_def seen_def)
      (auto simp: interaction_view_def EffectiveState_def split: option.splits if_splits)
qed

text \<open>
  A run of interaction reports bumps the session's revision once for every report whose visible
  value (capabilities, state, pending request identity and summary) differs from the one
  before it, and never otherwise; the visible value is always the last one reported, and the last
  activity is the time of the last report.
\<close>

theorem interaction_revisions:
  "let ms' = interaction_run ms rs
   in Revision (InfoInteraction (info ms')) =
        Revision (InfoInteraction (info ms)) + of_nat (transitions (seen ms) (map (interaction_view \<circ> snd) rs)) \<and>
      seen ms' = (if rs = [] then seen ms else interaction_view (snd (last rs))) \<and>
      LastActivityAt (InfoInteraction (info ms')) =
        (if rs = [] then LastActivityAt (InfoInteraction (info ms)) else fst (last rs))"
proof (induction rs arbitrary: ms)
  case Nil
  show ?case by simp
next
  case (Cons x rs)
  obtain now i where x: "x = (now, i)" by (cases x)
  from updateInteraction_step [of now ms i] Cons.IH [of "fst (updateInteractionLocked now ms i)"]
  show ?case by (auto simp: x Let_def)
qed

section \<open>Structured responses\<close>

text \<open>
  The one situation in which a response may be dispatched: no writer holds the slot, the session is
  running, and the pending request the caller names is the session's current one, of the right type.
\<close>

definition awaiting :: "managedSession \<Rightarrow> bool \<Rightarrow> string \<Rightarrow> bool" where
  "awaiting ms approval pid \<longleftrightarrow> \<not> recovered ms \<and> State (info ms) \<in> {SessionStateRunning, SessionStateAttached} \<and>
     \<not> Attached (info ms) \<and> pid \<noteq> '''' \<and>
     (\<exists>p. Pending (InfoInteraction (info ms)) = Some p \<and> PendingID p = pid \<and>
        PendingType p = (if approval then PendingRequestApproval else PendingRequestInput)) \<and>
     IState (InfoInteraction (info ms)) = (if approval then InteractionWaitingForApproval else InteractionWaitingForInput)"

text \<open>
  A response reaches the provider only when the request it names is the session's current
  pending request, of the right type, and no client holds the writer slot, and then exactly once, with
  the caller's text and through the operation of that type, an approval only when the session's evidence
  declares structured approvals; the caller gets the provider's own verdict, and an error in every
  other case.
\<close>

theorem pending_dispatch:
  assumes "reachable V ms"
  shows "let (r, eff) = pendingLocked ms pid text approval;
             i = InfoInteraction (info ms);
             responder = (if approval
               then (if StructuredApprovalSupported (Capability (Evidence i)) then Option.bind (provider ms) pvDecideApproval else None)
               else Option.bind (provider ms) pvRespondToInput)
         in if awaiting ms approval pid
            then (case responder of
                    None \<Rightarrow> r = Some ErrRemoteResponseUnsupported \<and> eff = []
                  | Some f \<Rightarrow> r = f (SessionID (info ms)) pid text \<and>
                      eff = [(if approval then DecideApprovalTo else RespondInput) (SessionID (info ms)) pid text])
            else r \<noteq> None \<and> eff = []"
proof -
  have slot: "Attached (info ms) \<longleftrightarrow> ActiveWriterClientID (info ms) \<noteq> ''''"
    using reachable_ok [OF assms] by (simp add: session_ok_def writer_ok_def)
  show ?thesis
    by (cases approval; cases "Pending (InfoInteraction (info ms))")
      (auto simp: pendingLocked_def awaiting_def slot Let_def split: option.splits)
qed

text \<open>A provider that answers questions, and a session waiting for the answer to question \<open>q\<close>.\<close>

definition demo_responder :: Provider where
  "demo_responder = (plainProvider ''p'')\<lparr>pvRespondToInput := Some (\<lambda>_ _ _. None)\<rparr>"

definition demo_question :: Interaction where
  "demo_question = \<lparr>IState = InteractionWaitingForInput, Revision = 0, UpdatedAt = 0, LastActivityAt = 0,
     Pending = Some \<lparr>PendingID = ''q'', PendingType = PendingRequestInput, PendingSummary = '''', PendingKind = ''''\<rparr>,
     Evidence = \<lparr>Source = ''x'', Capability = noCapabilities\<rparr>\<rparr>"

definition demo_waiting :: managedSession where
  "demo_waiting = fst (updateInteractionLocked 1 (startedSession 1024 demo_responder demo_cfg 0 7) demo_question)"

theorem pending_dispatch_witness:
  "pendingLocked demo_waiting ''q'' ''yes'' False = (None, [RespondInput ''s'' ''q'' ''yes'']) \<and>
   snd (pendingLocked demo_waiting ''other'' ''yes'' False) = []"
proof -
  have r: "reachable demo_vt demo_waiting" unfolding demo_waiting_def by (rule Step [OF Started Interact])
  have "awaiting demo_waiting False ''q''" "\<not> awaiting demo_waiting False ''other''"
      "Option.bind (provider demo_waiting) pvRespondToInput = Some (\<lambda>_ _ _. None)" "SessionID (info demo_waiting) = ''s''"
    by (simp_all add: awaiting_def demo_waiting_def updateInteractionLocked_def demo_question_def demo_responder_def demo_simps
        interaction_changed_def interaction_consts EffectiveState_def samePendingIdentity_def)
  with pending_dispatch [OF r, of "''q''" "''yes''" False] pending_dispatch [OF r, of "''other''" "''yes''" False]
  show ?thesis by (simp add: Let_def case_prod_beta prod_eq_iff)
qed

section \<open>Handing over the writer slot\<close>

text \<open>
  A forced claim by an attached client moves the slot: the result names the previous writer, the
  claimant alone has the writer role, the previous writer stays attached as an observer on the same
  channel, and its next input is refused while the claimant's is accepted.
\<close>

theorem claim_transfers:
  assumes "reachable V ms" and "\<not> recovered ms" and "State (info ms) = SessionStateAttached"
    and "c \<noteq> ''''" and "w \<noteq> c" and "w \<noteq> ''''" and "AttachedClientID (info ms) = w"
    and "gm_get (observers ms) c = Some e" and "gm_get (observers ms) w = Some f"
  shows "\<exists>ms'. claimWriterLocked ms c True = (Inr w, ms') \<and> claimWriterLocked ms c False = (Inl ErrWriterConflict, ms) \<and>
           gm_get (observers ms') c = Some (e\<lparr>role := AttachRoleWriter\<rparr>) \<and>
           gm_get (observers ms') w = Some (f\<lparr>role := AttachRoleObserver\<rparr>) \<and>
           fst (writeInputLocked now ms' w dat wr) = (0, Some ErrClientMismatch) \<and>
           fst (writeInputLocked now ms' c dat wr) = wr"
proof -
  have act: "ActiveWriterClientID (info ms) = w"
    using reachable_ok [OF assms(1)] assms(7) by (simp add: session_ok_def writer_ok_def)
  show ?thesis
    using assms(2-9) act
    by (auto simp: claimWriterLocked_def Let_def set_role_get writeInputLocked_def)
qed

theorem claim_transfers_witness:
  "\<exists>ms'. claimWriterLocked demo_attached ''o'' True = (Inr ''w'', ms') \<and>
     fst (writeInputLocked 9 ms' ''w'' [1] (1, None)) = (0, Some ErrClientMismatch) \<and>
     fst (writeInputLocked 9 ms' ''o'' [1] (1, None)) = (1, None)"
proof -
  have "gm_get (observers demo_attached) ''o'' = Some \<lparr>ech = 1, role = AttachRoleObserver\<rparr>"
      "gm_get (observers demo_attached) ''w'' = Some \<lparr>ech = 0, role = AttachRoleWriter\<rparr>"
      "\<not> recovered demo_attached" "State (info demo_attached) = SessionStateAttached"
      "AttachedClientID (info demo_attached) = ''w''" "''o'' \<noteq> ''''" "''w'' \<noteq> ''o''" "''w'' \<noteq> ''''"
    by (simp_all add: demo_simps)
  from claim_transfers [OF demo_attached_reachable this(3,4,6,7,8,5,1,2), of 9 "[1]" "(1, None)"]
  show ?thesis by auto
qed

end
