(* ===== verification/Provider_Registry.thy ===== *)
theory Provider_Registry
  imports Session_Types
begin

text \<open>
  \<open>internal/bridge/registry.go\<close>: the providers of the daemon by identifier. A registered
  identifier is never replaced.
\<close>

record Registry =
  providers :: "(string, Provider) gomap"

definition NewRegistry :: Registry where
  "NewRegistry = \<lparr>providers = []\<rparr>"

definition Register :: "Registry \<Rightarrow> Provider \<Rightarrow> bridge_error option \<times> Registry" where
  "Register r p =
     (case gm_get (providers r) (pvID p) of
        Some _ \<Rightarrow> (Some (ErrOther ''already registered''), r)
      | None \<Rightarrow> (None, r\<lparr>providers := gm_put (pvID p) p (providers r)\<rparr>))"

definition registry_Get :: "Registry \<Rightarrow> string \<Rightarrow> bridge_error + Provider" where
  "registry_Get r i =
     (case gm_get (providers r) i of
        None \<Rightarrow> Inl ErrProviderUnavailable
      | Some p \<Rightarrow> Inr p)"

definition registry_List :: "Registry \<Rightarrow> string list" where
  "registry_List r = map fst (providers r)"

definition HealthAll :: "Registry \<Rightarrow> (string, string option) gomap" where
  "HealthAll r = map (\<lambda>(i, p). (i, pvHealth p)) (providers r)"

definition registry_ok :: "Registry \<Rightarrow> bool" where
  "registry_ok r \<longleftrightarrow> gm_ok (providers r) \<and> (\<forall>i p. gm_get (providers r) i = Some p \<longrightarrow> pvID p = i)"

lemma NewRegistry_ok: "registry_ok NewRegistry"
  by (simp add: registry_ok_def NewRegistry_def)

lemma Register_ok: "registry_ok r \<Longrightarrow> registry_ok (snd (Register r p))"
  by (auto simp: registry_ok_def Register_def gomap_simps split: option.splits if_splits)

text \<open>Registration is permanent: what is found once is found after any later registration.\<close>

lemma Register_stable: "registry_Get r i = Inr p \<Longrightarrow> registry_Get (snd (Register r q)) i = Inr p"
  by (auto simp: registry_Get_def Register_def gomap_simps split: option.splits)

lemma Register_Get: "fst (Register r p) = None \<Longrightarrow> registry_Get (snd (Register r p)) (pvID p) = Inr p"
  by (auto simp: registry_Get_def Register_def gomap_simps split: option.splits)

lemma registry_Get_ID: "registry_ok r \<Longrightarrow> registry_Get r i = Inr p \<Longrightarrow> pvID p = i"
  by (auto simp: registry_ok_def registry_Get_def split: option.splits)

lemma HealthAll_get: "gm_get (HealthAll r) i = map_option pvHealth (gm_get (providers r) i)"
  by (simp add: HealthAll_def map_of_map)

end
