(* ===== verification/Session_Store.thy ===== *)
theory Session_Store
  imports Session_Types "HOL-Library.Char_ord" "HOL-Library.List_Lexorder"
begin

text \<open>
  \<open>internal/bridge/session_store.go\<close>: sessions and output chunks in a bbolt database.

  The database is represented by the committed \<open>Put\<close> calls, newest first; what a cursor
  returns on it and whether a commit fails are the parameter \<open>bolt\<close>, because bbolt is
  third-party code. \<open>bolt_lawful\<close> states bbolt's documented behaviour: a commit that reports
  success is visible, and \<open>Seek\<close> followed by \<open>Next\<close> visits the pairs of the bucket with keys
  from the sought key on, in byte order, each with its last written value. A stored value is the
  value its JSON decodes to, or \<open>None\<close> for bytes that do not decode.
\<close>

datatype bucket = sessionsBucket | chunksBucket

datatype stored = StoredInfo SessionInfo | StoredChunk OutputChunk | StoredGarbage

type_synonym bolt_db = "(bucket \<times> string \<times> stored) list"

record bolt =
  put_error :: "bolt_db \<Rightarrow> bucket \<Rightarrow> string \<Rightarrow> string option"
  seek :: "bolt_db \<Rightarrow> bucket \<Rightarrow> string \<Rightarrow> (string \<times> stored) list"

section \<open>Keys\<close>

definition hex_digit :: "nat \<Rightarrow> char" where
  "hex_digit n = (if n < 10 then char_of (48 + n) else char_of (87 + n))"

text \<open>The last \<open>k\<close> hexadecimal digits of a number, most significant first.\<close>

fun hex_pad :: "nat \<Rightarrow> nat \<Rightarrow> string" where
  "hex_pad 0 n = []"
| "hex_pad (Suc k) n = hex_pad k (n div 16) @ [hex_digit (n mod 16)]"

definition chunkKey :: "string \<Rightarrow> u64 \<Rightarrow> string" where
  "chunkKey sessionID seq = sessionID @ ''/'' @ hex_pad 16 (unat seq)"

section \<open>Operations\<close>

definition Save :: "bolt \<Rightarrow> bolt_db \<Rightarrow> SessionInfo \<Rightarrow> bridge_error option \<times> bolt_db" where
  "Save B db info =
     (case put_error B db sessionsBucket (SessionID info) of
        Some e \<Rightarrow> (Some (ErrOther e), db)
      | None \<Rightarrow> (None, (sessionsBucket, SessionID info, StoredInfo info) # db))"

definition SaveChunk :: "bolt \<Rightarrow> bolt_db \<Rightarrow> string \<Rightarrow> OutputChunk \<Rightarrow> bridge_error option \<times> bolt_db" where
  "SaveChunk B db sessionID chunk =
     (case put_error B db chunksBucket (chunkKey sessionID (Seq chunk)) of
        Some e \<Rightarrow> (Some (ErrOther e), db)
      | None \<Rightarrow> (None, (chunksBucket, chunkKey sessionID (Seq chunk), StoredChunk chunk) # db))"

text \<open>The cursor loop of \<open>LoadChunks\<close>: stop at the first key without the prefix.\<close>

fun load_loop :: "string \<Rightarrow> (string \<times> stored) list \<Rightarrow> OutputChunk list \<Rightarrow> bridge_error option \<times> OutputChunk list" where
  "load_loop prefix [] acc = (None, acc)"
| "load_loop prefix ((k, v) # kvs) acc =
     (if \<not> has_prefix k prefix then (None, acc)
      else case v of
             StoredChunk c \<Rightarrow> load_loop prefix kvs (acc @ [c])
           | _ \<Rightarrow> (Some (ErrOther ''unmarshal chunk''), acc))"

definition LoadChunks :: "bolt \<Rightarrow> bolt_db \<Rightarrow> string \<Rightarrow> bridge_error option \<times> OutputChunk list" where
  "LoadChunks B db sessionID =
     load_loop (sessionID @ ''/'') (seek B db chunksBucket (sessionID @ ''/'')) []"

fun page_loop ::
  "string \<Rightarrow> int \<Rightarrow> (string \<times> stored) list \<Rightarrow> OutputChunk list \<Rightarrow> int \<Rightarrow>
     bridge_error option \<times> OutputChunk list" where
  "page_loop prefix maxBytes [] acc tot = (None, acc)"
| "page_loop prefix maxBytes ((k, v) # kvs) acc tot =
     (if \<not> has_prefix k prefix then (None, acc)
      else case v of
             StoredChunk c \<Rightarrow>
               if length acc = 1024 \<or> maxBytes < tot + int (length (Payload c)) then
                 (if acc = [] then (Some (ErrOther ''terminal chunk exceeds replay window''), acc)
                  else (None, acc))
               else page_loop prefix maxBytes kvs (acc @ [c]) (tot + int (length (Payload c)))
           | _ \<Rightarrow> (Some (ErrOther ''unmarshal chunk''), acc))"

definition LoadChunkPage ::
  "bolt \<Rightarrow> bolt_db \<Rightarrow> string \<Rightarrow> u64 \<Rightarrow> int \<Rightarrow> bridge_error option \<times> OutputChunk list" where
  "LoadChunkPage B db sessionID after maxBytes =
     (if after = - 1 then (None, [])
      else page_loop (sessionID @ ''/'') maxBytes
             (seek B db chunksBucket (chunkKey sessionID (after + 1))) [] 0)"

fun load_infos :: "(string \<times> stored) list \<Rightarrow> SessionInfo list \<Rightarrow> bridge_error option \<times> SessionInfo list" where
  "load_infos [] acc = (None, acc)"
| "load_infos ((k, v) # kvs) acc =
     (case v of
        StoredInfo i \<Rightarrow> load_infos kvs (acc @ [i])
      | _ \<Rightarrow> (Some (ErrOther ''unmarshal session''), acc))"

definition LoadAll :: "bolt \<Rightarrow> bolt_db \<Rightarrow> bridge_error option \<times> SessionInfo list" where
  "LoadAll B db = load_infos (seek B db sessionsBucket '''') []"

section \<open>bbolt\<close>

text \<open>The last value written under a key of a bucket, and the keys written.\<close>

definition db_lookup :: "bolt_db \<Rightarrow> bucket \<Rightarrow> string \<Rightarrow> stored option" where
  "db_lookup db b k = map_of (map (\<lambda>(b, k, v). ((b, k), v)) db) (b, k)"

definition bolt_lawful :: "bolt \<Rightarrow> bool" where
  "bolt_lawful B \<longleftrightarrow>
     (\<forall>db b k. sorted_wrt (<) (map fst (seek B db b k)) \<and>
        (\<forall>k' v. (k', v) \<in> set (seek B db b k) \<longleftrightarrow> k \<le> k' \<and> db_lookup db b k' = Some v))"

fun db_keys :: "bolt_db \<Rightarrow> bucket \<Rightarrow> string list" where
  "db_keys [] b = []"
| "db_keys ((b', k, v) # db) b = (if b' = b then k # db_keys db b else db_keys db b)"

text \<open>A bbolt that never fails to commit, for witnesses.\<close>

definition sorted_bolt :: bolt where
  "sorted_bolt = \<lparr>put_error = (\<lambda>_ _ _. None),
     seek = (\<lambda>db b k. map (\<lambda>k'. (k', the (db_lookup db b k')))
               (filter (\<lambda>k'. k \<le> k')
                 (sorted_list_of_set (set (db_keys db b)))))\<rparr>"

lemma db_lookup_Cons:
  "db_lookup ((b, k, v) # db) b' k' = (if b = b' \<and> k = k' then Some v else db_lookup db b' k')"
  by (auto simp: db_lookup_def)

lemma db_lookup_keys: "k \<in> set (db_keys db b) \<longleftrightarrow> db_lookup db b k \<noteq> None"
proof (induction db)
  case (Cons x db)
  then show ?case by (cases x) (auto simp: db_lookup_Cons)
qed (simp add: db_lookup_def)

lemma sorted_bolt_lawful: "bolt_lawful sorted_bolt"
proof -
  have "(k', v) \<in> set (seek sorted_bolt db b k) \<longleftrightarrow> k \<le> k' \<and> db_lookup db b k' = Some v"
    for db b k k' v
    using db_lookup_keys [of k' db b] by (auto simp: sorted_bolt_def)
  moreover have "sorted_wrt (<) (map fst (seek sorted_bolt db b k))" for db b k
    by (simp add: sorted_bolt_def comp_def sorted_wrt_filter)
  ultimately show ?thesis by (simp add: bolt_lawful_def)
qed

section \<open>Zero-padded keys sort as numbers\<close>

lemma hex_pad_length [simp]: "length (hex_pad k n) = k"
  by (induction k arbitrary: n) auto

lemma hex_digit_less: "a < b \<Longrightarrow> b < 16 \<Longrightarrow> hex_digit a < hex_digit b"
  by (auto simp: hex_digit_def less_char_def)

lemma append_less_same_length:
  fixes xs ys :: "'a::linorder list"
  assumes "length xs = length ys"
  shows "xs @ us < ys @ vs \<longleftrightarrow> xs < ys \<or> (xs = ys \<and> us < vs)"
  using assms by (induction xs ys rule: list_induct2) auto

lemma hex_pad_less: "m < n \<Longrightarrow> n < 16 ^ k \<Longrightarrow> hex_pad k m < hex_pad k n"
proof (induction k arbitrary: m n)
  case (Suc k)
  have n: "n div 16 < 16 ^ k" using Suc.prems(2) by (simp add: less_mult_imp_div_less mult.commute)
  show ?case
  proof (cases "m div 16 = n div 16")
    case True
    then have "m mod 16 < n mod 16" using Suc.prems(1)
      by (metis mod_mult_div_eq nat_add_left_cancel_less add.commute)
    then show ?thesis using True by (simp add: append_less_same_length hex_digit_less)
  next
    case False
    then have "m div 16 < n div 16" using Suc.prems(1) by (simp add: div_le_mono le_neq_implies_less)
    with Suc.IH n show ?thesis by (simp add: append_less_same_length)
  qed
qed simp

lemma chunkKey_less: "a < b \<Longrightarrow> chunkKey s a < chunkKey s b"
proof -
  assume "a < b"
  then have "unat a < unat b" by (simp add: u64_less_nat)
  moreover have "unat b < 16 ^ 16" using unsigned_less [of b] by simp
  ultimately show ?thesis
    by (simp add: chunkKey_def append_less_same_length hex_pad_less del: hex_pad.simps)
qed

lemma chunkKey_inj: "chunkKey s a = chunkKey s b \<longleftrightarrow> a = b"
  by (metis chunkKey_less less_irrefl linorder_neqE)

lemma chunkKey_le: "chunkKey s a \<le> chunkKey s b \<longleftrightarrow> a \<le> b"
  by (metis chunkKey_less chunkKey_inj linorder_not_le order_le_less)

section \<open>The journal of a session\<close>

text \<open>
  The chunks of a session in the database are \<open>cs\<close>: strictly increasing sequence numbers, and
  the keys with the session's prefix hold exactly these chunks.
\<close>

definition session_journal :: "bolt_db \<Rightarrow> string \<Rightarrow> OutputChunk list \<Rightarrow> bool" where
  "session_journal db sid cs \<longleftrightarrow> sorted_wrt (<) (map Seq cs) \<and>
     (\<forall>k v. has_prefix k (sid @ ''/'') \<longrightarrow>
        (db_lookup db chunksBucket k = Some v \<longleftrightarrow>
           (\<exists>c \<in> set cs. k = chunkKey sid (Seq c) \<and> v = StoredChunk c)))"

lemma chunkKey_prefix: "has_prefix (chunkKey sid n) (sid @ ''/'')"
  by (simp add: chunkKey_def has_prefix_def)

text \<open>Session identifiers have no slash, so one is never a prefix of another's keys.\<close>

lemma chunkKey_other:
  assumes "CHR ''/'' \<notin> set sid" and "CHR ''/'' \<notin> set sid'" and "sid \<noteq> sid'"
  shows "\<not> has_prefix (chunkKey sid' n) (sid @ ''/'')"
proof
  assume "has_prefix (chunkKey sid' n) (sid @ ''/'')"
  then obtain r where "sid' @ ''/'' @ hex_pad 16 (unat n) = sid @ ''/'' @ r"
    by (auto simp: chunkKey_def has_prefix_append simp del: hex_pad.simps)
  then have "takeWhile (\<lambda>c. c \<noteq> CHR ''/'') (sid' @ CHR ''/'' # hex_pad 16 (unat n)) =
             takeWhile (\<lambda>c. c \<noteq> CHR ''/'') (sid @ CHR ''/'' # r)" by (simp del: hex_pad.simps)
  moreover have "takeWhile (\<lambda>c. c \<noteq> CHR ''/'') (w @ CHR ''/'' # q) = w" if "CHR ''/'' \<notin> set w" for w q
    using that by (induction w) auto
  ultimately show False using assms by simp
qed

lemma session_journal_empty: "session_journal [] sid []"
  by (simp add: session_journal_def db_lookup_def)

lemma session_journal_SaveChunk:
  assumes "session_journal db sid cs" and "\<forall>c' \<in> set cs. Seq c' < Seq c"
    and "SaveChunk B db sid c = (None, db')"
  shows "session_journal db' sid (cs @ [c])"
proof -
  have db': "db' = (chunksBucket, chunkKey sid (Seq c), StoredChunk c) # db"
    using assms(3) by (simp add: SaveChunk_def split: option.splits)
  show ?thesis
    using assms(1,2)
    by (fastforce simp: db' session_journal_def db_lookup_Cons sorted_wrt_snoc chunkKey_inj)
qed

lemma session_journal_frame:
  assumes "session_journal db sid cs" and "b = sessionsBucket \<or> \<not> has_prefix k (sid @ ''/'')"
  shows "session_journal ((b, k, v) # db) sid cs"
  using assms by (auto simp: session_journal_def db_lookup_Cons)

lemma session_journal_Save: "session_journal db sid cs \<Longrightarrow> session_journal (snd (Save B db info)) sid cs"
  by (auto simp: Save_def session_journal_frame split: option.splits)

lemma session_journal_SaveChunk_other:
  "CHR ''/'' \<notin> set sid \<Longrightarrow> CHR ''/'' \<notin> set sid' \<Longrightarrow> sid \<noteq> sid' \<Longrightarrow> session_journal db sid cs \<Longrightarrow>
   session_journal (snd (SaveChunk B db sid' c)) sid cs"
  by (auto simp: SaveChunk_def chunkKey_other session_journal_frame split: option.splits)

section \<open>Reading a journal\<close>

lemma le_append: "(p :: 'a::linorder list) \<le> p @ r"
  by (induction p) auto

lemma chunkKey_ge: "sid @ ''/'' \<le> chunkKey sid n"
  using le_append [of "sid @ ''/''"] by (simp add: chunkKey_def)

lemma has_prefix_between:
  fixes k k' p :: string
  shows "p \<le> k \<Longrightarrow> k < k' \<Longrightarrow> has_prefix k' p \<Longrightarrow> has_prefix k p"
proof (induction p arbitrary: k k')
  case (Cons x p)
  then show ?case by (cases k; cases k') (auto simp: has_prefix_def)
qed (simp add: has_prefix_def)

text \<open>The chunks of a list of cursor pairs, up to the first key without the prefix.\<close>

definition pairs_of :: "string \<Rightarrow> OutputChunk list \<Rightarrow> (string \<times> stored) list" where
  "pairs_of sid cs = map (\<lambda>c. (chunkKey sid (Seq c), StoredChunk c)) cs"

lemma seek_journal:
  assumes "bolt_lawful B" and "session_journal db sid cs"
    and "k = sid @ ''/'' \<and> P = (\<lambda>_. True) \<or> (\<exists>n. k = chunkKey sid n \<and> P = (\<lambda>c. n \<le> Seq c))"
  shows "takeWhile (\<lambda>(k', v). has_prefix k' (sid @ ''/'')) (seek B db chunksBucket k) =
           pairs_of sid (filter P cs)"
proof (rule sorted_by_unique [where f = fst])
  let ?L = "seek B db chunksBucket k"
  let ?Q = "\<lambda>(k', v :: stored). has_prefix k' (sid @ ''/'')"
  have sorted: "sorted_wrt (\<lambda>a b. fst a < fst b) ?L"
    and mem: "\<And>k' v. (k', v) \<in> set ?L \<longleftrightarrow> k \<le> k' \<and> db_lookup db chunksBucket k' = Some v"
    using assms(1) by (auto simp: bolt_lawful_def sorted_wrt_map)
  have pk: "sid @ ''/'' \<le> k"
    using assms(3) by (auto simp: chunkKey_ge)
  have tw: "takeWhile ?Q ?L = filter ?Q ?L"
  proof (rule takeWhile_eq_filter_sorted [OF sorted])
    fix x y assume "x \<in> set ?L" "y \<in> set ?L" "fst x < fst y" "?Q y"
    then show "?Q x" using mem [of "fst x" "snd x"] pk
      by (auto intro: has_prefix_between order_trans split: prod.splits)
  qed
  show "sorted_wrt (\<lambda>a b. fst a < fst b) (takeWhile ?Q ?L)"
    unfolding tw using sorted by (rule sorted_wrt_filter)
  have js: "sorted_wrt (<) (map Seq cs)" using assms(2) by (simp add: session_journal_def)
  show "sorted_wrt (\<lambda>a b. fst a < fst b) (pairs_of sid (filter P cs))"
    unfolding pairs_of_def sorted_wrt_map
    by (rule sorted_wrt_mono_rel [OF _ sorted_wrt_filter [OF js [unfolded sorted_wrt_map]]])
       (simp add: chunkKey_less)
  have "(k', v) \<in> set (takeWhile ?Q ?L) \<longleftrightarrow> (k', v) \<in> set (pairs_of sid (filter P cs))" for k' v
  proof -
    have "(k', v) \<in> set (takeWhile ?Q ?L) \<longleftrightarrow>
            k \<le> k' \<and> has_prefix k' (sid @ ''/'') \<and> db_lookup db chunksBucket k' = Some v"
      unfolding tw by (auto simp: mem)
    also have "\<dots> \<longleftrightarrow> k \<le> k' \<and> (\<exists>c \<in> set cs. k' = chunkKey sid (Seq c) \<and> v = StoredChunk c)"
      using assms(2) by (auto simp: session_journal_def chunkKey_prefix)
    also have "\<dots> \<longleftrightarrow> (k', v) \<in> set (pairs_of sid (filter P cs))"
      using assms(3) by (auto simp: pairs_of_def chunkKey_le chunkKey_ge)
    finally show ?thesis .
  qed
  then show "set (takeWhile ?Q ?L) = set (pairs_of sid (filter P cs))" by auto
qed

lemma load_loop_takeWhile:
  "load_loop p kvs acc = load_loop p (takeWhile (\<lambda>(k, v). has_prefix k p) kvs) acc"
  by (induction p kvs acc rule: load_loop.induct) (auto split: stored.splits)

lemma load_loop_pairs: "load_loop (sid @ ''/'') (pairs_of sid cs) acc = (None, acc @ cs)"
  by (induction cs arbitrary: acc) (auto simp: pairs_of_def chunkKey_prefix)

lemma LoadChunks_journal:
  assumes "bolt_lawful B" and "session_journal db sid cs"
  shows "LoadChunks B db sid = (None, cs)"
  using seek_journal [OF assms, of "sid @ ''/''" "\<lambda>_. True"]
  by (simp add: LoadChunks_def load_loop_takeWhile [of _ "seek B db chunksBucket (sid @ ''/'')"]
      load_loop_pairs)

text \<open>The page the cursor loop takes: up to 1024 chunks and the byte budget.\<close>

fun page_take :: "int \<Rightarrow> nat \<Rightarrow> OutputChunk list \<Rightarrow> OutputChunk list" where
  "page_take m n [] = []"
| "page_take m n (c # cs) =
     (if n = 0 \<or> m < int (length (Payload c)) then []
      else c # page_take (m - int (length (Payload c))) (n - 1) cs)"

lemma page_take_prefix: "\<exists>r. cs = page_take m n cs @ r"
  by (induction m n cs rule: page_take.induct) auto

lemma page_take_bounds: "length (page_take m n cs) \<le> n \<and> (0 \<le> m \<longrightarrow> payload_bytes (page_take m n cs) \<le> m)"
proof (induction m n cs rule: page_take.induct)
  case (2 m n c cs)
  then show ?case by (cases n) auto
qed simp

lemma page_loop_takeWhile:
  "page_loop p m kvs acc t = page_loop p m (takeWhile (\<lambda>(k, v). has_prefix k p) kvs) acc t"
  by (induction p m kvs acc t rule: page_loop.induct) (auto split: stored.splits)

lemma page_loop_pairs:
  "length acc \<le> 1024 \<Longrightarrow> page_loop (sid @ ''/'') m (pairs_of sid cs) acc t =
     (let pg = page_take (m - t) (1024 - length acc) cs
      in if acc = [] \<and> pg = [] \<and> cs \<noteq> []
         then (Some (ErrOther ''terminal chunk exceeds replay window''), [])
         else (None, acc @ pg))"
proof (induction cs arbitrary: acc t)
  case (Cons c cs)
  show ?case
  proof (cases "length acc = 1024 \<or> m < t + int (length (Payload c))")
    case True
    then show ?thesis by (auto simp: pairs_of_def chunkKey_prefix Let_def)
  next
    case False
    then have "Suc (length acc) \<le> 1024" using Cons.prems by simp
    with Cons.IH [of "acc @ [c]" "t + int (length (Payload c))"] False show ?thesis
      by (simp add: pairs_of_def chunkKey_prefix Let_def diff_diff_eq)
  qed
qed (simp add: pairs_of_def Let_def)

lemma LoadChunkPage_journal:
  assumes "bolt_lawful B" and "session_journal db sid cs" and "after \<noteq> - 1"
  shows "LoadChunkPage B db sid after m =
     (let rest = filter (\<lambda>c. after < Seq c) cs; pg = page_take m 1024 rest
      in if pg = [] \<and> rest \<noteq> []
         then (Some (ErrOther ''terminal chunk exceeds replay window''), []) else (None, pg))"
proof -
  have "unat after \<noteq> unat (- 1 :: u64)" using assms(3) by (simp only: word_unat_eq_iff) blast
  then have "unat after \<noteq> 2 ^ 64 - 1" by (simp add: unsigned_minus_1_eq_mask mask_eq_exp_minus_1)
  then have "unat after < 2 ^ 64 - 1" using unat_u64_less [of after] by simp
  then have "after + 1 \<le> Seq c \<longleftrightarrow> after < Seq c" for c :: OutputChunk
    by (simp add: u64_nat unat_inc_u64 less_eq_Suc_le)
  then have eq: "filter (\<lambda>c. after + 1 \<le> Seq c) cs = filter (\<lambda>c. after < Seq c) cs" by simp
  have "takeWhile (\<lambda>(k', v). has_prefix k' (sid @ ''/'')) (seek B db chunksBucket (chunkKey sid (after + 1))) =
          pairs_of sid (filter (\<lambda>c. after + 1 \<le> Seq c) cs)"
    by (rule seek_journal [OF assms(1,2)]) blast
  then have "LoadChunkPage B db sid after m =
          page_loop (sid @ ''/'') m (pairs_of sid (filter (\<lambda>c. after + 1 \<le> Seq c) cs)) [] 0"
    using assms(3) page_loop_takeWhile [of _ _ "seek B db chunksBucket (chunkKey sid (after + 1))"]
    by (simp add: LoadChunkPage_def)
  then show ?thesis by (simp add: page_loop_pairs eq Let_def)
qed

section \<open>Properties\<close>

fun save_chunks :: "bolt \<Rightarrow> bolt_db \<Rightarrow> string \<Rightarrow> OutputChunk list \<Rightarrow> bolt_db" where
  "save_chunks B db sid [] = db"
| "save_chunks B db sid (c # cs) = save_chunks B (snd (SaveChunk B db sid c)) sid cs"

lemma save_chunks_journal:
  assumes "session_journal db sid pre" and "\<forall>db b k. put_error B db b k = None"
    and "sorted_wrt (<) (map Seq (pre @ cs))"
  shows "session_journal (save_chunks B db sid cs) sid (pre @ cs)"
  using assms
proof (induction cs arbitrary: db pre)
  case (Cons c cs)
  have lt: "\<forall>c' \<in> set pre. Seq c' < Seq c"
    using Cons.prems(3) by (auto simp: sorted_wrt_append)
  have ok: "SaveChunk B db sid c = (None, snd (SaveChunk B db sid c))"
    using Cons.prems(2) by (simp add: SaveChunk_def)
  from Cons.IH [OF session_journal_SaveChunk [OF Cons.prems(1) lt ok] Cons.prems(2)] Cons.prems(3)
  show ?case by simp
qed simp

text \<open>
  C15. Journal round trip: chunks saved for a session in sequence order are read back by
  \<open>LoadChunks\<close> exactly and in that order, for any lawful bbolt whose commits succeed. This
  rests on the zero-padded hexadecimal keys sorting like the sequence numbers.
\<close>

theorem LoadChunks_roundtrip:
  assumes "bolt_lawful B" and "\<forall>db b k. put_error B db b k = None"
    and "sorted_wrt (<) (map Seq cs)"
  shows "LoadChunks B (save_chunks B [] sid cs) sid = (None, cs)"
  using save_chunks_journal [OF session_journal_empty assms(2), of cs sid] assms
  by (simp add: LoadChunks_journal)

theorem LoadChunks_roundtrip_witness:
  "let c = \<lparr>Cols = 80, Rows = 24, Seq = 9, Timestamp = 0, Payload = [1], Type = ChunkTypeOutput\<rparr>;
       d = c\<lparr>Seq := 10\<rparr>
   in LoadChunks sorted_bolt (save_chunks sorted_bolt [] ''s'' [c, d]) ''s'' = (None, [c, d])"
  unfolding Let_def by (rule LoadChunks_roundtrip [OF sorted_bolt_lawful]) (simp_all add: sorted_bolt_def)

text \<open>
  C16. Paged replay: a page of \<open>LoadChunkPage\<close> is a prefix of the journal after the cursor, in
  order, within the byte budget and 1024 chunks; it is empty without an error only when there is
  nothing after the cursor, and a first chunk over the budget is reported as an error. So
  following the pages never skips a chunk and always makes progress.
\<close>

theorem LoadChunkPage_progress:
  assumes "bolt_lawful B" and "session_journal db sid cs" and "after \<noteq> - 1" and "0 \<le> m"
    and "rest = filter (\<lambda>c. after < Seq c) cs" and "LoadChunkPage B db sid after m = (e, pg)"
  shows "(\<exists>r. rest = pg @ r) \<and> length pg \<le> 1024 \<and> payload_bytes pg \<le> m \<and>
         (pg = [] \<and> e = None \<longleftrightarrow> rest = []) \<and>
         (e \<noteq> None \<longleftrightarrow> rest \<noteq> [] \<and> m < int (length (Payload (hd rest))))"
proof -
  have eq: "(e, pg) = (if page_take m 1024 rest = [] \<and> rest \<noteq> []
      then (Some (ErrOther ''terminal chunk exceeds replay window''), []) else (None, page_take m 1024 rest))"
    using LoadChunkPage_journal [OF assms(1,2,3), of m] assms(5,6) by (simp add: Let_def)
  have "page_take m 1024 rest = [] \<longleftrightarrow> rest = [] \<or> m < int (length (Payload (hd rest)))"
    by (cases rest) auto
  with eq page_take_prefix [of rest m 1024] page_take_bounds [of m 1024 rest] assms(4)
  show ?thesis by (auto split: if_splits)
qed

theorem LoadChunkPage_progress_witness:
  "let c = \<lparr>Cols = 80, Rows = 24, Seq = 1, Timestamp = 0, Payload = [1], Type = ChunkTypeOutput\<rparr>;
       d = c\<lparr>Seq := 2\<rparr>;
       r = LoadChunkPage sorted_bolt (save_chunks sorted_bolt [] ''s'' [c, d]) ''s'' 1 65536
   in \<exists>q. [d] = snd r @ q"
proof -
  let ?c = "\<lparr>Cols = 80, Rows = 24, Seq = 1, Timestamp = 0, Payload = [1], Type = ChunkTypeOutput\<rparr>"
  let ?d = "?c\<lparr>Seq := 2\<rparr>"
  have j: "session_journal (save_chunks sorted_bolt [] ''s'' [?c, ?d]) ''s'' [?c, ?d]"
    using save_chunks_journal [OF session_journal_empty, of sorted_bolt "[?c, ?d]" "''s''"]
    by (simp add: sorted_bolt_def)
  show ?thesis
    using LoadChunkPage_progress [OF sorted_bolt_lawful j, of 1 65536 "[?d]"]
    by (simp add: Let_def prod_eq_iff)
qed

end
