(* ===== verification/Supervisor.thy ===== *)
theory Supervisor
  imports Session_Properties Provider_Registry Session_Store
begin

text \<open>
  \<open>Supervisor\<close> of \<open>internal/bridge/supervisor.go\<close>, with the response and activity entry points of
  \<open>respond.go\<close> and \<open>activity.go\<close>: the table of live sessions, the history of earlier daemon
  lifetimes, and the operations the server calls. An operation looks up its session and runs the
  critical section of \<open>Managed_Session\<close>; \<open>perform\<close> then carries out the effects in order. The store
  is \<open>None\<close> when no \<open>SessionStore\<close> is configured; \<open>telemetry\<close> and \<open>control\<close> are whether an observer
  is configured, and what it is told is in \<open>outbox\<close>, with the signals and the bytes written to
  processes.
\<close>

record Supervisor =
  registry :: Registry
  policy :: Policy
  bufSize :: int
  idleTimeout :: duration
  sessions :: "(string, managedSession) gomap"
  doneClosed :: bool
  shuttingDown :: bool
  store :: "bolt_db option"
  repoSetup :: "(string \<Rightarrow> string list option \<Rightarrow> string + string list option) option"
  history :: "(string, SessionInfo) gomap"
  telemetry :: bool
  telemetryClosed :: bool
  control :: bool
  controlClosed :: bool
  outbox :: "effect list"

definition NewSupervisor ::
  "Registry \<Rightarrow> Policy \<Rightarrow> int \<Rightarrow> duration \<Rightarrow> bolt_db option \<Rightarrow>
     (string \<Rightarrow> string list option \<Rightarrow> string + string list option) option \<Rightarrow> bool \<Rightarrow> bool \<Rightarrow> Supervisor" where
  "NewSupervisor r p outputBufSize idle st setup tel ctl =
     \<lparr>registry = r, policy = p, bufSize = (if outputBufSize \<le> 0 then 8 * 2 ^ 20 else outputBufSize),
      idleTimeout = idle, sessions = [], doneClosed = False, shuttingDown = False, store = st, repoSetup = setup,
      history = [], telemetry = tel, telemetryClosed = False, control = ctl, controlClosed = False, outbox = []\<rparr>"

section \<open>Effects\<close>

definition persistSession :: "bolt \<Rightarrow> Supervisor \<Rightarrow> SessionInfo \<Rightarrow> Supervisor" where
  [sup_defs]: "persistSession B s i =
     (case store s of None \<Rightarrow> s | Some db \<Rightarrow> s\<lparr>store := Some (snd (Save B db i))\<rparr>)"

definition persistChunk :: "bolt \<Rightarrow> Supervisor \<Rightarrow> string \<Rightarrow> OutputChunk \<Rightarrow> Supervisor" where
  [sup_defs]: "persistChunk B s sessionID chunk =
     (case store s of None \<Rightarrow> s | Some db \<Rightarrow> s\<lparr>store := Some (snd (SaveChunk B db sessionID chunk))\<rparr>)"

definition notifyControl :: "Supervisor \<Rightarrow> SessionInfo \<Rightarrow> Supervisor" where
  [sup_defs]: "notifyControl s i = (if control s then s\<lparr>outbox := outbox s @ [NotifyControl i]\<rparr> else s)"

definition tell_telemetry :: "Supervisor \<Rightarrow> effect \<Rightarrow> Supervisor" where
  [sup_defs]: "tell_telemetry s e = (if telemetry s then s\<lparr>outbox := outbox s @ [e]\<rparr> else s)"

fun perform :: "bolt \<Rightarrow> Supervisor \<Rightarrow> effect \<Rightarrow> Supervisor" where
  "perform B s (PersistSession i) = persistSession B s i"
| "perform B s (PersistChunk sid c) = persistChunk B s sid c"
| "perform B s (NotifyControl i) = notifyControl s i"
| "perform B s (TelStarted t) = tell_telemetry s (TelStarted t)"
| "perform B s (TelOutput t k p) = tell_telemetry s (TelOutput t k p)"
| "perform B s (TelInput t p) = tell_telemetry s (TelInput t p)"
| "perform B s (TelEnded t) = tell_telemetry s (TelEnded t)"
| "perform B s e = s\<lparr>outbox := outbox s @ [e]\<rparr>"

definition commit :: "bolt \<Rightarrow> Supervisor \<Rightarrow> string \<Rightarrow> managedSession \<Rightarrow> effect list \<Rightarrow> Supervisor" where
  [sup_defs]: "commit B s sessionID ms eff =
     foldl (perform B) (s\<lparr>sessions := gm_put sessionID ms (sessions s)\<rparr>) eff"

section \<open>Start\<close>

definition active_state :: "SessionState \<Rightarrow> bool" where
  "active_state st \<longleftrightarrow> st = SessionStateRunning \<or> st = SessionStateStarting \<or> st = SessionStateAttached"

definition projectCount :: "Supervisor \<Rightarrow> string \<Rightarrow> int" where
  "projectCount s project =
     int (length (filter (\<lambda>(_, ms). active_state (State (info ms)) \<and> ProjectID (info ms) = project) (sessions s)))"

definition globalCount :: "Supervisor \<Rightarrow> int" where
  "globalCount s = int (length (filter (\<lambda>(_, ms). active_state (State (info ms))) (sessions s)))"

text \<open>The checks of \<open>Start\<close> up to the first release of \<open>s.mu\<close>.\<close>

definition start_check :: "string option \<Rightarrow> Supervisor \<Rightarrow> SessionConfig \<Rightarrow> bridge_error option" where
  [sup_defs]: "start_check cwd s cfg =
     (if CfgSessionID cfg = '''' \<or> CfgProjectID cfg = '''' \<or> CfgRepoPath cfg = '''' then Some ErrInvalidArgument
      else case ValidateRepoPath cwd (policy s) (CfgRepoPath cfg) of
             Some e \<Rightarrow> Some e
           | None \<Rightarrow>
               if shuttingDown s then Some ErrSupervisorShuttingDown
               else if gm_get (sessions s) (CfgSessionID cfg) \<noteq> None then Some ErrSessionAlreadyExists
               else CheckSessionLimits (policy s) (projectCount s (CfgProjectID cfg)) (globalCount s))"

text \<open>\<open>resolveProvider\<close>: the first candidate that is registered and healthy, or the last error.\<close>

fun resolve_loop :: "Registry \<Rightarrow> string list option \<Rightarrow> bridge_error \<Rightarrow> string list \<Rightarrow> bridge_error + Provider" where
  "resolve_loop r env lastErr [] = Inl lastErr"
| "resolve_loop r env lastErr (i # is) =
     (case registry_Get r i of
        Inl e \<Rightarrow> resolve_loop r env e is
      | Inr p \<Rightarrow>
          let healthErr = (case (pvHealthWithEnv p, env) of (Some h, Some ev) \<Rightarrow> h ev | _ \<Rightarrow> pvHealth p)
          in if healthErr \<noteq> None then resolve_loop r env ErrProviderUnavailable is else Inr p)"

definition resolveProvider ::
  "Supervisor \<Rightarrow> string \<Rightarrow> string list \<Rightarrow> string list option \<Rightarrow> bridge_error + Provider" where
  [sup_defs]: "resolveProvider s primary fallbacks env =
     resolve_loop (registry s) env (ErrOther '''') (primary # fallbacks)"

text \<open>
  What \<open>Start\<close> does between its two critical sections: the repository setup, the choice of a provider,
  the default geometry, the command, and \<open>spawn\<close>, the process start with its pipes or its terminal.
\<close>

definition start_prepare ::
  "(Provider \<Rightarrow> SessionConfig \<Rightarrow> bridge_error + int) \<Rightarrow> Supervisor \<Rightarrow> SessionConfig \<Rightarrow>
     bridge_error + Provider \<times> SessionConfig \<times> int" where
  [sup_defs]: "start_prepare spawn s cfg =
     (case (case repoSetup s of
              None \<Rightarrow> Inr (Env cfg)
            | Some prepare \<Rightarrow> prepare (CfgRepoPath cfg) (Env cfg)) of
        Inl _ \<Rightarrow> Inl ErrRepoSetupFailed
      | Inr env \<Rightarrow>
          (case resolveProvider s (case gm_get (Options cfg) ''provider'' of None \<Rightarrow> '''' | Some p \<Rightarrow> p)
                  (Fallbacks cfg) env of
             Inl e \<Rightarrow> Inl e
           | Inr p \<Rightarrow>
               let cfg1 = cfg\<lparr>Env := env,
                             InitialCols := (if InitialCols cfg = 0 then 120 else InitialCols cfg),
                             InitialRows := (if InitialRows cfg = 0 then 40 else InitialRows cfg)\<rparr>
               in case pvBuildCommand p cfg1 of
                    Some e \<Rightarrow> Inl e
                  | None \<Rightarrow> (case spawn p cfg1 of Inl e \<Rightarrow> Inl e | Inr pid \<Rightarrow> Inr (p, cfg1, pid))))"

text \<open>The second critical section of \<open>Start\<close> and what follows it.\<close>

definition start_commit ::
  "bolt \<Rightarrow> go_time \<Rightarrow> Supervisor \<Rightarrow> Provider \<times> SessionConfig \<times> int \<Rightarrow> (bridge_error + SessionInfo) \<times> Supervisor" where
  [sup_defs]: "start_commit B now s = (\<lambda>(p, cfg, pid).
     if shuttingDown s then (Inl ErrSupervisorShuttingDown, s)
     else if gm_get (sessions s) (CfgSessionID cfg) \<noteq> None then (Inl ErrSessionAlreadyExists, s)
     else let ms = startedSession (bufSize s) p cfg now pid
          in (Inr (snapshotInfo ms),
              commit B s (CfgSessionID cfg) ms
                [TelStarted (telemetrySessionLocked ms), NotifyControl (snapshotInfo ms), PersistSession (snapshotInfo ms)]))"

definition Start ::
  "bolt \<Rightarrow> string option \<Rightarrow> (Provider \<Rightarrow> SessionConfig \<Rightarrow> bridge_error + int) \<Rightarrow> go_time \<Rightarrow> Supervisor \<Rightarrow>
     SessionConfig \<Rightarrow> (bridge_error + SessionInfo) \<times> Supervisor" where
  [sup_defs]: "Start B cwd spawn now s cfg =
     (case start_check cwd s cfg of
        Some e \<Rightarrow> (Inl e, s)
      | None \<Rightarrow> (case start_prepare spawn s cfg of Inl e \<Rightarrow> (Inl e, s) | Inr r \<Rightarrow> start_commit B now s r))"

section \<open>History and recovery\<close>

definition recoverProcess :: "bolt \<Rightarrow> (int \<Rightarrow> bool) \<Rightarrow> go_time \<Rightarrow> Supervisor \<Rightarrow> SessionInfo \<Rightarrow> bool \<times> Supervisor" where
  [sup_defs]: "recoverProcess B alive now s i =
     (if ProcessID i \<le> 0 \<or> \<not> processAlive alive (ProcessID i) then (False, s)
      else
        let cs = (case store s of
                    None \<Rightarrow> []
                  | Some db \<Rightarrow> (case LoadChunks B db (SessionID i) of (None, cs) \<Rightarrow> cs | (Some _, _) \<Rightarrow> []));
            ms = recoveredSession (bufSize s) i cs now
        in (True, commit B s (SessionID i) ms [PersistSession (snapshotInfo ms)]))"

text \<open>One round of the loop of \<open>LoadHistory\<close>.\<close>

definition load_one :: "bolt \<Rightarrow> (int \<Rightarrow> bool) \<Rightarrow> go_time \<Rightarrow> Supervisor \<Rightarrow> SessionInfo \<Rightarrow> Supervisor" where
  [sup_defs]: "load_one B alive now s i =
     (if terminal_state (State i) then s\<lparr>history := gm_put (SessionID i) i (history s)\<rparr>
      else
        let (rec, s1) = recoverProcess B alive now s i
        in if rec then s1
           else
             let i1 = i\<lparr>State := SessionStateFailed,
                        Error := (if Error i = '''' then ''orphaned by daemon restart'' else Error i),
                        StoppedAt := (if StoppedAt i = 0 then now else StoppedAt i)\<rparr>;
                 s2 = persistSession B s1 i1
             in s2\<lparr>history := gm_put (SessionID i1) i1 (history s2)\<rparr>)"

definition LoadHistory :: "bolt \<Rightarrow> (int \<Rightarrow> bool) \<Rightarrow> go_time \<Rightarrow> Supervisor \<Rightarrow> bridge_error option \<times> Supervisor" where
  [sup_defs]: "LoadHistory B alive now s =
     (case store s of
        None \<Rightarrow> (None, s)
      | Some db \<Rightarrow>
          (case LoadAll B db of
             (Some e, _) \<Rightarrow> (Some e, s)
           | (None, infos) \<Rightarrow> (None, foldl (load_one B alive now) s infos)))"

definition attachHistory :: "bolt \<Rightarrow> Supervisor \<Rightarrow> string \<Rightarrow> string \<Rightarrow> u64 \<Rightarrow> bridge_error + AttachState" where
  [sup_defs]: "attachHistory B s sessionID clientID afterSeq =
     (case (store s, gm_get (history s) sessionID) of
        (Some db, Some i) \<Rightarrow>
          (case LoadChunks B db sessionID of
             (Some e, _) \<Rightarrow> Inl e
           | (None, cs) \<Rightarrow>
               let oldest = (case cs of [] \<Rightarrow> 0 | c # _ \<Rightarrow> Seq c);
                   lst = (if cs = [] then 0 else Seq (last cs))
               in Inr \<lparr>AsClientID = clientID, AsRole = AttachRoleWriter, Replay = filter (\<lambda>c. afterSeq < Seq c) cs,
                       Live = None, ReplayGap = replay_gap oldest afterSeq, AsOldestSeq = oldest, AsLastSeq = lst,
                       Checkpoint = [], AsExitRecorded = ExitRecorded i, AsExitCode = ExitCode i,
                       AsCols = InfoCols i, AsRows = InfoRows i\<rparr>)
      | _ \<Rightarrow> Inl ErrSessionNotFound)"

section \<open>Operations on a session\<close>

definition Stop :: "bolt \<Rightarrow> Supervisor \<Rightarrow> string \<Rightarrow> bool \<Rightarrow> bridge_error option \<times> Supervisor" where
  [sup_defs]: "Stop B s sessionID force =
     (case gm_get (sessions s) sessionID of
        None \<Rightarrow> (Some ErrSessionNotFound, s)
      | Some ms \<Rightarrow> let (ms1, eff) = stopLocked ms force in (None, commit B s sessionID ms1 eff))"

definition WriteInput ::
  "bolt \<Rightarrow> go_time \<Rightarrow> Supervisor \<Rightarrow> string \<Rightarrow> string \<Rightarrow> bytes \<Rightarrow> int \<times> bridge_error option \<Rightarrow>
     (int \<times> bridge_error option) \<times> Supervisor" where
  [sup_defs]: "WriteInput B now s sessionID clientID dat wr =
     (case ValidateInputBytes (policy s) dat of
        Some e \<Rightarrow> ((0, Some e), s)
      | None \<Rightarrow>
          (case gm_get (sessions s) sessionID of
             None \<Rightarrow> ((0, Some ErrSessionNotFound), s)
           | Some ms \<Rightarrow>
               let (r, ms1, eff) = writeInputLocked now ms clientID dat wr in (r, commit B s sessionID ms1 eff)))"

definition UpdateInteraction ::
  "bolt \<Rightarrow> go_time \<Rightarrow> Supervisor \<Rightarrow> string \<Rightarrow> Interaction \<Rightarrow> bridge_error option \<times> Supervisor" where
  [sup_defs]: "UpdateInteraction B now s sessionID nxt =
     (if Source (Evidence nxt) = '''' then (Some (ErrOther ''evidence source''), s)
      else case gm_get (sessions s) sessionID of
             None \<Rightarrow> (Some ErrSessionNotFound, s)
           | Some ms \<Rightarrow> let (ms1, eff) = updateInteractionLocked now ms nxt in (None, commit B s sessionID ms1 eff))"

definition Resize ::
  "bolt \<Rightarrow> vt \<Rightarrow> go_time \<Rightarrow> Supervisor \<Rightarrow> string \<Rightarrow> string \<Rightarrow> u32 \<Rightarrow> u32 \<Rightarrow> bridge_error option \<Rightarrow>
     (bridge_error option \<times> Supervisor) outcome" where
  [sup_defs]: "Resize B V now s sessionID clientID cols rows setsize =
     (case gm_get (sessions s) sessionID of
        None \<Rightarrow> Ret (Some ErrSessionNotFound, s)
      | Some ms \<Rightarrow>
          outcome_bind (resizeLocked V now ms clientID cols rows setsize)
            (\<lambda>(r, ms1, eff). Ret (r, commit B s sessionID ms1 eff)))"

definition Attach ::
  "bolt \<Rightarrow> vt \<Rightarrow> go_time \<Rightarrow> Supervisor \<Rightarrow> string \<Rightarrow> string \<Rightarrow> u64 \<Rightarrow> AttachRole \<Rightarrow>
     ((bridge_error + AttachState) \<times> Supervisor) outcome" where
  [sup_defs]: "Attach B V now s sessionID clientID afterSeq r =
     (case gm_get (sessions s) sessionID of
        None \<Rightarrow> Ret (attachHistory B s sessionID clientID afterSeq, s)
      | Some ms \<Rightarrow>
          outcome_bind (attachLocked V now ms clientID afterSeq r)
            (\<lambda>(res, ms1, eff). Ret (res, commit B s sessionID ms1 eff)))"

definition Detach :: "bolt \<Rightarrow> Supervisor \<Rightarrow> string \<Rightarrow> string \<Rightarrow> (bool \<times> bridge_error option) \<times> Supervisor" where
  [sup_defs]: "Detach B s sessionID clientID =
     (case gm_get (sessions s) sessionID of
        None \<Rightarrow> (if gm_get (history s) sessionID \<noteq> None then ((False, None), s) else ((False, Some ErrSessionNotFound), s))
      | Some ms \<Rightarrow> let (r, ms1, eff) = detachLocked ms clientID in (r, commit B s sessionID ms1 eff))"

definition ClaimWriter ::
  "bolt \<Rightarrow> Supervisor \<Rightarrow> string \<Rightarrow> string \<Rightarrow> bool \<Rightarrow> (bridge_error + string) \<times> Supervisor" where
  [sup_defs]: "ClaimWriter B s sessionID clientID force =
     (case gm_get (sessions s) sessionID of
        None \<Rightarrow> (Inl ErrSessionNotFound, s)
      | Some ms \<Rightarrow> let (r, ms1) = claimWriterLocked ms clientID force in (r, commit B s sessionID ms1 []))"

definition ReleaseWriter :: "bolt \<Rightarrow> Supervisor \<Rightarrow> string \<Rightarrow> string \<Rightarrow> bridge_error option \<times> Supervisor" where
  [sup_defs]: "ReleaseWriter B s sessionID clientID =
     (case gm_get (sessions s) sessionID of
        None \<Rightarrow> (Some ErrSessionNotFound, s)
      | Some ms \<Rightarrow> let (r, ms1) = releaseWriterLocked ms clientID in (r, commit B s sessionID ms1 []))"

definition notify_writer :: "bolt \<Rightarrow> ChunkType \<Rightarrow> Supervisor \<Rightarrow> string \<Rightarrow> string \<Rightarrow> Supervisor outcome" where
  [sup_defs]: "notify_writer B ctype s sessionID clientID =
     (case gm_get (sessions s) sessionID of
        None \<Rightarrow> Ret s
      | Some ms \<Rightarrow>
          outcome_bind (fanoutControlEvent ms ctype (to_bytes clientID)) (\<lambda>ms1. Ret (commit B s sessionID ms1 [])))"

definition NotifyWriterClaimed :: "bolt \<Rightarrow> Supervisor \<Rightarrow> string \<Rightarrow> string \<Rightarrow> Supervisor outcome" where
  [sup_defs]: "NotifyWriterClaimed B = notify_writer B ChunkTypeWriterClaimed"

definition NotifyWriterReleased :: "bolt \<Rightarrow> Supervisor \<Rightarrow> string \<Rightarrow> string \<Rightarrow> Supervisor outcome" where
  [sup_defs]: "NotifyWriterReleased B = notify_writer B ChunkTypeWriterReleased"

section \<open>Structured responses and activity\<close>

definition pendingOperation ::
  "bolt \<Rightarrow> Supervisor \<Rightarrow> string \<Rightarrow> string \<Rightarrow> string \<Rightarrow> bool \<Rightarrow> bridge_error option \<times> Supervisor" where
  [sup_defs]: "pendingOperation B s sessionID pendingID text approval =
     (case ValidateResponse text of
        Some e \<Rightarrow> (Some e, s)
      | None \<Rightarrow>
          (case gm_get (sessions s) sessionID of
             None \<Rightarrow> (Some ErrSessionNotFound, s)
           | Some ms \<Rightarrow> let (r, eff) = pendingLocked ms pendingID text approval in (r, commit B s sessionID ms eff)))"

definition DecideApproval ::
  "bolt \<Rightarrow> Supervisor \<Rightarrow> string \<Rightarrow> string \<Rightarrow> string \<Rightarrow> bridge_error option \<times> Supervisor" where
  [sup_defs]: "DecideApproval B s sessionID pendingID decision =
     (if decision \<noteq> ''accept'' \<and> decision \<noteq> ''cancel'' then (Some ErrInvalidResponse, s)
      else pendingOperation B s sessionID pendingID decision True)"

definition RespondToInput ::
  "bolt \<Rightarrow> Supervisor \<Rightarrow> string \<Rightarrow> string \<Rightarrow> string \<Rightarrow> bridge_error option \<times> Supervisor" where
  [sup_defs]: "RespondToInput B s sessionID pendingID text = pendingOperation B s sessionID pendingID text False"

definition ObserveActivity ::
  "Supervisor \<Rightarrow> string \<Rightarrow> u64 \<Rightarrow> int \<Rightarrow> int \<Rightarrow> bridge_error + ActivityWindow" where
  [sup_defs]: "ObserveActivity s sessionID after events bytes =
     (case gm_get (sessions s) sessionID of
        None \<Rightarrow> Inl ErrSessionNotFound
      | Some ms \<Rightarrow> observeActivityLocked ms after events bytes)"

definition SendInstruction :: "bolt \<Rightarrow> Supervisor \<Rightarrow> string \<Rightarrow> string \<Rightarrow> bridge_error option \<times> Supervisor" where
  [sup_defs]: "SendInstruction B s sessionID text =
     (case ValidateResponse text of
        Some e \<Rightarrow> (Some e, s)
      | None \<Rightarrow>
          (case gm_get (sessions s) sessionID of
             None \<Rightarrow> (Some ErrSessionNotFound, s)
           | Some ms \<Rightarrow> let (r, eff) = sendInstructionLocked ms text in (r, commit B s sessionID ms eff)))"

section \<open>Queries\<close>

definition Get :: "Supervisor \<Rightarrow> string \<Rightarrow> bridge_error + SessionInfo" where
  [sup_defs]: "Get s sessionID =
     (case gm_get (sessions s) sessionID of
        Some ms \<Rightarrow> Inr (snapshotInfo ms)
      | None \<Rightarrow> (case gm_get (history s) sessionID of Some i \<Rightarrow> Inr i | None \<Rightarrow> Inl ErrSessionNotFound))"

definition List :: "Supervisor \<Rightarrow> string \<Rightarrow> SessionInfo list" where
  [sup_defs]: "List s projectID =
     (let wanted = (\<lambda>i. \<not> (projectID \<noteq> '''' \<and> ProjectID i \<noteq> projectID));
          liveIDs = map fst (sessions s)
      in filter wanted (map (\<lambda>(_, ms). snapshotInfo ms) (sessions s)) @
         map snd (filter (\<lambda>(i, inf). i \<notin> set liveIDs \<and> wanted inf) (history s)))"

section \<open>Idle sessions and shutdown\<close>

definition idle_ids :: "go_time \<Rightarrow> Supervisor \<Rightarrow> string list" where
  "idle_ids now s =
     map fst (filter (\<lambda>(_, ms). State (info ms) = SessionStateRunning \<and> observers ms = [] \<and>
                        idleTimeout s < now - lastActivity ms) (sessions s))"

definition stop_each :: "bolt \<Rightarrow> bool \<Rightarrow> Supervisor \<Rightarrow> string list \<Rightarrow> Supervisor" where
  [sup_defs]: "stop_each B force s ids = foldl (\<lambda>s i. snd (Stop B s i force)) s ids"

definition reapIdleSessions :: "bolt \<Rightarrow> go_time \<Rightarrow> Supervisor \<Rightarrow> Supervisor" where
  [sup_defs]: "reapIdleSessions B now s =
     (if idleTimeout s \<le> 0 then s else stop_each B False s (idle_ids now s))"

definition nonTerminalSessionIDs :: "Supervisor \<Rightarrow> string list" where
  "nonTerminalSessionIDs s = map fst (filter (\<lambda>(_, ms). \<not> terminal_state (State (info ms))) (sessions s))"

text \<open>\<open>stopSessions\<close> in the order the identifiers were collected.\<close>

definition stopSessions :: "bolt \<Rightarrow> Supervisor \<Rightarrow> bool \<Rightarrow> Supervisor" where
  [sup_defs]: "stopSessions B s force = stop_each B force s (nonTerminalSessionIDs s)"

text \<open>\<open>Shutdown\<close>: what happens before the wait, when the wait ends, and when the context expires first.\<close>

definition shutdown_begin :: "bolt \<Rightarrow> Supervisor \<Rightarrow> Supervisor" where
  [sup_defs]: "shutdown_begin B s = stopSessions B (s\<lparr>doneClosed := True, shuttingDown := True\<rparr>) False"

definition waitForAllSessions :: "Supervisor \<Rightarrow> bool" where
  "waitForAllSessions s \<longleftrightarrow> nonTerminalSessionIDs s = []"

definition closeTelemetry :: "Supervisor \<Rightarrow> Supervisor" where
  [sup_defs]: "closeTelemetry s = (if telemetry s then s\<lparr>telemetryClosed := True\<rparr> else s)"

definition closeControl :: "Supervisor \<Rightarrow> Supervisor" where
  [sup_defs]: "closeControl s = (if control s then s\<lparr>controlClosed := True\<rparr> else s)"

definition shutdown_done :: "Supervisor \<Rightarrow> Supervisor" where
  [sup_defs]: "shutdown_done s = closeControl (closeTelemetry s)"

definition shutdown_expired :: "bolt \<Rightarrow> Supervisor \<Rightarrow> Supervisor" where
  [sup_defs]: "shutdown_expired B s = shutdown_done (stopSessions B s True)"

definition Close :: "bolt \<Rightarrow> Supervisor \<Rightarrow> Supervisor" where
  [sup_defs]: "Close B s =
     (let s1 = s\<lparr>doneClosed := True, shuttingDown := True\<rparr>
      in shutdown_done (stop_each B True s1 (map fst (sessions s1))))"

end
