(* ===== verification/Supervisor_Properties.thy ===== *)
theory Supervisor_Properties
  imports Supervisor
begin

text \<open>
  The supervisor as a whole: its step relation, the invariant of its reachable states, and the
  properties of \<open>Start\<close>, \<open>Shutdown\<close>, the listings and the durable output journal.
\<close>

section \<open>Effects change nothing else\<close>

lemma perform_frame [simp]:
  "sessions (perform B s e) = sessions s" "history (perform B s e) = history s"
  "policy (perform B s e) = policy s" "shuttingDown (perform B s e) = shuttingDown s"
  "registry (perform B s e) = registry s" "bufSize (perform B s e) = bufSize s"
  "idleTimeout (perform B s e) = idleTimeout s"
  by (cases e; simp add: sup_defs split: option.split)+

lemma perform_all_frame [simp]:
  "sessions (foldl (perform B) s es) = sessions s" "history (foldl (perform B) s es) = history s"
  "policy (foldl (perform B) s es) = policy s" "shuttingDown (foldl (perform B) s es) = shuttingDown s"
  "registry (foldl (perform B) s es) = registry s" "bufSize (foldl (perform B) s es) = bufSize s"
  "idleTimeout (foldl (perform B) s es) = idleTimeout s"
  by (induction es arbitrary: s) simp_all

lemma commit_frame [simp]:
  "sessions (commit B s i ms es) = gm_put i ms (sessions s)" "history (commit B s i ms es) = history s"
  "policy (commit B s i ms es) = policy s" "shuttingDown (commit B s i ms es) = shuttingDown s"
  "registry (commit B s i ms es) = registry s" "bufSize (commit B s i ms es) = bufSize s"
  "idleTimeout (commit B s i ms es) = idleTimeout s"
  by (simp_all add: commit_def)

lemma persistSession_frame [simp]:
  "sessions (persistSession B s i) = sessions s" "history (persistSession B s i) = history s"
  "policy (persistSession B s i) = policy s" "shuttingDown (persistSession B s i) = shuttingDown s"
  "registry (persistSession B s i) = registry s"
  by (simp_all add: persistSession_def split: option.split)

section \<open>Steps\<close>

text \<open>The reader goroutines of a session, at the level of the supervisor.\<close>

definition read_output ::
  "bolt \<Rightarrow> vt \<Rightarrow> go_time \<Rightarrow> Supervisor \<Rightarrow> string \<Rightarrow> bytes \<Rightarrow> read_error option \<Rightarrow> (bool \<times> Supervisor) outcome" where
  "read_output B V now s sessionID dat err =
     (case gm_get (sessions s) sessionID of
        None \<Rightarrow> Ret (True, s)
      | Some ms \<Rightarrow>
          outcome_bind (readLoop V now ms dat err) (\<lambda>(ms1, eff, fin). Ret (fin, commit B s sessionID ms1 eff)))"

text \<open>
  A step of the daemon: a new session is entered in the table, a session of the table takes a step
  and the supervisor performs effects (the invariant holds whatever they are), or one of the operations that span sessions runs.
\<close>

inductive sup_step :: "bolt \<Rightarrow> vt \<Rightarrow> Supervisor \<Rightarrow> Supervisor \<Rightarrow> bool" for B V where
  Starting: "start_commit B now s r = (res, s') \<Longrightarrow> sup_step B V s s'"
| InSession: "gm_get (sessions s) i = Some ms \<Longrightarrow> session_step V ms ms' \<Longrightarrow>
    sup_step B V s (commit B s i ms' eff)"
| Loading: "LoadHistory B alive now s = (e, s') \<Longrightarrow> sup_step B V s s'"
| Reaping: "sup_step B V s (reapIdleSessions B now s)"
| ShuttingDown: "sup_step B V s (shutdown_begin B s)"
| Expired: "sup_step B V s (shutdown_expired B s)"
| Closing: "sup_step B V s (Close B s)"

inductive sup_reachable :: "bolt \<Rightarrow> vt \<Rightarrow> Supervisor \<Rightarrow> bool" for B V where
  New: "registry_ok r \<Longrightarrow> sup_reachable B V (NewSupervisor r p bs idle st setup tel ctl)"
| SupStep: "sup_reachable B V s \<Longrightarrow> sup_step B V s s' \<Longrightarrow> sup_reachable B V s'"

text \<open>The tables are maps keyed by the identifier of the session they hold, and every live session is in a reachable state.\<close>

definition sup_ok :: "vt \<Rightarrow> Supervisor \<Rightarrow> bool" where
  "sup_ok V s \<longleftrightarrow> gm_ok (sessions s) \<and> gm_ok (history s) \<and>
     (\<forall>i ms. gm_get (sessions s) i = Some ms \<longrightarrow> SessionID (info ms) = i \<and> reachable V ms) \<and>
     (\<forall>i inf. gm_get (history s) i = Some inf \<longrightarrow> SessionID inf = i)"

lemma sup_ok_commit:
  assumes "sup_ok V s" and "SessionID (info ms) = i" and "reachable V ms"
  shows "sup_ok V (commit B s i ms eff)"
  using assms by (auto simp: sup_ok_def gomap_simps split: if_splits)

lemma Stop_ok: "sup_ok V s \<Longrightarrow> sup_ok V (snd (Stop B s i force))"
proof (cases "gm_get (sessions s) i")
  case (Some ms)
  assume ok: "sup_ok V s"
  with Some have m: "SessionID (info ms) = i" "reachable V ms" by (auto simp: sup_ok_def)
  obtain ms1 eff where st: "stopLocked ms force = (ms1, eff)" by (cases "stopLocked ms force")
  have "reachable V ms1" using Step [OF m(2) StopStep [of V ms force]] st by simp
  moreover have "SessionID (info ms1) = i" using st m(1) by (auto simp: stopLocked_def Let_def split: if_splits)
  ultimately show ?thesis using ok Some st by (simp add: Stop_def sup_ok_commit)
qed (simp add: Stop_def)

lemma stop_each_ok: "sup_ok V s \<Longrightarrow> sup_ok V (stop_each B force s ids)"
  unfolding stop_each_def by (induction ids arbitrary: s) (simp_all add: Stop_ok)

lemma startedSession_id: "SessionID (info (startedSession bs p cfg now pid)) = CfgSessionID cfg"
  by (simp add: startedSession_def Let_def)

lemma recoveredSession_id: "SessionID (info (recoveredSession bs i cs now)) = SessionID i"
  by (simp add: recoveredSession_def Let_def)

lemma start_commit_ok:
  assumes "sup_ok V s" and "start_commit B now s r = (res, s')"
  shows "sup_ok V s'"
proof -
  obtain p cfg pid where r: "r = (p, cfg, pid)" by (cases r)
  show ?thesis
  proof (cases "shuttingDown s \<or> gm_get (sessions s) (CfgSessionID cfg) \<noteq> None")
    case True
    with assms show ?thesis by (auto simp: start_commit_def r split: if_splits)
  next
    case False
    with assms(2) obtain eff where "s' = commit B s (CfgSessionID cfg) (startedSession (bufSize s) p cfg now pid) eff"
      unfolding start_commit_def r by (simp add: Let_def) blast
    then show ?thesis using sup_ok_commit [OF assms(1) startedSession_id Started] by simp
  qed
qed

lemma history_put_ok: "sup_ok V s \<Longrightarrow> SessionID i = k \<Longrightarrow> sup_ok V (s\<lparr>history := gm_put k i (history s)\<rparr>)"
  by (simp add: sup_ok_def gomap_simps)

lemma persistSession_ok: "sup_ok V s \<Longrightarrow> sup_ok V (persistSession B s i)"
  by (simp add: sup_ok_def)

lemma recoverProcess_ok: "sup_ok V s \<Longrightarrow> sup_ok V (snd (recoverProcess B alive now s i))"
  unfolding recoverProcess_def Let_def by (auto intro: sup_ok_commit [OF _ recoveredSession_id RecoveredS])

lemma load_one_ok:
  assumes "sup_ok V s"
  shows "sup_ok V (load_one B alive now s i)"
proof -
  obtain rec s1 where r: "recoverProcess B alive now s i = (rec, s1)" by (cases "recoverProcess B alive now s i")
  with recoverProcess_ok [OF assms, of B alive now i] have "sup_ok V s1" by simp
  with r assms show ?thesis
    unfolding load_one_def Let_def by (auto intro!: history_put_ok persistSession_ok simp del: persistSession_frame)
qed

lemma load_all_ok: "sup_ok V s \<Longrightarrow> sup_ok V (foldl (load_one B alive now) s infos)"
  by (induction infos arbitrary: s) (simp_all add: load_one_ok)

lemma LoadHistory_ok: "sup_ok V s \<Longrightarrow> LoadHistory B alive now s = (e, s') \<Longrightarrow> sup_ok V s'"
  using load_all_ok by (auto simp: LoadHistory_def split: option.splits prod.splits)

lemma sup_ok_flags [simp]:
  "sup_ok V (s\<lparr>doneClosed := a, shuttingDown := b\<rparr>) = sup_ok V s"
  "sup_ok V (closeTelemetry s) = sup_ok V s" "sup_ok V (closeControl s) = sup_ok V s"
  by (simp_all add: sup_ok_def closeTelemetry_def closeControl_def)

lemma session_step_id:
  assumes "session_step V ms ms'" and ok: "session_ok ms"
  shows "SessionID (info ms') = SessionID (info ms)"
  using assms(1)
proof (cases rule: session_step.cases)
  case (Read now dat err eff fin)
  then show ?thesis using readLoop_ok [OF ok, of V now dat err] by (auto simp: reader_result_def loop_view_def split: if_splits)
next
  case (ReadStream um now line err eff fin)
  then show ?thesis using readLoopStreamJSON_ok [OF ok, of V um now line err]
    by (auto simp: reader_result_def loop_view_def split: if_splits)
next
  case (Wait now res)
  then show ?thesis by (cases res) (simp_all add: waitLoop_def Let_def)
next
  case (ResizeStep now c cols rows ss r eff)
  have "session_ok (ms\<lparr>info := (info ms)\<lparr>InfoCols := cols, InfoRows := rows\<rparr>, lastActivity := now\<rparr>)"
    using ok by (subst session_ok_cong [of _ ms]) (simp_all add: client_view_def)
  from appendChunkLocked_ok [OF this, of V now "[]" ChunkTypeOutput] ResizeStep show ?thesis
    by (auto simp: resizeLocked_def Let_def loop_view_def split: if_splits option.splits)
next
  case (AttachStep c now after r res eff)
  from ok show ?thesis
    by (cases rule: attach_cases [where V = V and now = now and c = c and a = after and r = r])
      (use AttachStep in \<open>auto simp: attach_info_def loop_view_def\<close>)
next
  case (Fanout ctype payload)
  then show ?thesis using fanout_ok [OF ok, of ctype payload] by (auto simp: loop_view_def)
qed (simp_all add: stopLocked_def recovered_stopped_def monitorRecoveredProcess_def writeInputLocked_def detachLocked_def
    claimWriterLocked_def releaseWriterLocked_def updateInteractionLocked_def Let_def split: option.split)

lemma sup_step_ok:
  assumes "sup_step B V s s'" and "sup_ok V s"
  shows "sup_ok V s'"
  using assms(1)
proof (cases rule: sup_step.cases)
  case (InSession i ms ms' eff)
  with assms(2) have i: "SessionID (info ms) = i" and r: "reachable V ms" by (auto simp: sup_ok_def)
  have "reachable V ms'" using Step [OF r InSession(3)] .
  moreover have "SessionID (info ms') = i" using session_step_id [OF InSession(3) reachable_ok [OF r]] i by simp
  ultimately show ?thesis using InSession(1) sup_ok_commit [OF assms(2)] by simp
next
  case (Reaping now)
  then show ?thesis using assms(2) by (simp add: reapIdleSessions_def stop_each_ok)
next
  case (Starting now r res)
  then show ?thesis using start_commit_ok [OF assms(2)] by blast
next
  case (Loading alive now e)
  then show ?thesis using LoadHistory_ok [OF assms(2)] by blast
qed (simp_all add: assms(2) shutdown_begin_def shutdown_expired_def stopSessions_def stop_each_ok shutdown_done_def Close_def Let_def)

lemma NewSupervisor_ok: "sup_ok V (NewSupervisor r p bs idle st setup tel ctl)"
  by (simp add: sup_ok_def NewSupervisor_def)

lemma sup_reachable_ok: "sup_reachable B V s \<Longrightarrow> sup_ok V s"
  by (induction rule: sup_reachable.induct) (auto intro: NewSupervisor_ok sup_step_ok)

section \<open>Start\<close>

lemma start_commit_new:
  assumes "start_commit B now s (p, cfg, pid) = (Inr i, s')"
  shows "gm_get (sessions s) (CfgSessionID cfg) = None" and "\<not> shuttingDown s" and "policy s' = policy s"
    and "sessions s' = sessions s @ [(CfgSessionID cfg, startedSession (bufSize s) p cfg now pid)]"
    and "i = snapshotInfo (startedSession (bufSize s) p cfg now pid)" and "shuttingDown s' = shuttingDown s"
  using assms by (auto simp: start_commit_def Let_def put_absent split: if_splits)

lemma started_counts:
  assumes "sessions s' = sessions s @ [(k, startedSession bs p cfg now pid)]"
  shows "globalCount s' = globalCount s + 1" and "projectCount s' (CfgProjectID cfg) = projectCount s (CfgProjectID cfg) + 1"
proof -
  have "State (info (startedSession bs p cfg now pid)) = SessionStateRunning"
      "ProjectID (info (startedSession bs p cfg now pid)) = CfgProjectID cfg"
    by (simp_all add: startedSession_def Let_def)
  with assms show "globalCount s' = globalCount s + 1" "projectCount s' (CfgProjectID cfg) = projectCount s (CfgProjectID cfg) + 1"
    by (simp_all add: globalCount_def projectCount_def active_state_def)
qed

lemma start_prepare_ids:
  "start_prepare spawn s cfg = Inr (p, cfg1, pid) \<Longrightarrow> CfgSessionID cfg1 = CfgSessionID cfg \<and> CfgProjectID cfg1 = CfgProjectID cfg"
  by (auto simp: start_prepare_def Let_def split: sum.splits option.splits)

text \<open>
  C24. A \<open>Start\<close> that runs without another \<open>Start\<close> in between creates one session, running, under an
  identifier that was free, for a path the policy admits; the other sessions are untouched, and
  neither the global nor the project limit is exceeded afterwards.
\<close>

theorem start_limits:
  assumes "Start B cwd spawn now s cfg = (Inr i, s')"
  shows "(0 < MaxGlobal (policy s) \<longrightarrow> globalCount s' \<le> MaxGlobal (policy s)) \<and>
         (0 < MaxPerProject (policy s) \<longrightarrow> projectCount s' (CfgProjectID cfg) \<le> MaxPerProject (policy s)) \<and>
         gm_get (sessions s) (CfgSessionID cfg) = None \<and>
         (\<forall>k. k \<noteq> CfgSessionID cfg \<longrightarrow> gm_get (sessions s') k = gm_get (sessions s) k) \<and>
         Get s' (CfgSessionID cfg) = Inr i \<and> State i = SessionStateRunning \<and> ProjectID i = CfgProjectID cfg \<and>
         \<not> shuttingDown s \<and> ValidateRepoPath cwd (policy s) (CfgRepoPath cfg) = None"
proof -
  from assms have chk: "start_check cwd s cfg = None" by (auto simp: Start_def split: option.splits)
  with assms obtain p cfg1 pid where prep: "start_prepare spawn s cfg = Inr (p, cfg1, pid)"
    and com: "start_commit B now s (p, cfg1, pid) = (Inr i, s')"
    by (auto simp: Start_def split: sum.splits)
  note ids = start_prepare_ids [OF prep]
  note new = start_commit_new [OF com]
  note counts = started_counts [OF new(4)]
  have st: "State i = SessionStateRunning" "ProjectID i = CfgProjectID cfg"
    using new(5) ids by (simp_all add: snapshotInfo_def startedSession_def Let_def)
  have get: "gm_get (sessions s') k =
      (if k = CfgSessionID cfg then Some (startedSession (bufSize s) p cfg1 now pid) else gm_get (sessions s) k)" for k
    using new(1,4) ids by (auto simp: map_add_def split: option.splits)
  have "MaxPerProject (policy s) \<le> 0 \<or> projectCount s (CfgProjectID cfg) < MaxPerProject (policy s)"
      "MaxGlobal (policy s) \<le> 0 \<or> globalCount s < MaxGlobal (policy s)" "ValidateRepoPath cwd (policy s) (CfgRepoPath cfg) = None"
    using chk by (auto simp: start_check_def CheckSessionLimits_def split: if_splits option.splits)
  with counts ids st get new show ?thesis by (auto simp: Get_def)
qed

text \<open>A supervisor that allows one session, and two requests for it.\<close>

definition demo_policy :: Policy where
  "demo_policy = \<lparr>MaxPerProject = 0, MaxGlobal = 1, MaxInputBytes = 0, AllowedPaths = []\<rparr>"

definition demo_sup :: Supervisor where
  "demo_sup = NewSupervisor (snd (Register NewRegistry (plainProvider ''x''))) demo_policy 1024 0 (Some []) None False True"

definition demo_request :: "string \<Rightarrow> SessionConfig" where
  "demo_request i = demo_cfg\<lparr>CfgSessionID := i, Options := [(''provider'', ''x'')]\<rparr>"

lemmas demo_sup_simps = demo_sup_def demo_policy_def demo_request_def demo_cfg_def NewSupervisor_def Register_def NewRegistry_def
  plainProvider_def start_check_def start_prepare_def resolveProvider_def registry_Get_def CheckSessionLimits_def
  ValidateRepoPath_def projectCount_def globalCount_def Let_def

lemma demo_check: "i \<noteq> '''' \<Longrightarrow> start_check None demo_sup (demo_request i) = None"
  by (simp add: demo_sup_simps)

lemma demo_prepare: "start_prepare (\<lambda>_ _. Inr 7) demo_sup (demo_request i) = Inr (plainProvider ''x'', demo_request i, 7)"
  by (simp add: demo_sup_simps)

theorem start_limits_witness:
  "\<exists>i s'. Start sorted_bolt None (\<lambda>_ _. Inr 7) 0 demo_sup (demo_request ''a'') = (Inr i, s') \<and> globalCount s' \<le> 1"
proof -
  have "\<exists>i s'. Start sorted_bolt None (\<lambda>_ _. Inr 7) 0 demo_sup (demo_request ''a'') = (Inr i, s')"
    using demo_check [of "''a''"] demo_prepare [of "''a''"]
    by (simp add: Start_def start_commit_def Let_def) (simp add: demo_sup_simps)
  then obtain i s' where s: "Start sorted_bolt None (\<lambda>_ _. Inr 7) 0 demo_sup (demo_request ''a'') = (Inr i, s')" by blast
  from start_limits [OF s] have "globalCount s' \<le> 1" by (simp add: demo_sup_def NewSupervisor_def demo_policy_def)
  with s show ?thesis by blast
qed

text \<open>
  The limits are checked before \<open>Start\<close> releases the lock to prepare the process and not again
  when the session is entered: two requests with different identifiers that both pass the check on
  the same state both succeed, and together add two sessions whatever the limit.
\<close>

theorem start_race:
  assumes "start_check cwd s cfg = None" and "start_check cwd s cfg' = None" and "CfgSessionID cfg \<noteq> CfgSessionID cfg'"
    and "start_prepare spawn s cfg = Inr r" and "start_prepare spawn s cfg' = Inr r'"
  shows "\<exists>i i' s1 s2. start_commit B now s r = (Inr i, s1) \<and> start_commit B now' s1 r' = (Inr i', s2) \<and>
           globalCount s2 = globalCount s + 2"
proof -
  obtain p c pid where r: "r = (p, c, pid)" by (cases r)
  obtain p' c' pid' where r': "r' = (p', c', pid')" by (cases r')
  note ids = start_prepare_ids [OF assms(4) [unfolded r]] start_prepare_ids [OF assms(5) [unfolded r']]
  have free: "\<not> shuttingDown s" "gm_get (sessions s) (CfgSessionID c) = None" "gm_get (sessions s) (CfgSessionID c') = None"
    using assms(1,2) ids by (auto simp: start_check_def split: if_splits option.splits)
  then obtain i s1 where 1: "start_commit B now s (p, c, pid) = (Inr i, s1)"
    by (simp add: start_commit_def Let_def)
  note n1 = start_commit_new [OF 1]
  have "gm_get (sessions s1) (CfgSessionID c') = None" "\<not> shuttingDown s1"
    using free n1(4,6) ids assms(3) by (auto simp: map_add_def)
  then obtain i' s2 where 2: "start_commit B now' s1 (p', c', pid') = (Inr i', s2)"
    by (simp add: start_commit_def Let_def)
  from 1 2 started_counts(1) [OF n1(4)] started_counts(1) [OF start_commit_new(4) [OF 2]] r r' show ?thesis by auto
qed

theorem start_race_witness:
  "\<exists>s1 s2 i i'. start_commit sorted_bolt 0 demo_sup (plainProvider ''x'', demo_request ''a'', 7) = (Inr i, s1) \<and>
     start_commit sorted_bolt 0 s1 (plainProvider ''x'', demo_request ''b'', 7) = (Inr i', s2) \<and>
     MaxGlobal (policy demo_sup) < globalCount s2"
proof -
  have "CfgSessionID (demo_request ''a'') \<noteq> CfgSessionID (demo_request ''b'')" by (simp add: demo_request_def)
  from start_race [OF demo_check demo_check this demo_prepare demo_prepare, of sorted_bolt 0 0]
  obtain i i' s1 s2 where "start_commit sorted_bolt 0 demo_sup (plainProvider ''x'', demo_request ''a'', 7) = (Inr i, s1)"
    "start_commit sorted_bolt 0 s1 (plainProvider ''x'', demo_request ''b'', 7) = (Inr i', s2)"
    "globalCount s2 = globalCount demo_sup + 2" by auto
  moreover have "MaxGlobal (policy demo_sup) = 1" "globalCount demo_sup = 0"
    by (simp_all add: demo_sup_def NewSupervisor_def demo_policy_def globalCount_def)
  ultimately show ?thesis by fastforce
qed

text \<open>\<open>resolveProvider\<close> against its reference: the first candidate that is registered and healthy.\<close>

definition healthy :: "string list option \<Rightarrow> Provider \<Rightarrow> bool" where
  "healthy env p \<longleftrightarrow> (case (pvHealthWithEnv p, env) of (Some h, Some ev) \<Rightarrow> h ev | _ \<Rightarrow> pvHealth p) = None"

definition usable :: "Registry \<Rightarrow> string list option \<Rightarrow> string \<Rightarrow> bool" where
  "usable r env i \<longleftrightarrow> (\<exists>p. registry_Get r i = Inr p \<and> healthy env p)"

lemma resolve_loop_first:
  "case List.find (usable r env) ids of
     Some i \<Rightarrow> resolve_loop r env e ids = registry_Get r i
   | None \<Rightarrow> (\<exists>e'. resolve_loop r env e ids = Inl e')"
proof (induction ids arbitrary: e)
  case (Cons i ids)
  show ?case
  proof (cases "registry_Get r i")
    case (Inl e')
    with Cons [of e'] show ?thesis by (simp add: usable_def split: option.splits)
  next
    case (Inr p)
    have "resolve_loop r env e (i # ids) = (if healthy env p then Inr p else resolve_loop r env ErrProviderUnavailable ids)"
      using Inr by (simp add: healthy_def Let_def)
    moreover have "usable r env i = healthy env p" using Inr by (simp add: usable_def)
    ultimately show ?thesis using Cons [of ErrProviderUnavailable] Inr
      by (simp del: resolve_loop.simps split: option.splits)
  qed
qed simp

text \<open>
  \<open>resolveProvider\<close> picks the requested provider when it is registered and healthy, otherwise the
  first fallback that is, and fails only when no candidate is; health is asked with the session's
  environment when the provider supports that and an environment is given.
\<close>

theorem resolveProvider_first:
  "case List.find (usable (registry s) env) (primary # fallbacks) of
     Some i \<Rightarrow> resolveProvider s primary fallbacks env = registry_Get (registry s) i
   | None \<Rightarrow> (\<exists>e. resolveProvider s primary fallbacks env = Inl e)"
  unfolding resolveProvider_def by (rule resolve_loop_first)

section \<open>Shutdown\<close>

lemma Stop_get:
  "gm_get (sessions (snd (Stop B s i force))) k =
     (if k = i then map_option (\<lambda>ms. fst (stopLocked ms force)) (gm_get (sessions s) i) else gm_get (sessions s) k)"
  by (auto simp: Stop_def gomap_simps split: option.splits prod.splits)

definition winding_down :: "SessionState \<Rightarrow> bool" where
  "winding_down st \<longleftrightarrow> st = SessionStateStopping \<or> terminal_state st"

lemma stopLocked_state:
  "winding_down (State (info (fst (stopLocked ms force))))"
  "terminal_state (State (info ms)) \<Longrightarrow> fst (stopLocked ms force) = ms"
  by (auto simp: stopLocked_def Let_def winding_down_def)

lemma stop_each_get:
  "case gm_get (sessions s) k of
     None \<Rightarrow> gm_get (sessions (stop_each B force s ids)) k = None
   | Some ms \<Rightarrow> \<exists>ms'. gm_get (sessions (stop_each B force s ids)) k = Some ms' \<and>
       (k \<in> set ids \<or> winding_down (State (info ms)) \<longrightarrow> winding_down (State (info ms'))) \<and>
       (terminal_state (State (info ms)) \<longrightarrow> ms' = ms)"
proof (induction ids arbitrary: s)
  case Nil
  show ?case by (simp add: stop_each_def split: option.split)
next
  case (Cons i ids)
  have "stop_each B force s (i # ids) = stop_each B force (snd (Stop B s i force)) ids" by (simp add: stop_each_def)
  with Cons [of "snd (Stop B s i force)"] show ?case
    by (cases "k = i") (auto simp: Stop_get stopLocked_state split: option.splits)
qed

lemma stop_each_frame [simp]: "shuttingDown (stop_each B force s ids) = shuttingDown s"
proof (induction ids arbitrary: s)
  case (Cons i ids)
  have "stop_each B force s (i # ids) = stop_each B force (snd (Stop B s i force)) ids" by (simp add: stop_each_def)
  moreover have "shuttingDown (snd (Stop B s i force)) = shuttingDown s"
    by (simp add: Stop_def split: option.split prod.split)
  ultimately show ?case using Cons by simp
qed (simp add: stop_each_def)

text \<open>
  C23. When \<open>Shutdown\<close> begins, every session of the table is stopping or has ended, the ones that had
  ended are untouched, none is lost, and from then on no \<open>Start\<close> succeeds, including one that passed
  its checks before and is about to enter its session.
\<close>

theorem shutdown_stops_all:
  assumes "s' = shutdown_begin B s"
  shows "(\<forall>k ms. gm_get (sessions s) k = Some ms \<longrightarrow>
            (\<exists>ms'. gm_get (sessions s') k = Some ms' \<and> (State (info ms') = SessionStateStopping \<or> terminal_state (State (info ms'))) \<and>
               (terminal_state (State (info ms)) \<longrightarrow> ms' = ms))) \<and>
         (\<forall>k. gm_get (sessions s) k = None \<longrightarrow> gm_get (sessions s') k = None) \<and>
         (\<exists>e. fst (Start B cwd spawn now s' cfg) = Inl e) \<and> (\<exists>e. start_commit B now s' r = (Inl e, s'))"
proof -
  let ?s = "s\<lparr>doneClosed := True, shuttingDown := True\<rparr>"
  have s': "s' = stop_each B False ?s (nonTerminalSessionIDs ?s)"
    by (simp add: assms shutdown_begin_def stopSessions_def)
  have sd: "shuttingDown s'" by (simp add: s')
  have "\<exists>ms'. gm_get (sessions s') k = Some ms' \<and> (State (info ms') = SessionStateStopping \<or> terminal_state (State (info ms'))) \<and>
      (terminal_state (State (info ms)) \<longrightarrow> ms' = ms)" if k: "gm_get (sessions s) k = Some ms" for k ms
  proof -
    have "k \<in> set (nonTerminalSessionIDs ?s) \<or> winding_down (State (info ms))"
      using map_of_SomeD [OF k]
      by (auto simp: nonTerminalSessionIDs_def winding_down_def intro!: image_eqI [of _ _ "(k, ms)"])
    moreover have "gm_get (sessions ?s) k = Some ms" using k by simp
    ultimately show ?thesis
      using stop_each_get [where s = ?s and k = k and B = B and force = False and ids = "nonTerminalSessionIDs ?s"]
      unfolding s' [symmetric] winding_down_def [of "State (info (_ :: managedSession))"]
      by (simp only: option.case) blast
  qed
  moreover have "gm_get (sessions s') k = None" if "gm_get (sessions s) k = None" for k
    using stop_each_get [where s = ?s and k = k and B = B and force = False and ids = "nonTerminalSessionIDs ?s"] that by (simp add: s')
  moreover have "\<exists>e. start_check cwd s' cfg = Some e" using sd by (simp add: start_check_def split: option.split)
  then have "\<exists>e. fst (Start B cwd spawn now s' cfg) = Inl e" by (auto simp: Start_def)
  moreover have "\<exists>e. start_commit B now s' r = (Inl e, s')" using sd by (cases r) (simp add: start_commit_def)
  ultimately show ?thesis by blast
qed

theorem shutdown_stops_all_witness:
  "\<exists>ms'. gm_get (sessions (shutdown_begin sorted_bolt (demo_sup\<lparr>sessions := [(''s'', demo_attached)]\<rparr>))) ''s'' = Some ms' \<and>
     (State (info ms') = SessionStateStopping \<or> terminal_state (State (info ms')))"
proof -
  let ?s = "demo_sup\<lparr>sessions := [(''s'', demo_attached)]\<rparr>"
  have "gm_get (sessions ?s) ''s'' = Some demo_attached" by simp
  with shutdown_stops_all [OF refl, where B = sorted_bolt and s = ?s and cwd = None and spawn = "\<lambda>_ _. Inr 0" and now = 0
      and cfg = demo_cfg and r = "(plainProvider '''', demo_cfg, 0)"]
  show ?thesis by blast
qed

section \<open>Queries\<close>

lemma mem_parts:
  "i \<in> {x \<in> (\<lambda>(_, v). f v) ` A. \<not> (p \<noteq> [] \<and> g x \<noteq> p)} \<union> snd ` {x \<in> H. case x of (k, h) \<Rightarrow> k \<notin> fst ` A \<and> \<not> (p \<noteq> [] \<and> g h \<noteq> p)} \<longleftrightarrow>
   (\<exists>k v. (k, v) \<in> A \<and> i = f v \<and> (p = [] \<or> g i = p)) \<or> (\<exists>k. (k, i) \<in> H \<and> k \<notin> fst ` A \<and> (p = [] \<or> g i = p))"
  by (auto simp: image_iff Bex_def)

lemma map_id_filter:
  "(\<And>k v. (k, v) \<in> set m \<Longrightarrow> f v = k) \<Longrightarrow> map (\<lambda>(k, v). f v) (filter P m) = map fst (filter P m)"
  by (induction m) auto

lemma distinct_ids:
  assumes "gm_ok (sessions s)" and "gm_ok (history s)"
    and ids: "\<And>k ms. (k, ms) \<in> set (sessions s) \<Longrightarrow> SessionID (snapshotInfo ms) = k"
      "\<And>k h. (k, h) \<in> set (history s) \<Longrightarrow> SessionID h = k"
  shows "distinct (map SessionID (List s project))"
proof -
  let ?w = "\<lambda>i. \<not> (project \<noteq> [] \<and> ProjectID i \<noteq> project)"
  have "map SessionID (filter ?w (map (\<lambda>(_, ms). snapshotInfo ms) (sessions s))) =
      map (\<lambda>(k, ms). SessionID (snapshotInfo ms)) (filter (\<lambda>(_, ms). ?w (snapshotInfo ms)) (sessions s))"
    by (simp add: filter_map comp_def case_prod_unfold)
  also have "\<dots> = map fst (filter (\<lambda>(_, ms). ?w (snapshotInfo ms)) (sessions s))"
    by (rule map_id_filter) (rule ids(1))
  finally have 1: "map SessionID (filter ?w (map (\<lambda>(_, ms). snapshotInfo ms) (sessions s))) =
      map fst (filter (\<lambda>(_, ms). ?w (snapshotInfo ms)) (sessions s))" .
  let ?h = "filter (\<lambda>(i, inf). i \<notin> set (map fst (sessions s)) \<and> ?w inf) (history s)"
  have "map SessionID (map snd ?h) = map (\<lambda>(k, h). SessionID h) ?h" by (simp add: comp_def case_prod_unfold)
  also have "\<dots> = map fst ?h" by (rule map_id_filter) (rule ids(2))
  finally have "map SessionID (List s project) =
      map fst (filter (\<lambda>(_, ms). ?w (snapshotInfo ms)) (sessions s)) @ map fst ?h"
    using 1 by (simp add: List_def Let_def)
  moreover have "set (map fst (filter (\<lambda>(_, ms). ?w (snapshotInfo ms)) (sessions s))) \<inter> set (map fst ?h) = {}"
    by (auto simp: image_iff Bex_def)
  ultimately show ?thesis using assms(1,2) by (simp add: distinct_map_filter)
qed

lemma list_get_ok:
  assumes ok: "sup_ok V s"
  shows "(i \<in> set (List s project) \<longleftrightarrow> Get s (SessionID i) = Inr i \<and> (project = '''' \<or> ProjectID i = project)) \<and>
         distinct (map SessionID (List s project))"
proof -
  from ok have gm: "gm_ok (sessions s)" "gm_ok (history s)" by (simp_all add: sup_ok_def)
  have ids: "\<And>k ms. (k, ms) \<in> set (sessions s) \<Longrightarrow> SessionID (snapshotInfo ms) = k"
    "\<And>k h. (k, h) \<in> set (history s) \<Longrightarrow> SessionID h = k"
    using ok gm_mem_get [OF gm(1)] gm_mem_get [OF gm(2)] by (auto simp: sup_ok_def snapshotInfo_def)
  have live: "(k, ms) \<in> set (sessions s) \<longleftrightarrow> gm_get (sessions s) k = Some ms" for k ms using gm(1) by (rule gm_mem_get)
  have hist: "(k, h) \<in> set (history s) \<longleftrightarrow> gm_get (history s) k = Some h" for k h using gm(2) by (rule gm_mem_get)
  have absent: "k \<in> fst ` set (sessions s) \<longleftrightarrow> gm_get (sessions s) k \<noteq> None" for k by (simp add: map_of_eq_None_iff)
  have mem: "i \<in> set (List s project) \<longleftrightarrow>
      (\<exists>k ms. gm_get (sessions s) k = Some ms \<and> i = snapshotInfo ms \<and> (project = '''' \<or> ProjectID i = project)) \<or>
      (\<exists>k. gm_get (history s) k = Some i \<and> \<not> gm_get (sessions s) k \<noteq> None \<and> (project = '''' \<or> ProjectID i = project))"
    unfolding live [symmetric] hist [symmetric] absent [symmetric] List_def Let_def set_append set_filter set_map
    by (rule mem_parts)
  have "i \<in> set (List s project) \<longleftrightarrow> Get s (SessionID i) = Inr i \<and> (project = '''' \<or> ProjectID i = project)"
  proof
    assume "i \<in> set (List s project)"
    then show "Get s (SessionID i) = Inr i \<and> (project = '''' \<or> ProjectID i = project)"
      unfolding mem using ids [unfolded live hist] by (auto simp: Get_def)
  next
    assume "Get s (SessionID i) = Inr i \<and> (project = '''' \<or> ProjectID i = project)"
    then show "i \<in> set (List s project)"
      unfolding mem Get_def by (cases "gm_get (sessions s) (SessionID i)"; cases "gm_get (history s) (SessionID i)") auto
  qed
  moreover have "distinct (map SessionID (List s project))"
    using distinct_ids [OF gm ids] by simp
  ultimately show ?thesis by blast
qed

text \<open>
  In every reachable state \<open>List\<close> and \<open>Get\<close> agree: the listing of a project (or of all projects)
  holds exactly the sessions \<open>Get\<close> finds with that project, each once, the live session taking the
  place of a stored one with the same identifier.
\<close>

theorem list_get_agree:
  assumes "sup_reachable B V s"
  shows "(i \<in> set (List s project) \<longleftrightarrow> Get s (SessionID i) = Inr i \<and> (project = '''' \<or> ProjectID i = project)) \<and>
         distinct (map SessionID (List s project))"
  using assms by (intro list_get_ok) (rule sup_reachable_ok)

theorem list_get_agree_witness:
  "Get (snd (start_commit sorted_bolt 0 demo_sup (plainProvider ''x'', demo_request ''a'', 7))) ''a'' \<noteq> Inl ErrSessionNotFound \<and>
   distinct (map SessionID (List (snd (start_commit sorted_bolt 0 demo_sup (plainProvider ''x'', demo_request ''a'', 7))) ''''))"
proof -
  let ?s = "snd (start_commit sorted_bolt 0 demo_sup (plainProvider ''x'', demo_request ''a'', 7))"
  have "sup_reachable sorted_bolt demo_vt demo_sup"
    unfolding demo_sup_def by (rule New) (rule Register_ok, rule NewRegistry_ok)
  then have r: "sup_reachable sorted_bolt demo_vt ?s"
    by (rule SupStep) (rule Starting, rule prod.collapse [symmetric])
  have "Get ?s ''a'' \<noteq> Inl ErrSessionNotFound"
    by (simp add: start_commit_def Get_def Let_def gomap_simps demo_request_def demo_cfg_def)
       (simp add: demo_sup_def NewSupervisor_def)
  with list_get_agree [OF r, where project = "''''"] show ?thesis by blast
qed

section \<open>The output journal\<close>

lemma perform_store_other:
  "e \<in> {TelOutput t k p, TelStarted t, NotifyControl i} \<Longrightarrow> store (perform B s e) = store s"
  by (auto simp: sup_defs)

lemma read_output_live:
  assumes ok: "session_ok ms" and "\<not> liveClosed ms" and "gm_get (sessions s) i = Some ms" and "SessionID (info ms) = i"
    and "store s = Some db" and "dat \<noteq> []"
  obtains s' ms' chunk where "read_output B V now s i dat None = Ret (False, s')" and "gm_get (sessions s') i = Some ms'"
    and "session_ok ms'" and "\<not> liveClosed ms'" and "SessionID (info ms') = i" and "stripANSI ms' = stripANSI ms"
    and "store s' = Some (snd (SaveChunk B db i chunk))"
    and "Seq chunk = nextSeq (buf ms)" and "nextSeq (buf ms') = nextSeq (buf ms) + 1"
    and "Payload chunk = (if stripANSI ms then stripEscapes dat else dat)"
proof -
  let ?d = "if stripANSI ms then stripEscapes dat else dat"
  obtain ms' eff chunk where a: "appendChunkLocked V now ms ?d ChunkTypeOutput = Ret (ms', eff)" "session_ok ms'"
      "\<not> liveClosed ms'" "nextSeq (buf ms') = nextSeq (buf ms) + 1" "Seq chunk = nextSeq (buf ms)" "Payload chunk = ?d"
      "eff = [PersistChunk (SessionID (info ms)) chunk]"
    by (rule appendChunkLocked_live [OF ok assms(2), of V now ?d ChunkTypeOutput])
  have keep: "SessionID (info ms') = i" "stripANSI ms' = stripANSI ms"
    using a(1) assms(2,4) ok
    by (auto simp: appendChunkLocked_def send_all_fan Let_def split: prod.splits)
  have "readLoop V now ms dat None = Ret (ms', [TelOutput (telemetrySessionLocked ms) ChunkTypeOutput dat, PersistChunk i chunk], False)"
    using a(1,7) assms(4,6) by (simp add: readLoop_def appendChunk_def Let_def)
  then have "read_output B V now s i dat None =
      Ret (False, commit B s i ms' [TelOutput (telemetrySessionLocked ms) ChunkTypeOutput dat, PersistChunk i chunk])"
    using assms(3) by (simp add: read_output_def)
  moreover have "store (commit B s i ms' [TelOutput (telemetrySessionLocked ms) ChunkTypeOutput dat, PersistChunk i chunk]) =
      Some (snd (SaveChunk B db i chunk))"
    using assms(5) by (simp add: commit_def tell_telemetry_def persistChunk_def)
  moreover have "gm_get (sessions (commit B s i ms' [TelOutput (telemetrySessionLocked ms) ChunkTypeOutput dat, PersistChunk i chunk])) i = Some ms'"
    by (simp add: gomap_simps)
  ultimately show thesis using a(2-6) keep by (intro that) auto
qed

fun read_many :: "bolt \<Rightarrow> vt \<Rightarrow> Supervisor \<Rightarrow> string \<Rightarrow> (go_time \<times> bytes) list \<Rightarrow> Supervisor outcome" where
  "read_many B V s i [] = Ret s"
| "read_many B V s i ((now, dat) # rs) =
     outcome_bind (read_output B V now s i dat None) (\<lambda>(fin, s1). read_many B V s1 i rs)"

lemma SaveChunk_ok: "\<forall>db b k. put_error B db b k = None \<Longrightarrow> SaveChunk B db i c = (None, snd (SaveChunk B db i c))"
  by (simp add: SaveChunk_def)

lemma read_many_journal:
  assumes "\<forall>db b k. put_error B db b k = None" and "\<forall>(now, dat) \<in> set rs. dat \<noteq> []"
    and "session_ok ms" and "\<not> liveClosed ms" and "gm_get (sessions s) i = Some ms" and "SessionID (info ms) = i"
    and "store s = Some db" and "session_journal db i js"
    and "map (unat \<circ> Seq) js = [1..<Suc (length js)]" and "unat (nextSeq (buf ms)) = Suc (length js)"
    and "length js + length rs < 2 ^ 64 - 1"
  shows "\<exists>s' db' cs. read_many B V s i rs = Ret s' \<and> store s' = Some db' \<and> session_journal db' i (js @ cs) \<and>
    map (unat \<circ> Seq) (js @ cs) = [1..<Suc (length (js @ cs))] \<and>
    map Payload cs = map (\<lambda>(now, dat). if stripANSI ms then stripEscapes dat else dat) rs"
  using assms(2-)
proof (induction rs arbitrary: s ms db js)
  case Nil
  then show ?case by (intro exI [of _ s] exI [of _ db] exI [of _ "[]"]) simp
next
  case (Cons x rs)
  obtain now dat where x: "x = (now, dat)" by (cases x)
  have "dat \<noteq> []" using Cons.prems(1) x by simp
  from read_output_live [OF Cons.prems(2-6) this, of B V now]
  obtain s1 ms1 chunk where r: "read_output B V now s i dat None = Ret (False, s1)" "gm_get (sessions s1) i = Some ms1"
      "session_ok ms1" "\<not> liveClosed ms1" "SessionID (info ms1) = i" "stripANSI ms1 = stripANSI ms"
      "store s1 = Some (snd (SaveChunk B db i chunk))" "Seq chunk = nextSeq (buf ms)" "nextSeq (buf ms1) = nextSeq (buf ms) + 1"
      "Payload chunk = (if stripANSI ms then stripEscapes dat else dat)" by blast
  have "unat (Seq c) < Suc (length js)" if "c \<in> set js" for c
  proof -
    from that have "unat (Seq c) \<in> set (map (unat \<circ> Seq) js)" by auto
    then show ?thesis unfolding Cons.prems(8) by (simp only: set_upt atLeastLessThan_iff)
  qed
  then have lt: "\<forall>c \<in> set js. Seq c < Seq chunk" using Cons.prems(9) r(8) by (simp add: u64_nat)
  have j: "session_journal (snd (SaveChunk B db i chunk)) i (js @ [chunk])"
    by (rule session_journal_SaveChunk [OF Cons.prems(7) lt SaveChunk_ok [OF assms(1)]])
  have n: "unat (nextSeq (buf ms1)) = Suc (length (js @ [chunk]))"
    using r(9) Cons.prems(9,10) by (subst r(9)) (simp add: unat_inc_u64)
  have "\<exists>s' db' cs. read_many B V s1 i rs = Ret s' \<and> store s' = Some db' \<and> session_journal db' i ((js @ [chunk]) @ cs) \<and>
    map (unat \<circ> Seq) ((js @ [chunk]) @ cs) = [1..<Suc (length ((js @ [chunk]) @ cs))] \<and>
    map Payload cs = map (\<lambda>(now, dat). if stripANSI ms1 then stripEscapes dat else dat) rs"
    by (rule Cons.IH [OF _ r(3,4,2,5,7) j]) (use Cons.prems r(8) n in auto)
  then obtain s' db' cs where e: "read_many B V s1 i rs = Ret s'" "store s' = Some db'" "session_journal db' i (js @ chunk # cs)"
      "map (unat \<circ> Seq) (js @ chunk # cs) = [1..<Suc (length (js @ chunk # cs))]"
      "map Payload cs = map (\<lambda>(now, dat). if stripANSI ms then stripEscapes dat else dat) rs"
    unfolding r(6) append_assoc append_Cons append_Nil by blast
  have "read_many B V s i (x # rs) = Ret s'" by (simp add: x r(1) e(1))
  moreover have "map Payload (chunk # cs) = map (\<lambda>(now, dat). if stripANSI ms then stripEscapes dat else dat) (x # rs)"
    by (simp add: x r(10) e(5))
  ultimately show ?case using e(2-4) by blast
qed

text \<open>
  C4. Durable output: with a store, everything a new session's reader reads is kept, whatever the
  memory buffer has evicted. After any number of reads the journal holds one chunk per read, numbered
  from 1, with the bytes read (without escape sequences when the provider asks for that), and a
  daemon that restarts on that store serves a client exactly the chunks after its cursor.
\<close>

theorem durable_output:
  assumes "bolt_lawful B" and "\<forall>db b k. put_error B db b k = None" and "sup_reachable B V s"
    and "gm_get (sessions s) i = Some ms" and "\<not> liveClosed ms" and "nextSeq (buf ms) = 1"
    and "store s = Some db" and "session_journal db i []"
    and "\<forall>(now, dat) \<in> set rs. dat \<noteq> []" and "length rs < 2 ^ 64 - 1"
  shows "\<exists>s' db' cs. read_many B V s i rs = Ret s' \<and> store s' = Some db' \<and>
           map (unat \<circ> Seq) cs = [1..<Suc (length rs)] \<and>
           map Payload cs = map (\<lambda>(now, dat). if stripANSI ms then stripEscapes dat else dat) rs \<and>
           (\<forall>t inf c after. store t = Some db' \<longrightarrow> gm_get (history t) i = Some inf \<longrightarrow>
              (\<exists>st. attachHistory B t i c after = Inr st \<and> Replay st = filter (\<lambda>ch. after < Seq ch) cs))"
proof -
  have "SessionID (info ms) = i \<and> reachable V ms"
    using sup_reachable_ok [OF assms(3)] assms(4) unfolding sup_ok_def by blast
  then have m: "SessionID (info ms) = i" "session_ok ms" using reachable_ok by blast+
  obtain s' db' cs where r: "read_many B V s i rs = Ret s'" "store s' = Some db'" "session_journal db' i cs"
      "map (unat \<circ> Seq) cs = [1..<Suc (length cs)]"
      "map Payload cs = map (\<lambda>(now, dat). if stripANSI ms then stripEscapes dat else dat) rs"
    using read_many_journal [OF assms(2,9) m(2) assms(5,4) m(1) assms(7,8), of V] assms(6,10) by auto
  have len: "length cs = length rs" using arg_cong [OF r(5), of length] by simp
  have load: "LoadChunks B db' i = (None, cs)" using assms(1) r(3) by (rule LoadChunks_journal)
  have "\<exists>st. attachHistory B t i c after = Inr st \<and> Replay st = filter (\<lambda>ch. after < Seq ch) cs"
    if "store t = Some db'" "gm_get (history t) i = Some inf" for t inf c after
    using that load by (simp add: attachHistory_def Let_def)
  then show ?thesis
    using r(1,2,4,5) unfolding len by (intro exI [of _ s'] exI [of _ db'] exI [of _ cs] conjI allI impI) assumption+
qed

lemma demo_started:
  defines "s \<equiv> snd (start_commit sorted_bolt 0 demo_sup (plainProvider ''x'', demo_request ''a'', 7))"
  shows "sup_reachable sorted_bolt demo_vt s"
    and "gm_get (sessions s) ''a'' = Some (startedSession 1024 (plainProvider ''x'') (demo_request ''a'') 0 7)"
    and "\<exists>db. store s = Some db \<and> session_journal db ''a'' []"
proof -
  have "sup_reachable sorted_bolt demo_vt demo_sup"
    unfolding demo_sup_def by (rule New) (rule Register_ok, rule NewRegistry_ok)
  then show "sup_reachable sorted_bolt demo_vt s"
    unfolding s_def by (rule SupStep) (rule Starting, rule prod.collapse [symmetric])
  have d: "\<not> shuttingDown demo_sup" "sessions demo_sup = []" "bufSize demo_sup = 1024" "store demo_sup = Some []"
      "telemetry demo_sup = False" "control demo_sup = True" "CfgSessionID (demo_request ''a'') = ''a''"
    by (simp_all add: demo_sup_def NewSupervisor_def demo_request_def)
  then show "gm_get (sessions s) ''a'' = Some (startedSession 1024 (plainProvider ''x'') (demo_request ''a'') 0 7)"
    by (simp add: s_def start_commit_def Let_def)
  have "\<exists>i. store s = Some (snd (Save sorted_bolt [] i))"
    using d by (simp add: s_def start_commit_def Let_def commit_def tell_telemetry_def notifyControl_def persistSession_def) blast
  then show "\<exists>db. store s = Some db \<and> session_journal db ''a'' []"
    using session_journal_Save [OF session_journal_empty] by blast
qed

theorem durable_output_witness:
  "\<exists>s' db' (cs :: OutputChunk list). read_many sorted_bolt demo_vt (snd (start_commit sorted_bolt 0 demo_sup (plainProvider ''x'', demo_request ''a'', 7)))
       ''a'' [(1, [65]), (2, [66])] = Ret s' \<and> store s' = Some db' \<and> map (unat \<circ> Seq) cs = [1..<Suc (length cs)] \<and>
     map Payload cs = [[65], [66]]"
proof -
  let ?ms = "startedSession 1024 (plainProvider ''x'') (demo_request ''a'') 0 7"
  let ?rs = "[(1, [65]), (2, [66])] :: (go_time \<times> bytes) list"
  have ms: "\<not> liveClosed ?ms" "nextSeq (buf ?ms) = 1" "\<not> stripANSI ?ms"
    by (simp_all add: startedSession_def Let_def NewByteBuffer_def plainProvider_def)
  have pe: "\<forall>db b k. put_error sorted_bolt db b k = None" by (simp add: sorted_bolt_def)
  have rs: "\<forall>(now, dat) \<in> set ?rs. dat \<noteq> []" "length ?rs < 2 ^ 64 - 1" by simp_all
  obtain db where db: "store (snd (start_commit sorted_bolt 0 demo_sup (plainProvider ''x'', demo_request ''a'', 7))) = Some db"
    "session_journal db ''a'' []" using demo_started(3) by blast
  from durable_output [OF sorted_bolt_lawful pe demo_started(1,2) ms(1,2) db rs] obtain s' db' and cs :: "OutputChunk list" where
      r: "read_many sorted_bolt demo_vt (snd (start_commit sorted_bolt 0 demo_sup (plainProvider ''x'', demo_request ''a'', 7)))
        ''a'' ?rs = Ret s'" "store s' = Some db'" "map (unat \<circ> Seq) cs = [1..<Suc (length ?rs)]"
      "map Payload cs = map (\<lambda>(now, dat). if stripANSI ?ms then stripEscapes dat else dat) ?rs" by blast
  from r(4) ms(3) have p: "map Payload cs = [[65], [66]]" by simp
  from arg_cong [OF p, of length] have "length cs = length ?rs" by simp
  then have "map (unat \<circ> Seq) cs = [1..<Suc (length cs)]" using r(3) by (simp only:)
  with r(1,2) p show ?thesis by (intro exI [of _ s'] exI [of _ db'] exI [of _ cs] conjI)
qed

text \<open>Saving a chunk under the number of the first chunk of a journal replaces that chunk.\<close>

lemma session_journal_overwrite:
  assumes "session_journal db sid (c0 # cs)" and "Seq c = Seq c0" and "SaveChunk B db sid c = (None, db')"
  shows "session_journal db' sid (c # cs)"
proof -
  have db': "db' = (chunksBucket, chunkKey sid (Seq c), StoredChunk c) # db"
    using assms(3) by (simp add: SaveChunk_def split: option.splits)
  show ?thesis
    using assms(1,2) by (fastforce simp: db' session_journal_def db_lookup_Cons chunkKey_inj)
qed

text \<open>
  An identifier that only the history knows is free for \<open>Start\<close>, and its journal is not cleared:
  after the new session's first output the journal consists of that chunk followed by the old session's
  chunks from the second on, and that mixture is what the next daemon lifetime replays for the new
  session.
\<close>

theorem journal_reuse:
  assumes "bolt_lawful B" and "\<forall>db b k. put_error B db b k = None" and "\<not> shuttingDown s"
    and "gm_get (history s) i = Some old" and "gm_get (sessions s) i = None" and "store s = Some db"
    and "session_journal db i (c0 # cs)" and "Seq c0 = 1" and "CfgSessionID cfg = i" and "dat \<noteq> []"
  shows "\<exists>i' s1 s2 db2 c. start_commit B now s (p, cfg, pid) = (Inr i', s1) \<and>
           read_output B V now' s1 i dat None = Ret (False, s2) \<and> store s2 = Some db2 \<and>
           LoadChunks B db2 i = (None, c # cs)"
proof -
  let ?ms = "startedSession (bufSize s) p cfg now pid"
  let ?s1 = "snd (start_commit B now s (p, cfg, pid))"
  have 1: "start_commit B now s (p, cfg, pid) = (Inr (snapshotInfo ?ms), ?s1)" "gm_get (sessions ?s1) i = Some ?ms"
    using assms(3,5,9) by (simp_all add: start_commit_def Let_def gomap_simps)
  have "store ?s1 = Some (snd (Save B db (snapshotInfo ?ms)))"
    using assms(3,5,6,9)
    by (simp add: start_commit_def Let_def commit_def tell_telemetry_def notifyControl_def persistSession_def)
  moreover have j: "session_journal (snd (Save B db (snapshotInfo ?ms))) i (c0 # cs)"
    using assms(7) by (rule session_journal_Save)
  moreover have "session_ok ?ms" "\<not> liveClosed ?ms" "SessionID (info ?ms) = i" "nextSeq (buf ?ms) = 1"
    using assms(9) by (simp_all add: startedSession_ok startedSession_id) (simp_all add: startedSession_def Let_def NewByteBuffer_def)
  ultimately obtain s2 ms2 chunk where 2: "read_output B V now' ?s1 i dat None = Ret (False, s2)"
      "store s2 = Some (snd (SaveChunk B (snd (Save B db (snapshotInfo ?ms))) i chunk))" "Seq chunk = 1"
    using read_output_live [OF _ _ 1(2) _ _ assms(10), of "snd (Save B db (snapshotInfo ?ms))" B V now'] by metis
  have "session_journal (snd (SaveChunk B (snd (Save B db (snapshotInfo ?ms))) i chunk)) i (chunk # cs)"
    by (rule session_journal_overwrite [OF j _ SaveChunk_ok [OF assms(2)]]) (simp add: 2(3) assms(8))
  from LoadChunks_journal [OF assms(1) this] 1(1) 2(1,2) show ?thesis by blast
qed

text \<open>A store left behind by an earlier session \<open>a\<close> with two chunks.\<close>

definition demo_old :: "u64 \<Rightarrow> OutputChunk" where
  "demo_old n = \<lparr>Cols = 80, Rows = 24, Seq = n, Timestamp = 0, Payload = [0], Type = ChunkTypeOutput\<rparr>"

definition demo_restarted :: Supervisor where
  "demo_restarted = demo_sup\<lparr>store := Some (save_chunks sorted_bolt [] ''a'' [demo_old 1, demo_old 2]),
     history := [(''a'', zeroInfo\<lparr>SessionID := ''a'', State := SessionStateStopped\<rparr>)]\<rparr>"

theorem journal_reuse_witness:
  "\<exists>i' s1 s2 db2 c. start_commit sorted_bolt 5 demo_restarted (plainProvider ''x'', demo_request ''a'', 7) = (Inr i', s1) \<and>
     read_output sorted_bolt demo_vt 6 s1 ''a'' [65] None = Ret (False, s2) \<and> store s2 = Some db2 \<and>
     LoadChunks sorted_bolt db2 ''a'' = (None, [c, demo_old 2])"
proof -
  have pe: "\<forall>db b k. put_error sorted_bolt db b k = None" by (simp add: sorted_bolt_def)
  have j: "session_journal (save_chunks sorted_bolt [] ''a'' [demo_old 1, demo_old 2]) ''a'' [demo_old 1, demo_old 2]"
    using save_chunks_journal [OF session_journal_empty pe, of "[demo_old 1, demo_old 2]" "''a''"] by (simp add: demo_old_def)
  show ?thesis
    by (rule journal_reuse [OF sorted_bolt_lawful pe _ _ _ _ j])
      (simp_all add: demo_restarted_def demo_sup_def NewSupervisor_def demo_old_def demo_request_def)
qed

end
