(* ===== verification/Activity_Buffer.thy ===== *)
theory Activity_Buffer
  imports Session_Types
begin

text \<open>
  \<open>internal/bridge/activity.go\<close>, the retained provider events of a session. The length of the
  JSON text of the retained events and of a window are the arguments \<open>evLen\<close> and \<open>winLen\<close>;
  nothing is assumed about them.
\<close>

record ActivityBuffer =
  aevents :: "Activity list"
  asequence :: u64

definition NewActivityBuffer :: ActivityBuffer where
  "NewActivityBuffer = \<lparr>aevents = [], asequence = 0\<rparr>"

fun trim_events :: "(Activity list \<Rightarrow> nat) \<Rightarrow> go_time \<Rightarrow> Activity list \<Rightarrow> Activity list" where
  "trim_events evLen now [] = []"
| "trim_events evLen now (e # es) =
     (if length (e # es) \<le> 128 \<and> evLen (e # es) \<le> 32768 \<and> now - ActAt e \<le> 15 * minute
      then e # es else trim_events evLen now es)"

definition activity_Append ::
  "(Activity list \<Rightarrow> nat) \<Rightarrow> ActivityBuffer \<Rightarrow> string \<Rightarrow> string \<Rightarrow> go_time \<Rightarrow> ActivityBuffer" where
  "activity_Append evLen b kind summary now =
     (if 32 < length kind \<or> 512 < length summary \<or> \<not> ValidString summary then b
      else let s = asequence b + 1;
               e = \<lparr>ActSequence = s, ActAt = now, ActKind = kind, ActSummary = summary\<rparr>
           in \<lparr>aevents = trim_events evLen now (aevents b @ [e]), asequence = s\<rparr>)"

fun window_loop ::
  "(ActivityWindow \<Rightarrow> nat) \<Rightarrow> u64 \<Rightarrow> int \<Rightarrow> int \<Rightarrow> Activity list \<Rightarrow> ActivityWindow \<Rightarrow> ActivityWindow" where
  "window_loop winLen after maxEvents maxBytes [] w = w"
| "window_loop winLen after maxEvents maxBytes (e # es) w =
     (if ActSequence e \<le> after then window_loop winLen after maxEvents maxBytes es w
      else let w' = w\<lparr>Events := Events w @ [e], NextSequence := ActSequence e\<rparr>
           in if maxBytes < int (winLen w') then w
              else if maxEvents \<le> int (length (Events w')) then w'
              else window_loop winLen after maxEvents maxBytes es w')"

definition Window ::
  "(Activity list \<Rightarrow> nat) \<Rightarrow> (ActivityWindow \<Rightarrow> nat) \<Rightarrow> ActivityBuffer \<Rightarrow> u64 \<Rightarrow> int \<Rightarrow> int \<Rightarrow> go_time \<Rightarrow>
     ActivityWindow \<times> ActivityBuffer" where
  "Window evLen winLen b after maxEvents maxBytes now =
     (let b1 = b\<lparr>aevents := trim_events evLen now (aevents b)\<rparr>;
          maxE = (if maxEvents \<le> 0 \<or> 128 < maxEvents then 128 else maxEvents);
          maxB = (if maxBytes < 1024 \<or> 32768 < maxBytes then 32768 else maxBytes);
          oldest = (case aevents b1 of [] \<Rightarrow> asequence b1 + 1 | e # _ \<Rightarrow> ActSequence e);
          gap = (after < oldest - 1 \<or> asequence b1 < after);
          start = (if gap then oldest - 1 else after);
          w = \<lparr>Events = [], NextSequence = start, Gap = gap, InstructionSupported = False\<rparr>
      in (window_loop winLen start maxE maxB (aevents b1) w, b1))"

section \<open>Retention\<close>

lemma trim_events_suffix: "\<exists>pre. es = pre @ trim_events evLen now es"
proof (induction es)
  case (Cons e es)
  then obtain pre where "es = pre @ trim_events evLen now es" by blast
  then have "e # es = (e # pre) @ trim_events evLen now es" by simp
  then show ?case by (metis trim_events.simps(2) append_Nil)
qed simp

lemma trim_events_bounds:
  "trim_events evLen now es = e # rest \<Longrightarrow>
   length (e # rest) \<le> 128 \<and> evLen (e # rest) \<le> 32768 \<and> now - ActAt e \<le> 15 * minute"
  by (induction es) (auto split: if_splits)

lemma trim_events_length: "length (trim_events evLen now es) \<le> 128"
  by (cases "trim_events evLen now es") (auto dest: trim_events_bounds)

text \<open>The sequence numbers of the retained events run up to the last one assigned.\<close>

definition activity_ok :: "ActivityBuffer \<Rightarrow> bool" where
  "activity_ok b \<longleftrightarrow> length (aevents b) \<le> unat (asequence b) \<and>
     map (unat \<circ> ActSequence) (aevents b) =
       [Suc (unat (asequence b)) - length (aevents b)..<Suc (unat (asequence b))]"

lemma run_suffix:
  assumes "map f (pre @ cs) = [a..<b]"
  shows "map f cs = [b - length cs..<b]"
proof -
  from assms have len: "length pre + length cs = b - a"
    by (metis length_append length_map length_upt)
  from assms have "map f cs = drop (length pre) [a..<b]"
    by (metis append_eq_conv_conj drop_map length_map map_append)
  then have "map f cs = [a + length pre..<b]" by simp
  moreover have "a + length pre = b - length cs \<or> cs = []" using len by (cases cs) auto
  ultimately show ?thesis by auto
qed

lemma activity_trim_ok: "activity_ok b \<Longrightarrow> activity_ok (b\<lparr>aevents := trim_events evLen now (aevents b)\<rparr>)"
proof -
  assume ok: "activity_ok b"
  obtain pre where pre: "aevents b = pre @ trim_events evLen now (aevents b)"
    using trim_events_suffix by blast
  have "map (unat \<circ> ActSequence) (trim_events evLen now (aevents b)) =
      [Suc (unat (asequence b)) - length (trim_events evLen now (aevents b))..<Suc (unat (asequence b))]"
    by (rule run_suffix [where pre = pre and a = "Suc (unat (asequence b)) - length (aevents b)"])
      (use ok pre in \<open>simp add: activity_ok_def\<close>)
  moreover have "length (trim_events evLen now (aevents b)) \<le> length (aevents b)"
    using arg_cong [OF pre, of length] by simp
  ultimately show ?thesis using ok by (simp add: activity_ok_def)
qed

lemma activity_Append_ok:
  assumes "activity_ok b" and "unat (asequence b) < 2 ^ 64 - 1"
  shows "activity_ok (activity_Append evLen b kind summary now)"
proof (cases "32 < length kind \<or> 512 < length summary \<or> \<not> ValidString summary")
  case False
  define e where "e = \<lparr>ActSequence = asequence b + 1, ActAt = now, ActKind = kind, ActSummary = summary\<rparr>"
  let ?b = "\<lparr>aevents = aevents b @ [e], asequence = asequence b + 1\<rparr>"
  have "activity_ok ?b"
    using assms by (auto simp: activity_ok_def unat_inc_u64 e_def Suc_diff_le)
  from activity_trim_ok [OF this, of evLen now] False show ?thesis
    by (simp add: activity_Append_def e_def Let_def)
qed (use assms in \<open>simp add: activity_Append_def\<close>)

section \<open>Windows\<close>

text \<open>The loop takes a prefix of the events after the cursor, and stops only at the end, at the count, or before an event that does not fit.\<close>

definition next_page :: "ActivityWindow \<Rightarrow> Activity \<Rightarrow> ActivityWindow" where
  "next_page w e = w\<lparr>Events := Events w @ [e], NextSequence := ActSequence e\<rparr>"

definition page_of :: "(ActivityWindow \<Rightarrow> nat) \<Rightarrow> int \<Rightarrow> int \<Rightarrow> Activity list \<Rightarrow> Activity list \<Rightarrow> ActivityWindow \<Rightarrow> bool" where
  "page_of winLen maxE maxB before xs w \<longleftrightarrow>
     (\<exists>n \<le> length xs. Events w = before @ take n xs \<and> int (length (Events w)) \<le> maxE \<and>
        (n < length xs \<longrightarrow> int (length (Events w)) < maxE \<longrightarrow> maxB < int (winLen (next_page w (xs ! n)))))"

lemma window_loop_page:
  assumes "int (length (Events w)) < maxE"
  shows "page_of winLen maxE maxB (Events w) (filter (\<lambda>e. after < ActSequence e) es) (window_loop winLen after maxE maxB es w)"
  using assms
proof (induction es arbitrary: w)
  case Nil
  then show ?case by (simp add: page_of_def)
next
  case (Cons e es)
  let ?w = "next_page w e" and ?xs = "filter (\<lambda>e. after < ActSequence e) es"
  have loop: "window_loop winLen after maxE maxB (e # es) w =
      (if ActSequence e \<le> after then window_loop winLen after maxE maxB es w
       else if maxB < int (winLen ?w) then w else if maxE \<le> int (length (Events ?w)) then ?w else window_loop winLen after maxE maxB es ?w)"
    by (simp add: next_page_def Let_def)
  consider (old) "ActSequence e \<le> after" | (big) "after < ActSequence e" "maxB < int (winLen ?w)"
    | (full) "after < ActSequence e" "\<not> maxB < int (winLen ?w)" "maxE \<le> int (length (Events ?w))"
    | (fits) "after < ActSequence e" "\<not> maxB < int (winLen ?w)" "int (length (Events ?w)) < maxE"
    by (meson not_le)
  then show ?case
  proof cases
    case old
    then have "\<not> after < ActSequence e" by simp
    with old Cons.IH [OF Cons.prems] show ?thesis unfolding loop by (simp del: not_less)
  next
    case big
    then have "\<not> ActSequence e \<le> after" by simp
    with big Cons.prems show ?thesis unfolding loop page_of_def by (intro exI [of _ 0]) (simp del: not_le)
  next
    case full
    then have "\<not> ActSequence e \<le> after" by simp
    with full Cons.prems show ?thesis
      unfolding loop page_of_def by (intro exI [of _ 1]) (simp add: next_page_def del: not_le)
  next
    case fits
    from Cons.IH [OF fits(3)] obtain n where n: "n \<le> length ?xs"
      "Events (window_loop winLen after maxE maxB es ?w) = Events ?w @ take n ?xs"
      "int (length (Events (window_loop winLen after maxE maxB es ?w))) \<le> maxE"
      "n < length ?xs \<longrightarrow> int (length (Events (window_loop winLen after maxE maxB es ?w))) < maxE \<longrightarrow>
         maxB < int (winLen (next_page (window_loop winLen after maxE maxB es ?w) (?xs ! n)))"
      unfolding page_of_def by blast
    have eq: "window_loop winLen after maxE maxB (e # es) w = window_loop winLen after maxE maxB es ?w"
      unfolding loop using fits by (simp add: leD)
    have "filter (\<lambda>e. after < ActSequence e) (e # es) = e # ?xs" using fits(1) by simp
    with n show ?thesis unfolding eq page_of_def by (intro exI [of _ "Suc n"]) (simp add: next_page_def)
  qed
qed

definition cursor_ok :: "u64 \<Rightarrow> ActivityWindow \<Rightarrow> bool" where
  "cursor_ok start w \<longleftrightarrow> NextSequence w = (if Events w = [] then start else ActSequence (last (Events w)))"

lemma window_loop_cursor:
  "cursor_ok start w \<Longrightarrow> cursor_ok start (window_loop winLen after maxE maxB es w)"
proof (induction es arbitrary: w)
  case (Cons e es)
  let ?w = "w\<lparr>Events := Events w @ [e], NextSequence := ActSequence e\<rparr>"
  have "cursor_ok start ?w" by (simp add: cursor_ok_def)
  with Cons.prems Cons.IH [of w] Cons.IH [of ?w] show ?case by (simp add: Let_def)
qed simp

lemma window_loop_Gap: "Gap (window_loop winLen after maxE maxB es w) = Gap w"
  by (induction es arbitrary: w) (simp_all add: Let_def)

lemma window_loop_bytes:
  "(Events w \<noteq> [] \<longrightarrow> int (winLen w) \<le> maxB) \<Longrightarrow>
   Events (window_loop winLen after maxE maxB es w) \<noteq> [] \<longrightarrow>
   int (winLen (window_loop winLen after maxE maxB es w)) \<le> maxB"
proof (induction es arbitrary: w)
  case (Cons e es)
  let ?w = "w\<lparr>Events := Events w @ [e], NextSequence := ActSequence e\<rparr>"
  from Cons.prems Cons.IH [of w] Cons.IH [of ?w] show ?case
    by (simp add: Let_def)
qed simp

lemma filter_run:
  assumes "map f cs = [a..<b]" and "a \<le> Suc k" and "k < b"
  shows "map f (filter (\<lambda>x. k < f x) cs) = [Suc k..<b]"
proof -
  have "map f (filter (\<lambda>x. k < f x) cs) = filter (\<lambda>n. k < n) (map f cs)"
    by (simp add: filter_map o_def)
  also have "\<dots> = [max a (Suc k)..<b]" using assms(1) by (simp add: filter_upt_greater)
  finally show ?thesis using assms by (simp add: max_def)
qed

lemma take_upt_min: "take n [a..<b] = [a..<min (a + n) b]"
  by (cases "a + n \<le> b") (auto simp: take_upt min_def)

lemma map_last: "map f xs = [a..<b] \<Longrightarrow> xs \<noteq> [] \<Longrightarrow> Suc (f (last xs)) = b"
  by (cases xs rule: rev_cases; cases b) (auto split: if_splits)

text \<open>The first retained sequence number, and where a window starts for a cursor.\<close>

definition oldest_of :: "ActivityBuffer \<Rightarrow> u64" where
  "oldest_of b = (case aevents b of [] \<Rightarrow> asequence b + 1 | e # _ \<Rightarrow> ActSequence e)"

lemma oldest_of_nat:
  assumes "activity_ok b" and "unat (asequence b) < 2 ^ 64 - 1"
  shows "unat (oldest_of b) = Suc (unat (asequence b)) - length (aevents b)"
    and "unat (oldest_of b - 1) = unat (asequence b) - length (aevents b)"
proof -
  show 1: "unat (oldest_of b) = Suc (unat (asequence b)) - length (aevents b)"
    using assms by (cases "aevents b") (auto simp: activity_ok_def oldest_of_def unat_inc_u64 upt_rec split: if_splits)
  moreover from assms have "length (aevents b) \<le> unat (asequence b)" by (simp add: activity_ok_def)
  ultimately have "unat (oldest_of b - 1) = unat (oldest_of b) - 1" by (intro unat_dec_u64 notI) simp
  with 1 show "unat (oldest_of b - 1) = unat (asequence b) - length (aevents b)" by simp
qed

text \<open>A session's buffer: appends and windows in any order, from the empty buffer.\<close>

datatype activity_op =
  AppendOp string string go_time
| WindowOp u64 int int go_time

fun activity_step :: "(Activity list \<Rightarrow> nat) \<Rightarrow> (ActivityWindow \<Rightarrow> nat) \<Rightarrow> ActivityBuffer \<Rightarrow> activity_op \<Rightarrow> ActivityBuffer" where
  "activity_step evLen winLen b (AppendOp k s now) = activity_Append evLen b k s now"
| "activity_step evLen winLen b (WindowOp a me mb now) = snd (Window evLen winLen b a me mb now)"

definition activity_run :: "(Activity list \<Rightarrow> nat) \<Rightarrow> (ActivityWindow \<Rightarrow> nat) \<Rightarrow> activity_op list \<Rightarrow> ActivityBuffer" where
  "activity_run evLen winLen ops = foldl (activity_step evLen winLen) NewActivityBuffer ops"

lemma Window_buffer: "snd (Window evLen winLen b after maxE maxB now) = b\<lparr>aevents := trim_events evLen now (aevents b)\<rparr>"
  by (simp add: Window_def Let_def)

lemma activity_step_ok:
  assumes "activity_ok b" and "unat (asequence b) < 2 ^ 64 - 1"
  shows "activity_ok (activity_step evLen winLen b x) \<and>
    unat (asequence (activity_step evLen winLen b x)) \<le> Suc (unat (asequence b))"
  using assms activity_Append_ok activity_trim_ok
  by (cases x) (auto simp: Window_buffer activity_Append_def Let_def unat_inc_u64)

lemma activity_run_ok:
  "length ops < 2 ^ 64 - 1 \<Longrightarrow>
   activity_ok (activity_run evLen winLen ops) \<and> unat (asequence (activity_run evLen winLen ops)) \<le> length ops"
proof (induction ops rule: rev_induct)
  case Nil
  show ?case by (simp add: activity_run_def NewActivityBuffer_def activity_ok_def)
next
  case (snoc x ops)
  then have "activity_ok (activity_run evLen winLen ops)"
    and "unat (asequence (activity_run evLen winLen ops)) \<le> length ops"
    and "unat (asequence (activity_run evLen winLen ops)) < 2 ^ 64 - 1" by auto
  with activity_step_ok [of "activity_run evLen winLen ops" evLen winLen x]
  show ?case by (simp add: activity_run_def)
qed

definition window_start :: "ActivityBuffer \<Rightarrow> u64 \<Rightarrow> u64" where
  "window_start b after =
     (if after < oldest_of b - 1 \<or> asequence b < after then oldest_of b - 1 else after)"

lemma window_start_bounds:
  assumes "activity_ok b" and "unat (asequence b) < 2 ^ 64 - 1"
  shows "unat (asequence b) - length (aevents b) \<le> unat (window_start b after)"
    and "unat (window_start b after) \<le> unat (asequence b)"
  using assms oldest_of_nat [OF assms]
  by (auto simp: window_start_def word_less_nat_alt not_less)

lemma Window_unfold:
  "fst (Window evLen winLen b after maxE maxB now) =
     (let b1 = b\<lparr>aevents := trim_events evLen now (aevents b)\<rparr> in
      window_loop winLen (window_start b1 after)
        (if maxE \<le> 0 \<or> 128 < maxE then 128 else maxE) (if maxB < 1024 \<or> 32768 < maxB then 32768 else maxB)
        (aevents b1)
        \<lparr>Events = [], NextSequence = window_start b1 after,
         Gap = (after < oldest_of b1 - 1 \<or> asequence b1 < after), InstructionSupported = False\<rparr>)"
  by (simp add: Window_def Let_def window_start_def oldest_of_def)

text \<open>The events of a page are the retained ones after the start, in order and without a hole.\<close>

lemma window_loop_run:
  assumes ok: "activity_ok b" and small: "unat (asequence b) < 2 ^ 64 - 1"
    and len: "0 < maxE" and start: "start = window_start b after"
    and w: "w = window_loop winLen start maxE maxB (aevents b)
      \<lparr>Events = [], NextSequence = start, Gap = g, InstructionSupported = i\<rparr>"
  shows "map (unat \<circ> ActSequence) (Events w) = [Suc (unat start)..<Suc (unat (NextSequence w))]"
    and "page_of winLen maxE maxB [] (filter (\<lambda>e. start < ActSequence e) (aevents b)) w"
proof -
  let ?w0 = "\<lparr>Events = [], NextSequence = start, Gap = g, InstructionSupported = i\<rparr>"
  from window_loop_page [of ?w0 maxE winLen maxB start "aevents b"] len w
  show page: "page_of winLen maxE maxB [] (filter (\<lambda>e. start < ActSequence e) (aevents b)) w" by simp
  then obtain n where n: "Events w = take n (filter (\<lambda>e. start < ActSequence e) (aevents b))" by (auto simp: page_of_def)
  have "map (unat \<circ> ActSequence) (filter (\<lambda>e. unat start < (unat \<circ> ActSequence) e) (aevents b)) =
      [Suc (unat start)..<Suc (unat (asequence b))]"
    by (rule filter_run [where a = "Suc (unat (asequence b)) - length (aevents b)"])
      (use ok window_start_bounds [OF ok small, of after] start in \<open>auto simp: activity_ok_def\<close>)
  then have "map (unat \<circ> ActSequence) (Events w) = take n [Suc (unat start)..<Suc (unat (asequence b))]"
    by (simp add: n word_less_nat_alt flip: take_map)
  then have run: "map (unat \<circ> ActSequence) (Events w) =
      [Suc (unat start)..<min (Suc (unat start) + n) (Suc (unat (asequence b)))]"
    by (simp only: take_upt_min)
  have "cursor_ok start w" unfolding w by (rule window_loop_cursor) (simp add: cursor_ok_def)
  with map_last [OF run] run
  show "map (unat \<circ> ActSequence) (Events w) = [Suc (unat start)..<Suc (unat (NextSequence w))]"
    by (cases "Events w = []") (auto simp: cursor_ok_def)
qed

text \<open>
  C20. Whatever appends and windows a session's activity buffer has seen, a further window is a
  hole-free run of sequence numbers that starts right after the caller's cursor (or, when it reports
  a gap, right after the newest discarded event) and ends at the cursor it hands back. It holds a
  prefix of the retained events after that start, at most the caller's number of events (128 when the
  caller gives none or more than 128) and never more bytes than the caller's limit (32 KiB when the
  caller's is below 1 KiB or above 32 KiB). It is as long as these limits allow: when it ends before
  the retained events and below the number of events, the next event would exceed the bytes. It
  reports a gap exactly when the cursor lies before the newest discarded event or beyond the last
  one assigned.
\<close>

theorem Window_page:
  fixes evLen winLen ops after maxE maxB now
  assumes "length ops < 2 ^ 64 - 1"
  shows "let b = activity_run evLen winLen ops;
             (w, b1) = Window evLen winLen b after maxE maxB now;
             start = (if Gap w then unat (asequence b) - length (aevents b1) else unat after);
             xs = filter (\<lambda>e. start < unat (ActSequence e)) (aevents b1);
             n = length (Events w);
             limit = (if maxE \<le> 0 \<or> 128 < maxE then 128 else maxE);
             byteLimit = (if maxB < 1024 \<or> 32768 < maxB then 32768 else maxB)
         in map (unat \<circ> ActSequence) (Events w) = [Suc start..<Suc (unat (NextSequence w))] \<and>
            (\<exists>old. aevents b = old @ aevents b1) \<and>
            Events w = take n xs \<and> int n \<le> limit \<and>
            (Events w \<noteq> [] \<longrightarrow> int (winLen w) \<le> byteLimit) \<and>
            (n < length xs \<and> int n < limit \<longrightarrow>
               byteLimit < int (winLen (w\<lparr>Events := Events w @ [xs ! n], NextSequence := ActSequence (xs ! n)\<rparr>))) \<and>
            (Gap w \<longleftrightarrow> unat after < unat (asequence b) - length (aevents b1) \<or> asequence b < after)"
proof -
  define b where "b = activity_run evLen winLen ops"
  define b1 where "b1 = b\<lparr>aevents := trim_events evLen now (aevents b)\<rparr>"
  define w where "w = fst (Window evLen winLen b after maxE maxB now)"
  have ok: "activity_ok b1" and small: "unat (asequence b1) < 2 ^ 64 - 1" and seq: "asequence b1 = asequence b"
    using activity_run_ok [OF assms, of evLen winLen] assms
    by (auto simp: b_def b1_def intro!: activity_trim_ok)
  define E where "E = (if maxE \<le> 0 \<or> 128 < maxE then 128 else maxE)"
  define B where "B = (if maxB < 1024 \<or> 32768 < maxB then 32768 else maxB)"
  have E: "0 < E" by (auto simp: E_def)
  have weq: "w = window_loop winLen (window_start b1 after) E B (aevents b1)
      \<lparr>Events = [], NextSequence = window_start b1 after,
       Gap = (after < oldest_of b1 - 1 \<or> asequence b1 < after), InstructionSupported = False\<rparr>"
    by (simp add: w_def Window_unfold Let_def b1_def E_def B_def)
  have gap: "Gap w \<longleftrightarrow> after < oldest_of b1 - 1 \<or> asequence b1 < after"
    unfolding weq by (simp add: window_loop_Gap)
  have st: "unat (window_start b1 after) =
      (if Gap w then unat (asequence b) - length (aevents b1) else unat after)"
    using oldest_of_nat(2) [OF ok small] gap by (auto simp: window_start_def seq)
  note run = window_loop_run [OF ok small E refl weq]
  define xs where "xs = filter (\<lambda>e. window_start b1 after < ActSequence e) (aevents b1)"
  have page: "Events w = take (length (Events w)) xs \<and> int (length (Events w)) \<le> E \<and>
      (length (Events w) < length xs \<and> int (length (Events w)) < E \<longrightarrow>
         B < int (winLen (w\<lparr>Events := Events w @ [xs ! length (Events w)], NextSequence := ActSequence (xs ! length (Events w))\<rparr>)))"
    using run(2) unfolding xs_def [symmetric] page_of_def next_page_def by (elim exE conjE) (simp add: min_absorb2)
  have bytes: "Events w \<noteq> [] \<longrightarrow> int (winLen w) \<le> B"
    unfolding weq by (rule window_loop_bytes) simp
  have pair: "Window evLen winLen b after maxE maxB now = (w, b1)"
    by (simp add: w_def b1_def prod_eq_iff Window_buffer)
  have suffix: "\<exists>old. aevents b = old @ aevents b1"
    using trim_events_suffix [of "aevents b" evLen now] by (simp add: b1_def)
  have gap': "Gap w \<longleftrightarrow> unat after < unat (asequence b) - length (aevents b1) \<or> asequence b < after"
    using gap oldest_of_nat(2) [OF ok small] seq by (simp add: word_less_nat_alt)
  show ?thesis
    unfolding b_def [symmetric] pair Let_def prod.case st [symmetric] word_less_nat_alt [symmetric] E_def [symmetric] B_def [symmetric]
      xs_def [symmetric]
    using run(1) suffix page bytes gap' unfolding word_less_nat_alt [symmetric] by blast
qed

theorem Window_page_witness:
  "let w = fst (Window length (length \<circ> Events)
             (activity_run length (length \<circ> Events)
                [AppendOp ''tool'' [] 0, AppendOp ''tool'' [] 1, AppendOp ''tool'' [] 2]) 1 1 0 3)
   in map (unat \<circ> ActSequence) (Events w) = [2] \<and> int (length (Events w)) \<le> 1"
proof -
  let ?ops = "[AppendOp ''tool'' [] 0, AppendOp ''tool'' [] 1, AppendOp ''tool'' [] 2]"
  let ?W = "Window length (length \<circ> Events) (activity_run length (length \<circ> Events) ?ops) 1 1 0 3"
  have v: "ValidString []" by (simp add: ValidString_def codes_def)
  have cur: "NextSequence (fst ?W) = 2 \<and> \<not> Gap (fst ?W)"
    by (simp add: Window_def activity_run_def activity_Append_def NewActivityBuffer_def Let_def v word_le_nat_alt)
  have "length ?ops < 2 ^ 64 - 1" by simp
  from Window_page [OF this, of length "length \<circ> Events" 1 1 0 3]
  have "map (unat \<circ> ActSequence) (Events (fst ?W)) =
      [Suc (if Gap (fst ?W) then unat (asequence (activity_run length (length \<circ> Events) ?ops)) -
              length (aevents (snd ?W)) else unat (1 :: u64))..<Suc (unat (NextSequence (fst ?W)))]"
    and len: "int (length (Events (fst ?W))) \<le> (if (1::int) \<le> 0 \<or> 128 < (1::int) then 128 else 1)"
    unfolding Let_def case_prod_beta by blast+
  then have "map (unat \<circ> ActSequence) (Events (fst ?W)) = [Suc (unat (1 :: u64))..<Suc (unat (2 :: u64))]"
    using cur by (simp only: if_False)
  also have "\<dots> = [2]" by (simp add: upt_rec)
  finally show ?thesis using len unfolding Let_def by simp
qed

end
