(* ===== verification/Terminal.thy ===== *)
theory Terminal
  imports Supervisor_Properties Activity_Buffer
begin

text \<open>
  \<open>internal/bridge/terminal.go\<close>: bounded views of a session's terminal output for a remote viewer
  that polls with a cursor. A window carries whole chunks after the cursor; when those are no longer
  available, or a single chunk exceeds the limit, it carries a redraw of the current screen.
\<close>

record TerminalWindow =
  More :: bool
  Data :: bytes
  FirstSequence :: u64
  TwNextSequence :: u64
  TwGap :: bool
  Ended :: bool
  Writer :: bool
  TwCols :: u32
  TwRows :: u32

definition StoredReplayPage :: "bolt \<Rightarrow> Supervisor \<Rightarrow> string \<Rightarrow> u64 \<Rightarrow> bridge_error option \<times> OutputChunk list" where
  "StoredReplayPage B s sessionID after =
     (case store s of None \<Rightarrow> (None, []) | Some db \<Rightarrow> LoadChunkPage B db sessionID after 65536)"

text \<open>The loop over the chunks; \<open>None\<close> when the first chunk after the cursor is over the limit.\<close>

fun tw_loop :: "u64 \<Rightarrow> bool \<Rightarrow> TerminalWindow \<Rightarrow> OutputChunk list \<Rightarrow> TerminalWindow option" where
  "tw_loop after first w [] = Some w"
| "tw_loop after first w (c # cs) =
     (if Seq c \<le> after then tw_loop after first w cs
      else if \<not> first \<and> Seq c \<noteq> TwNextSequence w + 1 then Some w
      else if 0 < Cols c \<and> 0 < Rows c \<and> \<not> first \<and> (TwCols w \<noteq> Cols c \<or> TwRows w \<noteq> Rows c) then Some w
      else
        let w1 = (if 0 < Cols c \<and> 0 < Rows c then w\<lparr>TwCols := Cols c, TwRows := Rows c\<rparr> else w)
        in if 65536 < length (Data w1) + length (Payload c) then (if first then None else Some w1)
           else tw_loop after False
                  (w1\<lparr>FirstSequence := (if first then Seq c else FirstSequence w1),
                      Data := Data w1 @ Payload c, TwNextSequence := Seq c\<rparr>) cs)"

text \<open>
  \<open>TerminalWindow\<close> under the locks of the session; \<open>loader\<close> is \<open>LoadChunkPage\<close> of a store that pages.
\<close>

definition terminalWindowLocked ::
  "vt \<Rightarrow> (u64 \<Rightarrow> bridge_error option \<times> OutputChunk list) option \<Rightarrow> managedSession \<Rightarrow> string \<Rightarrow> u64 \<Rightarrow>
     (bridge_error + TerminalWindow) \<times> managedSession" where
  "terminalWindowLocked V loader ms clientID after =
     (if streamJSON ms then (Inl ErrSessionRecoveryUnavailable, ms)
      else
        let b = buf ms;
            oldest0 = OldestSeq b;
            last0 = (if chunks b = [] then 0 else Seq (last (chunks b)));
            lst = max (max last0 (InfoLastSeq (info ms))) (nextSeq b - 1);
            w = \<lparr>More = False, Data = [], FirstSequence = 0, TwNextSequence = after, TwGap = False, Ended = False,
                 Writer = (ActiveWriterClientID (info ms) = clientID \<and> clientID \<noteq> ''''),
                 TwCols = InfoCols (info ms), TwRows = InfoRows (info ms)\<rparr>;
            source =
              (if after < lst \<and> (oldest0 = 0 \<or> after + 1 < oldest0) then
                 (case loader of
                    None \<Rightarrow> Inr (chunks b, oldest0)
                  | Some load \<Rightarrow>
                      (case load after of
                         (Some e, _) \<Rightarrow> Inl e
                       | (None, page) \<Rightarrow> if page = [] then Inr (chunks b, oldest0) else Inr (page, Seq (hd page))))
               else Inr (chunks b, oldest0))
        in case source of
             Inl e \<Rightarrow> (Inl e, ms)
           | Inr (cs, oldest) \<Rightarrow>
               let (dat, scr) = checkpoint V (screen ms) lst;
                   gap = w\<lparr>TwGap := True, Data := dat, FirstSequence := oldest, TwNextSequence := lst, Ended := liveClosed ms\<rparr>;
                   ms1 = ms\<lparr>screen := scr\<rparr>;
                   checkpointGap = (if dat = [] then (Inl ErrSessionRecoveryUnavailable, ms1) else (Inr gap, ms1))
               in if cs = [] \<and> after < lst then checkpointGap
                  else if after + 1 < oldest \<or> lst < after then (Inr gap, ms1)
                  else case tw_loop after True w cs of
                         None \<Rightarrow> checkpointGap
                       | Some w1 \<Rightarrow> (Inr (w1\<lparr>More := TwNextSequence w1 < lst,
                                            Ended := (liveClosed ms \<and> TwNextSequence w1 = lst)\<rparr>), ms))"

text \<open>The session \<open>TerminalWindow\<close> makes up for an entry of the history.\<close>

definition historySession :: "SessionInfo \<Rightarrow> managedSession" where
  "historySession i =
     \<lparr>info = i, provider = None, cmdPid = 0, streamJSON = False, stripANSI = False, buf = NewByteBuffer 1,
      stopGrace = 0, lastActivity = 0, forceStop = False, recovered = False, readerDone = False, waited = False,
      cancelled = False, observers = [], liveClosed = True, screen = None, chans = []\<rparr>"

definition Supervisor_TerminalWindow ::
  "bolt \<Rightarrow> vt \<Rightarrow> Supervisor \<Rightarrow> string \<Rightarrow> string \<Rightarrow> u64 \<Rightarrow> (bridge_error + TerminalWindow) \<times> Supervisor" where
  "Supervisor_TerminalWindow B V s sessionID clientID after =
     (let loader = map_option (\<lambda>db a. LoadChunkPage B db sessionID a 65536) (store s)
      in case gm_get (sessions s) sessionID of
           Some ms \<Rightarrow>
             let (r, ms1) = terminalWindowLocked V loader ms clientID after
             in (r, s\<lparr>sessions := gm_put sessionID ms1 (sessions s)\<rparr>)
         | None \<Rightarrow>
             (case gm_get (history s) sessionID of
                None \<Rightarrow> (Inl ErrSessionNotFound, s)
              | Some i \<Rightarrow> (fst (terminalWindowLocked V loader (historySession i) clientID after), s)))"

text \<open>
  \<open>WaitTerminalWindow\<close> up to its wait: an answer, or the change channel it waits on (with a timer of
  one second and the context). After the wait it calls \<open>TerminalWindow\<close> again.
\<close>

datatype wait_outcome = Answer "bridge_error + TerminalWindow" | WaitOn nat

definition WaitTerminalWindow ::
  "bolt \<Rightarrow> vt \<Rightarrow> Supervisor \<Rightarrow> string \<Rightarrow> string \<Rightarrow> u64 \<Rightarrow> wait_outcome \<times> Supervisor" where
  "WaitTerminalWindow B V s sessionID clientID after =
     (case gm_get (sessions s) sessionID of
        None \<Rightarrow> (let (r, s1) = Supervisor_TerminalWindow B V s sessionID clientID after in (Answer r, s1))
      | Some ms \<Rightarrow>
          let (ch, b) = changes (buf ms);
              s0 = s\<lparr>sessions := gm_put sessionID (ms\<lparr>buf := b\<rparr>) (sessions s)\<rparr>;
              (r, s1) = Supervisor_TerminalWindow B V s0 sessionID clientID after
          in (case r of
                Inl e \<Rightarrow> (Answer r, s1)
              | Inr w \<Rightarrow>
                  if TwNextSequence w \<noteq> after \<or> Data w \<noteq> [] \<or> TwGap w \<or> Ended w then (Answer r, s1)
                  else (WaitOn ch, s1)))"

section \<open>The chunks of a window\<close>

definition same_size :: "TerminalWindow \<Rightarrow> OutputChunk \<Rightarrow> bool" where
  "same_size w c \<longleftrightarrow> (0 < Cols c \<and> 0 < Rows c \<longrightarrow> Cols c = TwCols w \<and> Rows c = TwRows w)"

lemma tw_loop_skip: "tw_loop after first w cs = tw_loop after first w (filter (\<lambda>c. after < Seq c) cs)"
proof (induction cs arbitrary: first w)
  case (Cons c cs)
  show ?case
  proof (cases "Seq c \<le> after")
    case True
    then have "\<not> after < Seq c" by simp
    with True Cons show ?thesis by simp
  next
    case False
    then have c: "after < Seq c" by simp
    have "tw_loop after first w (c # cs) = tw_loop after first w (c # filter (\<lambda>c. after < Seq c) cs)"
      unfolding tw_loop.simps Let_def using False Cons by (simp only: if_False)
    with c show ?thesis by (simp only: filter.simps if_True)
  qed
qed simp

text \<open>Once a window has its first chunk it takes the following ones while they fit.\<close>

lemma tw_loop_more:
  assumes "\<forall>c \<in> set cs. after < Seq c" and "length (Data w) \<le> 65536"
    and "map (unat \<circ> Seq) cs = [Suc (unat (TwNextSequence w))..<k]"
  shows "\<exists>n w'. tw_loop after False w cs = Some w' \<and> n \<le> length cs \<and>
    Data w' = Data w @ concat (map Payload (take n cs)) \<and> unat (TwNextSequence w') = unat (TwNextSequence w) + n \<and>
    length (Data w') \<le> 65536 \<and> FirstSequence w' = FirstSequence w \<and> TwGap w' = TwGap w \<and> Writer w' = Writer w \<and>
    TwCols w' = TwCols w \<and> TwRows w' = TwRows w \<and> (\<forall>c \<in> set (take n cs). same_size w c)"
  using assms
proof (induction cs arbitrary: w)
  case Nil
  then show ?case by (intro exI [of _ 0] exI [of _ w]) simp
next
  case (Cons c cs)
  have c: "after < Seq c" using Cons.prems(1) by simp
  have "Suc (unat (TwNextSequence w)) < k" "unat (Seq c) = Suc (unat (TwNextSequence w))"
      "map (unat \<circ> Seq) cs = [Suc (Suc (unat (TwNextSequence w)))..<k]"
    using Cons.prems(3) by (auto simp: upt_eq_Cons_conv eq_commute [of "_ # _"])
  note run = this
  show ?case
  proof (cases "(0 < Cols c \<and> 0 < Rows c \<and> (TwCols w \<noteq> Cols c \<or> TwRows w \<noteq> Rows c)) \<or>
      Seq c \<noteq> TwNextSequence w + 1 \<or> 65536 < length (Data w) + length (Payload c)")
    case True
    have "tw_loop after False w (c # cs) = Some w"
      using True c by (auto simp: Let_def leD)
    then show ?thesis using Cons.prems(2) by (intro exI [of _ 0] exI [of _ w]) simp
  next
    case False
    let ?w = "w\<lparr>Data := Data w @ Payload c, TwNextSequence := Seq c\<rparr>"
    have sz: "(if 0 < Cols c \<and> 0 < Rows c then w\<lparr>TwCols := Cols c, TwRows := Rows c\<rparr> else w) = w"
      using False by auto
    have "tw_loop after False w (c # cs) = tw_loop after False (w\<lparr>FirstSequence := FirstSequence w, Data := Data w @ Payload c, TwNextSequence := Seq c\<rparr>) cs"
      using False c unfolding tw_loop.simps Let_def sz by (auto dest: leD)
    then have "tw_loop after False w (c # cs) = tw_loop after False ?w cs" by simp
    moreover have "\<exists>n w'. tw_loop after False ?w cs = Some w' \<and> n \<le> length cs \<and>
        Data w' = Data ?w @ concat (map Payload (take n cs)) \<and> unat (TwNextSequence w') = unat (TwNextSequence ?w) + n \<and>
        length (Data w') \<le> 65536 \<and> FirstSequence w' = FirstSequence ?w \<and> TwGap w' = TwGap ?w \<and> Writer w' = Writer ?w \<and>
        TwCols w' = TwCols ?w \<and> TwRows w' = TwRows ?w \<and> (\<forall>c \<in> set (take n cs). same_size ?w c)"
      using Cons.prems(1) False run by (intro Cons.IH) (auto simp: comp_def)
    then obtain n w' where "tw_loop after False ?w cs = Some w'" "n \<le> length cs"
        "Data w' = Data w @ Payload c @ concat (map Payload (take n cs))" "unat (TwNextSequence w') = Suc (unat (TwNextSequence w) + n)"
        "length (Data w') \<le> 65536" "FirstSequence w' = FirstSequence w" "TwGap w' = TwGap w" "Writer w' = Writer w"
        "TwCols w' = TwCols w" "TwRows w' = TwRows w" "\<forall>c \<in> set (take n cs). same_size w c"
      using run(2) by (auto simp: same_size_def)
    moreover have "same_size w c" using False by (auto simp: same_size_def)
    ultimately show ?thesis by (intro exI [of _ "Suc n"] exI [of _ w']) simp
  qed
qed

text \<open>The first chunk opens the window unless it is over the limit on its own.\<close>

lemma tw_loop_first:
  assumes "\<forall>c \<in> set cs. after < Seq c" and "Data w = []" and "TwNextSequence w = after"
    and "map (unat \<circ> Seq) cs = [Suc (unat after)..<k]"
  shows "(cs \<noteq> [] \<and> 65536 < length (Payload (hd cs)) \<and> tw_loop after True w cs = None) \<or>
    (\<exists>n w'. tw_loop after True w cs = Some w' \<and> n \<le> length cs \<and> (n = 0 \<longleftrightarrow> cs = []) \<and>
      Data w' = concat (map Payload (take n cs)) \<and> unat (TwNextSequence w') = unat after + n \<and>
      length (Data w') \<le> 65536 \<and> TwGap w' = TwGap w \<and> Writer w' = Writer w \<and> (\<forall>c \<in> set (take n cs). same_size w' c))"
proof (cases cs)
  case Nil
  then show ?thesis using assms by (intro disjI2 exI [of _ 0] exI [of _ w]) simp
next
  case (Cons c cs')
  have c: "after < Seq c" using assms(1) Cons by simp
  have run: "unat (Seq c) = Suc (unat after)" "map (unat \<circ> Seq) cs' = [Suc (unat (Seq c))..<k]"
    using assms(4) Cons by (auto simp: upt_eq_Cons_conv eq_commute [of "_ # _"])
  define w1 where "w1 = (if 0 < Cols c \<and> 0 < Rows c then w\<lparr>TwCols := Cols c, TwRows := Rows c\<rparr> else w)"
  have w1: "Data w1 = Data w" "TwGap w1 = TwGap w" "Writer w1 = Writer w" "same_size w1 c"
    by (auto simp: w1_def same_size_def)
  let ?w = "w1\<lparr>FirstSequence := Seq c, Data := Payload c, TwNextSequence := Seq c\<rparr>"
  show ?thesis
  proof (cases "65536 < length (Payload c)")
    case True
    then have "tw_loop after True w cs = None" using c assms(2) by (auto simp: Cons Let_def dest: leD)
    with True Cons show ?thesis by simp
  next
    case False
    have step: "tw_loop after True w cs = tw_loop after False ?w cs'"
      using c False assms(2) w1(1) by (auto simp: Cons Let_def simp flip: w1_def dest: leD)
    have same: "same_size ?w = same_size w1" by (simp add: same_size_def fun_eq_iff)
    have pre: "\<forall>c \<in> set cs'. after < Seq c" "length (Data ?w) \<le> 65536"
        "map (unat \<circ> Seq) cs' = [Suc (unat (TwNextSequence ?w))..<k]"
      using assms(1) Cons False run by simp_all
    from tw_loop_more [OF pre] obtain n w' where w': "tw_loop after False ?w cs' = Some w'" "n \<le> length cs'"
        "Data w' = Data ?w @ concat (map Payload (take n cs'))" "unat (TwNextSequence w') = unat (TwNextSequence ?w) + n"
        "length (Data w') \<le> 65536" "TwGap w' = TwGap ?w" "Writer w' = Writer ?w"
        "TwCols w' = TwCols ?w" "TwRows w' = TwRows ?w" "\<forall>c \<in> set (take n cs'). same_size ?w c" by blast
    have "\<forall>d \<in> set (take (Suc n) cs). same_size w' d"
      using w'(8-10) w1(4) Cons unfolding same by (auto simp: same_size_def)
    then show ?thesis using w'(1-7) step run Cons w1
      by (intro disjI2 exI [of _ "Suc n"] exI [of _ w']) simp
  qed
qed

lemma After_run:
  assumes "bb_seq b" and "unat (nextSeq b) - length (chunks b) \<le> Suc (unat after)"
    and "after \<le> LastSeq b"
  shows "map (unat \<circ> Seq) (After b after) = [Suc (unat after)..<unat (nextSeq b)]"
proof -
  have last: "Suc (unat (LastSeq b)) = unat (nextSeq b)" using assms(1) by (rule bb_seq_last)
  have "map (unat \<circ> Seq) (filter (\<lambda>c. unat after < (unat \<circ> Seq) c) (chunks b)) = [Suc (unat after)..<unat (nextSeq b)]"
    by (rule filter_run [where a = "unat (nextSeq b) - length (chunks b)"])
      (use assms last in \<open>auto simp: bb_seq_def u64_nat\<close>)
  moreover have "After b after = filter (\<lambda>c. unat after < (unat \<circ> Seq) c) (chunks b)"
    by (simp add: After_def not_le u64_nat)
  ultimately show ?thesis by simp
qed

text \<open>When the memory buffer reaches back to the cursor, the window is served from it.\<close>

lemma window_source:
  assumes "bb_seq (buf ms)" and "InfoLastSeq (info ms) \<le> LastSeq (buf ms)" and "after \<le> LastSeq (buf ms)"
    and "unat (nextSeq (buf ms)) - length (chunks (buf ms)) \<le> Suc (unat after)"
  shows "max (max (if chunks (buf ms) = [] then 0 else Seq (last (chunks (buf ms)))) (InfoLastSeq (info ms)))
           (nextSeq (buf ms) - 1) = LastSeq (buf ms)"
    and "\<not> (after < LastSeq (buf ms) \<and> (OldestSeq (buf ms) = 0 \<or> after + 1 < OldestSeq (buf ms)))"
    and "\<not> (after + 1 < OldestSeq (buf ms) \<or> LastSeq (buf ms) < after)"
    and "\<not> (chunks (buf ms) = [] \<and> after < LastSeq (buf ms))"
proof -
  let ?b = "buf ms"
  have last: "Suc (unat (LastSeq ?b)) = unat (nextSeq ?b)" using assms(1) by (rule bb_seq_last)
  have "unat (LastSeq ?b) < 2 ^ 64 - 1" using last unat_u64_less [of "nextSeq ?b"] by linarith
  then have inc: "unat (after + 1) = Suc (unat after)" using assms(3) by (subst unat_inc_u64) (auto simp: u64_nat)
  have tail: "Seq (last (chunks ?b)) = LastSeq ?b" if "chunks ?b \<noteq> []"
    using map_last [of "unat \<circ> Seq" "chunks ?b" "unat (nextSeq ?b) - length (chunks ?b)" "unat (nextSeq ?b)"]
      assms(1) that last by (auto simp: bb_seq_def u64_nat)
  show "max (max (if chunks ?b = [] then 0 else Seq (last (chunks ?b))) (InfoLastSeq (info ms))) (nextSeq ?b - 1) = LastSeq ?b"
    using assms(2) tail by (auto simp: max_def LastSeq_def)
  have empty: "after = LastSeq ?b" if "chunks ?b = []"
    using that assms(3,4) last by (simp add: u64_nat)
  have old: "unat (OldestSeq ?b) = unat (nextSeq ?b) - length (chunks ?b)" "OldestSeq ?b \<noteq> 0" if "chunks ?b \<noteq> []"
    using bb_seq_oldest [OF assms(1) that] assms(1) by (auto simp: bb_seq_def u64_nat)
  show "\<not> (after < LastSeq ?b \<and> (OldestSeq ?b = 0 \<or> after + 1 < OldestSeq ?b))"
    using empty old assms(4) inc by (cases "chunks ?b = []") (auto simp: u64_nat)
  show "\<not> (after + 1 < OldestSeq ?b \<or> LastSeq ?b < after)"
    using old assms(3,4) inc by (cases "chunks ?b = []") (auto simp: u64_nat OldestSeq_def)
  show "\<not> (chunks ?b = [] \<and> after < LastSeq ?b)" using empty by auto
qed

text \<open>
  C19. A viewer that polls with a cursor the buffer still reaches gets the output right after its cursor:
  whole chunks in order without a hole, at most 64 KiB, all drawn at the size the window names, at least one
  when there is any; the window says exactly whether more is waiting and whether this is the end. Only when
  the next chunk alone exceeds 64 KiB does it get a redraw of the screen at the newest sequence number
  instead, or an error when no redraw exists.
\<close>

theorem terminal_window_page:
  assumes "\<not> streamJSON ms" and "bb_seq (buf ms)" and "InfoLastSeq (info ms) \<le> LastSeq (buf ms)" and "after \<le> LastSeq (buf ms)"
    and "unat (nextSeq (buf ms)) - length (chunks (buf ms)) \<le> Suc (unat after)"
  shows "let rest = After (buf ms) after; r = fst (terminalWindowLocked V loader ms c after)
         in if rest \<noteq> [] \<and> 65536 < length (Payload (hd rest))
            then (case r of
                    Inl e \<Rightarrow> e = ErrSessionRecoveryUnavailable
                  | Inr w \<Rightarrow> TwGap w \<and> TwNextSequence w = LastSeq (buf ms) \<and> Data w = fst (checkpoint V (screen ms) (LastSeq (buf ms))))
            else \<exists>n w. r = Inr w \<and> \<not> TwGap w \<and> n \<le> length rest \<and> (n = 0 \<longleftrightarrow> rest = []) \<and>
                   Data w = concat (map Payload (take n rest)) \<and> unat (TwNextSequence w) = unat after + n \<and>
                   length (Data w) \<le> 65536 \<and> (\<forall>ch \<in> set (take n rest). same_size w ch) \<and>
                   (More w \<longleftrightarrow> n < length rest) \<and> (Ended w \<longleftrightarrow> liveClosed ms \<and> n = length rest)"
proof -
  note src = window_source [OF assms(2-5)]
  define w0 where "w0 = \<lparr>More = False, Data = [], FirstSequence = 0, TwNextSequence = after, TwGap = False, Ended = False,
     Writer = (ActiveWriterClientID (info ms) = c \<and> c \<noteq> ''''), TwCols = InfoCols (info ms), TwRows = InfoRows (info ms)\<rparr>"
  define rest where "rest = After (buf ms) after"
  have run: "map (unat \<circ> Seq) rest = [Suc (unat after)..<unat (nextSeq (buf ms))]"
    unfolding rest_def using assms(2,5,4) by (rule After_run)
  have rest: "rest = filter (\<lambda>ch. after < Seq ch) (chunks (buf ms))" by (simp add: rest_def After_def not_le)
  have loop: "tw_loop after True w0 (chunks (buf ms)) = tw_loop after True w0 rest"
    unfolding rest by (rule tw_loop_skip)
  obtain dat scr where cp: "checkpoint V (screen ms) (LastSeq (buf ms)) = (dat, scr)"
    by (cases "checkpoint V (screen ms) (LastSeq (buf ms))")
  have r: "fst (terminalWindowLocked V loader ms c after) =
      (case tw_loop after True w0 rest of
         None \<Rightarrow> if dat = [] then Inl ErrSessionRecoveryUnavailable
           else Inr (w0\<lparr>TwGap := True, Data := dat, FirstSequence := OldestSeq (buf ms), TwNextSequence := LastSeq (buf ms), Ended := liveClosed ms\<rparr>)
       | Some w1 \<Rightarrow> Inr (w1\<lparr>More := TwNextSequence w1 < LastSeq (buf ms), Ended := (liveClosed ms \<and> TwNextSequence w1 = LastSeq (buf ms))\<rparr>))"
    unfolding terminalWindowLocked_def Let_def src(1) loop [symmetric] w0_def [symmetric] if_not_P [OF assms(1)]
      if_not_P [OF src(2)] sum.case prod.case cp if_not_P [OF src(3)] if_not_P [OF src(4)]
    by (simp split: option.split)
  have len: "unat (LastSeq (buf ms)) = unat after + length rest"
    using arg_cong [OF run, of length] bb_seq_last [OF assms(2)] assms(4) by (simp add: u64_nat)
  have w0: "Data w0 = []" "TwNextSequence w0 = after" "\<not> TwGap w0" by (simp_all add: w0_def)
  have "\<forall>ch \<in> set rest. after < Seq ch" by (simp add: rest)
  note first = tw_loop_first [OF this w0(1,2) run]
  consider (big) "rest \<noteq> []" "65536 < length (Payload (hd rest))" "tw_loop after True w0 rest = None"
    | (fits) n w where "tw_loop after True w0 rest = Some w" "n \<le> length rest" "n = 0 \<longleftrightarrow> rest = []"
        "Data w = concat (map Payload (take n rest))" "unat (TwNextSequence w) = unat after + n" "length (Data w) \<le> 65536"
        "\<not> TwGap w" "\<forall>ch \<in> set (take n rest). same_size w ch"
    using first w0(3) by (elim disjE exE conjE) simp_all
  then show ?thesis
  proof cases
    case big
    then show ?thesis unfolding Let_def rest_def [symmetric] r by (simp add: cp)
  next
    case (fits n w)
    have small: "\<not> (rest \<noteq> [] \<and> 65536 < length (Payload (hd rest)))"
      using fits(3,4,6) by (cases rest; cases n) auto
    let ?w = "w\<lparr>More := TwNextSequence w < LastSeq (buf ms), Ended := (liveClosed ms \<and> TwNextSequence w = LastSeq (buf ms))\<rparr>"
    have "More ?w \<longleftrightarrow> n < length rest" "Ended ?w \<longleftrightarrow> liveClosed ms \<and> n = length rest"
      using fits(5) len by (simp_all add: u64_nat)
    moreover have "\<forall>ch \<in> set (take n rest). same_size ?w ch" using fits(8) by (simp add: same_size_def)
    moreover have "fst (terminalWindowLocked V loader ms c after) = Inr ?w" unfolding r fits(1) by simp
    moreover have "\<not> TwGap ?w" "Data ?w = concat (map Payload (take n rest))" "unat (TwNextSequence ?w) = unat after + n"
        "length (Data ?w) \<le> 65536"
      using fits(4-7) by simp_all
    ultimately show ?thesis
      unfolding Let_def rest_def [symmetric] if_not_P [OF small] using fits(2,3) by blast
  qed
qed

text \<open>A session with two chunks of output, and a viewer that has seen the first.\<close>

definition demo_output :: managedSession where
  "demo_output = demo_session\<lparr>buf := snd (AppendSized 2 (snd (AppendSized 1 (buf demo_session) [65] ChunkTypeOutput 80 24))
     [66] ChunkTypeOutput 80 24)\<rparr>"

lemma demo_output_simps:
  "nextSeq (buf demo_output) = 3" "LastSeq (buf demo_output) = 2" "\<not> streamJSON demo_output" "InfoLastSeq (info demo_output) = 0"
  "chunks (buf demo_output) = [\<lparr>Cols = 80, Rows = 24, Seq = 1, Timestamp = 1, Payload = [65], Type = ChunkTypeOutput\<rparr>,
     \<lparr>Cols = 80, Rows = 24, Seq = 2, Timestamp = 2, Payload = [66], Type = ChunkTypeOutput\<rparr>]"
  by (simp_all add: demo_output_def demo_simps AppendSized_def notifyLocked_def)

theorem terminal_window_page_witness:
  "\<exists>w. fst (terminalWindowLocked demo_vt None demo_output ''w'' 1) = Inr w \<and> Data w = [66] \<and> TwNextSequence w = 2 \<and> \<not> More w"
proof -
  have "bb_seq (buf demo_output)" by (simp add: bb_seq_def demo_output_simps upt_rec)
  from terminal_window_page [OF _ this, of 1 demo_vt None "''w''"]
  show ?thesis by (auto simp: demo_output_simps After_def Let_def le_Suc_eq u64_nat)
qed

end
