(* ===== verification/Auth.thy ===== *)
theory Auth
  imports Go_Std
begin

text \<open>
  \<open>internal/auth\<close>: JWT issuing and verification (\<open>jwt.go\<close>), the interceptors that put the claims of a
  caller into the context of a request (\<open>interceptors.go\<close>, \<open>audit.go\<close>), and the reloading of the server
  certificate (\<open>mtls.go\<close>). The JWT library is a parameter: \<open>jwt_lawful\<close> states what its parser documents.
\<close>

declare map_of_eq_Some_iff [simp del] Some_eq_map_of_iff [simp del]

section \<open>Status codes\<close>

text \<open>A \<open>status.Error\<close> is its code; the texts of the messages are not modelled.\<close>

datatype grpc_code =
    InvalidArgument
  | NotFound
  | AlreadyExists
  | PermissionDenied
  | ResourceExhausted
  | FailedPrecondition
  | Internal
  | Unavailable
  | Unauthenticated

section \<open>Tokens\<close>

type_synonym pubkey = bytes

record BridgeClaims =
  ClProjectID :: string
  ClIssuer :: string
  Subject :: string
  Audience :: "string list"
  ExpiresAt :: "go_time option"
  NotBefore :: "go_time option"
  IssuedAt :: "go_time option"

text \<open>
  The library: \<open>jwtSign\<close> is \<open>SignedString\<close> with the private key of a public key, \<open>None\<close> for an error; \<open>jwtParse\<close> is
  \<open>ParseWithClaims\<close> of a parser for EdDSA and an audience, given the key function and the time;
  \<open>jwtSigned key tok c\<close> says that \<open>tok\<close> encodes the claims \<open>c\<close> with a valid EdDSA signature under \<open>key\<close>.
\<close>

record jwt_lib =
  jwtSign :: "pubkey \<Rightarrow> BridgeClaims \<Rightarrow> string option"
  jwtSigned :: "pubkey \<Rightarrow> string \<Rightarrow> BridgeClaims \<Rightarrow> bool"
  jwtParse :: "string \<Rightarrow> (BridgeClaims \<Rightarrow> pubkey option) \<Rightarrow> go_time \<Rightarrow> string \<Rightarrow> BridgeClaims option"

definition times_valid :: "go_time \<Rightarrow> BridgeClaims \<Rightarrow> bool" where
  "times_valid now c \<longleftrightarrow>
     (case ExpiresAt c of None \<Rightarrow> True | Some e \<Rightarrow> now < e) \<and> (case NotBefore c of None \<Rightarrow> True | Some n \<Rightarrow> n \<le> now)"

text \<open>The characters of a compact serialisation: base64url and dots.\<close>

definition token_char :: "char \<Rightarrow> bool" where
  "token_char c \<longleftrightarrow> (let n = of_char c :: nat in
     48 \<le> n \<and> n \<le> 57 \<or> 65 \<le> n \<and> n \<le> 90 \<or> 97 \<le> n \<and> n \<le> 122 \<or> n = 45 \<or> n = 46 \<or> n = 95)"

definition jwt_lawful :: "jwt_lib \<Rightarrow> bool" where
  "jwt_lawful J \<longleftrightarrow>
     (\<forall>aud kf now tok c. aud \<noteq> '''' \<longrightarrow>
        (jwtParse J aud kf now tok = Some c \<longleftrightarrow>
           (\<exists>k. kf c = Some k \<and> jwtSigned J k tok c) \<and> aud \<in> set (Audience c) \<and> times_valid now c)) \<and>
     (\<forall>k c tok. jwtSign J k c = Some tok \<longrightarrow> jwtSigned J k tok c \<and> tok \<noteq> [] \<and> list_all token_char tok)"

text \<open>\<open>jwt.NewNumericDate\<close> truncates to whole seconds.\<close>

definition NewNumericDate :: "go_time \<Rightarrow> go_time" where
  "NewNumericDate t = t div second * second"

record JWTIssuer =
  IssIssuer :: string
  IssAudience :: string
  IssKey :: pubkey
  TTL :: duration

definition Mint :: "jwt_lib \<Rightarrow> go_time \<Rightarrow> JWTIssuer \<Rightarrow> string \<Rightarrow> string \<Rightarrow> string option" where
  "Mint J now j sub projectID =
     jwtSign J (IssKey j)
       \<lparr>ClProjectID = projectID, ClIssuer = IssIssuer j, Subject = sub, Audience = [IssAudience j],
        ExpiresAt = Some (NewNumericDate (now + TTL j)), NotBefore = None, IssuedAt = Some (NewNumericDate now)\<rparr>"

record JWTVerifier =
  VAudience :: string
  MaxTTL :: duration
  Keys :: "(string, pubkey) gomap"

text \<open>The key function of \<open>Verify\<close>.\<close>

definition issuer_key :: "JWTVerifier \<Rightarrow> BridgeClaims \<Rightarrow> pubkey option" where
  "issuer_key v c = (if ClIssuer c = '''' then None else gm_get (Keys v) (ClIssuer c))"

definition Verify :: "jwt_lib \<Rightarrow> go_time \<Rightarrow> JWTVerifier \<Rightarrow> string \<Rightarrow> string + BridgeClaims" where
  "Verify J now v tok =
     (case jwtParse J (VAudience v) (issuer_key v) now tok of
        None \<Rightarrow> Inl ''verify jwt''
      | Some c \<Rightarrow>
          if 0 < MaxTTL v then
            (case IssuedAt c of
               None \<Rightarrow> Inl ''missing iat claim''
             | Some iat \<Rightarrow>
                 (case ExpiresAt c of
                    None \<Rightarrow> Inl ''missing exp claim''
                  | Some e \<Rightarrow> if MaxTTL v < e - iat then Inl ''token TTL exceeds max'' else Inr c))
          else Inr c)"

definition AddKey :: "JWTVerifier \<Rightarrow> string \<Rightarrow> pubkey \<Rightarrow> JWTVerifier" where
  "AddKey v issuer key = v\<lparr>Keys := gm_put issuer key (Keys v)\<rparr>"

definition HasKey :: "JWTVerifier \<Rightarrow> string \<Rightarrow> bool" where
  "HasKey v issuer \<longleftrightarrow> gm_get (Keys v) issuer \<noteq> None"

section \<open>Interceptors\<close>

text \<open>
  What the code reads of a request context: the claims stored by an interceptor, the incoming metadata (if
  any) and the common name of the peer certificate, empty when there is none. A handler maps the context and
  the state to a result and the new state.
\<close>

record rpc_context =
  ctxClaims :: "BridgeClaims option"
  ctxMetadata :: "(string, string list) gomap option"
  peerCerts :: "string list option"

type_synonym ('s, 'r) handler = "rpc_context \<Rightarrow> 's \<Rightarrow> (grpc_code + 'r) \<times> 's"

definition ClaimsFromContext :: "rpc_context \<Rightarrow> BridgeClaims option" where
  "ClaimsFromContext ctx = ctxClaims ctx"

definition ContextWithClaims :: "rpc_context \<Rightarrow> BridgeClaims \<Rightarrow> rpc_context" where
  "ContextWithClaims ctx c = ctx\<lparr>ctxClaims := Some c\<rparr>"

text \<open>\<open>peerCerts\<close> are the common names of the peer's certificates, \<open>None\<close> when the peer has no TLS.\<close>

definition callerCommonName :: "rpc_context \<Rightarrow> string" where
  "callerCommonName ctx = (case peerCerts ctx of None \<Rightarrow> '''' | Some [] \<Rightarrow> '''' | Some (cn # _) \<Rightarrow> cn)"

text \<open>\<open>strings.TrimSpace\<close> from both ends, with spaces of more than one byte.\<close>

fun trim_left_space :: "string \<Rightarrow> string" where
  "trim_left_space [] = []"
| "trim_left_space (c # s) =
     (if is_space (fst (decode_rune (codes (c # s))))
      then trim_left_space (drop (fst (snd (decode_rune (codes (c # s)))) - 1) s)
      else c # s)"

text \<open>The width of the white space character a string ends in, 0 when it does not end in one.\<close>

definition space_suffix :: "string \<Rightarrow> nat" where
  "space_suffix s =
     (case filter (\<lambda>w. w \<le> length s \<and>
              (let (r, n, v) = decode_rune (codes (drop (length s - w) s)) in n = w \<and> v \<and> is_space r)) [1, 2, 3, 4] of
        [] \<Rightarrow> 0
      | w # _ \<Rightarrow> w)"

function trim_right_space :: "string \<Rightarrow> string" where
  "trim_right_space s = (if space_suffix s = 0 then s else trim_right_space (take (length s - space_suffix s) s))"
  by pat_completeness auto
termination
proof (relation "measure length")
  fix s :: string
  assume "space_suffix s \<noteq> 0"
  moreover have "space_suffix [] = 0" by code_simp
  ultimately show "(take (length s - space_suffix s) s, s) \<in> measure length" by (cases s) auto
qed simp

declare trim_right_space.simps [simp del]

definition TrimSpace :: "string \<Rightarrow> string" where
  "TrimSpace s = trim_right_space (trim_left_space s)"

text \<open>
  \<open>strings.EqualFold\<close> with \<open>bearer\<close>: none of its letters has a case variant outside ASCII.
\<close>

definition ascii_lower :: "char \<Rightarrow> char" where
  "ascii_lower c = (if 65 \<le> (of_char c :: nat) \<and> (of_char c :: nat) \<le> 90 then char_of ((of_char c :: nat) + 32) else c)"

definition parseBearerToken :: "string \<Rightarrow> string option" where
  "parseBearerToken authz =
     (let scheme = takeWhile (\<lambda>c. c \<noteq> CHR '' '') authz;
          rest = drop (length scheme) authz
      in if rest = [] \<or> map ascii_lower scheme \<noteq> ''bearer'' then None else Some (TrimSpace (tl rest)))"

definition extractAndVerify :: "jwt_lib \<Rightarrow> go_time \<Rightarrow> rpc_context \<Rightarrow> JWTVerifier \<Rightarrow> grpc_code + BridgeClaims" where
  "extractAndVerify J now ctx v =
     (case ctxMetadata ctx of
        None \<Rightarrow> Inl Unauthenticated
      | Some md \<Rightarrow>
          (case gm_get md ''authorization'' of
             None \<Rightarrow> Inl Unauthenticated
           | Some [] \<Rightarrow> Inl Unauthenticated
           | Some (h # _) \<Rightarrow>
               (case parseBearerToken h of
                  None \<Rightarrow> Inl Unauthenticated
                | Some tok \<Rightarrow> (case Verify J now v tok of Inl _ \<Rightarrow> Inl Unauthenticated | Inr c \<Rightarrow> Inr c))))"

definition UnaryJWTInterceptor ::
  "jwt_lib \<Rightarrow> go_time \<Rightarrow> JWTVerifier \<Rightarrow> string \<Rightarrow> ('s, 'r) handler \<Rightarrow> ('s, 'r) handler" where
  "UnaryJWTInterceptor J now v method handler = (\<lambda>ctx s.
     if method \<in> {''/bridge.v1.BridgeService/Health'', ''/bridge.v1.BridgeService/RegisterJWTKey'',
                  ''/bridge.v1.BridgeService/EnrollClient''}
     then handler ctx s
     else case extractAndVerify J now ctx v of
            Inl e \<Rightarrow> (Inl e, s)
          | Inr c \<Rightarrow> handler (ContextWithClaims ctx c) s)"

definition StreamJWTInterceptor ::
  "jwt_lib \<Rightarrow> go_time \<Rightarrow> JWTVerifier \<Rightarrow> ('s, 'r) handler \<Rightarrow> ('s, 'r) handler" where
  "StreamJWTInterceptor J now v handler = (\<lambda>ctx s.
     case extractAndVerify J now ctx v of
       Inl e \<Rightarrow> (Inl e, s)
     | Inr c \<Rightarrow> handler (ContextWithClaims ctx c) s)"

definition emptyClaims :: BridgeClaims where
  "emptyClaims = \<lparr>ClProjectID = '''', ClIssuer = '''', Subject = '''', Audience = [], ExpiresAt = None, NotBefore = None, IssuedAt = None\<rparr>"

definition UnaryPassthroughInterceptor :: "('s, 'r) handler \<Rightarrow> ('s, 'r) handler" where
  "UnaryPassthroughInterceptor handler = (\<lambda>ctx. handler (ContextWithClaims ctx emptyClaims))"

definition StreamPassthroughInterceptor :: "('s, 'r) handler \<Rightarrow> ('s, 'r) handler" where
  "StreamPassthroughInterceptor handler = (\<lambda>ctx. handler (ContextWithClaims ctx emptyClaims))"

section \<open>Audit\<close>

text \<open>
  The audit record of a call; \<open>auditCode\<close> is \<open>None\<close> for success. A request is looked at by reflection:
  \<open>req\<close> gives the string fields it has. Without a logger nothing is recorded.
\<close>

record audit_entry =
  auditMethod :: string
  auditProject :: string
  auditSession :: string
  auditCN :: string
  auditSub :: "string option"
  auditCode :: "grpc_code option"

definition requestStringField :: "(string \<Rightarrow> string option) option \<Rightarrow> string \<Rightarrow> string" where
  "requestStringField req field =
     (case req of None \<Rightarrow> '''' | Some r \<Rightarrow> (case r field of None \<Rightarrow> '''' | Some v \<Rightarrow> v))"

definition result_code :: "grpc_code + 'r \<Rightarrow> grpc_code option" where
  "result_code r = (case r of Inl c \<Rightarrow> Some c | Inr _ \<Rightarrow> None)"

definition UnaryAuditInterceptor ::
  "bool \<Rightarrow> string \<Rightarrow> (string \<Rightarrow> string option) option \<Rightarrow> ('s, 'r) handler \<Rightarrow> ('s \<times> audit_entry list, 'r) handler" where
  "UnaryAuditInterceptor logger method req handler = (\<lambda>ctx (s, log).
     let (r, s1) = handler ctx s;
         claims = ClaimsFromContext ctx;
         project = requestStringField req ''ProjectId'';
         entry = \<lparr>auditMethod = method,
                  auditProject = (case claims of
                                    Some c \<Rightarrow> if ClProjectID c \<noteq> '''' \<and> project = '''' then ClProjectID c else project
                                  | None \<Rightarrow> project),
                  auditSession = requestStringField req ''SessionId'',
                  auditCN = callerCommonName ctx,
                  auditSub = map_option Subject claims,
                  auditCode = result_code r\<rparr>
     in (r, s1, if logger then log @ [entry] else log))"

definition StreamAuditInterceptor :: "bool \<Rightarrow> string \<Rightarrow> ('s, 'r) handler \<Rightarrow> ('s \<times> audit_entry list, 'r) handler" where
  "StreamAuditInterceptor logger method handler = (\<lambda>ctx (s, log).
     let (r, s1) = handler ctx s;
         claims = ClaimsFromContext ctx;
         entry = \<lparr>auditMethod = method, auditProject = (case claims of Some c \<Rightarrow> ClProjectID c | None \<Rightarrow> ''''),
                  auditSession = '''', auditCN = callerCommonName ctx, auditSub = map_option Subject claims,
                  auditCode = result_code r\<rparr>
     in (r, s1, if logger then log @ [entry] else log))"

section \<open>Certificate reloading\<close>

text \<open>
  \<open>load\<close> is what \<open>tls.LoadX509KeyPair\<close> returns, \<open>stat\<close> the modification time \<open>os.Stat\<close> of the
  certificate file reports; each is an observation of the file system of its own.
\<close>

record 'cert CertReloader =
  cert :: 'cert
  modTime :: go_time

definition reload :: "'cert option \<Rightarrow> go_time option \<Rightarrow> 'cert CertReloader \<Rightarrow> bool \<times> 'cert CertReloader" where
  "reload load stat r =
     (case load of
        None \<Rightarrow> (False, r)
      | Some c \<Rightarrow> (True, r\<lparr>cert := c, modTime := (case stat of None \<Rightarrow> 0 | Some m \<Rightarrow> m)\<rparr>))"

definition NewCertReloader :: "'cert option \<Rightarrow> go_time option \<Rightarrow> 'cert CertReloader option" where
  "NewCertReloader load stat =
     map_option (\<lambda>c. \<lparr>cert = c, modTime = (case stat of None \<Rightarrow> 0 | Some m \<Rightarrow> m)\<rparr>) load"

definition maybeReload ::
  "go_time option \<Rightarrow> 'cert option \<Rightarrow> go_time option \<Rightarrow> 'cert CertReloader \<Rightarrow> 'cert CertReloader" where
  "maybeReload stat0 load stat r =
     (case stat0 of None \<Rightarrow> r | Some m \<Rightarrow> if m = modTime r then r else snd (reload load stat r))"

definition GetCertificate ::
  "go_time option \<Rightarrow> 'cert option \<Rightarrow> go_time option \<Rightarrow> 'cert CertReloader \<Rightarrow> 'cert \<times> 'cert CertReloader" where
  "GetCertificate stat0 load stat r = (let r1 = maybeReload stat0 load stat r in (cert r1, r1))"

section \<open>Tokens that verify\<close>

lemma Verify_sound:
  assumes "jwt_lawful J" and "VAudience v \<noteq> ''''" and "Verify J now v tok = Inr c"
  shows "\<exists>k. gm_get (Keys v) (ClIssuer c) = Some k \<and> ClIssuer c \<noteq> '''' \<and> jwtSigned J k tok c \<and>
    VAudience v \<in> set (Audience c) \<and> times_valid now c"
  using assms by (auto simp: jwt_lawful_def Verify_def issuer_key_def split: option.splits if_splits)

lemma Verify_ttl:
  assumes "Verify J now v tok = Inr c" and "0 < MaxTTL v"
  shows "\<exists>iat e. IssuedAt c = Some iat \<and> ExpiresAt c = Some e \<and> e \<le> iat + MaxTTL v"
  using assms by (auto simp: Verify_def split: option.splits if_splits)

text \<open>
  C8. Behind the interceptor a handler runs exactly for callers that hold a token: unless the method is one
  of the three open ones, either nothing happens and the answer is \<open>Unauthenticated\<close>, or the request carries
  a bearer token that a registered issuer signed for this audience, which is valid now and lives no longer
  than the verifier allows, and the handler sees the claims of that token, whatever claims the context had.
\<close>

theorem interceptor_guards:
  assumes "jwt_lawful J" and "VAudience v \<noteq> ''''"
    and "method \<notin> {''/bridge.v1.BridgeService/Health'', ''/bridge.v1.BridgeService/RegisterJWTKey'', ''/bridge.v1.BridgeService/EnrollClient''}"
  shows "UnaryJWTInterceptor J now v method handler ctx s = StreamJWTInterceptor J now v handler ctx s \<and>
      (StreamJWTInterceptor J now v handler ctx s = (Inl Unauthenticated, s) \<or>
      (\<exists>md h hs tok c k. ctxMetadata ctx = Some md \<and> gm_get md ''authorization'' = Some (h # hs) \<and> parseBearerToken h = Some tok \<and>
         gm_get (Keys v) (ClIssuer c) = Some k \<and> jwtSigned J k tok c \<and> VAudience v \<in> set (Audience c) \<and> times_valid now c \<and>
         (0 < MaxTTL v \<longrightarrow> (\<exists>iat e. IssuedAt c = Some iat \<and> ExpiresAt c = Some e \<and> e \<le> iat + MaxTTL v)) \<and>
         StreamJWTInterceptor J now v handler ctx s = handler (ctx\<lparr>ctxClaims := Some c\<rparr>) s))"
proof (rule conjI)
  show "UnaryJWTInterceptor J now v method handler ctx s = StreamJWTInterceptor J now v handler ctx s"
    using assms(3) by (simp add: UnaryJWTInterceptor_def StreamJWTInterceptor_def)
  have denied: "e = Unauthenticated" if "extractAndVerify J now ctx v = Inl e" for e
    using that by (auto simp: extractAndVerify_def split: option.splits list.splits sum.splits)
  have found: "\<exists>md h hs tok. ctxMetadata ctx = Some md \<and> gm_get md ''authorization'' = Some (h # hs) \<and>
      parseBearerToken h = Some tok \<and> Verify J now v tok = Inr c" if "extractAndVerify J now ctx v = Inr c" for c
    using that by (auto simp: extractAndVerify_def split: option.splits list.splits sum.splits)
  show "StreamJWTInterceptor J now v handler ctx s = (Inl Unauthenticated, s) \<or>
      (\<exists>md h hs tok c k. ctxMetadata ctx = Some md \<and> gm_get md ''authorization'' = Some (h # hs) \<and> parseBearerToken h = Some tok \<and>
         gm_get (Keys v) (ClIssuer c) = Some k \<and> jwtSigned J k tok c \<and> VAudience v \<in> set (Audience c) \<and> times_valid now c \<and>
         (0 < MaxTTL v \<longrightarrow> (\<exists>iat e. IssuedAt c = Some iat \<and> ExpiresAt c = Some e \<and> e \<le> iat + MaxTTL v)) \<and>
         StreamJWTInterceptor J now v handler ctx s = handler (ctx\<lparr>ctxClaims := Some c\<rparr>) s)"
  proof (cases "extractAndVerify J now ctx v")
    case (Inl e)
    then show ?thesis using denied by (simp add: StreamJWTInterceptor_def)
  next
    case (Inr c)
    from found [OF this] obtain md h hs tok where "ctxMetadata ctx = Some md" "gm_get md ''authorization'' = Some (h # hs)"
        "parseBearerToken h = Some tok" and ver: "Verify J now v tok = Inr c" by blast
    moreover from Verify_sound [OF assms(1,2) ver] obtain k where "gm_get (Keys v) (ClIssuer c) = Some k"
        "jwtSigned J k tok c" "VAudience v \<in> set (Audience c)" "times_valid now c" by blast
    moreover note Verify_ttl [OF ver]
    moreover have "StreamJWTInterceptor J now v handler ctx s = handler (ctx\<lparr>ctxClaims := Some c\<rparr>) s"
      using Inr by (simp add: StreamJWTInterceptor_def ContextWithClaims_def)
    ultimately show ?thesis by blast
  qed
qed

text \<open>Tokens survive the trimming of the header.\<close>

lemma token_char_ascii: "token_char c \<Longrightarrow> of_char c < (128 :: nat) \<and> \<not> is_space (of_char c)"
  by (auto simp: token_char_def is_space_def Let_def)

lemma codes_Cons: "codes (c # s) = of_char c # codes s"
  by (simp add: codes_def)

lemma trim_left_token: "tok \<noteq> [] \<Longrightarrow> list_all token_char tok \<Longrightarrow> trim_left_space tok = tok"
  using token_char_ascii by (cases tok) (auto simp: codes_Cons decode_rune_ascii)

lemma space_suffix_token:
  assumes "list_all token_char tok"
  shows "space_suffix tok = 0"
proof -
  have "\<not> (let (r, n, v) = decode_rune (codes (drop (length tok - w) tok)) in n = w \<and> v \<and> is_space r)"
    if w: "0 < w" "w \<le> length tok" for w
  proof -
    have "drop (length tok - w) tok \<noteq> []" using w by simp
    then obtain c s where cs: "drop (length tok - w) tok = c # s" by (cases "drop (length tok - w) tok") auto
    then have "c \<in> set tok" by (metis in_set_dropD list.set_intros(1))
    with assms have "token_char c" by (simp add: list_all_iff)
    with cs show ?thesis using token_char_ascii [of c] by (simp add: codes_Cons decode_rune_ascii)
  qed
  then have "filter (\<lambda>w. w \<le> length tok \<and>
      (let (r, n, v) = decode_rune (codes (drop (length tok - w) tok)) in n = w \<and> v \<and> is_space r)) [1, 2, 3, 4] = []"
    by (simp only: filter_empty_conv set_simps) auto
  then show ?thesis unfolding space_suffix_def by simp
qed

lemma TrimSpace_token: "tok \<noteq> [] \<Longrightarrow> list_all token_char tok \<Longrightarrow> TrimSpace tok = tok"
  by (simp add: TrimSpace_def trim_left_token trim_right_space.simps space_suffix_token)

lemma ascii_lower_Bearer: "map ascii_lower ''Bearer'' = ''bearer''"
  by code_simp

lemma parseBearerToken_token: "tok \<noteq> [] \<Longrightarrow> list_all token_char tok \<Longrightarrow> parseBearerToken (''Bearer '' @ tok) = Some tok"
  using ascii_lower_Bearer by (simp add: parseBearerToken_def TrimSpace_token)

text \<open>
  A minted token opens the door: when the issuer's key is registered and it mints tokens of whole seconds
  for the verifier's audience, within the allowed lifetime, the token in a bearer header lets a call through
  from then until the (whole) second in which it expires, with the subject and the project it was minted for.
\<close>

theorem mint_roundtrip:
  assumes "jwt_lawful J" and "VAudience v = IssAudience j" and "IssAudience j \<noteq> ''''" and "IssIssuer j \<noteq> ''''"
    and "gm_get (Keys v) (IssIssuer j) = Some (IssKey j)" and "TTL j mod second = 0" and "MaxTTL v \<le> 0 \<or> TTL j \<le> MaxTTL v"
    and "Mint J t0 j sub project = Some tok" and "t0 \<le> now" and "now < t0 div second * second + TTL j"
    and "ctxMetadata ctx = Some md" and "gm_get md ''authorization'' = Some [''Bearer '' @ tok]"
  shows "\<exists>c. Subject c = sub \<and> ClProjectID c = project \<and> ClIssuer c = IssIssuer j \<and>
    StreamJWTInterceptor J now v handler ctx s = handler (ctx\<lparr>ctxClaims := Some c\<rparr>) s"
proof -
  define c where "c = \<lparr>ClProjectID = project, ClIssuer = IssIssuer j, Subject = sub, Audience = [IssAudience j],
    ExpiresAt = Some (NewNumericDate (t0 + TTL j)), NotBefore = None, IssuedAt = Some (NewNumericDate t0)\<rparr>"
  obtain q where q: "TTL j = second * q" using assms(6) by (auto elim: dvdE)
  have e: "NewNumericDate (t0 + TTL j) = NewNumericDate t0 + TTL j"
    by (simp add: NewNumericDate_def q distrib_right)
  from assms(8) have "jwtSign J (IssKey j) c = Some tok" by (simp add: Mint_def c_def)
  with assms(1) have tok: "jwtSigned J (IssKey j) tok c" "tok \<noteq> []" "list_all token_char tok" by (auto simp: jwt_lawful_def)
  have key: "issuer_key v c = Some (IssKey j)" using assms(4,5) by (simp add: issuer_key_def c_def)
  have valid: "times_valid now c" using assms(10) e by (simp add: times_valid_def c_def NewNumericDate_def)
  have aud: "VAudience v \<in> set (Audience c)" using assms(2) by (simp add: c_def)
  have "VAudience v \<noteq> ''''" using assms(2,3) by simp
  then have "jwtParse J (VAudience v) (issuer_key v) now tok = Some c \<longleftrightarrow>
      (\<exists>k. issuer_key v c = Some k \<and> jwtSigned J k tok c) \<and> VAudience v \<in> set (Audience c) \<and> times_valid now c"
    using assms(1) unfolding jwt_lawful_def by blast
  with tok(1) key valid aud have "jwtParse J (VAudience v) (issuer_key v) now tok = Some c" by blast
  then have "Verify J now v tok = Inr c" using assms(7) e by (auto simp: Verify_def c_def)
  then have "extractAndVerify J now ctx v = Inr c"
    using assms(11,12) parseBearerToken_token [OF tok(2,3)] by (simp add: extractAndVerify_def)
  then have "StreamJWTInterceptor J now v handler ctx s = handler (ctx\<lparr>ctxClaims := Some c\<rparr>) s"
    by (simp add: StreamJWTInterceptor_def ContextWithClaims_def)
  then show ?thesis by (intro exI [of _ c]) (simp add: c_def)
qed

text \<open>A library that can sign one set of claims, for the witnesses.\<close>

definition demo_claims :: BridgeClaims where
  "demo_claims = \<lparr>ClProjectID = ''p'', ClIssuer = ''i'', Subject = ''u'', Audience = [''bridge''],
     ExpiresAt = Some (60 * second), NotBefore = None, IssuedAt = Some 0\<rparr>"

definition demo_jwt :: jwt_lib where
  "demo_jwt =
     \<lparr>jwtSign = (\<lambda>k c. if k = [1] \<and> c = demo_claims then Some ''a.b.c'' else None),
      jwtSigned = (\<lambda>k tok c. k = [1] \<and> tok = ''a.b.c'' \<and> c = demo_claims),
      jwtParse = (\<lambda>aud kf now tok.
        if tok = ''a.b.c'' \<and> kf demo_claims = Some [1] \<and> aud \<in> set (Audience demo_claims) \<and> times_valid now demo_claims
        then Some demo_claims else None)\<rparr>"

definition demo_verifier :: JWTVerifier where
  "demo_verifier = \<lparr>VAudience = ''bridge'', MaxTTL = 300 * second, Keys = [(''i'', [1])]\<rparr>"

definition demo_ctx :: rpc_context where
  "demo_ctx = \<lparr>ctxClaims = None, ctxMetadata = Some [(''authorization'', [''Bearer a.b.c''])], peerCerts = None\<rparr>"

lemma demo_jwt_lawful: "jwt_lawful demo_jwt"
  unfolding jwt_lawful_def
proof (intro conjI allI impI)
  show "list_all token_char tok" if "jwtSign demo_jwt k c = Some tok" for k c tok
    using that by (auto simp: demo_jwt_def token_char_def split: if_splits)
qed (auto simp: demo_jwt_def split: if_splits)

theorem interceptor_guards_witness:
  "UnaryJWTInterceptor demo_jwt (60 * second) demo_verifier ''/bridge.v1.BridgeService/StopSession'' (\<lambda>ctx n. (Inr (), n + 1)) demo_ctx (0 :: nat) =
     (Inl Unauthenticated, 0)"
  using interceptor_guards [OF demo_jwt_lawful, of demo_verifier "''/bridge.v1.BridgeService/StopSession''" "60 * second"
      "\<lambda>ctx n. (Inr (), n + 1)" demo_ctx "0 :: nat"]
  by (auto simp: demo_verifier_def demo_jwt_def times_valid_def demo_claims_def)

theorem mint_roundtrip_witness:
  "\<exists>c. Subject c = ''u'' \<and> ClProjectID c = ''p'' \<and> ClIssuer c = ''i'' \<and>
     StreamJWTInterceptor demo_jwt (59 * second) demo_verifier (\<lambda>ctx n. (Inr (), n + 1)) demo_ctx (0 :: nat) =
       ((\<lambda>ctx n. (Inr (), n + 1)) (demo_ctx\<lparr>ctxClaims := Some c\<rparr>) 0 :: (grpc_code + unit) \<times> nat)"
proof -
  define j where "j = \<lparr>IssIssuer = ''i'', IssAudience = ''bridge'', IssKey = [1], TTL = 60 * second\<rparr>"
  have "Mint demo_jwt 0 j ''u'' ''p'' = Some ''a.b.c''"
    by (simp add: Mint_def demo_jwt_def demo_claims_def j_def NewNumericDate_def)
  from mint_roundtrip [OF demo_jwt_lawful _ _ _ _ _ _ this, of demo_verifier "59 * second" demo_ctx
      "[(''authorization'', [''Bearer a.b.c''])]" "\<lambda>ctx n. (Inr (), n + 1)" "0 :: nat"]
  show ?thesis by (simp add: j_def demo_verifier_def demo_ctx_def)
qed

text \<open>
  Registering a key for one issuer leaves every other issuer's tokens alone: whatever verified as a token
  of another issuer still does, with the same claims, and nothing else of another issuer starts to.
\<close>

theorem AddKey_isolated:
  assumes "jwt_lawful J" and "VAudience v \<noteq> ''''" and "ClIssuer c \<noteq> issuer"
  shows "Verify J now (AddKey v issuer key) tok = Inr c \<longleftrightarrow> Verify J now v tok = Inr c"
proof -
  have "issuer_key (AddKey v issuer key) c = issuer_key v c" using assms(3) by (simp add: issuer_key_def AddKey_def gomap_simps)
  moreover have "jwtParse J (VAudience v) kf now tok = Some c \<longleftrightarrow>
      (\<exists>k. kf c = Some k \<and> jwtSigned J k tok c) \<and> VAudience v \<in> set (Audience c) \<and> times_valid now c" for kf
    using assms(1,2) unfolding jwt_lawful_def by blast
  ultimately have "jwtParse J (VAudience v) (issuer_key (AddKey v issuer key)) now tok = Some c \<longleftrightarrow>
      jwtParse J (VAudience v) (issuer_key v) now tok = Some c" by simp
  then show ?thesis by (auto simp: Verify_def AddKey_def split: option.splits if_splits)
qed

theorem AddKey_isolated_witness:
  "Verify demo_jwt 1 (AddKey demo_verifier ''other'' [9]) ''a.b.c'' = Inr demo_claims"
proof -
  have "Verify demo_jwt 1 demo_verifier ''a.b.c'' = Inr demo_claims"
    by (simp add: Verify_def demo_jwt_def demo_verifier_def issuer_key_def demo_claims_def times_valid_def)
  then show ?thesis
    using AddKey_isolated [OF demo_jwt_lawful, of demo_verifier demo_claims "''other''" 1 "[9]" "''a.b.c''"]
    by (simp add: demo_verifier_def demo_claims_def)
qed

section \<open>Served certificates\<close>

text \<open>A reloader whose certificate and modification time are of one version of the file.\<close>

definition cert_current :: "(go_time \<times> 'cert) set \<Rightarrow> 'cert CertReloader \<Rightarrow> bool" where
  "cert_current versions r \<longleftrightarrow> (modTime r, cert r) \<in> versions"

lemma GetCertificate_fresh:
  assumes "\<And>m c c'. (m, c) \<in> versions \<Longrightarrow> (m, c') \<in> versions \<Longrightarrow> c = c'" and "cert_current versions r" and "(m, c) \<in> versions"
  shows "GetCertificate (Some m) (Some c) (Some m) r = (c, \<lparr>cert = c, modTime = m\<rparr>)"
proof (cases "m = modTime r")
  case True
  with assms have "cert r = c" by (auto simp: cert_current_def)
  with True show ?thesis by (simp add: GetCertificate_def maybeReload_def)
qed (simp add: GetCertificate_def maybeReload_def reload_def)

text \<open>
  A renewed certificate can be missed for good. When the certificate file is replaced between the load
  and the following \<open>Stat\<close>, the reloader notes the new file's time for the old certificate; then every later
  handshake sees an unchanged time and serves the old certificate, as long as the new file stays in place.
\<close>

theorem cert_reload_race:
  assumes "modTime r \<noteq> m0" and "snd (GetCertificate (Some m0) (Some old) (Some m1) r) = r1"
  shows "fst (((\<lambda>(_, r). GetCertificate (Some m1) (Some new) (Some m1) r) ^^ n) (GetCertificate (Some m1) (Some new) (Some m1) r1)) = old"
proof -
  have r1: "r1 = r\<lparr>cert := old, modTime := m1\<rparr>" using assms by (auto simp: GetCertificate_def maybeReload_def reload_def)
  have "((\<lambda>(_, r). GetCertificate (Some m1) (Some new) (Some m1) r) ^^ n) (GetCertificate (Some m1) (Some new) (Some m1) r1) = (old, r1)"
    by (induction n) (simp_all add: GetCertificate_def maybeReload_def r1)
  then show ?thesis by simp
qed

theorem cert_reload_race_witness:
  "fst (((\<lambda>(_, r). GetCertificate (Some 2) (Some ''new'') (Some 2) r) ^^ 5)
     (GetCertificate (Some 2) (Some ''new'') (Some 2) (snd (GetCertificate (Some 1) (Some ''old'') (Some 2) \<lparr>cert = ''first'', modTime = 0\<rparr>)))) = ''old''"
  by (rule cert_reload_race [of _ 1]) simp_all

end
