(* ===== verification/Attach_Stream.thy ===== *)
theory Attach_Stream
  imports Terminal Auth
begin

text \<open>
  The stream of \<open>AttachSession\<close> (\<open>internal/server/server.go\<close>) after a successful \<open>Attach\<close>: the replay of
  stored and buffered output, the repair of holes in the live output from the journal, and the end of the
  stream. \<open>load\<close> is \<open>StoredReplayPage\<close> at a cursor; no cursor is asked for twice in a loop, so a function of
  the cursor also covers a journal that grows meanwhile. A failing \<open>Send\<close> ends the stream at once: what the
  client gets is then a prefix of the events here.
\<close>

declare map_of_eq_Some_iff [simp del] Some_eq_map_of_iff [simp del]

section \<open>Events\<close>

datatype AttachEventType =
    EVENT_ATTACHED
  | EVENT_OUTPUT
  | EVENT_REPLAY_GAP
  | EVENT_SESSION_EXIT
  | EVENT_THINKING
  | EVENT_WRITER_CLAIMED
  | EVENT_WRITER_RELEASED

record AttachSessionEvent =
  EvType :: AttachEventType
  EvSessionId :: string
  EvSeq :: u64
  EvTimestamp :: go_time
  EvPayload :: bytes
  EvReplay :: bool
  EvOldestSeq :: u64
  EvLastSeq :: u64
  EvExitRecorded :: bool
  EvExitCode :: int
  EvCols :: u32
  EvRows :: u32
  ThinkingText :: string
  WriterClientId :: string

definition blank_event :: "AttachEventType \<Rightarrow> string \<Rightarrow> AttachSessionEvent" where
  "blank_event ty sid = \<lparr>EvType = ty, EvSessionId = sid, EvSeq = 0, EvTimestamp = 0, EvPayload = [], EvReplay = False,
     EvOldestSeq = 0, EvLastSeq = 0, EvExitRecorded = False, EvExitCode = 0, EvCols = 0, EvRows = 0, ThinkingText = '''', WriterClientId = ''''\<rparr>"

text \<open>The conversion \<open>int32(n)\<close>.\<close>

definition to_int32 :: "int \<Rightarrow> int" where
  "to_int32 n = (n + 2 ^ 31) mod 2 ^ 32 - 2 ^ 31"

definition chunkToProto :: "string \<Rightarrow> OutputChunk \<Rightarrow> bool \<Rightarrow> AttachSessionEvent" where
  "chunkToProto sid c rep =
     (let ev = (blank_event EVENT_OUTPUT sid)\<lparr>EvSeq := Seq c, EvTimestamp := Timestamp c, EvPayload := Payload c, EvReplay := rep,
                 EvCols := Cols c, EvRows := Rows c\<rparr>
      in case Type c of
           ChunkTypeThinking \<Rightarrow> ev\<lparr>EvType := EVENT_THINKING, ThinkingText := of_bytes (Payload c), EvPayload := []\<rparr>
         | ChunkTypeWriterClaimed \<Rightarrow> ev\<lparr>EvType := EVENT_WRITER_CLAIMED, WriterClientId := of_bytes (Payload c), EvPayload := []\<rparr>
         | ChunkTypeWriterReleased \<Rightarrow> ev\<lparr>EvType := EVENT_WRITER_RELEASED, WriterClientId := of_bytes (Payload c), EvPayload := []\<rparr>
         | _ \<Rightarrow> ev)"

definition attached_event :: "string \<Rightarrow> AttachState \<Rightarrow> AttachSessionEvent" where
  "attached_event sid st = (blank_event EVENT_ATTACHED sid)\<lparr>EvOldestSeq := AsOldestSeq st, EvLastSeq := AsLastSeq st,
     EvExitRecorded := AsExitRecorded st, EvExitCode := to_int32 (AsExitCode st), EvCols := AsCols st, EvRows := AsRows st\<rparr>"

definition gap_event :: "string \<Rightarrow> AttachState \<Rightarrow> AttachSessionEvent" where
  "gap_event sid st = (blank_event EVENT_REPLAY_GAP sid)\<lparr>EvOldestSeq := AsOldestSeq st, EvLastSeq := AsLastSeq st\<rparr>"

section \<open>Replay\<close>

type_synonym page_loader = "u64 \<Rightarrow> bridge_error option \<times> OutputChunk list"

text \<open>The loop over a page: the chunks that follow the cursor one by one, while they are wanted.\<close>

fun send_page :: "(u64 \<Rightarrow> bool) \<Rightarrow> u64 \<Rightarrow> OutputChunk list \<Rightarrow> OutputChunk list \<times> u64" where
  "send_page wanted lst [] = ([], lst)"
| "send_page wanted lst (c # cs) =
     (if \<not> wanted (Seq c) \<or> Seq c \<noteq> lst + 1 then ([], lst)
      else apfst (\<lambda>sent. c # sent) (send_page wanted (Seq c) cs))"

lemma send_page_closer:
  assumes "send_page (\<lambda>q. q < before) lst page = (cs, lst1)" and "lst1 \<noteq> lst"
  shows "unat (before - 1 - lst1) < unat (before - 1 - lst)"
proof -
  have closer: "unat (before - 1 - (l + 1)) < unat (before - 1 - l)" if "l + 1 < before" for l :: u64
  proof -
    define x where "x = before - 1 - l"
    have "x \<noteq> 0" using that by (auto simp: x_def)
    then have "unat (x - 1) < unat x" by (simp add: unat_minus_one unat_gt_0)
    moreover have "before - 1 - (l + 1) = x - 1" by (simp add: x_def)
    ultimately show ?thesis by (simp add: x_def)
  qed
  have "lst1 = lst \<or> unat (before - 1 - lst1) < unat (before - 1 - lst)"
    using assms(1)
  proof (induction page arbitrary: lst cs)
    case (Cons c page)
    show ?case
    proof (cases "Seq c < before \<and> Seq c = lst + 1")
      case True
      then obtain cs' where "send_page (\<lambda>q. q < before) (lst + 1) page = (cs', lst1)"
        using Cons.prems by (cases "send_page (\<lambda>q. q < before) (lst + 1) page") auto
      from Cons.IH [OF this] closer [of lst] True show ?thesis by auto
    qed (use Cons.prems in auto)
  qed simp
  with assms(2) show ?thesis by simp
qed

text \<open>The prefix evicted from memory, from the journal.\<close>

function replay_fill :: "page_loader \<Rightarrow> u64 \<Rightarrow> u64 \<Rightarrow> OutputChunk list \<times> (grpc_code + u64)" where
  "replay_fill load before lst =
     (if \<not> lst + 1 < before then ([], Inr lst)
      else case load lst of
             (Some e, _) \<Rightarrow> ([], Inl Unavailable)
           | (None, page) \<Rightarrow>
               (case send_page (\<lambda>q. q < before) lst page of
                  (cs, lst1) \<Rightarrow> if lst1 = lst then (cs, Inr lst1) else apfst (\<lambda>ds. cs @ ds) (replay_fill load before lst1)))"
  by pat_completeness auto
termination
  by (relation "measure (\<lambda>(load, before, lst). unat (before - 1 - lst))") (auto intro: send_page_closer [OF sym])

declare replay_fill.simps [simp del]

text \<open>The loop over the buffered chunks.\<close>

fun replay_tail :: "u64 \<Rightarrow> OutputChunk list \<Rightarrow> OutputChunk list \<times> u64" where
  "replay_tail lst [] = ([], lst)"
| "replay_tail lst (c # cs) =
     (if Seq c \<le> lst then replay_tail lst cs else apfst (\<lambda>sent. c # sent) (replay_tail (Seq c) cs))"

definition checkpoint_chunk :: "go_time \<Rightarrow> AttachState \<Rightarrow> OutputChunk" where
  "checkpoint_chunk now st = \<lparr>Cols = AsCols st, Rows = AsRows st, Seq = AsLastSeq st, Timestamp = now,
     Payload = Checkpoint st, Type = ChunkTypeOutput\<rparr>"

definition replayBefore :: "u64 \<Rightarrow> AttachState \<Rightarrow> u64" where
  "replayBefore after st = (if Replay st = [] \<and> after < AsLastSeq st then AsLastSeq st + 1 else AsOldestSeq st)"

text \<open>Everything sent before the live output, and the cursor then, or the error that ends the stream.\<close>

definition replay_phase ::
  "page_loader \<Rightarrow> go_time \<Rightarrow> string \<Rightarrow> u64 \<Rightarrow> AttachState \<Rightarrow> AttachSessionEvent list \<times> (grpc_code + u64)" where
  "replay_phase load now sid after st =
     (let before = replayBefore after st;
          (filled, r) = replay_fill load before after;
          evs = attached_event sid st # map (\<lambda>c. chunkToProto sid c True) filled
      in case r of
           Inl e \<Rightarrow> (evs, Inl e)
         | Inr lst1 \<Rightarrow>
             let gap = (lst1 + 1 < before \<or> AsLastSeq st < after);
                 redraw = (gap \<and> Checkpoint st \<noteq> []);
                 lst2 = (if redraw then AsLastSeq st else lst1);
                 (tail, lst3) = replay_tail lst2 (Replay st)
             in (evs @ (if gap then [gap_event sid st] else []) @
                   (if redraw then [chunkToProto sid (checkpoint_chunk now st) True] else []) @
                   map (\<lambda>c. chunkToProto sid c True) tail,
                 Inr lst3))"

section \<open>Live output\<close>

text \<open>
  \<open>sendMissingThrough\<close>. It might not return for a journal that repeats numbers after \<open>2 ^ 64\<close> chunks, so its
  result is \<open>None\<close> for a loop that does not end.
\<close>

partial_function (option) sendMissingThrough ::
  "page_loader \<Rightarrow> u64 \<Rightarrow> u64 \<Rightarrow> (OutputChunk list \<times> (grpc_code + u64)) option" where
  [code]: "sendMissingThrough load target lst =
     (if \<not> lst < target then Some ([], Inr lst)
      else case load lst of
             (Some e, _) \<Rightarrow> Some ([], Inl Unavailable)
           | (None, page) \<Rightarrow>
               if page = [] \<or> Seq (hd page) \<noteq> lst + 1 then Some ([], Inl Unavailable)
               else (case send_page (\<lambda>q. q \<le> target) lst page of
                       (cs, lst1) \<Rightarrow>
                         if lst1 = lst then Some (cs, Inl Unavailable)
                         else Option.bind (sendMissingThrough load target lst1) (\<lambda>(ds, r). Some (cs @ ds, r))))"

definition isControl :: "OutputChunk \<Rightarrow> bool" where
  "isControl c \<longleftrightarrow> Type c = ChunkTypeWriterClaimed \<or> Type c = ChunkTypeWriterReleased"

text \<open>One chunk from the live channel; the flag of a sent chunk is whether it is marked as a replay.\<close>

definition live_chunk :: "page_loader \<Rightarrow> u64 \<Rightarrow> OutputChunk \<Rightarrow> ((OutputChunk \<times> bool) list \<times> (grpc_code + u64)) option" where
  "live_chunk load lst c =
     (if isControl c then Some ([(c, False)], Inr lst)
      else if Seq c \<le> lst then Some ([], Inr lst)
      else if lst + 1 < Seq c then
        map_option (\<lambda>(cs, r).
            case r of
              Inl e \<Rightarrow> (map (\<lambda>c. (c, True)) cs, Inl e)
            | Inr _ \<Rightarrow> (map (\<lambda>c. (c, True)) cs @ [(c, False)], Inr (Seq c)))
          (sendMissingThrough load (Seq c - 1) lst)
      else Some ([(c, False)], Inr (Seq c)))"

text \<open>The chunks received so far; each comes with the journal as it is when the chunk is handled.\<close>

fun live_run :: "u64 \<Rightarrow> (page_loader \<times> OutputChunk) list \<Rightarrow> ((OutputChunk \<times> bool) list \<times> (grpc_code + u64)) option" where
  "live_run lst [] = Some ([], Inr lst)"
| "live_run lst ((load, c) # cs) =
     (case live_chunk load lst c of
        None \<Rightarrow> None
      | Some (sent, Inl e) \<Rightarrow> Some (sent, Inl e)
      | Some (sent, Inr lst1) \<Rightarrow> map_option (apfst (\<lambda>more. sent @ more)) (live_run lst1 cs))"

text \<open>
  The live channel is closed: repair up to the end of the session's output, then tell the exit code, which is
  polled for. \<open>found\<close> is the result of the first \<open>Get\<close>, \<open>polls\<close> those of the polls within two seconds.
\<close>

fun exit_poll :: "string \<Rightarrow> (bridge_error + SessionInfo) list \<Rightarrow> AttachSessionEvent" where
  "exit_poll sid [] = blank_event EVENT_SESSION_EXIT sid"
| "exit_poll sid (p # ps) =
     (case p of
        Inr i \<Rightarrow> if ExitRecorded i then (blank_event EVENT_SESSION_EXIT sid)\<lparr>EvExitRecorded := True, EvExitCode := to_int32 (ExitCode i)\<rparr>
                 else exit_poll sid ps
      | Inl _ \<Rightarrow> exit_poll sid ps)"

definition live_closed ::
  "page_loader \<Rightarrow> string \<Rightarrow> u64 \<Rightarrow> bridge_error + SessionInfo \<Rightarrow> (bridge_error + SessionInfo) list \<Rightarrow>
     (AttachSessionEvent list \<times> grpc_code option) option" where
  "live_closed load sid lst found polls =
     (case found of
        Inr i \<Rightarrow>
          if lst < InfoLastSeq i then
            map_option (\<lambda>(cs, r).
                case r of
                  Inl e \<Rightarrow> (map (\<lambda>c. chunkToProto sid c True) cs, Some e)
                | Inr _ \<Rightarrow> (map (\<lambda>c. chunkToProto sid c True) cs @ [exit_poll sid polls], None))
              (sendMissingThrough load (InfoLastSeq i) lst)
          else Some ([exit_poll sid polls], None)
      | Inl _ \<Rightarrow> Some ([exit_poll sid polls], None))"

section \<open>Numbers without holes\<close>

text \<open>\<open>seq_chain a ns b\<close>: the numbers \<open>ns\<close> follow \<open>a\<close> one by one and end at \<open>b\<close>.\<close>

fun seq_chain :: "u64 \<Rightarrow> u64 list \<Rightarrow> u64 \<Rightarrow> bool" where
  "seq_chain a [] b \<longleftrightarrow> a = b"
| "seq_chain a (x # xs) b \<longleftrightarrow> x = a + 1 \<and> seq_chain x xs b"

lemma seq_chain_append: "seq_chain a (xs @ ys) c \<longleftrightarrow> (\<exists>b. seq_chain a xs b \<and> seq_chain b ys c)"
  by (induction xs arbitrary: a) auto

lemma seq_chain_join [intro]: "seq_chain a xs b \<Longrightarrow> seq_chain b ys c \<Longrightarrow> seq_chain a (xs @ ys) c"
  by (auto simp: seq_chain_append)

lemma seq_chain_upt:
  assumes "map unat xs = [Suc (unat a)..<k]" and "k = Suc (unat b)" and "a \<le> b"
  shows "seq_chain a xs b"
  using assms(1,3)
proof (induction xs arbitrary: a)
  case Nil
  then have "k \<le> Suc (unat a)" using upt_eq_Nil_conv [of "Suc (unat a)" k] by auto
  then show ?case using assms(2) Nil(2) by (simp add: u64_nat)
next
  case (Cons x xs)
  then have x: "unat x = Suc (unat a)" "map unat xs = [Suc (unat x)..<k]" "Suc (unat a) < k"
    by (auto simp: upt_eq_Cons_conv eq_commute [of "_ # _"])
  then have "unat (a + 1) = unat x" using unat_u64_less [of b] assms(2) by (subst unat_inc_u64) auto
  with x Cons.IH [of x] assms(2) show ?case by (simp add: u64_nat)
qed

lemma send_page_chain:
  "send_page wanted lst page = (cs, lst1) \<Longrightarrow> seq_chain lst (map Seq cs) lst1 \<and> (lst1 = lst \<or> wanted lst1)"
proof (induction page arbitrary: lst cs)
  case (Cons c page)
  show ?case
  proof (cases "wanted (Seq c) \<and> Seq c = lst + 1")
    case True
    then obtain cs' where "send_page wanted (lst + 1) page = (cs', lst1)" "cs = c # cs'"
      using Cons.prems by (cases "send_page wanted (lst + 1) page") auto
    with Cons.IH [of "lst + 1" cs'] True show ?thesis by auto
  qed (use Cons.prems in auto)
qed simp

lemma send_page_first:
  assumes "wanted (lst + 1)" and "Seq c = lst + 1"
  shows "snd (send_page wanted lst (c # page)) \<noteq> lst \<or> (\<exists>cs. send_page wanted lst (c # page) = (c # cs, lst) \<and> cs \<noteq> [])"
  using assms send_page_chain [of wanted "lst + 1" page] by (cases "send_page wanted (lst + 1) page") auto

text \<open>A journal that can continue from every cursor below \<open>n\<close>.\<close>

definition serves :: "page_loader \<Rightarrow> u64 \<Rightarrow> bool" where
  "serves load n \<longleftrightarrow> (\<forall>a. a < n \<longrightarrow> (\<exists>c page. load a = (None, c # page) \<and> Seq c = a + 1))"

lemma not_max: "(w :: u64) \<noteq> -1 \<Longrightarrow> unat w < 2 ^ 64 - 1"
proof -
  assume "w \<noteq> -1"
  then have "unat w \<noteq> unat (-1 :: u64)" unfolding word_unat_eq_iff .
  moreover have "unat (-1 :: u64) = 2 ^ 64 - 1" by (simp add: unsigned_minus_1_eq_mask mask_eq_exp_minus_1)
  ultimately show ?thesis using unat_u64_less [of w] by linarith
qed

text \<open>Progress of a page within a target that is not the last number.\<close>

lemma send_page_progress:
  assumes "send_page (\<lambda>q. q \<le> target) lst page = (cs, lst1)" and "lst \<le> target" and "target \<noteq> -1"
  shows "lst \<le> lst1 \<and> lst1 \<le> target"
  using assms(1,2)
proof (induction page arbitrary: lst cs)
  case (Cons c page)
  show ?case
  proof (cases "Seq c \<le> target \<and> Seq c = lst + 1")
    case True
    then obtain cs' where p: "send_page (\<lambda>q. q \<le> target) (lst + 1) page = (cs', lst1)"
      using Cons.prems(1) by (cases "send_page (\<lambda>q. q \<le> target) (lst + 1) page") auto
    have "unat lst < 2 ^ 64 - 1" using not_max [OF assms(3)] Cons.prems(2) by (simp add: u64_nat)
    then have "lst \<le> lst + 1" by (simp only: u64_nat unat_inc_u64)
    with Cons.IH [OF p] True show ?thesis by auto
  qed (use Cons.prems in auto)
qed simp

lemma sendMissing_result:
  assumes "lst \<le> target" and "target \<noteq> -1"
  shows "\<exists>cs r l. sendMissingThrough load target lst = Some (cs, r) \<and> seq_chain lst (map Seq cs) l \<and>
    (r = Inl Unavailable \<or> r = Inr target \<and> l = target) \<and> (serves load target \<longrightarrow> r = Inr target)"
  using assms(1)
proof (induction "unat target - unat lst" arbitrary: lst rule: less_induct)
  case less
  show ?case
  proof (cases "lst < target")
    case False
    with less.prems show ?thesis by (subst sendMissingThrough.simps) auto
  next
    case True
    let ?good = "load lst = (None, snd (load lst)) \<and> snd (load lst) \<noteq> [] \<and> Seq (hd (snd (load lst))) = lst + 1"
    show ?thesis
    proof (cases "?good")
      case False
      with True have "sendMissingThrough load target lst = Some ([], Inl Unavailable)"
        by (subst sendMissingThrough.simps) (auto split: prod.split option.split)
      moreover have "\<not> serves load target" using False True by (auto simp: serves_def)
      ultimately show ?thesis by (intro exI [of _ "[]"] exI [of _ "Inl Unavailable"] exI [of _ lst]) simp
    next
      case ok: True
      then obtain c page where page: "load lst = (None, c # page)" "Seq c = lst + 1" by (metis hd_Cons_tl)
      obtain cs l1 where send: "send_page (\<lambda>q. q \<le> target) lst (c # page) = (cs, l1)"
        by (cases "send_page (\<lambda>q. q \<le> target) lst (c # page)")
      obtain cs' where rest: "send_page (\<lambda>q. q \<le> target) (lst + 1) page = (cs', l1)" "cs = c # cs'"
        using send page(2) inc_le [OF True] by (cases "send_page (\<lambda>q. q \<le> target) (lst + 1) page") auto
      have "unat (lst + 1) = Suc (unat lst)" using True not_max [OF assms(2)] by (subst unat_inc_u64) (auto simp: u64_nat)
      moreover have "lst + 1 \<le> l1" "l1 \<le> target"
        using send_page_progress [OF rest(1) inc_le [OF True] assms(2)] by auto
      ultimately have l1: "unat lst < unat l1" "l1 \<le> target" by (auto simp: u64_nat)
      then have closer: "unat target - unat l1 < unat target - unat lst" by (simp add: u64_nat)
      from less.hyps [OF closer l1(2)] obtain ds r l where
        rec: "sendMissingThrough load target l1 = Some (ds, r)" "seq_chain l1 (map Seq ds) l"
          "r = Inl Unavailable \<or> r = Inr target \<and> l = target" "serves load target \<longrightarrow> r = Inr target" by blast
      have "sendMissingThrough load target lst = Some (cs @ ds, r)"
        using True page send rec(1) l1(1) by (subst sendMissingThrough.simps) auto
      moreover have "seq_chain lst (map Seq (cs @ ds)) l"
        using send_page_chain [OF send] rec(2) by auto
      ultimately show ?thesis using rec(3,4) by blast
    qed
  qed
qed

text \<open>The numbers of the output in what was sent; control messages from the channel carry none.\<close>

definition output_seqs :: "(OutputChunk \<times> bool) list \<Rightarrow> u64 list" where
  "output_seqs sent = map (Seq \<circ> fst) (filter (\<lambda>(c, rep). rep \<or> \<not> isControl c) sent)"

lemma output_seqs_simps [simp]:
  "output_seqs [] = []"
  "output_seqs (xs @ ys) = output_seqs xs @ output_seqs ys"
  "output_seqs (map (\<lambda>c. (c, True)) cs) = map Seq cs"
  "output_seqs [(c, False)] = (if isControl c then [] else [Seq c])"
  by (simp_all add: output_seqs_def filter_map comp_def)

lemma live_chunk_result:
  "\<exists>sent r l. live_chunk load lst c = Some (sent, r) \<and> seq_chain lst (output_seqs sent) l \<and>
     (r = Inl Unavailable \<or> r = Inr l \<and> lst \<le> l \<and> (isControl c \<or> Seq c \<le> l)) \<and> (serves load (Seq c - 1) \<longrightarrow> r = Inr l)"
proof -
  consider "isControl c" | "\<not> isControl c" "Seq c \<le> lst" | "\<not> isControl c" "lst < Seq c" "lst + 1 < Seq c"
    | "\<not> isControl c" "lst < Seq c" "\<not> lst + 1 < Seq c" by fastforce
  then show ?thesis
  proof cases
    case 3
    let ?t = "Seq c - 1"
    have nz: "Seq c \<noteq> 0" using 3(2) by auto
    then have "?t + 1 = Seq c" "?t \<noteq> -1" by (auto simp: eq_diff_eq)
    moreover have "lst \<le> ?t" using 3(2) nz by (simp add: u64_nat unat_dec_u64)
    ultimately obtain cs r l where m: "sendMissingThrough load ?t lst = Some (cs, r)" "seq_chain lst (map Seq cs) l"
        "r = Inl Unavailable \<or> r = Inr ?t \<and> l = ?t" "serves load ?t \<longrightarrow> r = Inr ?t"
      using sendMissing_result [of lst ?t load] by blast
    show ?thesis
    proof (cases "r = Inr ?t")
      case True
      then have "live_chunk load lst c = Some (map (\<lambda>c. (c, True)) cs @ [(c, False)], Inr (Seq c))"
        using 3 m(1) by (simp add: live_chunk_def)
      moreover have "seq_chain lst (output_seqs (map (\<lambda>c. (c, True)) cs @ [(c, False)])) (Seq c)"
        using m(2,3) True 3(1) \<open>?t + 1 = Seq c\<close> by (auto simp: seq_chain_append)
      ultimately show ?thesis using 3 by (intro exI [of _ "map (\<lambda>c. (c, True)) cs @ [(c, False)]"] exI [of _ "Inr (Seq c)"] exI [of _ "Seq c"]) auto
    next
      case False
      then have "live_chunk load lst c = Some (map (\<lambda>c. (c, True)) cs, Inl Unavailable)" using 3 m by (simp add: live_chunk_def)
      then show ?thesis using m False by auto
    qed
  next
    case 4
    then have "Seq c = lst + 1" using inc_le [of lst "Seq c"] by simp
    with 4 show ?thesis using less_imp_le [OF 4(2)] by (simp add: live_chunk_def not_le)
  qed (auto simp: live_chunk_def)
qed

text \<open>
  C7. Live output has no holes. Whatever the client's channel delivers, even when it dropped chunks because
  the client was slow, the handler sends the output that follows its cursor one number after the other, up to
  and including every chunk it received; the missing ones come from the journal. It always returns from a
  repair, and gives up (with \<open>Unavailable\<close>, after output without a hole) only when the journal cannot
  continue from some earlier cursor.
\<close>

theorem live_no_holes:
  "\<exists>sent r l. live_run lst cs = Some (sent, r) \<and> seq_chain lst (output_seqs sent) l \<and>
     (r = Inl Unavailable \<or> r = Inr l \<and> lst \<le> l \<and> (\<forall>(load, c) \<in> set cs. isControl c \<or> Seq c \<le> l)) \<and>
     ((\<forall>(load, c) \<in> set cs. serves load (Seq c - 1)) \<longrightarrow> r = Inr l)"
proof (induction cs arbitrary: lst)
  case (Cons p cs)
  obtain load c where p: "p = (load, c)" by (cases p)
  obtain sent r l where s: "live_chunk load lst c = Some (sent, r)" "seq_chain lst (output_seqs sent) l"
      "r = Inl Unavailable \<or> r = Inr l \<and> lst \<le> l \<and> (isControl c \<or> Seq c \<le> l)" "serves load (Seq c - 1) \<longrightarrow> r = Inr l"
    using live_chunk_result by blast
  show ?case
  proof (cases "r = Inl Unavailable")
    case True
    then show ?thesis using s p by auto
  next
    case False
    then have r: "r = Inr l" "lst \<le> l" "isControl c \<or> Seq c \<le> l" using s by auto
    from Cons.IH [of l] obtain sent' r' l' where i: "live_run l cs = Some (sent', r')" "seq_chain l (output_seqs sent') l'"
        "r' = Inl Unavailable \<or> r' = Inr l' \<and> l \<le> l' \<and> (\<forall>(load, c) \<in> set cs. isControl c \<or> Seq c \<le> l')"
        "(\<forall>(load, c) \<in> set cs. serves load (Seq c - 1)) \<longrightarrow> r' = Inr l'" by blast
    have "live_run lst (p # cs) = Some (sent @ sent', r')" using s r i p by simp
    moreover have "seq_chain lst (output_seqs (sent @ sent')) l'" using s(2) i(2) by auto
    ultimately show ?thesis using i(3,4) r p by (intro exI [of _ "sent @ sent'"] exI [of _ r'] exI [of _ l']) fastforce
  qed
qed simp

text \<open>A journal with every chunk, and a client that was sent chunk 1 and then receives chunk 4.\<close>

definition demo_chunk :: "u64 \<Rightarrow> OutputChunk" where
  "demo_chunk n = \<lparr>Cols = 80, Rows = 24, Seq = n, Timestamp = 0, Payload = [65], Type = ChunkTypeOutput\<rparr>"

definition demo_load :: page_loader where
  "demo_load a = (None, [demo_chunk (a + 1)])"

lemma demo_load_serves: "serves demo_load n"
  by (simp add: serves_def demo_load_def demo_chunk_def)

theorem live_no_holes_witness:
  "\<exists>sent l. live_run 1 [(demo_load, demo_chunk 4)] = Some (sent, Inr l) \<and> seq_chain 1 (output_seqs sent) l \<and> 4 \<le> l"
  using live_no_holes [of 1 "[(demo_load, demo_chunk 4)]"] demo_load_serves
  by (auto simp: isControl_def demo_chunk_def)

section \<open>Replay without hidden holes\<close>

definition replay_seqs :: "AttachSessionEvent list \<Rightarrow> u64 list" where
  "replay_seqs evs = map EvSeq (filter EvReplay evs)"

lemma replay_seqs_simps [simp]:
  "replay_seqs [] = []"
  "replay_seqs (xs @ ys) = replay_seqs xs @ replay_seqs ys"
  "replay_seqs (attached_event sid st # xs) = replay_seqs xs"
  "replay_seqs [gap_event sid st] = []"
  "replay_seqs (map (\<lambda>c. chunkToProto sid c True) cs) = map Seq cs"
  by (simp_all add: replay_seqs_def attached_event_def gap_event_def blank_event_def)
    (induction cs; simp add: chunkToProto_def Let_def blank_event_def split: ChunkType.split)

lemma less_pred: "(before :: u64) \<noteq> 0 \<Longrightarrow> q < before \<longleftrightarrow> q \<le> before - 1"
proof -
  assume b: "before \<noteq> 0"
  then have "0 < unat before" by (simp add: unat_gt_0)
  then show ?thesis unfolding u64_le_nat u64_less_nat unat_dec_u64 [OF b] by linarith
qed

text \<open>A journal that can continue makes progress.\<close>

lemma serves_progress:
  assumes "serves load (before - 1)" and "lst + 1 < before" and "lst \<noteq> -1" and "load lst = (None, page)"
    and "send_page (\<lambda>q. q < before) lst page = (cs, lst1)"
  shows "lst < lst1"
proof -
  have inc: "unat (lst + 1) = Suc (unat lst)" using not_max [OF assms(3)] by (simp add: unat_inc_u64)
  have b: "before \<noteq> 0" using assms(2) by auto
  have "lst < before - 1" using assms(2) inc b by (simp add: u64_nat unat_dec_u64)
  then obtain c page' where c: "page = c # page'" "Seq c = lst + 1" 
    using assms(1) [unfolded serves_def, rule_format, of lst] assms(4) by auto
  then obtain cs' where p: "send_page (\<lambda>q. q \<le> before - 1) (lst + 1) page' = (cs', lst1)"
    using assms(2,5) by (cases "send_page (\<lambda>q. q < before) (lst + 1) page'") (auto simp: less_pred [OF b])
  have "before - 1 \<noteq> -1" using b by (simp add: diff_eq_eq)
  moreover have "lst + 1 \<le> before - 1" using assms(2) by (simp add: less_pred [OF b])
  ultimately have "lst + 1 \<le> lst1" using send_page_progress [OF p] by blast
  then show ?thesis using inc by (simp add: u64_nat)
qed

lemma replay_fill_result:
  assumes "lst \<noteq> -1"
  shows "\<exists>cs r l. replay_fill load before lst = (cs, r) \<and> seq_chain lst (map Seq cs) l \<and>
     (r = Inl Unavailable \<or> r = Inr l \<and> lst \<le> l \<and> (l = lst \<or> l < before)) \<and>
     (serves load (before - 1) \<longrightarrow> r = Inr l \<and> \<not> l + 1 < before)"
  using assms
proof (induction load before lst rule: replay_fill.induct)
  case (1 load before lst)
  show ?case
  proof (cases "lst + 1 < before")
    case False
    then show ?thesis by (subst replay_fill.simps) auto
  next
    case True
    have b: "before \<noteq> 0" "before - 1 \<noteq> -1" using True by (auto simp: diff_eq_eq)
    have inc: "unat (lst + 1) = Suc (unat lst)" using not_max [OF 1(2)] by (simp add: unat_inc_u64)
    have low: "lst \<le> before - 1" "lst < before - 1" using True inc b by (auto simp: u64_nat unat_dec_u64)
    show ?thesis
    proof (cases "load lst")
      case (Pair e page)
      show ?thesis
      proof (cases e)
        case (Some x)
        then have "replay_fill load before lst = ([], Inl Unavailable)" using True Pair by (subst replay_fill.simps) simp
        moreover have "\<not> serves load (before - 1)" using low Pair Some by (auto simp: serves_def)
        ultimately show ?thesis by (intro exI [of _ "[]"] exI [of _ "Inl Unavailable"] exI [of _ lst]) simp
      next
        case None
        obtain cs l1 where send: "send_page (\<lambda>q. q < before) lst page = (cs, l1)" by (cases "send_page (\<lambda>q. q < before) lst page")
        note chain = send_page_chain [OF send]
        have l1: "lst \<le> l1" "l1 \<le> before - 1"
          using send_page_progress [of "before - 1" lst page cs l1] send low(1) b by (simp_all add: less_pred)
        show ?thesis
        proof (cases "l1 = lst")
          case same: True
          then have "replay_fill load before lst = (cs, Inr lst)" using True Pair None send by (subst replay_fill.simps) simp
          moreover have "\<not> serves load (before - 1)"
            using serves_progress [of load before lst page cs l1] True 1(2) Pair None send same by auto
          ultimately show ?thesis using chain same by (intro exI [of _ cs] exI [of _ "Inr lst"] exI [of _ lst]) simp
        next
          case False
          have "l1 \<noteq> -1" using l1(2) b by (metis order_antisym word_order.extremum)
          from 1(1) [OF _ Pair [symmetric] None send [symmetric] False this] True obtain ds r l where
            rec: "replay_fill load before l1 = (ds, r)" "seq_chain l1 (map Seq ds) l"
              "r = Inl Unavailable \<or> r = Inr l \<and> l1 \<le> l \<and> (l = l1 \<or> l < before)"
              "serves load (before - 1) \<longrightarrow> r = Inr l \<and> \<not> l + 1 < before" by blast
          have "replay_fill load before lst = (cs @ ds, r)" using True Pair None send False rec(1) by (subst replay_fill.simps) simp
          moreover have "seq_chain lst (map Seq (cs @ ds)) l" using chain rec(2) by auto
          moreover have "r = Inl Unavailable \<or> r = Inr l \<and> lst \<le> l \<and> (l = lst \<or> l < before)"
            using rec(3) l1 b by (auto simp: less_pred)
          ultimately show ?thesis using rec(4) by blast
        qed
      qed
    qed
  qed
qed

lemma replay_tail_sorted:
  "sorted_wrt (\<lambda>a b. Seq a < Seq b) cs \<Longrightarrow>
     replay_tail lst cs = (let t = filter (\<lambda>c. lst < Seq c) cs in (t, if t = [] then lst else Seq (last t)))"
proof (induction cs arbitrary: lst)
  case (Cons c cs)
  show ?case
  proof (cases "Seq c \<le> lst")
    case True
    then show ?thesis using Cons by (simp add: Let_def)
  next
    case False
    have "filter (\<lambda>d. Seq c < Seq d) cs = cs" "filter (\<lambda>d. lst < Seq d) cs = cs"
      using Cons.prems False by (auto intro!: filter_True)
    then show ?thesis using Cons False by (simp add: Let_def)
  qed
qed simp

lemma attach_fields:
  assumes "attachLocked V now ms c after r = Ret (Inr st, ms', eff)"
  shows "Replay st = After (buf ms) after \<and> AsOldestSeq st = OldestSeq (buf ms) \<and> AsLastSeq st = LastSeq (buf ms)"
  using assms by (auto simp: attachLocked_def Let_def split_beta outcome_bind_Ret_iff split: if_splits option.splits)

lemma After_seqs:
  assumes "bb_seq b"
  shows "map (unat \<circ> Seq) (After b after) = [max (unat (nextSeq b) - length (chunks b)) (Suc (unat after))..<unat (nextSeq b)]"
proof -
  have "After b after = filter ((\<lambda>x. unat after < x) \<circ> (unat \<circ> Seq)) (chunks b)"
    by (simp add: After_def not_le u64_nat comp_def)
  then show ?thesis using assms by (simp only: map_filter_comp bb_seq_def filter_upt_greater)
qed

text \<open>The replay continues where the journal ended, if that reached the buffer.\<close>

lemma replay_tail_chain:
  assumes "map (unat \<circ> Seq) rep = [max a (Suc (unat after))..<k]" and "k = Suc (unat b)" and "after \<le> lst" and "lst \<le> b"
    and "rep = [] \<longrightarrow> lst = b" and "a \<le> Suc (unat lst)"
  shows "\<exists>t. replay_tail lst rep = (t, b) \<and> seq_chain lst (map Seq t) b \<and> map unat (map Seq t) = [Suc (unat lst)..<k]"
proof -
  let ?t = "filter (\<lambda>c. lst < Seq c) rep"
  have "sorted_wrt (<) (map (unat \<circ> Seq) rep)" unfolding assms(1) by (simp add: strict_sorted_iff)
  then have sorted: "sorted_wrt (\<lambda>a b. Seq a < Seq b) rep" by (simp add: sorted_wrt_map u64_nat)
  have "?t = filter ((\<lambda>x. unat lst < x) \<circ> (unat \<circ> Seq)) rep" by (simp add: u64_nat comp_def)
  then have "map (unat \<circ> Seq) ?t = [max (max a (Suc (unat after))) (Suc (unat lst))..<k]"
    by (simp only: map_filter_comp assms(1) filter_upt_greater)
  also have "max (max a (Suc (unat after))) (Suc (unat lst)) = Suc (unat lst)" using assms(3,6) by (simp add: u64_nat)
  finally have seqs: "map unat (map Seq ?t) = [Suc (unat lst)..<k]" by (simp add: comp_def)
  then have chain: "seq_chain lst (map Seq ?t) b" using assms(2,4) by (intro seq_chain_upt) simp_all
  have "(if ?t = [] then lst else Seq (last ?t)) = b"
  proof (cases "?t = []")
    case True
    with chain show ?thesis by simp
  next
    case False
    then have "unat (Seq (last ?t)) = last (map unat (map Seq ?t))" by (simp add: last_map)
    also have "\<dots> = unat b" using False seqs assms(2) by (subst seqs) (auto simp: upt_eq_Nil_conv dest: arg_cong [where f = length])
    finally show ?thesis using False by (simp add: u64_nat)
  qed
  then show ?thesis using chain seqs replay_tail_sorted [OF sorted, of lst] by (simp add: Let_def)
qed

text \<open>Where the journal stops when it reaches the first chunk of the replay.\<close>

lemma replay_reaches:
  assumes "bb_seq b" and "after \<le> LastSeq b" and "Replay st = After b after" "AsOldestSeq st = OldestSeq b" "AsLastSeq st = LastSeq b"
    and "map (unat \<circ> Seq) (Replay st) = [max (unat (nextSeq b) - length (chunks b)) (Suc (unat after))..<unat (nextSeq b)]"
    and "after \<le> l" and "l = after \<or> l < replayBefore after st"
  shows "l \<le> LastSeq b"
    and "\<not> l + 1 < replayBefore after st \<Longrightarrow> Replay st = [] \<longrightarrow> l = LastSeq b"
    and "\<not> l + 1 < replayBefore after st \<Longrightarrow> unat (nextSeq b) - length (chunks b) \<le> Suc (unat l)"
proof -
  let ?before = "replayBefore after st"
  have last: "unat (nextSeq b) = Suc (unat (LastSeq b))" using bb_seq_last [OF assms(1)] by simp
  have top: "unat (LastSeq b) < 2 ^ 64 - 1" using last unat_u64_less [of "nextSeq b"] by simp
  have old: "unat (OldestSeq b) = unat (nextSeq b) - length (chunks b) \<and> 0 < length (chunks b)" if "chunks b \<noteq> []"
    using bb_seq_oldest [OF assms(1) that] that by simp
  have empty: "OldestSeq b = 0" if "chunks b = []" using that by (simp add: OldestSeq_def)
  have "unat ?before \<le> Suc (unat (LastSeq b)) \<and> (Replay st = [] \<longrightarrow> after < LastSeq b \<longrightarrow> unat ?before = Suc (unat (LastSeq b))) \<and>
      (Replay st \<noteq> [] \<longrightarrow> unat ?before = unat (nextSeq b) - length (chunks b))"
  proof (cases "Replay st = [] \<and> after < LastSeq b")
    case True
    then show ?thesis using unat_inc_u64 [OF top] by (simp add: replayBefore_def assms(5))
  next
    case False
    then have "?before = OldestSeq b" by (auto simp: replayBefore_def assms(4,5))
    moreover have "chunks b \<noteq> []" if "Replay st \<noteq> []" using that assms(3) by (auto simp: After_def)
    ultimately show ?thesis using old empty last False by (cases "chunks b = []") auto
  qed
  note before = this
  show le: "l \<le> LastSeq b" using before assms(2,8) by (auto simp: u64_nat)
  then have inc: "unat (l + 1) = Suc (unat l)" using top by (subst unat_inc_u64) (auto simp: u64_nat)
  assume "\<not> l + 1 < ?before"
  then have ge: "unat ?before \<le> Suc (unat l)" using inc by (simp add: u64_nat)
  show "Replay st = [] \<longrightarrow> l = LastSeq b"
    using before ge le assms(2,7) by (auto simp: u64_nat not_less)
  show "unat (nextSeq b) - length (chunks b) \<le> Suc (unat l)"
  proof (cases "Replay st = []")
    case True
    then have "l = LastSeq b" using before ge le assms(2,7) by (auto simp: u64_nat not_less)
    then show ?thesis using last by simp
  next
    case False
    then show ?thesis using before ge by simp
  qed
qed

lemma gap_event_distinct:
  "gap_event sid st \<noteq> attached_event sid st'" "gap_event sid st \<noteq> chunkToProto sid c True"
  by (auto simp: gap_event_def attached_event_def chunkToProto_def blank_event_def Let_def split: ChunkType.splits)

text \<open>
  C10. A replay has no hidden hole. For a client whose cursor is not ahead of the session, either the events
  after the attach carry the output after the cursor one number after the other up to the newest, or the client
  is told of the gap; and it is told only when the journal cannot supply what the memory buffer has evicted.
  After a gap with a known screen, the redraw of the screen at the newest number is the last event.
\<close>

theorem attach_replay:
  assumes "attachLocked V now ms client after r = Ret (Inr st, ms', eff)" and "bb_seq (buf ms)" and "after \<le> LastSeq (buf ms)"
    and "replay_phase load now' sid after st = (evs, Inr lst)"
  shows "(gap_event sid st \<notin> set evs \<longrightarrow> seq_chain after (replay_seqs evs) lst \<and> lst = LastSeq (buf ms)) \<and>
    (serves load (replayBefore after st - 1) \<longrightarrow> gap_event sid st \<notin> set evs) \<and>
    (gap_event sid st \<in> set evs \<and> Checkpoint st \<noteq> [] \<longrightarrow>
       lst = LastSeq (buf ms) \<and> last evs = chunkToProto sid (checkpoint_chunk now' st) True)"
proof -
  let ?b = "buf ms" and ?before = "replayBefore after st"
  have st: "Replay st = After ?b after" "AsOldestSeq st = OldestSeq ?b" "AsLastSeq st = LastSeq ?b"
    using attach_fields [OF assms(1)] by simp_all
  have last: "unat (nextSeq ?b) = Suc (unat (LastSeq ?b))" using bb_seq_last [OF assms(2)] by simp
  define first where "first = unat (nextSeq ?b) - length (chunks ?b)"
  have seqs: "map (unat \<circ> Seq) (Replay st) = [max first (Suc (unat after))..<unat (nextSeq ?b)]"
    unfolding st first_def using assms(2) by (rule After_seqs)
  have "unat after < 2 ^ 64 - 1" using assms(3) last unat_u64_less [of "nextSeq ?b"] by (simp add: u64_nat)
  then have max: "after \<noteq> -1" and inc: "unat (after + 1) = Suc (unat after)"
    by (auto simp: unat_inc_u64 unsigned_minus_1_eq_mask mask_eq_exp_minus_1)
  obtain cs r l where fill: "replay_fill load ?before after = (cs, r)" "seq_chain after (map Seq cs) l"
      "r = Inl Unavailable \<or> r = Inr l \<and> after \<le> l \<and> (l = after \<or> l < ?before)"
      "serves load (?before - 1) \<longrightarrow> r = Inr l \<and> \<not> l + 1 < ?before"
    using replay_fill_result [OF max] by blast
  have r: "r = Inr l" "after \<le> l" "l = after \<or> l < ?before" using fill(1,3) assms(4) by (auto simp: replay_phase_def Let_def)
  define gap where "gap \<longleftrightarrow> l + 1 < ?before"
  have ahead: "\<not> AsLastSeq st < after" using assms(3) st by simp
  define lst2 where "lst2 = (if gap \<and> Checkpoint st \<noteq> [] then AsLastSeq st else l)"
  obtain t l3 where tail: "replay_tail lst2 (Replay st) = (t, l3)" by (cases "replay_tail lst2 (Replay st)")
  have evs: "evs = attached_event sid st # map (\<lambda>c. chunkToProto sid c True) cs @ (if gap then [gap_event sid st] else []) @
      (if gap \<and> Checkpoint st \<noteq> [] then [chunkToProto sid (checkpoint_chunk now' st) True] else []) @
      map (\<lambda>c. chunkToProto sid c True) t" "lst = l3"
    using assms(4) fill(1) r(1) tail ahead by (auto simp: replay_phase_def Let_def gap_def lst2_def)
  have isgap: "gap_event sid st \<in> set evs \<longleftrightarrow> gap" using gap_event_distinct by (auto simp: evs)
  note reach = replay_reaches [OF assms(2,3) st seqs [unfolded first_def] r(2,3)]
  have gapless: "lst = LastSeq ?b \<and> seq_chain after (replay_seqs evs) lst" if "\<not> gap"
  proof -
    have "l \<le> LastSeq ?b" "Replay st = [] \<longrightarrow> l = LastSeq ?b" "first \<le> Suc (unat l)"
      using reach that by (simp_all add: gap_def first_def)
    from replay_tail_chain [OF seqs last r(2) this] obtain t' where "replay_tail l (Replay st) = (t', LastSeq ?b)"
        "seq_chain l (map Seq t') (LastSeq ?b)" by blast
    then show ?thesis using that tail fill(2) by (auto simp: lst2_def evs)
  qed
  have redraw: "t = [] \<and> l3 = LastSeq ?b" if "gap" "Checkpoint st \<noteq> []"
  proof -
    have "LastSeq ?b \<le> LastSeq ?b" "Replay st = [] \<longrightarrow> LastSeq ?b = LastSeq ?b" "first \<le> Suc (unat (LastSeq ?b))"
      using last by (simp_all add: first_def)
    from replay_tail_chain [OF seqs last assms(3) this] obtain t' where t: "replay_tail (LastSeq ?b) (Replay st) = (t', LastSeq ?b)"
        "map unat (map Seq t') = [Suc (unat (LastSeq ?b))..<unat (nextSeq ?b)]" by blast
    then have "t' = []" using last by simp
    then show ?thesis using that tail st(3) t by (auto simp: lst2_def)
  qed
  show ?thesis using isgap gapless redraw fill(4) r(1) evs by (auto simp: gap_def)
qed

lemma demo_output_seq: "bb_seq (buf demo_output)"
  by (simp add: bb_seq_def demo_output_simps upt_rec)

lemma demo_output_attach:
  "\<exists>st ms' eff. attachLocked demo_vt 5 demo_output ''c'' after AttachRoleObserver = Ret (Inr st, ms', eff)"
  by (simp add: demo_output_def demo_simps split_beta)

theorem attach_replay_witness:
  "\<exists>st ms' eff evs. attachLocked demo_vt 5 demo_output ''c'' 1 AttachRoleObserver = Ret (Inr st, ms', eff) \<and>
     replay_phase demo_load 6 ''s'' 1 st = (evs, Inr 2) \<and> seq_chain 1 (replay_seqs evs) 2"
proof -
  obtain st ms' eff where a: "attachLocked demo_vt 5 demo_output ''c'' 1 AttachRoleObserver = Ret (Inr st, ms', eff)"
    using demo_output_attach by blast
  obtain cs l where fill: "replay_fill demo_load (replayBefore 1 st) 1 = (cs, Inr l)"
    using replay_fill_result [of 1 demo_load "replayBefore 1 st"] demo_load_serves by auto
  obtain evs lst where ph: "replay_phase demo_load 6 ''s'' 1 st = (evs, Inr lst)"
    using fill by (simp add: replay_phase_def Let_def split_beta)
  from attach_replay [OF a demo_output_seq _ ph] demo_load_serves a ph
  show ?thesis by (auto simp: demo_output_simps)
qed

text \<open>
  A cursor ahead of the session starves the client. A client that attaches with a cursor beyond the newest
  output (from an earlier session of that name, say) to a session without a screen is told of a gap, but then
  gets none of the output: the handler keeps the client's cursor and drops every chunk up to it.
\<close>

theorem future_cursor_starves:
  assumes "attachLocked V now ms client after r = Ret (Inr st, ms', eff)" and "bb_seq (buf ms)" and "LastSeq (buf ms) < after"
    and "after \<noteq> -1" and "Checkpoint st = []" and "\<forall>(load, c) \<in> set cs. \<not> isControl c \<and> Seq c \<le> after"
  shows "replay_phase load now' sid after st = ([attached_event sid st, gap_event sid st], Inr after) \<and>
    live_run after cs = Some ([], Inr after)"
proof -
  have st: "Replay st = After (buf ms) after" "AsOldestSeq st = OldestSeq (buf ms)" "AsLastSeq st = LastSeq (buf ms)"
    using attach_fields [OF assms(1)] by simp_all
  have last: "unat (nextSeq (buf ms)) = Suc (unat (LastSeq (buf ms)))" using bb_seq_last [OF assms(2)] by simp
  have "map (unat \<circ> Seq) (Replay st) = []"
    unfolding st After_seqs [OF assms(2)] last using assms(3) by (simp add: u64_nat)
  then have none: "Replay st = []" by simp
  have "unat (OldestSeq (buf ms)) \<le> Suc (unat (LastSeq (buf ms)))"
    using bb_seq_oldest [OF assms(2)] last by (cases "chunks (buf ms) = []") (auto simp: OldestSeq_def)
  then have "\<not> after + 1 < replayBefore after st"
    using assms(3) unat_inc_u64 [OF not_max [OF assms(4)]] by (auto simp: replayBefore_def st u64_nat)
  then have "replay_fill load (replayBefore after st) after = ([], Inr after)" by (subst replay_fill.simps) simp
  then have "replay_phase load now' sid after st = ([attached_event sid st, gap_event sid st], Inr after)"
    using assms(3,5) none by (simp add: replay_phase_def Let_def st)
  moreover have "live_run after cs = Some ([], Inr after)"
    using assms(6) by (induction cs) (auto simp: live_chunk_def)
  ultimately show ?thesis ..
qed

theorem future_cursor_starves_witness:
  "\<exists>st ms' eff. attachLocked demo_vt 5 (demo_output\<lparr>screen := None\<rparr>) ''c'' 9 AttachRoleObserver = Ret (Inr st, ms', eff) \<and>
     live_run 9 [(demo_load, demo_chunk 3), (demo_load, demo_chunk 4)] = Some ([], Inr 9)"
proof -
  let ?ms = "demo_output\<lparr>screen := None\<rparr>"
  obtain st ms' eff where a: "attachLocked demo_vt 5 ?ms ''c'' 9 AttachRoleObserver = Ret (Inr st, ms', eff)" "Checkpoint st = []"
    by (simp add: demo_output_def demo_simps split_beta)
  have "bb_seq (buf ?ms)" using demo_output_seq by simp
  from future_cursor_starves [OF a(1) this _ _ a(2), of "[(demo_load, demo_chunk 3), (demo_load, demo_chunk 4)]"] a(1)
  show ?thesis by (simp add: demo_output_simps isControl_def demo_chunk_def)
qed

end
