(* ===== verification/Go_Float.thy ===== *)
theory Go_Float
  imports Bridge_Prelude "HOL-Library.Log_Nat" Complex_Main
begin

text \<open>
  Go's \<open>float64\<close> arithmetic, as far as the rate limiter uses it. A finite \<open>float64\<close> is the rational it
  stands for, and an operation is the exact one followed by \<open>f64\<close>, the rounding to the nearest
  number with 53 significant bits (ties to even), no finer than \<open>2 ^ -f64_emin\<close>. Overflow to infinity is not
  modelled: the limiter multiplies at most \<open>2 ^ 34\<close> seconds by a rate. The rounding laws the limiter relies on
  are a locale, interpreted on \<open>f64\<close>.
\<close>

section \<open>Rounding\<close>

definition round_half_even :: "rat \<Rightarrow> int" where
  "round_half_even x =
     (let f = \<lfloor>x\<rfloor>; d = x - of_int f
      in if d < 1 / 2 then f else if 1 / 2 < d then f + 1 else if even f then f else f + 1)"

definition f64_emin :: nat where
  "f64_emin = 1074"

definition f64_unit :: "rat \<Rightarrow> rat" where
  "f64_unit x = 2 ^ (floorlog 2 (nat \<lfloor>x * 2 ^ f64_emin\<rfloor>) - 53) / 2 ^ f64_emin"

definition f64_pos :: "rat \<Rightarrow> rat" where
  "f64_pos x = of_int (round_half_even (x / f64_unit x)) * f64_unit x"

definition f64 :: "rat \<Rightarrow> rat" where
  "f64 x = (if 0 \<le> x then f64_pos x else - f64_pos (- x))"

lemma round_half_even_error: "\<bar>of_int (round_half_even x) - x\<bar> \<le> 1 / 2"
proof -
  have "of_int \<lfloor>x\<rfloor> \<le> x" "x < of_int \<lfloor>x\<rfloor> + 1" by linarith+
  then show ?thesis unfolding round_half_even_def Let_def abs_le_iff
    by (simp split: if_split) linarith
qed

lemma round_half_even_int [simp]: "round_half_even (of_int n) = n"
  by (simp add: round_half_even_def)

lemma round_half_even_nonneg: "0 \<le> x \<Longrightarrow> 0 \<le> round_half_even x"
  unfolding round_half_even_def Let_def by simp

lemma f64_unit_pos: "0 < f64_unit x"
  by (simp add: f64_unit_def)

lemma f64_unit_small: "0 \<le> x \<Longrightarrow> f64_unit x \<le> x / 2 ^ 52 + 1 / 2 ^ f64_emin"
proof -
  assume x: "0 \<le> x"
  let ?n = "nat \<lfloor>x * 2 ^ f64_emin\<rfloor>"
  show ?thesis
  proof (cases "53 < floorlog 2 ?n")
    case True
    then have n: "0 < ?n" by (auto simp: floorlog_def split: if_splits)
    define k where "k = floorlog 2 ?n - 53"
    have "2 ^ (floorlog 2 ?n - 1) \<le> ?n" using floorlog_bounds [of ?n 2] n by simp
    moreover have "floorlog 2 ?n - 1 = k + 52" using True by (simp add: k_def)
    ultimately have "2 ^ (k + 52) \<le> ?n" by simp
    then have "(2 :: rat) ^ (k + 52) \<le> rat_of_nat ?n" by (metis of_nat_le_iff of_nat_numeral of_nat_power)
    also have "rat_of_nat ?n \<le> x * 2 ^ f64_emin" using x by simp
    finally have "(2 :: rat) ^ k * 2 ^ 52 \<le> x * 2 ^ f64_emin" by (simp add: power_add)
    then have "(2 :: rat) ^ k / 2 ^ f64_emin \<le> x / 2 ^ 52" by (simp add: field_simps)
    then show ?thesis by (simp add: f64_unit_def k_def add_increasing2)
  next
    case False
    then show ?thesis using x by (simp add: f64_unit_def)
  qed
qed

lemma f64_error: "0 \<le> x \<Longrightarrow> \<bar>f64 x - x\<bar> \<le> x / 2 ^ 53 + 1 / 2 ^ Suc f64_emin"
proof -
  assume x: "0 \<le> x"
  let ?u = "f64_unit x"
  have "\<bar>of_int (round_half_even (x / ?u)) - x / ?u\<bar> * ?u \<le> 1 / 2 * ?u"
    using round_half_even_error f64_unit_pos by (intro mult_right_mono) (auto simp: less_imp_le)
  moreover have "\<bar>of_int (round_half_even (x / ?u)) - x / ?u\<bar> * ?u = \<bar>(of_int (round_half_even (x / ?u)) - x / ?u) * ?u\<bar>"
    using f64_unit_pos [of x] by (simp add: abs_mult)
  moreover have "(of_int (round_half_even (x / ?u)) - x / ?u) * ?u = f64 x - x"
    using x f64_unit_pos [of x] by (simp add: f64_def f64_pos_def left_diff_distrib)
  ultimately show ?thesis using f64_unit_small [OF x] by simp
qed

lemma f64_nonneg: "0 \<le> x \<Longrightarrow> 0 \<le> f64 x"
  using f64_unit_pos [of x] by (simp add: f64_def f64_pos_def round_half_even_nonneg)

lemma f64_int:
  assumes "0 \<le> n" and "n < 2 ^ 53"
  shows "f64 (of_int n) = of_int n"
proof (cases "n = 0")
  case False
  let ?m = "nat (n * 2 ^ f64_emin)"
  have m: "\<lfloor>rat_of_int n * 2 ^ f64_emin\<rfloor> = n * 2 ^ f64_emin"
    by (metis floor_of_int of_int_mult of_int_numeral of_int_power)
  have "floorlog 2 (nat (n * 2 ^ f64_emin)) = floorlog 2 (nat n * 2 ^ f64_emin)"
    using assms(1) by (simp add: nat_mult_distrib nat_power_eq)
  also have "\<dots> = floorlog 2 (nat n) + f64_emin" using False assms(1) by (subst floorlog_power) auto
  also have "floorlog 2 (nat n) \<le> 53" using assms by (subst floorlog_le_iff) (auto simp: nat_less_iff)
  finally have k: "floorlog 2 (nat (n * 2 ^ f64_emin)) - 53 \<le> f64_emin" by simp
  define k where "k = floorlog 2 (nat (n * 2 ^ f64_emin)) - 53"
  have pow: "(2 :: rat) ^ f64_emin = 2 ^ (f64_emin - k) * 2 ^ k"
    using k by (simp add: k_def flip: power_add)
  have unit: "f64_unit (of_int n) = 2 ^ k / (2 ^ (f64_emin - k) * 2 ^ k)"
    unfolding f64_unit_def m k_def pow [unfolded k_def, symmetric] by (rule refl)
  have "rat_of_int n / f64_unit (of_int n) = of_int (n * 2 ^ (f64_emin - k))"
    unfolding unit by simp
  then have "f64 (of_int n) = of_int (n * 2 ^ (f64_emin - k)) * f64_unit (of_int n)"
    using assms(1) by (simp only: f64_def f64_pos_def round_half_even_int of_int_0_le_iff if_True)
  also have "\<dots> = of_int n"
    unfolding unit by simp
  finally show ?thesis .
qed (simp add: f64_def f64_pos_def round_half_even_def)

section \<open>Rounding laws\<close>

text \<open>
  The laws the limiter needs of a rounding: it keeps the sign and errs by at most one part in \<open>2 ^ 53\<close>, up
  to an absolute error that only matters for denormal numbers.
\<close>

locale rounding =
  fixes rnd :: "rat \<Rightarrow> rat" and tiny :: rat
  assumes rnd_nonneg: "0 \<le> x \<Longrightarrow> 0 \<le> rnd x"
    and rnd_error: "0 \<le> x \<Longrightarrow> \<bar>rnd x - x\<bar> \<le> x / 2 ^ 53 + tiny"
    and tiny: "0 \<le> tiny" "tiny \<le> 1 / 2 ^ 60"
begin

lemma rnd_upper: "0 \<le> x \<Longrightarrow> rnd x \<le> x + x / 2 ^ 53 + tiny"
  using rnd_error [of x] by simp

lemma rnd_lower: "0 \<le> x \<Longrightarrow> x - x / 2 ^ 53 - tiny \<le> rnd x"
  using rnd_error [of x] by simp

lemma rnd_coarse: "0 \<le> x \<Longrightarrow> rnd x \<le> x + x / 2 ^ 53 + 1 / 2 ^ 60" "0 \<le> x \<Longrightarrow> x / 2 - 1 / 2 ^ 60 \<le> rnd x"
    "0 \<le> x \<Longrightarrow> x * 1023 / 1024 - 1 / 2 ^ 60 \<le> rnd x"
  using rnd_upper [of x] rnd_lower [of x] tiny by (simp_all add: field_simps)

lemma rnd_above: "0 \<le> a \<Longrightarrow> a \<le> x \<Longrightarrow> a * 1023 / 1024 - 1 / 2 ^ 60 \<le> rnd x"
  using rnd_coarse(3) [of x] by (simp add: field_simps)

text \<open>The product of a rounded duration and a rate, added to a balance and capped.\<close>

lemma capped_credit_upper:
  assumes "0 \<le> tok" and "tok \<le> cap" and "0 \<le> r" and "0 \<le> s" and "s \<le> d + d / 2 ^ 51 + 8 * tiny" and "0 \<le> d"
  shows "min cap (rnd (tok + rnd (s * r))) \<le> tok + (1 + 1 / 2 ^ 50) * (d * r) + (cap + r + 1) / 2 ^ 51"
proof -
  define x where "x = rnd (s * r)"
  have sr: "0 \<le> s * r" using assms by simp
  have x0: "0 \<le> x" unfolding x_def using sr by (rule rnd_nonneg)
  have dr: "0 \<le> d * r" using assms by simp
  have tr: "tiny * r \<le> r / 2 ^ 60" "0 \<le> tiny * r"
    using mult_right_mono [OF tiny(2) assms(3)] tiny(1) assms(3) by simp_all
  have "s * r \<le> (d + d / 2 ^ 51 + 8 * tiny) * r" using assms by (intro mult_right_mono)
  then have s1: "s * r \<le> d * r + (d * r) / 2 ^ 51 + 8 * (tiny * r)" by (simp add: algebra_simps)
  have "x \<le> s * r + (s * r) / 2 ^ 53 + tiny" unfolding x_def using sr by (rule rnd_upper)
  then have x1: "x \<le> (1 + 1 / 2 ^ 50) * (d * r) + r / 2 ^ 54 + 1 / 2 ^ 60"
    using s1 tr tiny dr by (simp add: algebra_simps)
  show ?thesis
  proof (cases "tok + x \<le> 2 * cap")
    case True
    have "rnd (tok + x) \<le> (tok + x) + (tok + x) / 2 ^ 53 + tiny" using assms x0 by (intro rnd_upper) simp
    then have "rnd (tok + x) \<le> tok + x + cap / 2 ^ 52 + 1 / 2 ^ 60" using True tiny by (simp add: field_simps)
    with x1 show ?thesis using assms unfolding x_def [symmetric] by (simp add: min_le_iff_disj field_simps)
  next
    case False
    then have "cap \<le> tok + x" using assms x0 by simp
    with x1 show ?thesis using assms by (simp add: min_le_iff_disj field_simps)
  qed
qed

end

interpretation f64: rounding f64 "1 / 2 ^ Suc f64_emin"
proof
  show "\<And>x. 0 \<le> x \<Longrightarrow> 0 \<le> f64 x" by (rule f64_nonneg)
  show "\<And>x. 0 \<le> x \<Longrightarrow> \<bar>f64 x - x\<bar> \<le> x / 2 ^ 53 + 1 / 2 ^ Suc f64_emin" by (rule f64_error)
  show "0 \<le> 1 / (2 :: rat) ^ Suc f64_emin" by simp
  have "(2 :: rat) ^ 60 \<le> 2 ^ Suc f64_emin" by (rule power_increasing) (simp_all add: f64_emin_def)
  then show "1 / (2 :: rat) ^ Suc f64_emin \<le> 1 / 2 ^ 60" by (intro divide_left_mono) simp_all
qed

end
