(* ===== verification/Rate_Limit.thy ===== *)
theory Rate_Limit
  imports Go_Float
begin

text \<open>
  \<open>internal/server/ratelimit.go\<close>: token buckets with a circuit breaker, one per key. The clock reading of
  a call is an argument. A \<open>nil\<close> limiter is \<open>None\<close>. The admission bound is proved once for every metered
  service (a potential that a call spends and time refills) and the keyed limiter is shown to be one.
\<close>

declare map_of_eq_Some_iff [simp del] Some_eq_map_of_iff [simp del]

section \<open>Token buckets\<close>

abbreviation circuitBreakerThreshold :: int where "circuitBreakerThreshold \<equiv> 100"
abbreviation circuitBreakerBanDuration :: duration where "circuitBreakerBanDuration \<equiv> 5 * minute"

record tokenBucket =
  tbRate :: rat
  tbBurst :: rat
  tokens :: rat
  lastRefill :: go_time
  lastSeen :: go_time
  consecutiveViolations :: int
  bannedUntil :: go_time

text \<open>\<open>time.Time.Sub\<close> saturates, and \<open>Duration.Seconds\<close> adds whole seconds and the fraction.\<close>

definition time_sub :: "go_time \<Rightarrow> go_time \<Rightarrow> duration" where
  "time_sub a b = max (- (2 ^ 63)) (min (2 ^ 63 - 1) (a - b))"

definition duration_seconds :: "duration \<Rightarrow> rat" where
  "duration_seconds d =
     (let sec = sgn d * (\<bar>d\<bar> div second); nsec = d - sec * second
      in f64 (f64 (of_int sec) + f64 (f64 (of_int nsec) / 1000000000)))"

definition newTokenBucket :: "rat \<Rightarrow> int \<Rightarrow> go_time \<Rightarrow> tokenBucket" where
  "newTokenBucket rate burst now =
     \<lparr>tbRate = rate, tbBurst = f64 (of_int burst), tokens = f64 (of_int burst), lastRefill = now, lastSeen = now,
      consecutiveViolations = 0, bannedUntil = 0\<rparr>"

definition refill :: "go_time \<Rightarrow> tokenBucket \<Rightarrow> tokenBucket" where
  "refill now b =
     (let elapsed = duration_seconds (time_sub now (lastRefill b))
      in if 0 < elapsed then
           let t = f64 (tokens b + f64 (elapsed * tbRate b))
           in b\<lparr>tokens := (if tbBurst b < t then tbBurst b else t), lastRefill := now\<rparr>
         else b)"

definition bucket_allow :: "go_time \<Rightarrow> tokenBucket \<Rightarrow> bool \<times> tokenBucket" where
  "bucket_allow now b0 =
     (let b = b0\<lparr>lastSeen := now\<rparr>
      in if now < bannedUntil b then (False, b)
         else
           let b1 = refill now b
           in if tokens b1 < 1 then
                let v = consecutiveViolations b1 + 1
                in (False,
                    if circuitBreakerThreshold \<le> v
                    then b1\<lparr>bannedUntil := now + circuitBreakerBanDuration, consecutiveViolations := 0\<rparr>
                    else b1\<lparr>consecutiveViolations := v\<rparr>)
              else (True, b1\<lparr>tokens := f64 (tokens b1 - 1), consecutiveViolations := 0\<rparr>))"

definition isBanned :: "go_time \<Rightarrow> tokenBucket \<Rightarrow> bool" where
  "isBanned now b \<longleftrightarrow> now < bannedUntil b"

section \<open>Keyed limiters\<close>

record keyedLimiter =
  klRate :: rat
  klBurst :: int
  buckets :: "(string, tokenBucket) gomap"
  ttl :: duration

definition newKeyedLimiter :: "rat \<Rightarrow> int \<Rightarrow> keyedLimiter" where
  "newKeyedLimiter rate burst = \<lparr>klRate = rate, klBurst = burst, buckets = [], ttl = 60 * minute\<rparr>"

definition cleanupLocked :: "go_time \<Rightarrow> keyedLimiter \<Rightarrow> keyedLimiter" where
  "cleanupLocked now l =
     l\<lparr>buckets := filter (\<lambda>(key, bucket). \<not> ttl l < time_sub now (lastSeen bucket)) (buckets l)\<rparr>"

definition limiter_allow :: "go_time \<Rightarrow> string \<Rightarrow> keyedLimiter option \<Rightarrow> bool \<times> keyedLimiter option" where
  "limiter_allow now key kl =
     (case kl of
        None \<Rightarrow> (True, None)
      | Some l \<Rightarrow>
          if klRate l \<le> 0 \<or> klBurst l \<le> 0 then (True, Some l)
          else
            let b = (case gm_get (buckets l) key of
                       None \<Rightarrow> newTokenBucket (klRate l) (klBurst l) now
                     | Some b \<Rightarrow> b);
                (allowed, b1) = bucket_allow now b
            in (allowed, Some (cleanupLocked now (l\<lparr>buckets := gm_put key b1 (buckets l)\<rparr>))))"

definition limiter_banned :: "go_time \<Rightarrow> string \<Rightarrow> keyedLimiter option \<Rightarrow> bool" where
  "limiter_banned now key kl =
     (case kl of
        None \<Rightarrow> False
      | Some l \<Rightarrow> (case gm_get (buckets l) key of None \<Rightarrow> False | Some b \<Rightarrow> isBanned now b))"

section \<open>Metered services\<close>

text \<open>
  The number of calls for \<open>k\<close> that a service admits in a sequence of timed calls for any keys.
\<close>

fun admitted :: "(go_time \<Rightarrow> 'k \<Rightarrow> 'l \<Rightarrow> bool \<times> 'l) \<Rightarrow> 'k \<Rightarrow> (go_time \<times> 'k) list \<Rightarrow> 'l \<Rightarrow> nat" where
  "admitted step k [] l = 0"
| "admitted step k ((now, k') # cs) l =
     (let (a, l1) = step now k' l in (if a \<and> k = k' then 1 else 0) + admitted step k cs l1)"

locale metered =
  fixes step :: "go_time \<Rightarrow> 'k \<Rightarrow> 'l \<Rightarrow> bool \<times> 'l"
    and ok :: "go_time \<Rightarrow> 'l \<Rightarrow> bool"
    and pot :: "'k \<Rightarrow> go_time \<Rightarrow> 'l \<Rightarrow> rat"
    and per_ns slack :: rat
  assumes step_ok: "ok t l \<Longrightarrow> t \<le> now \<Longrightarrow> ok now (snd (step now k l))"
    and pot_nonneg: "ok t l \<Longrightarrow> 0 \<le> pot k t l"
    and pot_time: "ok t l \<Longrightarrow> t \<le> now \<Longrightarrow> pot k now l \<le> pot k t l + per_ns * of_int (now - t)"
    and pot_step: "ok t l \<Longrightarrow> t \<le> now \<Longrightarrow>
      (if fst (step now k' l) \<and> k = k' then 1 else 0) + pot k now (snd (step now k' l)) \<le> pot k now l + slack"
begin

lemma admitted_bound:
  assumes "ok t l" and "sorted (t # map fst cs)" and "\<forall>c \<in> set cs. fst c \<le> stop" and "t \<le> stop" and "0 \<le> per_ns"
  shows "of_nat (admitted step k cs l) \<le> pot k t l + per_ns * of_int (stop - t) + of_nat (length cs) * slack"
  using assms
proof (induction cs arbitrary: t l)
  case Nil
  then show ?case using pot_nonneg [OF Nil(1), of k] by simp
next
  case (Cons c cs)
  obtain now k' where c: "c = (now, k')" by (cases c)
  have le: "t \<le> now" "now \<le> stop" using Cons.prems c by auto
  let ?l = "snd (step now k' l)"
  have "of_nat (admitted step k cs ?l) \<le> pot k now ?l + per_ns * of_int (stop - now) + of_nat (length cs) * slack"
    using Cons.prems c le by (intro Cons.IH step_ok [OF Cons.prems(1)]) auto
  moreover have "per_ns * of_int (now - t) + per_ns * of_int (stop - now) = per_ns * rat_of_int (stop - t)"
    by (simp add: algebra_simps)
  ultimately show ?case
    using pot_step [OF Cons.prems(1) le(1), of k' k] pot_time [OF Cons.prems(1) le(1), of k] c
    by (auto simp: split_beta Let_def algebra_simps split: if_splits)
qed

end

section \<open>The keyed limiter is metered\<close>

text \<open>The state of a limiter of the given rate and burst, at or after its last call.\<close>

definition bucket_ok :: "rat \<Rightarrow> int \<Rightarrow> go_time \<Rightarrow> tokenBucket \<Rightarrow> bool" where
  "bucket_ok r n t b \<longleftrightarrow> tbRate b = r \<and> tbBurst b = f64 (of_int n) \<and> 0 \<le> tokens b \<and> tokens b \<le> f64 (of_int n) \<and>
     lastRefill b \<le> lastSeen b \<and> lastSeen b \<le> t \<and>
     0 \<le> consecutiveViolations b \<and> consecutiveViolations b < circuitBreakerThreshold"

definition limiter_ok :: "rat \<Rightarrow> int \<Rightarrow> go_time \<Rightarrow> keyedLimiter option \<Rightarrow> bool" where
  "limiter_ok r n t kl \<longleftrightarrow>
     (\<exists>l. kl = Some l \<and> klRate l = r \<and> klBurst l = n \<and> 0 < r \<and> 0 < n \<and> n < 2 ^ 53 \<and> of_int n \<le> r * 3600 \<and> ttl l = 60 * minute \<and>
        gm_ok (buckets l) \<and> (\<forall>k b. gm_get (buckets l) k = Some b \<longrightarrow> bucket_ok r n t b))"

definition per_ns :: "rat \<Rightarrow> rat" where
  "per_ns r = (1 + 1 / 2 ^ 50) * r / 1000000000"

definition slack :: "rat \<Rightarrow> int \<Rightarrow> rat" where
  "slack r n = (2 * of_int n + r + 2) / 2 ^ 51"

definition bucket_pot :: "rat \<Rightarrow> int \<Rightarrow> go_time \<Rightarrow> tokenBucket \<Rightarrow> rat" where
  "bucket_pot r n t b = min (of_int n) (tokens b + per_ns r * of_int (t - lastRefill b))"

definition limiter_pot :: "rat \<Rightarrow> int \<Rightarrow> string \<Rightarrow> go_time \<Rightarrow> keyedLimiter option \<Rightarrow> rat" where
  "limiter_pot r n k t kl =
     (case Option.bind kl (\<lambda>l. gm_get (buckets l) k) of None \<Rightarrow> of_int n | Some b \<Rightarrow> bucket_pot r n t b)"

lemma per_ns_pos: "0 < r \<Longrightarrow> 0 < per_ns r"
  by (simp add: per_ns_def)

lemma duration_seconds_bounds:
  assumes "0 \<le> d"
  shows "0 \<le> duration_seconds d"
    and "duration_seconds d \<le> of_int d / 1000000000 + of_int d / 1000000000 / 2 ^ 51 + 8 * (1 / 2 ^ Suc f64_emin)"
proof -
  define tiny :: rat where "tiny = 1 / 2 ^ Suc f64_emin"
  define sec where "sec = d div second"
  define nsec where "nsec = d mod second"
  have sec: "0 \<le> sec" "0 \<le> nsec" "d = sec * second + nsec" using assms by (simp_all add: sec_def nsec_def)
  define a where "a = f64 (of_int sec)"
  define b where "b = f64 (of_int nsec)"
  define c where "c = f64 (b / 1000000000)"
  have pos: "0 \<le> a" "0 \<le> b" "0 \<le> c" using sec by (auto simp: a_def b_def c_def intro!: f64_nonneg)
  have ds: "duration_seconds d = f64 (a + c)"
  proof -
    have "sgn d * (\<bar>d\<bar> div second) = sec" using assms by (cases "d = 0") (auto simp: sec_def)
    moreover have "d - sec * second = nsec" using sec(3) by simp
    ultimately show ?thesis unfolding duration_seconds_def Let_def a_def b_def c_def by (simp only:)
  qed
  show "0 \<le> duration_seconds d" unfolding ds using pos by (intro f64_nonneg) simp
  have t: "0 \<le> tiny" "tiny \<le> 1 / 2 ^ 60" unfolding tiny_def by (rule f64.tiny)+
  have s0: "0 \<le> rat_of_int sec" "0 \<le> rat_of_int nsec" using sec by simp_all
  have "a \<le> of_int sec + of_int sec / 2 ^ 53 + tiny" "b \<le> of_int nsec + of_int nsec / 2 ^ 53 + tiny"
    unfolding a_def b_def tiny_def using s0 by (simp_all only: f64.rnd_upper)
  moreover have "c \<le> b / 1000000000 + b / 1000000000 / 2 ^ 53 + tiny" unfolding c_def tiny_def
    using pos by (intro f64.rnd_upper) simp
  moreover have "f64 (a + c) \<le> a + c + (a + c) / 2 ^ 53 + tiny" unfolding tiny_def
    using pos by (intro f64.rnd_upper) simp
  ultimately have "f64 (a + c) \<le> (of_int sec + of_int nsec / 1000000000) * (1 + 1 / 2 ^ 51) + 8 * tiny"
    using s0 t by (simp add: field_simps)
  also have "rat_of_int sec + of_int nsec / 1000000000 = of_int d / 1000000000" using sec(3) by simp
  finally show "duration_seconds d \<le> of_int d / 1000000000 + of_int d / 1000000000 / 2 ^ 51 + 8 * (1 / 2 ^ Suc f64_emin)"
    unfolding ds tiny_def by (simp add: algebra_simps)
qed

lemma refill_bounds:
  assumes "bucket_ok r n t b" and "0 < r" and "0 \<le> n" and "n < 2 ^ 53" and "lastRefill b \<le> now"
  shows "0 \<le> tokens (refill now b)" and "tokens (refill now b) \<le> of_int n"
    and "tokens (refill now b) \<le> tokens b + per_ns r * of_int (now - lastRefill b) + (of_int n + r + 1) / 2 ^ 51"
    and "lastRefill (refill now b) \<in> {lastRefill b, now}"
    and "refill now b = b\<lparr>tokens := tokens (refill now b), lastRefill := lastRefill (refill now b)\<rparr>"
proof -
  let ?d = "time_sub now (lastRefill b)"
  let ?s = "duration_seconds ?d"
  have n: "f64 (of_int n) = of_int n" using assms by (intro f64_int)
  have d: "0 \<le> ?d" "?d \<le> now - lastRefill b" using assms(5) by (simp_all add: time_sub_def)
  note s = duration_seconds_bounds [OF d(1)]
  have b: "0 \<le> tokens b" "tokens b \<le> of_int n" "tbRate b = r" "tbBurst b = of_int n" using assms(1) n by (simp_all add: bucket_ok_def)
  have "min (of_int n) (f64 (tokens b + f64 (?s * r))) \<le>
      tokens b + (1 + 1 / 2 ^ 50) * (of_int ?d / 1000000000 * r) + (of_int n + r + 1) / 2 ^ 51"
    using b assms(2) s d(1) by (intro f64.capped_credit_upper) simp_all
  also have "(1 + 1 / 2 ^ 50) * (rat_of_int ?d / 1000000000 * r) = per_ns r * of_int ?d" by (simp add: per_ns_def)
  also have "per_ns r * of_int ?d \<le> per_ns r * of_int (now - lastRefill b)"
    using d(2) per_ns_pos [OF assms(2)] by (intro mult_left_mono) (simp_all del: of_int_diff)
  finally have up: "min (of_int n) (f64 (tokens b + f64 (?s * r))) \<le>
      tokens b + per_ns r * of_int (now - lastRefill b) + (of_int n + r + 1) / 2 ^ 51" by simp
  have pos: "0 \<le> f64 (tokens b + f64 (?s * r))" using b s(1) assms(2) by (intro f64_nonneg add_nonneg_nonneg mult_nonneg_nonneg) simp_all
  have idle: "0 \<le> per_ns r * of_int (now - lastRefill b) + (of_int n + r + 1) / 2 ^ 51"
    using per_ns_pos [OF assms(2)] assms by simp
  show "0 \<le> tokens (refill now b)" "tokens (refill now b) \<le> of_int n"
    "lastRefill (refill now b) \<in> {lastRefill b, now}"
    "refill now b = b\<lparr>tokens := tokens (refill now b), lastRefill := lastRefill (refill now b)\<rparr>"
    using b pos assms(3) by (auto simp: refill_def Let_def)
  show "tokens (refill now b) \<le> tokens b + per_ns r * of_int (now - lastRefill b) + (of_int n + r + 1) / 2 ^ 51"
    using b up idle by (auto simp: refill_def Let_def min_def split: if_splits)
qed

lemma duration_seconds_pos: "0 < d \<Longrightarrow> 0 < duration_seconds d"
proof -
  assume "0 < d"
  define sec where "sec = d div second"
  define nsec where "nsec = d mod second"
  have sec: "0 \<le> sec" "0 \<le> nsec" "d = sec * second + nsec" "sgn d = 1" "\<bar>d\<bar> = d" using \<open>0 < d\<close> by (simp_all add: sec_def nsec_def)
  have low: "x / 2 - 1 / 2 ^ 60 \<le> f64 x" if "0 \<le> x" for x :: rat
    using that by (rule f64.rnd_coarse)
  have "1 \<le> sec \<or> 1 \<le> nsec" using sec \<open>0 < d\<close> by (cases "sec = 0") auto
  then have one: "1 \<le> rat_of_int sec \<or> 1 \<le> rat_of_int nsec" by simp
  let ?a = "f64 (of_int sec)" and ?b = "f64 (of_int nsec)"
  have s0: "0 \<le> rat_of_int sec" "0 \<le> rat_of_int nsec" using sec by simp_all
  then have pos: "0 \<le> ?a" "0 \<le> ?b" by (simp_all only: f64_nonneg)
  then have "0 \<le> ?b / 1000000000" by simp
  note c = low [OF this] f64_nonneg [OF this]
  have "1 / 4 \<le> ?a \<or> 1 / 4 \<le> ?b"
  proof (rule disjE [OF one])
    assume "1 \<le> rat_of_int sec"
    with low [OF s0(1)] show ?thesis by simp
  next
    assume "1 \<le> rat_of_int nsec"
    with low [OF s0(2)] show ?thesis by simp
  qed
  define z where "z = ?a + f64 (?b / 1000000000)"
  have "1 / 2 ^ 40 \<le> z" using \<open>1 / 4 \<le> ?a \<or> 1 / 4 \<le> ?b\<close>
  proof
    assume "1 / 4 \<le> ?a"
    moreover have "?a \<le> z" using c(2) by (simp add: z_def)
    ultimately show ?thesis by simp
  next
    assume "1 / 4 \<le> ?b"
    moreover have "?b / 1000000000 / 2 - 1 / 2 ^ 60 \<le> z" unfolding z_def using c(1) pos(1) by (rule add_increasing [rotated])
    ultimately show ?thesis by (simp add: field_simps)
  qed
  with low [of z] have "0 < f64 z" by simp
  moreover have "duration_seconds d = f64 z"
  proof -
    have "sgn d * (\<bar>d\<bar> div second) = sec" unfolding sec(4,5) by (simp add: sec_def)
    moreover have "d - sec * second = nsec" using sec(3) by simp
    ultimately show ?thesis unfolding duration_seconds_def Let_def z_def by (simp only:)
  qed
  ultimately show ?thesis by simp
qed

lemma duration_seconds_lower:
  assumes "300 * second \<le> d"
  shows "299 \<le> duration_seconds d"
proof -
  define sec where "sec = d div second"
  define nsec where "nsec = d mod second"
  have sec: "300 \<le> sec" "0 \<le> nsec" "d = sec * second + nsec" "sgn d = 1" "\<bar>d\<bar> = d"
    using assms zdiv_mono1 [OF assms, of second] by (simp_all add: sec_def nsec_def)
  define c where "c = f64 (f64 (of_int nsec) / 1000000000)"
  have "0 \<le> c" unfolding c_def using sec by (intro f64_nonneg divide_nonneg_nonneg) simp_all
  have "300 \<le> rat_of_int sec" using sec(1) by simp
  from f64.rnd_above [OF _ this] have "2995 / 10 \<le> f64 (of_int sec)" by simp
  with \<open>0 \<le> c\<close> have "2995 / 10 \<le> f64 (of_int sec) + c" by simp
  from f64.rnd_above [OF _ this] have "299 \<le> f64 (f64 (of_int sec) + c)" by simp
  moreover have "sgn d * (\<bar>d\<bar> div second) = sec" unfolding sec(4,5) by (simp add: sec_def)
  moreover have "d - sec * second = nsec" using sec(3) by simp
  ultimately show ?thesis unfolding duration_seconds_def Let_def c_def by (simp only:)
qed

lemma bucket_allow_ok:
  assumes "bucket_ok r n t b" and "t \<le> now" and "0 < r" and "0 < n" and "n < 2 ^ 53"
  shows "bucket_ok r n now (snd (bucket_allow now b))" and "lastSeen (snd (bucket_allow now b)) = now"
    and "(if fst (bucket_allow now b) then 1 else 0) + bucket_pot r n now (snd (bucket_allow now b)) \<le> bucket_pot r n now b + slack r n"
proof -
  let ?b = "b\<lparr>lastSeen := now\<rparr>"
  let ?r = "refill now ?b"
  have le: "lastRefill b \<le> now" using assms by (simp add: bucket_ok_def)
  have ok: "bucket_ok r n now ?b" using assms le by (simp add: bucket_ok_def)
  have n: "f64 (of_int n) = of_int n" using assms by (intro f64_int) simp_all
  note re = refill_bounds [OF ok assms(3) less_imp_le [OF assms(4)] assms(5), of now, simplified, OF le]
  define tok where "tok = f64 (tokens ?r - 1)"
  have tok: "0 \<le> tok \<and> tok \<le> of_int n \<and> tok \<le> tokens ?r - 1 + of_int n / 2 ^ 53 + 1 / 2 ^ 60" if "1 \<le> tokens ?r"
  proof -
    have "0 \<le> tokens ?r - 1" using that by simp
    note up = f64.rnd_coarse(1) [OF this] f64_nonneg [OF this]
    have "rat_of_int n \<le> 2 ^ 53" using assms(5) by simp
    then show ?thesis using up re(2) unfolding tok_def by (simp add: field_simps)
  qed
  have fields: "tbRate ?r = r" "tbBurst ?r = f64 (of_int n)" "lastSeen ?r = now" "consecutiveViolations ?r = consecutiveViolations b"
    using ok by (subst re(5); simp add: bucket_ok_def)+
  have last: "lastRefill ?r \<le> now" using re(4) le by auto
  have allow: "bucket_allow now b =
      (if now < bannedUntil b then (False, ?b)
       else if tokens ?r < 1 then (False, if 99 \<le> consecutiveViolations b
              then ?r\<lparr>bannedUntil := now + circuitBreakerBanDuration, consecutiveViolations := 0\<rparr>
              else ?r\<lparr>consecutiveViolations := consecutiveViolations b + 1\<rparr>)
       else (True, ?r\<lparr>tokens := tok, consecutiveViolations := 0\<rparr>))"
    unfolding bucket_allow_def Let_def tok_def by (simp add: fields)
  show "bucket_ok r n now (snd (bucket_allow now b))" "lastSeen (snd (bucket_allow now b)) = now"
    using ok re(1,2) tok last assms n unfolding allow bucket_ok_def by (auto simp: fields)
  have s: "0 \<le> slack r n" "(of_int n + r + 1) / 2 ^ 51 + of_int n / 2 ^ 53 + 1 / 2 ^ 60 \<le> slack r n"
    using assms by (simp_all add: slack_def field_simps)
  have s1: "(of_int n + r + 1) / 2 ^ 51 \<le> slack r n" using s(2) assms by (simp add: field_simps)
  have now: "lastRefill ?r = now \<or> now \<le> lastRefill b \<and> ?r = ?b"
    using duration_seconds_pos [of "time_sub now (lastRefill b)"] by (auto simp: refill_def Let_def time_sub_def)
  have pot: "bucket_pot r n now ?b = bucket_pot r n now b" by (simp add: bucket_pot_def)
  define e where "e = (of_int n + r + 1) / 2 ^ 51"
  have e: "0 \<le> e" using assms by (simp add: e_def)
  have refs: "tokens ?r \<le> bucket_pot r n now b + e"
  proof -
    have "tokens ?r \<le> tokens b + per_ns r * of_int (now - lastRefill b) + e" using re(3) by (simp add: e_def)
    then show ?thesis using re(2) e unfolding bucket_pot_def min_def by (auto simp del: of_int_diff)
  qed
  have at: "per_ns r * of_int (now - lastRefill ?r) = 0" using now le by auto
  have pots: "bucket_pot r n now x = tokens x" if "lastRefill x = lastRefill ?r" "tokens x \<le> of_int n" for x
    using that(2) unfolding bucket_pot_def that(1) at by (simp add: min_def)
  show "(if fst (bucket_allow now b) then 1 else 0) + bucket_pot r n now (snd (bucket_allow now b)) \<le> bucket_pot r n now b + slack r n"
    using tok refs re(2) s s1 pot
    unfolding allow e_def [symmetric] by (auto simp: pots)
qed

lemma gm_get_filter:
  "gm_ok m \<Longrightarrow> gm_get (filter (\<lambda>(k, v). P v) m) k = (case gm_get m k of None \<Rightarrow> None | Some v \<Rightarrow> if P v then Some v else None)"
  by (induction m) (auto simp: map_of_eq_None_iff image_iff split: option.splits)

lemma cleanup_get: "gm_ok (buckets l) \<Longrightarrow>
  gm_get (buckets (cleanupLocked now l)) k =
    (case gm_get (buckets l) k of None \<Rightarrow> None | Some b \<Rightarrow> if ttl l < time_sub now (lastSeen b) then None else Some b)"
  by (simp add: cleanupLocked_def gm_get_filter [where P = "\<lambda>b. \<not> ttl l < time_sub now (lastSeen b)"] split: option.split)

lemma limiter_allow_bucket:
  assumes "limiter_ok r n t (Some l)"
  shows "limiter_allow now key (Some l) =
    (let b = (case gm_get (buckets l) key of None \<Rightarrow> newTokenBucket r n now | Some b \<Rightarrow> b)
     in (fst (bucket_allow now b), Some (cleanupLocked now (l\<lparr>buckets := gm_put key (snd (bucket_allow now b)) (buckets l)\<rparr>))))"
  using assms by (auto simp: limiter_allow_def limiter_ok_def Let_def split_beta)

lemma newTokenBucket_ok: "0 \<le> n \<Longrightarrow> bucket_ok r n now (newTokenBucket r n now)"
  by (simp add: bucket_ok_def newTokenBucket_def f64_nonneg)

lemma newTokenBucket_pot: "0 \<le> n \<Longrightarrow> n < 2 ^ 53 \<Longrightarrow> bucket_pot r n now (newTokenBucket r n now) = of_int n"
  by (simp add: bucket_pot_def newTokenBucket_def f64_int)

lemma bucket_ok_later: "bucket_ok r n t b \<Longrightarrow> t \<le> now \<Longrightarrow> bucket_ok r n now b"
  by (auto simp: bucket_ok_def)

text \<open>A bucket that is removed would have been full.\<close>

lemma removed_full:
  assumes "bucket_ok r n t b" and "t \<le> now" and "60 * minute < time_sub now (lastSeen b)" and "0 < r" and "of_int n \<le> r * 3600"
  shows "bucket_pot r n now b = of_int n"
proof -
  have "3600 * second \<le> now - lastRefill b" using assms by (simp add: bucket_ok_def time_sub_def)
  then have "per_ns r * of_int (3600 * second) \<le> per_ns r * of_int (now - lastRefill b)"
    using per_ns_pos [OF assms(4)] by (intro mult_left_mono) (simp_all del: of_int_diff)
  moreover have "r * 3600 \<le> per_ns r * of_int (3600 * second)" using assms(4) by (simp add: per_ns_def field_simps)
  ultimately show ?thesis using assms(1,5) by (simp add: bucket_pot_def bucket_ok_def min_def)
qed

lemma limiter_step:
  assumes "limiter_ok r n t kl" and "t \<le> now"
  shows "limiter_ok r n now (snd (limiter_allow now key kl))"
    and "(if fst (limiter_allow now key kl) \<and> k = key then 1 else 0) + limiter_pot r n k now (snd (limiter_allow now key kl))
           \<le> limiter_pot r n k now kl + slack r n"
proof -
  obtain l where l: "kl = Some l" using assms(1) by (auto simp: limiter_ok_def)
  have lok: "0 < r" "0 < n" "n < 2 ^ 53" "of_int n \<le> r * 3600" "ttl l = 60 * minute" "gm_ok (buckets l)"
    and bok: "\<And>k b. gm_get (buckets l) k = Some b \<Longrightarrow> bucket_ok r n t b" and fields: "klRate l = r" "klBurst l = n"
    using assms(1) l by (auto simp: limiter_ok_def)
  define b where "b = (case gm_get (buckets l) key of None \<Rightarrow> newTokenBucket r n now | Some b \<Rightarrow> b)"
  have b: "bucket_ok r n now b" using lok bok assms(2)
    by (auto simp: b_def newTokenBucket_ok intro: bucket_ok_later split: option.split)
  note al = bucket_allow_ok [OF b order_refl lok(1-3)]
  define l1 where "l1 = cleanupLocked now (l\<lparr>buckets := gm_put key (snd (bucket_allow now b)) (buckets l)\<rparr>)"
  have step: "limiter_allow now key kl = (fst (bucket_allow now b), Some l1)"
    using limiter_allow_bucket [of r n t l now key] assms(1) l by (simp add: Let_def b_def l1_def)
  have get: "gm_get (buckets l1) k' =
      (if k' = key then Some (snd (bucket_allow now b))
       else case gm_get (buckets l) k' of None \<Rightarrow> None
            | Some b \<Rightarrow> if 60 * minute < time_sub now (lastSeen b) then None else Some b)" for k'
    using lok al(2) by (simp add: l1_def cleanup_get gomap_simps time_sub_def split: option.split)
  have "gm_ok (buckets l1)" using lok by (simp add: l1_def cleanupLocked_def distinct_map_filter)
  moreover have "bucket_ok r n now b'" if "gm_get (buckets l1) k' = Some b'" for k' b'
    using that al(1) bok assms(2) by (auto simp: get intro: bucket_ok_later split: if_splits option.splits)
  ultimately show "limiter_ok r n now (snd (limiter_allow now key kl))"
    using lok fields by (auto simp: step limiter_ok_def l1_def cleanupLocked_def)
  have "limiter_pot r n key now kl = bucket_pot r n now b"
    using lok by (simp add: l limiter_pot_def b_def newTokenBucket_pot split: option.split)
  moreover have "limiter_pot r n k now (Some l1) = limiter_pot r n k now kl" if "k \<noteq> key"
    using that removed_full [OF bok assms(2) _ lok(1,4)] by (auto simp: l limiter_pot_def get split: option.split)
  moreover have "0 \<le> slack r n" using lok by (simp add: slack_def)
  ultimately show "(if fst (limiter_allow now key kl) \<and> k = key then 1 else 0) + limiter_pot r n k now (snd (limiter_allow now key kl))
           \<le> limiter_pot r n k now kl + slack r n"
    using al(3) by (cases "k = key") (simp_all add: step limiter_pot_def get)
qed

interpretation kl: metered limiter_allow "limiter_ok r n" "limiter_pot r n" "per_ns r" "slack r n" for r n
proof
  fix t now :: go_time and l k k'
  assume ok: "limiter_ok r n t l"
  then have b: "bucket_ok r n t b \<and> 0 < r \<and> 0 < n \<and> n < 2 ^ 53" if "Option.bind l (\<lambda>l. gm_get (buckets l) k) = Some b" for b
    using that by (auto simp: limiter_ok_def)
  show "0 \<le> limiter_pot r n k t l"
    using b ok per_ns_pos [of r] by (force simp: limiter_pot_def bucket_pot_def bucket_ok_def limiter_ok_def split: option.split)
  assume le: "t \<le> now"
  show "limiter_ok r n now (snd (limiter_allow now k l))" using ok le by (rule limiter_step)
  show "(if fst (limiter_allow now k' l) \<and> k = k' then 1 else 0) + limiter_pot r n k now (snd (limiter_allow now k' l))
      \<le> limiter_pot r n k now l + slack r n" using ok le by (rule limiter_step)
  have "0 \<le> per_ns r * of_int (now - t)" using ok le per_ns_pos [of r] by (auto simp: limiter_ok_def)
  then show "limiter_pot r n k now l \<le> limiter_pot r n k t l + per_ns r * of_int (now - t)"
    by (auto simp: limiter_pot_def bucket_pot_def algebra_simps min_le_iff_disj split: option.split)
qed

section \<open>Admission\<close>

text \<open>
  C13. A client gets at most the burst and its rate times the elapsed time: over any calls in time order for
  any clients, a fresh limiter admits at most \<open>burst + rate * seconds\<close> calls of one client, up to the rounding
  of \<open>float64\<close>, although idle buckets are dropped after an hour and start full again. The burst has to be within
  an hour's worth of tokens: otherwise the fresh bucket is a better deal than waiting.
\<close>

theorem limiter_admission:
  assumes "0 < rate" and "0 < burst" and "burst < 2 ^ 53" and "of_int burst \<le> rate * 3600"
    and "sorted (start # map fst calls)" and "\<forall>c \<in> set calls. fst c \<le> stop" and "start \<le> stop"
  shows "of_nat (admitted limiter_allow key calls (Some (newKeyedLimiter rate burst))) \<le>
    of_int burst + (1 + 1 / 2 ^ 50) * rate * of_int (stop - start) / 1000000000 +
    of_nat (length calls) * (2 * of_int burst + rate + 2) / 2 ^ 51"
proof -
  have "limiter_ok rate burst start (Some (newKeyedLimiter rate burst))"
    using assms by (simp add: limiter_ok_def newKeyedLimiter_def)
  from kl.admitted_bound [OF this assms(5-7), of key] per_ns_pos [OF assms(1)]
  show ?thesis by (simp add: limiter_pot_def newKeyedLimiter_def per_ns_def slack_def)
qed

theorem limiter_admission_witness:
  "rat_of_nat (admitted limiter_allow ''s'' [(0, ''s''), (1, ''s''), (2, ''t''), (3, ''s'')] (Some (newKeyedLimiter 2 3))) < 4"
proof -
  have "rat_of_nat (admitted limiter_allow ''s'' [(0, ''s''), (1, ''s''), (2, ''t''), (3, ''s'')] (Some (newKeyedLimiter 2 3))) \<le>
      of_int 3 + (1 + 1 / 2 ^ 50) * 2 * of_int (3 - 0) / 1000000000 +
      of_nat (length [(0 :: int, ''s''), (1, ''s''), (2, ''t''), (3, ''s'')]) * (2 * of_int 3 + 2 + 2) / 2 ^ 51"
    by (rule limiter_admission) simp_all
  also have "\<dots> < 4" by simp
  finally show ?thesis .
qed

section \<open>The circuit breaker\<close>

text \<open>
  What the breaker promises, without the tokens: an automaton that counts denials in a row and opens for a
  while at the hundredth. \<open>denied\<close> is the answer of the bucket to a call that reaches it.
\<close>

datatype breaker = Closed int | Open go_time

definition closed_step :: "go_time \<Rightarrow> bool \<Rightarrow> int \<Rightarrow> bool \<times> breaker" where
  "closed_step now denied v =
     (if \<not> denied then (True, Closed 0)
      else if v = circuitBreakerThreshold - 1 then (False, Open (now + circuitBreakerBanDuration))
      else (False, Closed (v + 1)))"

fun breaker_step :: "go_time \<Rightarrow> bool \<Rightarrow> breaker \<Rightarrow> bool \<times> breaker" where
  "breaker_step now denied (Open until) = (if now < until then (False, Open until) else closed_step now denied 0)"
| "breaker_step now denied (Closed v) = closed_step now denied v"

definition abs_breaker :: "go_time \<Rightarrow> tokenBucket \<Rightarrow> breaker" where
  "abs_breaker now b = (if isBanned now b then Open (bannedUntil b) else Closed (consecutiveViolations b))"

text \<open>
  C29. The bucket implements the breaker: while it is open every call is denied without touching the tokens,
  it opens for five minutes at the hundredth denial in a row, and any admitted call starts the count again.
\<close>

theorem breaker_refines:
  assumes "bucket_ok r n t b" and "t \<le> now" and "isBanned now b \<longrightarrow> consecutiveViolations b = 0"
  shows "let (a, b1) = bucket_allow now b; b1' = abs_breaker now b1 in
    (a, b1') = breaker_step now (tokens (refill now (b\<lparr>lastSeen := now\<rparr>)) < 1) (abs_breaker now b) \<and>
    (isBanned now b1 \<longrightarrow> consecutiveViolations b1 = 0) \<and> (isBanned now b \<longrightarrow> tokens b1 = tokens b)"
proof -
  have re: "consecutiveViolations (refill now b') = consecutiveViolations b'" "bannedUntil (refill now b') = bannedUntil b'" for b'
    by (simp_all add: refill_def Let_def)
  show ?thesis
    using assms by (auto simp: bucket_allow_def abs_breaker_def isBanned_def bucket_ok_def closed_step_def Let_def re)
qed

theorem breaker_refines_witness:
  "fst (bucket_allow 5 ((newTokenBucket 2 3 0)\<lparr>bannedUntil := 9\<rparr>)) = False \<and>
   abs_breaker 5 (snd (bucket_allow 5 ((newTokenBucket 2 3 0)\<lparr>bannedUntil := 9\<rparr>))) = Open 9"
proof -
  let ?b = "(newTokenBucket 2 3 0)\<lparr>bannedUntil := 9\<rparr>"
  have "bucket_ok 2 3 0 ?b" using newTokenBucket_ok [of 3 2 0] by (simp add: bucket_ok_def)
  from breaker_refines [OF this, of 5]
  show ?thesis by (simp add: newTokenBucket_def isBanned_def abs_breaker_def split_beta Let_def)
qed

text \<open>
  A ban ends: a client that was banned and comes back after the ban is admitted when the rate gives it
  at least one token in four minutes, whatever it sent meanwhile.
\<close>

theorem ban_ends:
  assumes "bucket_ok r n t b" and "t \<le> now" and "bannedUntil b \<le> now" and "lastRefill b + 5 * minute \<le> now"
    and "1 / 240 \<le> r" and "1 \<le> n" and "n < 2 ^ 53"
  shows "fst (bucket_allow now b)"
proof -
  let ?d = "time_sub now (lastRefill b)"
  define s where "s = duration_seconds ?d"
  have n: "f64 (of_int n) = of_int n" using assms by (intro f64_int) simp_all
  have "299 \<le> s" unfolding s_def using assms(4) by (intro duration_seconds_lower) (simp add: time_sub_def)
  then have "299 * (1 / 240) \<le> s * r" using assms(5) by (intro mult_mono) simp_all
  then have sr: "6 / 5 \<le> s * r" by simp
  from f64.rnd_above [OF _ this] have x: "11 / 10 \<le> f64 (s * r)" by simp
  have "0 \<le> tokens b" using assms(1) by (simp add: bucket_ok_def)
  with x have "11 / 10 \<le> tokens b + f64 (s * r)" by simp
  from f64.rnd_above [OF _ this] have "1 \<le> f64 (tokens b + f64 (s * r))" by simp
  moreover have "0 < s" using \<open>299 \<le> s\<close> by simp
  ultimately have "1 \<le> tokens (refill now (b\<lparr>lastSeen := now\<rparr>))"
    using assms n by (simp add: refill_def bucket_ok_def s_def Let_def)
  then show ?thesis using assms(3) by (simp add: bucket_allow_def Let_def not_less)
qed

text \<open>A bucket five minutes after its hundredth denial.\<close>

theorem ban_ends_witness:
  "fst (bucket_allow (600 * second) ((newTokenBucket 1 3 0)\<lparr>tokens := 0, lastRefill := 300 * second, lastSeen := 310 * second,
     bannedUntil := 600 * second\<rparr>))"
proof (rule ban_ends [of 1 3 "310 * second"])
  show "bucket_ok 1 3 (310 * second) ((newTokenBucket 1 3 0)\<lparr>tokens := 0, lastRefill := 300 * second, lastSeen := 310 * second,
     bannedUntil := 600 * second\<rparr>)"
    using newTokenBucket_ok [of 3 1 0] by (simp add: bucket_ok_def newTokenBucket_def)
qed (simp_all add: newTokenBucket_def)

end
