(* ===== verification/Enrollment.thy ===== *)
theory Enrollment
  imports Session_Store
begin

text \<open>
  \<open>internal/enrollment\<close>: one-time enrollment tokens (\<open>token.go\<close>) and the store that keeps them in a JSON
  file (\<open>store.go\<close>). The clock, the random bytes and the faults of the file system are arguments. The file is
  the tokens its JSON decodes to; the removal of a temporary file is taken to succeed.
\<close>

declare map_of_eq_Some_iff [simp del] Some_eq_map_of_iff [simp del]

section \<open>Tokens\<close>

definition TokenPrefix :: string where "TokenPrefix = ''brg_enroll_''"
definition DefaultTokenExpiry :: duration where "DefaultTokenExpiry = 15 * minute"

record Token =
  TokValue :: string
  Identity :: string
  TokExpiresAt :: go_time
  Used :: bool
  TokCreatedAt :: go_time
  CreatedBy :: string
  ServerURL :: string
  CAFingerprint :: string

definition hex_encode :: "bytes \<Rightarrow> string" where
  "hex_encode bs = concat (map (\<lambda>b. hex_pad 2 (unat b)) bs)"

text \<open>\<open>raw\<close> is what \<open>rand.Read\<close> fills the 24 bytes with, \<open>None\<close> when it fails.\<close>

definition Generate ::
  "go_time \<Rightarrow> bytes option \<Rightarrow> string \<Rightarrow> duration \<Rightarrow> string \<Rightarrow> string \<Rightarrow> string + Token" where
  "Generate now raw identity expiry serverURL caFingerprint =
     (if identity = '''' then Inl ''identity is required''
      else
        let expiry' = (if expiry \<le> 0 then DefaultTokenExpiry else expiry)
        in case raw of
             None \<Rightarrow> Inl ''generate random''
           | Some bs \<Rightarrow>
               Inr \<lparr>TokValue = TokenPrefix @ hex_encode bs, Identity = identity, TokExpiresAt = now + expiry',
                    Used = False, TokCreatedAt = now, CreatedBy = '''', ServerURL = serverURL, CAFingerprint = caFingerprint\<rparr>)"

definition IsExpired :: "go_time \<Rightarrow> Token \<Rightarrow> bool" where
  "IsExpired now t \<longleftrightarrow> TokExpiresAt t < now"

definition IsValid :: "go_time \<Rightarrow> Token \<Rightarrow> bool" where
  "IsValid now t \<longleftrightarrow> \<not> Used t \<and> \<not> IsExpired now t"

definition Token_MarkUsed :: "go_time \<Rightarrow> Token \<Rightarrow> string option \<times> Token" where
  "Token_MarkUsed now t =
     (if Used t then (Some ''token already used'', t)
      else if IsExpired now t then (Some ''token expired'', t)
      else (None, t\<lparr>Used := True\<rparr>))"

definition Redacted :: "Token option \<Rightarrow> string" where
  "Redacted tok =
     (case tok of
        None \<Rightarrow> ''[no token]''
      | Some t \<Rightarrow>
          if TokValue t = '''' then ''[no token]''
          else if length (TokValue t) \<le> length TokenPrefix then TokValue t @ ''***''
          else take (min (length TokenPrefix + 8) (length (TokValue t))) (TokValue t) @ ''***'')"

section \<open>The file\<close>

datatype enrollFile = NoFile | ReadError | Garbage | TokenFile "Token list"

record enrollFS =
  enFile :: enrollFile
  enTemps :: nat

datatype flush_fault = MarshalFails | CreateTempFails | WriteFails | CloseFails | ChmodFails | RenameFails

record EnrollStore =
  stTokens :: "(string, Token) gomap"

text \<open>
  \<open>flush\<close> writes a temporary file and renames it over the old one; \<open>fault\<close> is the first step that fails.
\<close>

definition flush :: "flush_fault option \<Rightarrow> EnrollStore \<Rightarrow> enrollFS \<Rightarrow> string option \<times> enrollFS" where
  "flush fault s fs =
     (let created = fs\<lparr>enTemps := enTemps fs + 1\<rparr>;
          remove = (\<lambda>f. f\<lparr>enTemps := enTemps f - 1\<rparr>)
      in case fault of
           Some MarshalFails \<Rightarrow> (Some ''marshal'', fs)
         | Some CreateTempFails \<Rightarrow> (Some ''create temp'', fs)
         | Some WriteFails \<Rightarrow> (Some ''write temp'', remove created)
         | Some CloseFails \<Rightarrow> (Some ''close temp'', remove created)
         | Some ChmodFails \<Rightarrow> (Some ''chmod temp'', remove created)
         | Some RenameFails \<Rightarrow> (Some ''rename'', remove created)
         | None \<Rightarrow> (None, (remove created)\<lparr>enFile := TokenFile (map snd (stTokens s))\<rparr>))"

text \<open>\<open>NewStore\<close>; \<open>dirOK\<close> is whether \<open>os.MkdirAll\<close> succeeds. A later token of the file wins.\<close>

definition NewStore :: "bool \<Rightarrow> enrollFS \<Rightarrow> string + EnrollStore" where
  "NewStore dirOK fs =
     (if \<not> dirOK then Inl ''mkdir''
      else case enFile fs of
             ReadError \<Rightarrow> Inl ''read''
           | Garbage \<Rightarrow> Inl ''parse''
           | NoFile \<Rightarrow> Inr \<lparr>stTokens = []\<rparr>
           | TokenFile ts \<Rightarrow> Inr \<lparr>stTokens = foldl (\<lambda>m t. gm_put (TokValue t) t m) [] ts\<rparr>)"

section \<open>Operations\<close>

definition Put :: "flush_fault option \<Rightarrow> Token \<Rightarrow> EnrollStore \<times> enrollFS \<Rightarrow> string option \<times> EnrollStore \<times> enrollFS" where
  "Put fault t = (\<lambda>(s, fs).
     let s1 = s\<lparr>stTokens := gm_put (TokValue t) t (stTokens s)\<rparr>;
         (e, fs1) = flush fault s1 fs
     in (e, s1, fs1))"

definition Store_Get :: "string \<Rightarrow> EnrollStore \<Rightarrow> Token option" where
  "Store_Get value s = gm_get (stTokens s) value"

definition Store_Validate :: "go_time \<Rightarrow> string \<Rightarrow> EnrollStore \<Rightarrow> string + Token" where
  "Store_Validate now value s =
     (case gm_get (stTokens s) value of
        None \<Rightarrow> Inl ''unknown token''
      | Some t \<Rightarrow>
          if Used t then Inl ''token already used''
          else if IsExpired now t then Inl ''token expired''
          else Inr t)"

definition ValidateAndConsume ::
  "flush_fault option \<Rightarrow> go_time \<Rightarrow> string \<Rightarrow> EnrollStore \<times> enrollFS \<Rightarrow> (string + Token) \<times> EnrollStore \<times> enrollFS" where
  "ValidateAndConsume fault now value = (\<lambda>(s, fs).
     case gm_get (stTokens s) value of
       None \<Rightarrow> (Inl ''unknown token'', s, fs)
     | Some t \<Rightarrow>
         if Used t then (Inl ''token already used'', s, fs)
         else if IsExpired now t then (Inl ''token expired'', s, fs)
         else
           let s1 = s\<lparr>stTokens := gm_put value (t\<lparr>Used := True\<rparr>) (stTokens s)\<rparr>;
               (e, fs1) = flush fault s1 fs
           in (case e of
                 Some _ \<Rightarrow> (Inl ''persist token'', s1\<lparr>stTokens := gm_put value (t\<lparr>Used := False\<rparr>) (stTokens s1)\<rparr>, fs1)
               | None \<Rightarrow> (Inr (t\<lparr>Used := True\<rparr>), s1, fs1)))"

definition Store_MarkUsed ::
  "flush_fault option \<Rightarrow> go_time \<Rightarrow> string \<Rightarrow> EnrollStore \<times> enrollFS \<Rightarrow> string option \<times> EnrollStore \<times> enrollFS" where
  "Store_MarkUsed fault now value = (\<lambda>(s, fs).
     case gm_get (stTokens s) value of
       None \<Rightarrow> (Some ''unknown token'', s, fs)
     | Some t \<Rightarrow>
         let (e, t1) = Token_MarkUsed now t
         in (case e of
               Some m \<Rightarrow> (Some m, s, fs)
             | None \<Rightarrow>
                 let s1 = s\<lparr>stTokens := gm_put value t1 (stTokens s)\<rparr>;
                     (e2, fs1) = flush fault s1 fs
                 in (e2, s1, fs1)))"

definition Store_List :: "EnrollStore \<Rightarrow> Token list" where
  "Store_List s = map snd (stTokens s)"

section \<open>One-time credentials\<close>

text \<open>
  The contract a client of the store relies on: a value that was spent once stays spent, across every
  operation that does not issue it anew, and a spent value cannot be spent.
\<close>

fun times_spent :: "('o \<Rightarrow> 's \<Rightarrow> 's) \<Rightarrow> ('o \<Rightarrow> 's \<Rightarrow> bool) \<Rightarrow> 'o list \<Rightarrow> 's \<Rightarrow> nat" where
  "times_spent step spends [] s = 0"
| "times_spent step spends (x # xs) s = (if spends x s then 1 else 0) + times_spent step spends xs (step x s)"

locale one_time =
  fixes step :: "'o \<Rightarrow> 's \<Rightarrow> 's"
    and ok :: "'s \<Rightarrow> bool"
    and spends :: "'v \<Rightarrow> 'o \<Rightarrow> 's \<Rightarrow> bool"
    and spent :: "'v \<Rightarrow> 's \<Rightarrow> bool"
    and reissues :: "'v \<Rightarrow> 'o \<Rightarrow> bool"
  assumes step_ok: "ok s \<Longrightarrow> ok (step x s)"
    and spends_spent: "ok s \<Longrightarrow> spends v x s \<Longrightarrow> spent v (step x s)"
    and spent_stays: "ok s \<Longrightarrow> spent v s \<Longrightarrow> \<not> reissues v x \<Longrightarrow> spent v (step x s)"
    and spent_barred: "ok s \<Longrightarrow> spent v s \<Longrightarrow> \<not> spends v x s"
begin

lemma spent_never_again:
  "ok s \<Longrightarrow> spent v s \<Longrightarrow> \<forall>x \<in> set xs. \<not> reissues v x \<Longrightarrow> times_spent step (spends v) xs s = 0"
  by (induction xs arbitrary: s) (auto simp: spent_barred step_ok spent_stays)

lemma at_most_once:
  "ok s \<Longrightarrow> \<forall>x \<in> set xs. \<not> reissues v x \<Longrightarrow> times_spent step (spends v) xs s \<le> 1"
  by (induction xs arbitrary: s) (auto simp: step_ok spends_spent spent_never_again)

end

section \<open>A store across restarts\<close>

text \<open>
  What can happen to the store of one daemon: an operation with any fault of the file system, or a restart,
  which reads the file again (a daemon that cannot read it has no store).
\<close>

datatype enroll_op =
    OpPut Token "flush_fault option"
  | OpConsume string go_time "flush_fault option"
  | OpMark string go_time "flush_fault option"
  | OpRestart bool

type_synonym enroll_state = "EnrollStore option \<times> enrollFS"

fun enroll_step :: "enroll_op \<Rightarrow> enroll_state \<Rightarrow> enroll_state" where
  "enroll_step (OpPut t f) (Some s, fs) = apfst Some (snd (Put f t (s, fs)))"
| "enroll_step (OpConsume v now f) (Some s, fs) = apfst Some (snd (ValidateAndConsume f now v (s, fs)))"
| "enroll_step (OpMark v now f) (Some s, fs) = apfst Some (snd (Store_MarkUsed f now v (s, fs)))"
| "enroll_step (OpRestart dirOK) (_, fs) = (case NewStore dirOK fs of Inl _ \<Rightarrow> (None, fs) | Inr s \<Rightarrow> (Some s, fs))"
| "enroll_step _ (None, fs) = (None, fs)"

text \<open>The operation reports that it consumed the token.\<close>

fun enroll_spends :: "string \<Rightarrow> enroll_op \<Rightarrow> enroll_state \<Rightarrow> bool" where
  "enroll_spends v (OpConsume v' now f) (Some s, fs) \<longleftrightarrow> v = v' \<and> (case fst (ValidateAndConsume f now v (s, fs)) of Inr _ \<Rightarrow> True | Inl _ \<Rightarrow> False)"
| "enroll_spends v (OpMark v' now f) (Some s, fs) \<longleftrightarrow> v = v' \<and> fst (Store_MarkUsed f now v (s, fs)) = None"
| "enroll_spends v _ _ \<longleftrightarrow> False"

fun enroll_reissues :: "string \<Rightarrow> enroll_op \<Rightarrow> bool" where
  "enroll_reissues v (OpPut t f) \<longleftrightarrow> TokValue t = v"
| "enroll_reissues v _ \<longleftrightarrow> False"

definition tokens_ok :: "(string, Token) gomap \<Rightarrow> bool" where
  "tokens_ok m \<longleftrightarrow> gm_ok m \<and> (\<forall>v t. gm_get m v = Some t \<longrightarrow> TokValue t = v)"

definition enroll_ok :: "enroll_state \<Rightarrow> bool" where
  "enroll_ok st \<longleftrightarrow> (case fst st of None \<Rightarrow> True | Some s \<Rightarrow> tokens_ok (stTokens s))"

definition file_used :: "string \<Rightarrow> enrollFS \<Rightarrow> bool" where
  "file_used v fs \<longleftrightarrow> (case enFile fs of TokenFile ts \<Rightarrow> \<forall>t \<in> set ts. TokValue t = v \<longrightarrow> Used t | _ \<Rightarrow> True)"

definition enroll_spent :: "string \<Rightarrow> enroll_state \<Rightarrow> bool" where
  "enroll_spent v st \<longleftrightarrow> file_used v (snd st) \<and>
     (case fst st of None \<Rightarrow> True | Some s \<Rightarrow> (case gm_get (stTokens s) v of None \<Rightarrow> True | Some t \<Rightarrow> Used t))"

lemma tokens_ok_put [intro]: "tokens_ok m \<Longrightarrow> TokValue t = v \<Longrightarrow> tokens_ok (gm_put v t m)"
  by (auto simp: tokens_ok_def gomap_simps)

lemma flush_cases:
  "flush None s fs = (None, fs\<lparr>enFile := TokenFile (map snd (stTokens s))\<rparr>)"
  "\<exists>m. flush (Some f) s fs = (Some m, fs)"
  by (cases f; simp add: flush_def Let_def)+

lemma file_used_tokens:
  assumes "tokens_ok m" and "\<forall>t. gm_get m v = Some t \<longrightarrow> Used t"
  shows "file_used v (fs\<lparr>enFile := TokenFile (map snd m)\<rparr>)"
proof -
  have "Used t" if "(k, t) \<in> set m" "TokValue t = v" for k t
  proof -
    have "gm_get m k = Some t" using assms(1) that by (simp add: tokens_ok_def map_of_is_SomeI)
    with assms that show ?thesis by (auto simp: tokens_ok_def)
  qed
  then show ?thesis by (auto simp: file_used_def)
qed

text \<open>An operation keeps the file, or writes all tokens to it.\<close>

lemma Put_cases:
  "Put None t (s, fs) = (None, s\<lparr>stTokens := gm_put (TokValue t) t (stTokens s)\<rparr>,
     fs\<lparr>enFile := TokenFile (map snd (gm_put (TokValue t) t (stTokens s)))\<rparr>)"
  "snd (Put (Some f) t (s, fs)) = (s\<lparr>stTokens := gm_put (TokValue t) t (stTokens s)\<rparr>, fs)"
proof -
  show "Put None t (s, fs) = (None, s\<lparr>stTokens := gm_put (TokValue t) t (stTokens s)\<rparr>,
     fs\<lparr>enFile := TokenFile (map snd (gm_put (TokValue t) t (stTokens s)))\<rparr>)"
    by (simp add: Put_def flush_cases(1))
  obtain m where "flush (Some f) (s\<lparr>stTokens := gm_put (TokValue t) t (stTokens s)\<rparr>) fs = (Some m, fs)" using flush_cases(2) by blast
  then show "snd (Put (Some f) t (s, fs)) = (s\<lparr>stTokens := gm_put (TokValue t) t (stTokens s)\<rparr>, fs)" by (simp add: Put_def)
qed

text \<open>Consuming or marking: refused without a trace, marked and written, or marked and not written.\<close>

lemma consume_cases:
  obtains (refused) e s1 where "ValidateAndConsume f now v (s, fs) = (Inl e, s1, fs)" "gm_get (stTokens s1) = gm_get (stTokens s)"
      "tokens_ok (stTokens s) \<longrightarrow> tokens_ok (stTokens s1)"
  | (spent) t s1 where "gm_get (stTokens s) v = Some t" "\<not> Used t" "\<not> IsExpired now t" "f = None"
      "s1 = s\<lparr>stTokens := gm_put v (t\<lparr>Used := True\<rparr>) (stTokens s)\<rparr>"
      "ValidateAndConsume f now v (s, fs) = (Inr (t\<lparr>Used := True\<rparr>), s1, fs\<lparr>enFile := TokenFile (map snd (stTokens s1))\<rparr>)"
proof (cases "\<exists>t. gm_get (stTokens s) v = Some t \<and> \<not> Used t \<and> \<not> IsExpired now t")
  case True
  then obtain t where t: "gm_get (stTokens s) v = Some t" "\<not> Used t" "\<not> IsExpired now t" by blast
  show thesis
  proof (cases f)
    case None
    with t show thesis by (intro spent [OF t None refl]) (simp add: ValidateAndConsume_def flush_cases(1))
  next
    case (Some ff)
    let ?s = "s\<lparr>stTokens := gm_put v (t\<lparr>Used := True\<rparr>) (stTokens s)\<rparr>"
    obtain m where "flush f ?s fs = (Some m, fs)" using flush_cases(2) Some by blast
    then have "ValidateAndConsume f now v (s, fs) = (Inl ''persist token'', s\<lparr>stTokens := gm_put v (t\<lparr>Used := False\<rparr>) (stTokens ?s)\<rparr>, fs)"
      using t by (simp add: ValidateAndConsume_def)
    also have "t\<lparr>Used := False\<rparr> = t" using t(2) by (cases t) simp
    finally have "ValidateAndConsume f now v (s, fs) = (Inl ''persist token'', s\<lparr>stTokens := gm_put v t (stTokens ?s)\<rparr>, fs)" .
    then show thesis using t(1) by (intro refused) (auto simp: gomap_simps tokens_ok_def fun_eq_iff split: if_splits)
  qed
next
  case False
  then have "\<exists>e. ValidateAndConsume f now v (s, fs) = (Inl e, s, fs)"
    by (cases "gm_get (stTokens s) v") (auto simp: ValidateAndConsume_def)
  then show thesis using refused by blast
qed

lemma load_tokens:
  assumes "tokens_ok m"
  shows "tokens_ok (foldl (\<lambda>m t. gm_put (TokValue t) t m) m ts)"
    and "(\<forall>t. gm_get m v = Some t \<longrightarrow> Used t) \<Longrightarrow> (\<forall>t \<in> set ts. TokValue t = v \<longrightarrow> Used t) \<Longrightarrow>
      gm_get (foldl (\<lambda>m t. gm_put (TokValue t) t m) m ts) v = Some t \<Longrightarrow> Used t"
  using assms
proof (induction ts arbitrary: m)
  case (Cons u ts)
  {
    case 1
    then show ?case using Cons.IH(1) by auto
  next
    case 2
    have "\<forall>t. gm_get (gm_put (TokValue u) u m) v = Some t \<longrightarrow> Used t" using 2(1,2) by (auto simp: gomap_simps split: if_splits)
    then show ?case using Cons.IH(2) [of "gm_put (TokValue u) u m"] 2 by auto
  }
qed auto

lemma mark_cases:
  obtains (refused) e where "Store_MarkUsed f now v (s, fs) = (Some e, s, fs)"
  | (marked) t s1 e fs1 where "gm_get (stTokens s) v = Some t" "\<not> Used t"
      "s1 = s\<lparr>stTokens := gm_put v (t\<lparr>Used := True\<rparr>) (stTokens s)\<rparr>" "Store_MarkUsed f now v (s, fs) = (e, s1, fs1)"
      "e = None \<and> fs1 = fs\<lparr>enFile := TokenFile (map snd (stTokens s1))\<rparr> \<or> e \<noteq> None \<and> fs1 = fs"
proof (cases "\<exists>t. gm_get (stTokens s) v = Some t \<and> \<not> Used t \<and> \<not> IsExpired now t")
  case True
  then obtain t where t: "gm_get (stTokens s) v = Some t" "\<not> Used t" "\<not> IsExpired now t" by blast
  let ?s = "s\<lparr>stTokens := gm_put v (t\<lparr>Used := True\<rparr>) (stTokens s)\<rparr>"
  obtain e fs1 where fl: "flush f ?s fs = (e, fs1)" by (cases "flush f ?s fs")
  then have "e = None \<and> fs1 = fs\<lparr>enFile := TokenFile (map snd (stTokens ?s))\<rparr> \<or> e \<noteq> None \<and> fs1 = fs"
    using flush_cases(1) [of ?s fs] flush_cases(2) [of "the f" ?s fs] by (cases f) auto
  moreover have "Store_MarkUsed f now v (s, fs) = (e, ?s, fs1)" using t fl by (simp add: Store_MarkUsed_def Token_MarkUsed_def)
  ultimately show thesis using t by (intro marked [OF t(1,2) refl]) simp_all
next
  case False
  then have "\<exists>e. Store_MarkUsed f now v (s, fs) = (Some e, s, fs)"
    by (cases "gm_get (stTokens s) v") (auto simp: Store_MarkUsed_def Token_MarkUsed_def)
  then show thesis using refused by blast
qed

lemma NewStore_Inr:
  assumes "NewStore d fs = Inr s"
  shows "tokens_ok (stTokens s) \<and> (\<forall>v t. file_used v fs \<longrightarrow> gm_get (stTokens s) v = Some t \<longrightarrow> Used t)"
proof -
  have nil: "tokens_ok []" by (simp add: tokens_ok_def)
  show ?thesis
  proof (cases "enFile fs")
    case (TokenFile ts)
    then have s: "stTokens s = foldl (\<lambda>m t. gm_put (TokValue t) t m) [] ts" using assms by (auto simp: NewStore_def split: if_splits)
    have "Used t" if "file_used v fs" "gm_get (stTokens s) v = Some t" for v t
      using load_tokens(2) [OF nil, of v ts t] that TokenFile s by (simp add: file_used_def)
    then show ?thesis using load_tokens(1) [OF nil] s by simp
  qed (use assms nil in \<open>auto simp: NewStore_def split: if_splits\<close>)
qed

text \<open>The states an operation leads to.\<close>

lemma enroll_spent_put:
  assumes "tokens_ok (stTokens s)" and "gm_get (stTokens s) v = Some t"
  shows "enroll_spent v (Some (s\<lparr>stTokens := gm_put v (t\<lparr>Used := True\<rparr>) (stTokens s)\<rparr>),
      fs\<lparr>enFile := TokenFile (map snd (gm_put v (t\<lparr>Used := True\<rparr>) (stTokens s)))\<rparr>)"
proof -
  have "TokValue t = v" using assms by (simp add: tokens_ok_def)
  then have "file_used v (fs\<lparr>enFile := TokenFile (map snd (gm_put v (t\<lparr>Used := True\<rparr>) (stTokens s)))\<rparr>)"
    using assms by (intro file_used_tokens tokens_ok_put) (auto simp: gomap_simps)
  then show ?thesis by (simp add: enroll_spent_def gomap_simps)
qed

lemma enroll_step_ok:
  assumes "enroll_ok st"
  shows "enroll_ok (enroll_step x st)"
proof (cases "(x, st)" rule: enroll_step.cases)
  case (1 t f s fs)
  with assms show ?thesis using Put_cases [where t = t and s = s and fs = fs] by (cases f) (auto simp: enroll_ok_def)
next
  case (2 v now f s fs)
  then have ok: "tokens_ok (stTokens s)" using assms by (simp add: enroll_ok_def)
  show ?thesis
  proof (cases rule: consume_cases [of f now v s fs])
    case (spent t s1)
    moreover have "TokValue t = v" using ok spent(1) by (simp add: tokens_ok_def)
    ultimately show ?thesis using 2 ok by (auto simp: enroll_ok_def)
  qed (use 2 ok in \<open>auto simp: enroll_ok_def\<close>)
next
  case (3 v now f s fs)
  then have ok: "tokens_ok (stTokens s)" using assms by (simp add: enroll_ok_def)
  show ?thesis
  proof (cases rule: mark_cases [of f now v s fs])
    case (marked t s1)
    moreover have "TokValue t = v" using ok marked(1) by (simp add: tokens_ok_def)
    ultimately show ?thesis using 3 ok by (auto simp: enroll_ok_def)
  qed (use 3 ok in \<open>auto simp: enroll_ok_def\<close>)
next
  case (4 d s fs)
  then show ?thesis using NewStore_Inr [of d fs] by (auto simp: enroll_ok_def split: sum.split)
qed (use assms in \<open>auto simp: enroll_ok_def\<close>)

lemma enroll_spends_spent:
  assumes "enroll_ok st" and "enroll_spends v x st"
  shows "enroll_spent v (enroll_step x st)"
proof (cases "(v, x, st)" rule: enroll_spends.cases)
  case (1 v v' now f s fs)
  then have ok: "tokens_ok (stTokens s)" using assms by (simp add: enroll_ok_def)
  show ?thesis
    using 1 assms(2) ok by (cases rule: consume_cases [of f now v s fs]) (auto simp: enroll_spent_put)
next
  case (2 v v' now f s fs)
  then have ok: "tokens_ok (stTokens s)" using assms by (simp add: enroll_ok_def)
  show ?thesis
    using 2 assms(2) ok by (cases rule: mark_cases [of f now v s fs]) (auto simp: enroll_spent_put)
qed (use assms(2) in simp_all)

lemma enroll_spent_stays:
  assumes "enroll_ok st" and "enroll_spent v st" and "\<not> enroll_reissues v x"
  shows "enroll_spent v (enroll_step x st)"
proof (cases "(x, st)" rule: enroll_step.cases)
  case (1 t f s fs)
  let ?m = "gm_put (TokValue t) t (stTokens s)"
  have used: "\<forall>t. gm_get ?m v = Some t \<longrightarrow> Used t" and ok: "tokens_ok ?m" and fs: "file_used v fs"
    using assms 1 by (auto simp: enroll_spent_def enroll_ok_def gomap_simps)
  show ?thesis
    using used fs file_used_tokens [OF ok used, of fs] Put_cases [where t = t and s = s and fs = fs] 1
    by (cases f) (auto simp: enroll_spent_def split: option.split)
next
  case (2 v' now f s fs)
  then have ok: "tokens_ok (stTokens s)" and used: "\<forall>t. gm_get (stTokens s) v = Some t \<longrightarrow> Used t" and fs: "file_used v fs"
    using assms by (auto simp: enroll_ok_def enroll_spent_def)
  show ?thesis
  proof (cases rule: consume_cases [of f now v' s fs])
    case (spent t s1)
    then have "tokens_ok (stTokens s1)" "\<forall>t. gm_get (stTokens s1) v = Some t \<longrightarrow> Used t"
      using ok used by (auto simp: tokens_ok_def gomap_simps)
    then show ?thesis using 2 spent(6) file_used_tokens [of "stTokens s1" v fs] by (auto simp: enroll_spent_def split: option.split)
  qed (use 2 used fs in \<open>auto simp: enroll_spent_def split: option.split\<close>)
next
  case (3 v' now f s fs)
  then have ok: "tokens_ok (stTokens s)" and used: "\<forall>t. gm_get (stTokens s) v = Some t \<longrightarrow> Used t" and fs: "file_used v fs"
    using assms by (auto simp: enroll_ok_def enroll_spent_def)
  show ?thesis
  proof (cases rule: mark_cases [of f now v' s fs])
    case (marked t s1 e fs1)
    then have "tokens_ok (stTokens s1)" "\<forall>t. gm_get (stTokens s1) v = Some t \<longrightarrow> Used t"
      using ok used by (auto simp: tokens_ok_def gomap_simps)
    then show ?thesis using 3 marked(4,5) fs file_used_tokens [of "stTokens s1" v fs] by (auto simp: enroll_spent_def split: option.split)
  qed (use 3 used fs in \<open>auto simp: enroll_spent_def split: option.split\<close>)
next
  case (4 d s fs)
  then show ?thesis using NewStore_Inr [of d fs] assms(2) by (auto simp: enroll_spent_def split: sum.split option.split)
qed (use assms in \<open>auto simp: enroll_spent_def\<close>)

interpretation es: one_time enroll_step enroll_ok enroll_spends enroll_spent enroll_reissues
proof
  fix st :: enroll_state and x v
  assume "enroll_ok st"
  then show "enroll_ok (enroll_step x st)" by (rule enroll_step_ok)
  from \<open>enroll_ok st\<close> show "enroll_spends v x st \<Longrightarrow> enroll_spent v (enroll_step x st)" by (rule enroll_spends_spent)
  from \<open>enroll_ok st\<close> show "enroll_spent v st \<Longrightarrow> \<not> enroll_reissues v x \<Longrightarrow> enroll_spent v (enroll_step x st)"
    by (rule enroll_spent_stays)
  show "\<not> enroll_spends v x st" if "enroll_spent v st"
    using that by (cases "(v, x, st)" rule: enroll_spends.cases)
      (auto simp: enroll_spent_def ValidateAndConsume_def Store_MarkUsed_def Token_MarkUsed_def split: option.splits if_splits)
qed

text \<open>
  C14. An enrollment token is good for one enrollment: over any operations on the store, with any faults of the
  file system and any restarts of the daemon between them, at most one consumption of a token reports success,
  unless a token of the same value is put again.
\<close>

theorem token_spent_once:
  assumes "NewStore True fs = Inr s" and "\<forall>x \<in> set ops. \<not> enroll_reissues v x"
  shows "times_spent enroll_step (enroll_spends v) ops (Some s, fs) \<le> 1"
proof (rule es.at_most_once)
  show "enroll_ok (Some s, fs)" using NewStore_Inr [OF assms(1)] by (simp add: enroll_ok_def)
qed (use assms(2) in blast)

definition demo_token :: Token where
  "demo_token = \<lparr>TokValue = ''brg_enroll_01'', Identity = ''alice'', TokExpiresAt = 900, Used = False, TokCreatedAt = 0,
     CreatedBy = '''', ServerURL = '''', CAFingerprint = ''''\<rparr>"

text \<open>The first attempt cannot write the file, the second succeeds, the third comes after a restart.\<close>

theorem token_spent_once_witness:
  "times_spent enroll_step (enroll_spends ''brg_enroll_01'')
     [OpConsume ''brg_enroll_01'' 5 (Some RenameFails), OpConsume ''brg_enroll_01'' 6 None, OpRestart True, OpConsume ''brg_enroll_01'' 7 None]
     (Some \<lparr>stTokens = [(''brg_enroll_01'', demo_token)]\<rparr>, \<lparr>enFile = TokenFile [demo_token], enTemps = 0\<rparr>) = 1"
proof -
  let ?fs = "\<lparr>enFile = TokenFile [demo_token], enTemps = 0\<rparr>" and ?s = "\<lparr>stTokens = [(''brg_enroll_01'', demo_token)]\<rparr>"
  let ?ops = "[OpConsume ''brg_enroll_01'' 5 (Some RenameFails), OpConsume ''brg_enroll_01'' 6 None, OpRestart True, OpConsume ''brg_enroll_01'' 7 None]"
  have "NewStore True ?fs = Inr ?s" by (simp add: NewStore_def demo_token_def)
  then have le: "times_spent enroll_step (enroll_spends ''brg_enroll_01'') ?ops (Some ?s, ?fs) \<le> Suc 0"
    unfolding One_nat_def [symmetric] by (rule token_spent_once) simp
  have "0 < times_spent enroll_step (enroll_spends ''brg_enroll_01'') ?ops (Some ?s, ?fs)"
    by (simp add: ValidateAndConsume_def demo_token_def IsExpired_def flush_def)
  then show ?thesis unfolding One_nat_def by (intro le_antisym [OF le] Suc_leI)
qed

text \<open>
  The file protects one process only. A second store opened before the token was consumed (such as the
  command line tool creating another token) writes its own view back, and after the next restart the consumed
  token is accepted again.
\<close>

theorem two_stores_double_spend:
  assumes "NewStore True fs = Inr s" and "gm_get (stTokens s) v = Some t" and "\<not> Used t" and "now \<le> TokExpiresAt t"
    and "TokValue u \<noteq> v"
  shows "\<exists>t1 s1 fs1 s2 fs2 s3 t3 s4 fs4. ValidateAndConsume None now v (s, fs) = (Inr t1, s1, fs1) \<and>
    Put None u (s, fs1) = (None, s2, fs2) \<and> NewStore True fs2 = Inr s3 \<and> ValidateAndConsume None now v (s3, fs2) = (Inr t3, s4, fs4)"
proof -
  define m where "m = gm_put (TokValue u) u (stTokens s)"
  have ok: "tokens_ok (stTokens s)" using NewStore_Inr [OF assms(1)] by simp
  have m: "gm_get m v = Some t" "tokens_ok m" using assms(2,5) ok by (auto simp: m_def gomap_simps)
  have all: "foldl (\<lambda>m t. gm_put (TokValue t) t m) a (map snd b) = a @ b" if "tokens_ok (a @ b)" for a b
    using that
  proof (induction b arbitrary: a)
    case (Cons p b)
    obtain k x where p: "p = (k, x)" by (cases p)
    have "gm_get (a @ p # b) k = Some x" using Cons.prems p by (intro map_of_is_SomeI) (auto simp: tokens_ok_def)
    then have k: "TokValue x = k" "k \<notin> fst ` set a" using Cons.prems p by (auto simp: tokens_ok_def)
    then have "gm_put k x a = a @ [(k, x)]" by (simp add: updates_append_drop update_filter) (induction a; force)
    then show ?case using Cons.IH [of "a @ [p]"] Cons.prems p k by simp
  qed simp
  have "NewStore True (fs'\<lparr>enFile := TokenFile (map snd m)\<rparr>) = Inr \<lparr>stTokens = m\<rparr>" for fs'
    using all [of "[]" m] m(2) by (simp add: NewStore_def)
  then show ?thesis
    using assms m by (simp add: ValidateAndConsume_def Put_def flush_cases(1) IsExpired_def not_less m_def [symmetric])
qed

theorem two_stores_double_spend_witness:
  "\<exists>t1 s1 fs1 s2 fs2 s3 t3 s4 fs4.
    ValidateAndConsume None 5 ''brg_enroll_01'' (\<lparr>stTokens = [(''brg_enroll_01'', demo_token)]\<rparr>, \<lparr>enFile = TokenFile [demo_token], enTemps = 0\<rparr>)
      = (Inr t1, s1, fs1) \<and>
    Put None (demo_token\<lparr>TokValue := ''brg_enroll_02''\<rparr>) (\<lparr>stTokens = [(''brg_enroll_01'', demo_token)]\<rparr>, fs1) = (None, s2, fs2) \<and>
    NewStore True fs2 = Inr s3 \<and> ValidateAndConsume None 5 ''brg_enroll_01'' (s3, fs2) = (Inr t3, s4, fs4)"
  by (rule two_stores_double_spend [where t = demo_token]) (simp_all add: NewStore_def demo_token_def)

end
