(* ===== verification/Server.thy ===== *)
theory Server
  imports Attach_Stream Rate_Limit Enrollment
begin

text \<open>
  \<open>internal/server\<close>: the request handlers of the daemon. A handler takes the readings of the clock, the
  context of the request and the request's fields, and maps the state of the server to the answer (a status code
  or a response) and the new state; it can panic where the supervisor does. What the handlers use of the system
  and of libraries (bbolt, the terminal emulator, UUID parsing, directories, X.509) is in \<open>server_env\<close>.
\<close>

declare map_of_eq_Some_iff [simp del] Some_eq_map_of_iff [simp del]

section \<open>State\<close>

datatype parsed_key = BadKey | Ed25519Key pubkey | OtherKey

record pkix_name =
  CommonName :: string
  OtherNames :: "(string \<times> string) list"

datatype KeyUsage = KeyUsageDigitalSignature | KeyUsageCertSign | KeyUsageCRLSign

datatype ExtKeyUsage = ExtKeyUsageServerAuth | ExtKeyUsageClientAuth

record csr =
  csrSubject :: pkix_name
  csrDNSNames :: "string list"
  csrIPAddresses :: "string list"
  csrPublicKey :: bytes
  csrSignatureOK :: bool

record cert_template =
  tmplSerial :: int
  tmplSubject :: pkix_name
  tmplDNSNames :: "string list"
  tmplIPAddresses :: "string list"
  tmplNotBefore :: go_time
  tmplNotAfter :: go_time
  tmplExtKeyUsage :: "ExtKeyUsage list"
  tmplKeyUsage :: "KeyUsage list"

record server_env =
  evBolt :: bolt
  evVT :: vt
  evUUID :: "string \<Rightarrow> bool"
  evCwd :: "string option"
  evSpawn :: "Provider \<Rightarrow> SessionConfig \<Rightarrow> bridge_error + int"
  evStat :: "string \<Rightarrow> string + bool"
  evCreateTemp :: "string \<Rightarrow> bool"
  evReport :: "SessionInfo \<Rightarrow> string \<Rightarrow> string \<Rightarrow> bytes option"
  evParseKey :: "bytes \<Rightarrow> parsed_key"
  evParseCSR :: "bytes \<Rightarrow> csr option"
  evLoadCA :: "string \<Rightarrow> string \<Rightarrow> bytes option"
  evSerial :: "int option"
  evSign :: "cert_template \<Rightarrow> bytes \<Rightarrow> bytes \<Rightarrow> bytes option"
  evNotAfter :: "bytes \<Rightarrow> go_time option"
  evReadFile :: "string \<Rightarrow> bytes option"
  evWriteKey :: "string \<Rightarrow> bool"
  evMkdir :: "string \<Rightarrow> bool"
  evFlush :: "flush_fault option"

text \<open>\<open>keyFiles\<close> are the public keys written below \<open>certsDir\<close>, \<open>enrollFs\<close> the file of the token store.\<close>

record BridgeServer =
  supervisor :: Supervisor
  globalRL :: "keyedLimiter option"
  startRL :: "keyedLimiter option"
  writeRL :: "keyedLimiter option"
  serverInstanceID :: string
  providerFallbacks :: "(string, string list) gomap"
  jwtVerifier :: "JWTVerifier option"
  certsDir :: string
  diagnoseStateDir :: string
  enrollStore :: "EnrollStore option"
  version :: string
  keyFiles :: "(string, pubkey) gomap"
  enrollFs :: enrollFS

record RateLimitConfig =
  GlobalRPS :: rat
  GlobalBurst :: int
  StartSessionPerClientRPS :: rat
  StartSessionPerClientBurst :: int
  SendInputPerSessionRPS :: rat
  SendInputPerSessionBurst :: int

definition New ::
  "Supervisor \<Rightarrow> RateLimitConfig \<Rightarrow> string \<Rightarrow> (string, string list) gomap \<Rightarrow> JWTVerifier option \<Rightarrow> string \<Rightarrow> string \<Rightarrow> BridgeServer" where
  "New sv rl instID fallbacks ver dir vers =
     \<lparr>supervisor = sv, globalRL = Some (newKeyedLimiter (GlobalRPS rl) (GlobalBurst rl)),
      startRL = Some (newKeyedLimiter (StartSessionPerClientRPS rl) (StartSessionPerClientBurst rl)),
      writeRL = Some (newKeyedLimiter (SendInputPerSessionRPS rl) (SendInputPerSessionBurst rl)),
      serverInstanceID = instID, providerFallbacks = fallbacks, jwtVerifier = ver, certsDir = dir, diagnoseStateDir = '''',
      enrollStore = None, version = vers, keyFiles = [], enrollFs = \<lparr>enFile = NoFile, enTemps = 0\<rparr>\<rparr>"

definition SetDiagnoseStateDir :: "BridgeServer \<Rightarrow> string \<Rightarrow> BridgeServer" where
  "SetDiagnoseStateDir s dir = s\<lparr>diagnoseStateDir := dir\<rparr>"

definition SetEnrollmentStore :: "BridgeServer \<Rightarrow> EnrollStore option \<Rightarrow> BridgeServer" where
  "SetEnrollmentStore s st = s\<lparr>enrollStore := st\<rparr>"

section \<open>Validation\<close>

definition validateStringField :: "string \<Rightarrow> nat \<Rightarrow> bool \<Rightarrow> grpc_code option" where
  "validateStringField value maxLen allowWhitespaceControl =
     (if value = '''' then Some InvalidArgument
      else if \<not> ValidString value then Some InvalidArgument
      else if maxLen < length value then Some InvalidArgument
      else if \<exists>r \<in> set (runes (codes value)). (r = 127 \<or> r < 32) \<and> \<not> (allowWhitespaceControl \<and> (r = 10 \<or> r = 13 \<or> r = 9))
      then Some InvalidArgument
      else None)"

definition validateUUIDField :: "(string \<Rightarrow> bool) \<Rightarrow> string \<Rightarrow> grpc_code option" where
  "validateUUIDField uuidParse value =
     (case validateStringField value 64 False of
        Some e \<Rightarrow> Some e
      | None \<Rightarrow> if uuidParse value then None else Some InvalidArgument)"

definition validateOptionalStringField :: "string \<Rightarrow> nat \<Rightarrow> bool \<Rightarrow> grpc_code option" where
  "validateOptionalStringField value maxLen allowWs = (if value = '''' then None else validateStringField value maxLen allowWs)"

definition validateByteField :: "bytes \<Rightarrow> nat \<Rightarrow> grpc_code option" where
  "validateByteField value maxLen =
     (if value = [] then Some InvalidArgument else if maxLen < length value then Some InvalidArgument else None)"

section \<open>Errors, claims and authorisation\<close>

fun mapBridgeError :: "bridge_error \<Rightarrow> grpc_code" where
  "mapBridgeError ErrInvalidArgument = InvalidArgument"
| "mapBridgeError ErrSessionNotRunning = InvalidArgument"
| "mapBridgeError ErrSessionNotFound = NotFound"
| "mapBridgeError ErrSessionAlreadyExists = AlreadyExists"
| "mapBridgeError ErrWriterConflict = AlreadyExists"
| "mapBridgeError ErrSessionAlreadyAttached = ResourceExhausted"
| "mapBridgeError ErrInputTooLarge = ResourceExhausted"
| "mapBridgeError ErrClientNotAttached = PermissionDenied"
| "mapBridgeError ErrClientMismatch = PermissionDenied"
| "mapBridgeError ErrProviderUnavailable = Unavailable"
| "mapBridgeError ErrSessionRecoveryUnavailable = Unavailable"
| "mapBridgeError ErrSupervisorShuttingDown = Unavailable"
| "mapBridgeError ErrRepoSetupFailed = FailedPrecondition"
| "mapBridgeError ErrSessionLimitReached = ResourceExhausted"
| "mapBridgeError _ = Internal"

definition mustClaims :: "rpc_context \<Rightarrow> grpc_code + BridgeClaims" where
  "mustClaims ctx = (case ClaimsFromContext ctx of None \<Rightarrow> Inl Unauthenticated | Some c \<Rightarrow> Inr c)"

definition authorizeProject :: "BridgeClaims \<Rightarrow> string \<Rightarrow> grpc_code option" where
  "authorizeProject claims projectID =
     (if ClProjectID claims \<noteq> '''' \<and> ClProjectID claims \<noteq> projectID then Some PermissionDenied else None)"

definition authorizeSession :: "BridgeServer \<Rightarrow> BridgeClaims \<Rightarrow> string \<Rightarrow> grpc_code option" where
  "authorizeSession s claims sessionID =
     (case Get (supervisor s) sessionID of
        Inl e \<Rightarrow> Some (mapBridgeError e)
      | Inr i \<Rightarrow> authorizeProject claims (ProjectID i))"

section \<open>Handlers as state transformers\<close>

type_synonym 'r rpc = "BridgeServer \<Rightarrow> ((grpc_code + 'r) \<times> BridgeServer) outcome"

type_synonym clock = "nat \<Rightarrow> go_time"

text \<open>\<open>if err := \<dots>; err != nil { return nil, err }\<close>, and the limiter that guards every handler.\<close>

definition require :: "grpc_code option \<Rightarrow> 'r rpc \<Rightarrow> 'r rpc" where
  [rpc_defs]: "require err k = (\<lambda>s. case err of Some e \<Rightarrow> Ret (Inl e, s) | None \<Rightarrow> k s)"

definition global_limit :: "go_time \<Rightarrow> 'r rpc \<Rightarrow> 'r rpc" where
  [rpc_defs]: "global_limit now k = (\<lambda>s.
     let (ok, g) = limiter_allow now ''global'' (globalRL s); s1 = s\<lparr>globalRL := g\<rparr>
     in if ok then k s1 else Ret (Inl ResourceExhausted, s1))"

definition with_claims :: "rpc_context \<Rightarrow> (BridgeClaims \<Rightarrow> 'r rpc) \<Rightarrow> 'r rpc" where
  [rpc_defs]: "with_claims ctx k = (\<lambda>s. case mustClaims ctx of Inl e \<Rightarrow> Ret (Inl e, s) | Inr c \<Rightarrow> k c s)"

definition with_supervisor :: "BridgeServer \<Rightarrow> Supervisor \<Rightarrow> BridgeServer" where
  [rpc_defs]: "with_supervisor s sv = s\<lparr>supervisor := sv\<rparr>"

section \<open>Sessions\<close>

datatype SessionStatus =
    STATUS_UNSPECIFIED | STATUS_STARTING | STATUS_RUNNING | STATUS_ATTACHED | STATUS_STOPPING | STATUS_STOPPED | STATUS_FAILED

fun mapState :: "SessionState \<Rightarrow> SessionStatus" where
  "mapState SessionStateStarting = STATUS_STARTING"
| "mapState SessionStateRunning = STATUS_RUNNING"
| "mapState SessionStateAttached = STATUS_ATTACHED"
| "mapState SessionStateStopping = STATUS_STOPPING"
| "mapState SessionStateStopped = STATUS_STOPPED"
| "mapState SessionStateFailed = STATUS_FAILED"
| "mapState (SessionStateOther _) = STATUS_UNSPECIFIED"

text \<open>\<open>checkDirReadWrite\<close>: the reason of a refusal; the probe file is removed again.\<close>

definition checkDirReadWrite :: "server_env \<Rightarrow> string \<Rightarrow> string option" where
  "checkDirReadWrite E dir =
     (case evStat E dir of
        Inl e \<Rightarrow> Some e
      | Inr isDir \<Rightarrow>
          if \<not> isDir then Some ''not a directory''
          else if \<not> evCreateTemp E dir then Some ''not writable''
          else None)"

definition agent_opts :: "string \<Rightarrow> (string, string) gomap \<Rightarrow> (string, string) gomap" where
  "agent_opts prov opts = foldl (\<lambda>m (k, v). gm_put k v m) [(''provider'', prov)] opts"

record StartSessionRequest =
  ReqProjectId :: string
  ReqSessionId :: string
  ReqRepoPath :: string
  ReqProvider :: string
  ReqAgentOpts :: "(string, string) gomap"
  ReqInitialCols :: u32
  ReqInitialRows :: u32

definition start_config :: "BridgeServer \<Rightarrow> StartSessionRequest \<Rightarrow> SessionConfig" where
  "start_config s req =
     \<lparr>CfgProjectID = ReqProjectId req, CfgSessionID = ReqSessionId req, CfgRepoPath = ReqRepoPath req,
      Options = agent_opts (ReqProvider req) (ReqAgentOpts req), Env = None,
      Fallbacks = (case gm_get (providerFallbacks s) (ReqProvider req) of None \<Rightarrow> [] | Some fs \<Rightarrow> fs),
      InitialCols = ReqInitialCols req, InitialRows = ReqInitialRows req\<rparr>"

definition StartSession ::
  "server_env \<Rightarrow> clock \<Rightarrow> rpc_context \<Rightarrow> StartSessionRequest \<Rightarrow> (string \<times> SessionStatus \<times> go_time) rpc" where
  [rpc_defs]: "StartSession E clk ctx req =
     global_limit (clk 0) (with_claims ctx (\<lambda>claims.
       require (validateStringField (ReqProjectId req) 128 False) (
       require (validateUUIDField (evUUID E) (ReqSessionId req)) (
       require (validateStringField (ReqRepoPath req) 4096 False) (
       require (validateStringField (ReqProvider req) 64 False) (
       require (authorizeProject claims (ReqProjectId req)) (\<lambda>s.
         let clientID = (if Subject claims = '''' then ClProjectID claims else Subject claims);
             (ok, rl) = limiter_allow (clk 1) clientID (startRL s);
             s1 = s\<lparr>startRL := rl\<rparr>
         in if \<not> ok then Ret (Inl ResourceExhausted, s1)
            else require (map_option (\<lambda>_. PermissionDenied) (checkDirReadWrite E (ReqRepoPath req))) (\<lambda>s.
              (case Start (evBolt E) (evCwd E) (evSpawn E) (clk 2) (supervisor s) (start_config s req) of
                 (Inl e, sv) \<Rightarrow> Ret (Inl (mapBridgeError e), with_supervisor s sv)
               | (Inr i, sv) \<Rightarrow> Ret (Inr (SessionID i, mapState (State i), CreatedAt i), with_supervisor s sv))) s1)))))))"

definition StopSession :: "server_env \<Rightarrow> clock \<Rightarrow> rpc_context \<Rightarrow> string \<Rightarrow> bool \<Rightarrow> SessionStatus rpc" where
  [rpc_defs]: "StopSession E clk ctx sid force =
     global_limit (clk 0) (with_claims ctx (\<lambda>claims.
       require (validateUUIDField (evUUID E) sid) (\<lambda>s.
       require (authorizeSession s claims sid) (\<lambda>s.
         (case Stop (evBolt E) (supervisor s) sid force of
            (Some e, sv) \<Rightarrow> Ret (Inl (mapBridgeError e), with_supervisor s sv)
          | (None, sv) \<Rightarrow> Ret (Inr STATUS_STOPPING, with_supervisor s sv))) s)))"

text \<open>\<open>interactionToProto\<close> and \<open>sessionInfoToProto\<close>; an unset timestamp is \<open>None\<close>.\<close>

record SessionInteraction =
  SiState :: string
  SiRevision :: u64
  SiSource :: string
  SiCapability :: InteractionCapabilities
  SiUpdatedAt :: "go_time option"
  SiLastActivityAt :: "go_time option"
  SiPending :: "PendingRequest option"

definition unless_zero :: "go_time \<Rightarrow> go_time option" where
  "unless_zero t = (if t = 0 then None else Some t)"

definition interactionToProto :: "Interaction \<Rightarrow> SessionInteraction" where
  "interactionToProto i =
     \<lparr>SiState = EffectiveState i, SiRevision = Revision i, SiSource = Source (Evidence i), SiCapability = Capability (Evidence i),
      SiUpdatedAt = unless_zero (UpdatedAt i), SiLastActivityAt = unless_zero (LastActivityAt i), SiPending = Pending i\<rparr>"

record GetSessionResponse =
  RespSessionId :: string
  RespProjectId :: string
  RespProvider :: string
  RespRepoPath :: string
  RespStatus :: SessionStatus
  RespCreatedAt :: go_time
  RespStoppedAt :: "go_time option"
  RespError :: string
  RespAttached :: bool
  RespAttachedClientId :: string
  RespExitRecorded :: bool
  RespExitCode :: int
  RespOldestSeq :: u64
  RespLastSeq :: u64
  RespCols :: u32
  RespRows :: u32
  RespActiveWriterClientId :: string
  RespObserverCount :: int
  RespInteraction :: SessionInteraction

definition sessionInfoToProto :: "SessionInfo \<Rightarrow> GetSessionResponse" where
  "sessionInfoToProto i =
     \<lparr>RespSessionId = SessionID i, RespProjectId = ProjectID i, RespProvider = ProviderID i, RespRepoPath = RepoPath i,
      RespStatus = mapState (State i), RespCreatedAt = CreatedAt i, RespStoppedAt = unless_zero (StoppedAt i), RespError = Error i,
      RespAttached = Attached i, RespAttachedClientId = AttachedClientID i, RespExitRecorded = ExitRecorded i,
      RespExitCode = to_int32 (ExitCode i), RespOldestSeq = InfoOldestSeq i, RespLastSeq = InfoLastSeq i, RespCols = InfoCols i,
      RespRows = InfoRows i, RespActiveWriterClientId = ActiveWriterClientID i, RespObserverCount = to_int32 (ObserverCount i),
      RespInteraction = interactionToProto (InfoInteraction i)\<rparr>"

definition GetSession :: "server_env \<Rightarrow> clock \<Rightarrow> rpc_context \<Rightarrow> string \<Rightarrow> GetSessionResponse rpc" where
  [rpc_defs]: "GetSession E clk ctx sid =
     global_limit (clk 0) (with_claims ctx (\<lambda>claims.
       require (validateUUIDField (evUUID E) sid) (\<lambda>s.
       require (authorizeSession s claims sid) (\<lambda>s.
         (case Get (supervisor s) sid of
            Inl e \<Rightarrow> Ret (Inl (mapBridgeError e), s)
          | Inr i \<Rightarrow> Ret (Inr (sessionInfoToProto i), s))) s)))"

definition DiagnosticReportJSON :: "server_env \<Rightarrow> SessionInfo \<Rightarrow> string \<Rightarrow> string \<Rightarrow> bytes option" where
  "DiagnosticReportJSON E i stateDir vers = evReport E i stateDir (if vers = '''' then ''dev'' else vers)"

definition DiagnoseSession :: "server_env \<Rightarrow> clock \<Rightarrow> rpc_context \<Rightarrow> string \<Rightarrow> bytes rpc" where
  [rpc_defs]: "DiagnoseSession E clk ctx sid =
     global_limit (clk 0) (with_claims ctx (\<lambda>claims.
       require (validateUUIDField (evUUID E) sid) (\<lambda>s.
       require (authorizeSession s claims sid) (\<lambda>s.
         (case Get (supervisor s) sid of
            Inl e \<Rightarrow> Ret (Inl (mapBridgeError e), s)
          | Inr i \<Rightarrow>
              (case DiagnosticReportJSON E i (diagnoseStateDir s) (version s) of
                 None \<Rightarrow> Ret (Inl Internal, s)
               | Some b \<Rightarrow> Ret (Inr b, s)))) s)))"

definition ListSessions :: "clock \<Rightarrow> rpc_context \<Rightarrow> string \<Rightarrow> GetSessionResponse list rpc" where
  [rpc_defs]: "ListSessions clk ctx projectID =
     global_limit (clk 0) (with_claims ctx (\<lambda>claims s.
       if ClProjectID claims \<noteq> '''' \<and> projectID \<noteq> '''' \<and> projectID \<noteq> ClProjectID claims then Ret (Inl PermissionDenied, s)
       else Ret (Inr (map sessionInfoToProto
                        (List (supervisor s) (if ClProjectID claims \<noteq> '''' then ClProjectID claims else projectID))), s)))"

section \<open>Streams and input\<close>

text \<open>
  \<open>AttachSession\<close> up to the first event, with the client identifier it uses (\<open>fresh\<close> is \<open>generateID()\<close>), and
  its deferred detach. What it sends in between is \<open>replay_phase\<close>, \<open>live_run\<close> and \<open>live_closed\<close>.
\<close>

definition attach_begin ::
  "server_env \<Rightarrow> clock \<Rightarrow> rpc_context \<Rightarrow> string \<Rightarrow> string \<Rightarrow> string \<Rightarrow> u64 \<Rightarrow> bool \<Rightarrow> (string \<times> AttachState) rpc" where
  [rpc_defs]: "attach_begin E clk ctx fresh sid client after observer =
     global_limit (clk 0) (with_claims ctx (\<lambda>claims.
       require (validateUUIDField (evUUID E) sid) (
       require (validateOptionalStringField client 64 False) (\<lambda>s.
       require (authorizeSession s claims sid) (\<lambda>s.
         let clientID = (if client = '''' then fresh else client);
             r = (if observer then AttachRoleObserver else AttachRoleWriter)
         in outcome_bind (Attach (evBolt E) (evVT E) (clk 1) (supervisor s) sid clientID after r) (\<lambda>(res, sv).
              case res of
                Inl e \<Rightarrow> Ret (Inl (mapBridgeError e), with_supervisor s sv)
              | Inr st \<Rightarrow> Ret (Inr (clientID, st), with_supervisor s sv))) s))))"

definition attach_end :: "server_env \<Rightarrow> string \<Rightarrow> string \<Rightarrow> BridgeServer \<Rightarrow> BridgeServer outcome" where
  [rpc_defs]: "attach_end E sid clientID s =
     (case Detach (evBolt E) (supervisor s) sid clientID of
        ((wasWriter, _), sv) \<Rightarrow>
          if wasWriter then
            outcome_bind (NotifyWriterReleased (evBolt E) sv sid clientID) (\<lambda>sv1. Ret (with_supervisor s sv1))
          else Ret (with_supervisor s sv))"

text \<open>
  \<open>wr\<close> is what the write to the terminal or pipe returns; \<open>n\<close> is converted to \<open>uint32\<close>. The forced \<open>Stop\<close> of a tripped breaker runs in a
  goroutine of its own, here before the handler returns; a later time for it is a \<open>CallStop\<close> of the same session in a sequence of calls.
\<close>

definition server_WriteInput ::
  "server_env \<Rightarrow> clock \<Rightarrow> rpc_context \<Rightarrow> string \<Rightarrow> string \<Rightarrow> bytes \<Rightarrow> int \<times> bridge_error option \<Rightarrow> u32 rpc" where
  [rpc_defs]: "server_WriteInput E clk ctx sid client dat wr =
     global_limit (clk 0) (with_claims ctx (\<lambda>claims.
       require (validateUUIDField (evUUID E) sid) (
       require (validateStringField client 64 False) (
       require (validateByteField dat (2 ^ 20)) (\<lambda>s.
       require (authorizeSession s claims sid) (\<lambda>s.
         let (ok, rl) = limiter_allow (clk 1) sid (writeRL s); s1 = s\<lparr>writeRL := rl\<rparr>
         in if \<not> ok then
              (if limiter_banned (clk 2) sid rl
               then Ret (Inl Unavailable, with_supervisor s1 (snd (Stop (evBolt E) (supervisor s1) sid True)))
               else Ret (Inl ResourceExhausted, s1))
            else
              (case WriteInput (evBolt E) (clk 2) (supervisor s1) sid client dat wr of
                 ((n, Some e), sv) \<Rightarrow> Ret (Inl (mapBridgeError e), with_supervisor s1 sv)
               | ((n, None), sv) \<Rightarrow> Ret (Inr (word_of_int n), with_supervisor s1 sv))) s)))))"

definition ResizeSession ::
  "server_env \<Rightarrow> clock \<Rightarrow> rpc_context \<Rightarrow> string \<Rightarrow> string \<Rightarrow> u32 \<Rightarrow> u32 \<Rightarrow> bridge_error option \<Rightarrow> unit rpc" where
  [rpc_defs]: "ResizeSession E clk ctx sid client cols rows setsize =
     global_limit (clk 0) (with_claims ctx (\<lambda>claims.
       require (validateUUIDField (evUUID E) sid) (
       require (validateStringField client 64 False) (
       require (if cols = 0 \<or> rows = 0 then Some InvalidArgument else None) (\<lambda>s.
       require (authorizeSession s claims sid) (\<lambda>s.
         outcome_bind (Resize (evBolt E) (evVT E) (clk 1) (supervisor s) sid client cols rows setsize) (\<lambda>(res, sv).
           case res of
             Some e \<Rightarrow> Ret (Inl (mapBridgeError e), with_supervisor s sv)
           | None \<Rightarrow> Ret (Inr (), with_supervisor s sv))) s)))))"

definition server_ClaimWriter :: "server_env \<Rightarrow> clock \<Rightarrow> rpc_context \<Rightarrow> string \<Rightarrow> string \<Rightarrow> bool \<Rightarrow> string rpc" where
  [rpc_defs]: "server_ClaimWriter E clk ctx sid client force =
     global_limit (clk 0) (with_claims ctx (\<lambda>claims.
       require (validateUUIDField (evUUID E) sid) (\<lambda>s.
       require (authorizeSession s claims sid) (
       require (if client = '''' then Some InvalidArgument else None) (\<lambda>s.
         (case ClaimWriter (evBolt E) (supervisor s) sid client force of
            (Inl e, sv) \<Rightarrow> Ret (Inl (mapBridgeError e), with_supervisor s sv)
          | (Inr previous, sv) \<Rightarrow>
              outcome_bind (if previous \<noteq> '''' then NotifyWriterReleased (evBolt E) sv sid previous else Ret sv) (\<lambda>sv1.
              outcome_bind (NotifyWriterClaimed (evBolt E) sv1 sid client) (\<lambda>sv2.
                Ret (Inr previous, with_supervisor s sv2)))))) s)))"

definition server_ReleaseWriter :: "server_env \<Rightarrow> clock \<Rightarrow> rpc_context \<Rightarrow> string \<Rightarrow> string \<Rightarrow> unit rpc" where
  [rpc_defs]: "server_ReleaseWriter E clk ctx sid client =
     global_limit (clk 0) (with_claims ctx (\<lambda>claims.
       require (validateUUIDField (evUUID E) sid) (\<lambda>s.
       require (authorizeSession s claims sid) (
       require (if client = '''' then Some InvalidArgument else None) (\<lambda>s.
         (case ReleaseWriter (evBolt E) (supervisor s) sid client of
            (Some e, sv) \<Rightarrow> Ret (Inl (mapBridgeError e), with_supervisor s sv)
          | (None, sv) \<Rightarrow>
              outcome_bind (NotifyWriterReleased (evBolt E) sv sid client) (\<lambda>sv1. Ret (Inr (), with_supervisor s sv1))))) s)))"

section \<open>Providers\<close>

definition Health :: "BridgeServer \<Rightarrow> (string \<times> bool \<times> string) list \<times> string \<times> string" where
  "Health s =
     (map (\<lambda>(i, err). (i, err = None, case err of None \<Rightarrow> '''' | Some e \<Rightarrow> e)) (HealthAll (registry (supervisor s))),
      serverInstanceID s, version s)"

definition ListProviders :: "BridgeServer \<Rightarrow> (string \<times> bool \<times> string) list" where
  "ListProviders s =
     (let r = registry (supervisor s); results = HealthAll r
      in map (\<lambda>i. let healthy = (gm_get results i = None \<or> gm_get results i = Some None)
                  in (i, healthy, case registry_Get r i of Inr p \<Rightarrow> if healthy then pvVersion p else '''' | Inl _ \<Rightarrow> ''''))
             (registry_List r))"

section \<open>Keys and certificates\<close>

text \<open>\<open>safeIssuerRe\<close>.\<close>

definition alnum_char :: "char \<Rightarrow> bool" where
  "alnum_char c \<longleftrightarrow> (let n = of_char c :: nat in 48 \<le> n \<and> n \<le> 57 \<or> 65 \<le> n \<and> n \<le> 90 \<or> 97 \<le> n \<and> n \<le> 122)"

definition safeIssuer :: "string \<Rightarrow> bool" where
  "safeIssuer i = (case i of [] \<Rightarrow> False | c # cs \<Rightarrow> alnum_char c \<and> list_all (\<lambda>d. alnum_char d \<or> d \<in> {CHR ''.'', CHR ''_'', CHR ''-''}) cs)"

text \<open>The file of a key, and \<open>WritePublicKeyPEM\<close> after \<open>MkdirAll\<close>; the result is whether both succeed.\<close>

definition key_path :: "string \<Rightarrow> string \<Rightarrow> string" where
  "key_path dir issuer = path_clean (path_clean (dir @ ''/jwt-clients'') @ ''/'' @ issuer @ ''.pub'')"

definition persist_key :: "server_env \<Rightarrow> BridgeServer \<Rightarrow> string \<Rightarrow> pubkey \<Rightarrow> BridgeServer option" where
  "persist_key E s issuer key =
     (if certsDir s = '''' then Some s
      else if \<not> evMkdir E (path_clean (certsDir s @ ''/jwt-clients'')) \<or> \<not> evWriteKey E (key_path (certsDir s) issuer) then None
      else Some (s\<lparr>keyFiles := gm_put (key_path (certsDir s) issuer) key (keyFiles s)\<rparr>))"

definition RegisterJWTKey :: "server_env \<Rightarrow> clock \<Rightarrow> rpc_context \<Rightarrow> string \<Rightarrow> bytes \<Rightarrow> string rpc" where
  [rpc_defs]: "RegisterJWTKey E clk ctx reqIssuer publicKey =
     global_limit (clk 0) (\<lambda>s.
       let cn = callerCommonName ctx;
           issuer = (if reqIssuer = '''' then cn else reqIssuer)
       in if cn = '''' then Ret (Inl Unauthenticated, s)
          else if \<not> safeIssuer issuer then Ret (Inl InvalidArgument, s)
          else if issuer \<noteq> cn then Ret (Inl PermissionDenied, s)
          else if publicKey = [] then Ret (Inl InvalidArgument, s)
          else case evParseKey E publicKey of
                 BadKey \<Rightarrow> Ret (Inl InvalidArgument, s)
               | OtherKey \<Rightarrow> Ret (Inl InvalidArgument, s)
               | Ed25519Key key \<Rightarrow>
                   (case jwtVerifier s of
                      None \<Rightarrow> Ret (Inl FailedPrecondition, s)
                    | Some v \<Rightarrow>
                        (case persist_key E s issuer key of
                           None \<Rightarrow> Ret (Inl Internal, s)
                         | Some s1 \<Rightarrow> Ret (Inr issuer, s1\<lparr>jwtVerifier := Some (AddKey v issuer key)\<rparr>))))"

definition issueFromCSR :: "server_env \<Rightarrow> go_time \<Rightarrow> BridgeServer \<Rightarrow> csr \<Rightarrow> bytes option" where
  "issueFromCSR E now s r =
     (if certsDir s = '''' then None
      else case evLoadCA E (path_clean (certsDir s @ ''/ca.crt'')) (path_clean (certsDir s @ ''/ca.key'')) of
             None \<Rightarrow> None
           | Some ca \<Rightarrow>
               (case evSerial E of
                  None \<Rightarrow> None
                | Some serial \<Rightarrow>
                    evSign E \<lparr>tmplSerial = serial, tmplSubject = csrSubject r, tmplDNSNames = csrDNSNames r, tmplIPAddresses = csrIPAddresses r,
                              tmplNotBefore = now, tmplNotAfter = now + 90 * 24 * 60 * minute,
                              tmplExtKeyUsage = [ExtKeyUsageClientAuth], tmplKeyUsage = [KeyUsageDigitalSignature]\<rparr> ca (csrPublicKey r)))"

definition loadCABundle :: "server_env \<Rightarrow> BridgeServer \<Rightarrow> bytes option" where
  "loadCABundle E s =
     (case evReadFile E (path_clean (certsDir s @ ''/ca-bundle.crt'')) of
        Some d \<Rightarrow> Some d
      | None \<Rightarrow> evReadFile E (path_clean (certsDir s @ ''/ca.crt'')))"

record EnrollClientResponse =
  EcCertificate :: bytes
  EcCaBundle :: bytes
  EcIdentity :: string
  EcExpires :: "go_time option"

text \<open>\<open>EnrollClient\<close> after the token was consumed: the checks of the request, and the registration of the key.\<close>

definition register_enrolled :: "server_env \<Rightarrow> Token \<Rightarrow> pubkey \<Rightarrow> 'r rpc \<Rightarrow> 'r rpc" where
  [rpc_defs]: "register_enrolled E tok key k = (\<lambda>s.
     case jwtVerifier s of
       None \<Rightarrow> k s
     | Some v \<Rightarrow>
         if \<not> safeIssuer (Identity tok) then Ret (Inl InvalidArgument, s)
         else if Identity tok = ''local'' \<or> Identity tok = ''e2e'' then Ret (Inl InvalidArgument, s)
         else if HasKey v (Identity tok) then Ret (Inl AlreadyExists, s)
         else case persist_key E s (Identity tok) key of
                None \<Rightarrow> Ret (Inl Internal, s)
              | Some s1 \<Rightarrow> k (s1\<lparr>jwtVerifier := Some (AddKey v (Identity tok) key)\<rparr>))"

definition enroll_with ::
  "server_env \<Rightarrow> go_time \<Rightarrow> Token \<Rightarrow> bytes \<Rightarrow> bytes \<Rightarrow> EnrollClientResponse rpc" where
  [rpc_defs]: "enroll_with E now tok csrBytes keyBytes = (\<lambda>s.
     case evParseCSR E csrBytes of
       None \<Rightarrow> Ret (Inl InvalidArgument, s)
     | Some r \<Rightarrow>
         if \<not> csrSignatureOK r then Ret (Inl InvalidArgument, s)
         else if CommonName (csrSubject r) \<noteq> Identity tok then Ret (Inl InvalidArgument, s)
         else case evParseKey E keyBytes of
                BadKey \<Rightarrow> Ret (Inl InvalidArgument, s)
              | OtherKey \<Rightarrow> Ret (Inl InvalidArgument, s)
              | Ed25519Key key \<Rightarrow>
                  (case issueFromCSR E now s r of
                     None \<Rightarrow> Ret (Inl Internal, s)
                   | Some certPEM \<Rightarrow>
                       (case loadCABundle E s of
                          None \<Rightarrow> Ret (Inl Internal, s)
                        | Some bundle \<Rightarrow>
                            register_enrolled E tok key (\<lambda>s.
                              Ret (Inr \<lparr>EcCertificate = certPEM, EcCaBundle = bundle, EcIdentity = Identity tok,
                                        EcExpires = evNotAfter E certPEM\<rparr>, s)) s)))"

definition EnrollClient :: "server_env \<Rightarrow> clock \<Rightarrow> string \<Rightarrow> bytes \<Rightarrow> bytes \<Rightarrow> EnrollClientResponse rpc" where
  [rpc_defs]: "EnrollClient E clk token csrBytes keyBytes =
     global_limit (clk 0) (\<lambda>s.
       case enrollStore s of
         None \<Rightarrow> Ret (Inl FailedPrecondition, s)
       | Some st \<Rightarrow>
           if token = '''' \<or> csrBytes = [] \<or> keyBytes = [] then Ret (Inl InvalidArgument, s)
           else (case ValidateAndConsume (evFlush E) (clk 1) token (st, enrollFs s) of
                   (r, st1, fs1) \<Rightarrow>
                     (let s1 = s\<lparr>enrollStore := Some st1, enrollFs := fs1\<rparr>
                      in case r of
                           Inl _ \<Rightarrow> Ret (Inl PermissionDenied, s1)
                         | Inr tok \<Rightarrow> enroll_with E (clk 2) tok csrBytes keyBytes s1)))"

end
