(* ===== verification/Server_Properties.thy ===== *)
theory Server_Properties
  imports Server
begin

text \<open>
  What the handlers promise together with the components they call: callers are confined to the project of
  their token, keys are registered for their owner only, and an enrollment token buys one certificate.
\<close>

declare map_of_eq_Some_iff [simp del] Some_eq_map_of_iff [simp del]

section \<open>A session keeps its project and writes only its own records\<close>

fun own_effect :: "string \<Rightarrow> effect \<Rightarrow> bool" where
  "own_effect sid (PersistSession i) \<longleftrightarrow> SessionID i = sid"
| "own_effect sid (PersistChunk j c) \<longleftrightarrow> j = sid"
| "own_effect sid e \<longleftrightarrow> True"

definition keeps_owner :: "managedSession \<Rightarrow> managedSession \<Rightarrow> effect list \<Rightarrow> bool" where
  "keeps_owner ms ms' eff \<longleftrightarrow> SessionID (info ms') = SessionID (info ms) \<and> ProjectID (info ms') = ProjectID (info ms) \<and>
     list_all (own_effect (SessionID (info ms))) eff"

lemma stop_owner: "stopLocked ms force = (ms', eff) \<Longrightarrow> keeps_owner ms ms' eff"
  by (auto simp: keeps_owner_def stopLocked_def snapshotInfo_def killProcessGroup_def terminateProcessGroup_def Let_def split: if_splits)

lemma write_owner: "writeInputLocked now ms c dat wr = (r, ms', eff) \<Longrightarrow> keeps_owner ms ms' eff"
  by (auto simp: keeps_owner_def writeInputLocked_def Let_def split: if_splits option.splits prod.splits)

lemma claim_owner: "claimWriterLocked ms c force = (r, ms') \<Longrightarrow> keeps_owner ms ms' []"
  by (auto simp: keeps_owner_def claimWriterLocked_def Let_def split: if_splits option.splits)

lemma release_owner: "releaseWriterLocked ms c = (r, ms') \<Longrightarrow> keeps_owner ms ms' []"
  by (auto simp: keeps_owner_def releaseWriterLocked_def Let_def split: if_splits option.splits)

lemma fanout_owner: "fanoutControlEvent ms ty p = Ret ms' \<Longrightarrow> keeps_owner ms ms' []"
  by (auto simp: keeps_owner_def fanoutControlEvent_def Let_def outcome_bind_Ret_iff split: if_splits)

lemma append_owner: "appendChunkLocked V now ms p ty = Ret (ms', eff) \<Longrightarrow> keeps_owner ms ms' eff"
  by (auto simp: keeps_owner_def appendChunkLocked_def Let_def split_beta outcome_bind_Ret_iff split: if_splits)

lemma resize_owner: "resizeLocked V now ms c cols rows ss = Ret (r, ms', eff) \<Longrightarrow> keeps_owner ms ms' eff"
  by (auto simp: resizeLocked_def Let_def split_beta outcome_bind_Ret_iff dest!: append_owner split: if_splits option.splits) (auto simp: keeps_owner_def)

lemma attach_owner: "attachLocked V now ms c after r = Ret (res, ms', eff) \<Longrightarrow> keeps_owner ms ms' eff"
  by (auto simp: keeps_owner_def attachLocked_def Let_def split_beta outcome_bind_Ret_iff split: if_splits option.splits)

text \<open>What the database holds of a session: its record and its journal.\<close>

definition stored_of :: "Supervisor \<Rightarrow> string \<Rightarrow> (stored option \<times> (u64 \<Rightarrow> stored option)) option" where
  "stored_of sv i = map_option (\<lambda>db. (db_lookup db sessionsBucket i, \<lambda>n. db_lookup db chunksBucket (chunkKey i n))) (store sv)"

lemma chunkKey_session: "chunkKey a m = chunkKey b n \<Longrightarrow> a = b"
  by (simp add: chunkKey_def append_eq_append_conv del: hex_pad.simps)

lemma perform_stored: "own_effect sid e \<Longrightarrow> i \<noteq> sid \<Longrightarrow> stored_of (perform B sv e) i = stored_of sv i"
  by (cases e) (auto simp: sup_defs stored_of_def Save_def SaveChunk_def db_lookup_Cons fun_eq_iff dest: chunkKey_session split: option.splits)

lemma commit_stored: "list_all (own_effect sid) eff \<Longrightarrow> i \<noteq> sid \<Longrightarrow> stored_of (commit B sv sid ms eff) i = stored_of sv i"
proof -
  have "list_all (own_effect sid) es \<Longrightarrow> i \<noteq> sid \<Longrightarrow> stored_of (foldl (perform B) sv' es) i = stored_of sv' i" for es sv'
    by (induction es arbitrary: sv') (simp_all add: perform_stored [of sid])
  moreover have "stored_of (sv\<lparr>sessions := x\<rparr>) i = stored_of sv i" for x by (simp add: stored_of_def)
  ultimately show "list_all (own_effect sid) eff \<Longrightarrow> i \<noteq> sid \<Longrightarrow> ?thesis" by (simp add: commit_def)
qed

section \<open>Confinement to a project\<close>

text \<open>
  The contract of a service whose callers act for a project: a call leaves what belongs to other projects as it
  is. Then any number of calls does.
\<close>

fun run_calls :: "('c \<Rightarrow> 's \<Rightarrow> 's option) \<Rightarrow> 'c list \<Rightarrow> 's \<Rightarrow> 's option" where
  "run_calls step [] s = Some s"
| "run_calls step (c # cs) s = Option.bind (step c s) (run_calls step cs)"

locale project_scoped =
  fixes step :: "'c \<Rightarrow> 's \<Rightarrow> 's option"
    and acts_for :: "'p \<Rightarrow> 'c \<Rightarrow> bool"
    and good :: "'s \<Rightarrow> bool"
    and foreign :: "'p \<Rightarrow> 's \<Rightarrow> 'v"
  assumes scoped: "acts_for p c \<Longrightarrow> good s \<Longrightarrow> step c s = Some s' \<Longrightarrow> foreign p s' = foreign p s \<and> good s'"
begin

lemma calls_scoped: "\<forall>c \<in> set cs. acts_for p c \<Longrightarrow> good s \<Longrightarrow> run_calls step cs s = Some s' \<Longrightarrow> foreign p s' = foreign p s \<and> good s'"
proof (induction cs arbitrary: s)
  case (Cons c cs)
  then obtain s1 where "step c s = Some s1" "run_calls step cs s1 = Some s'" by (auto simp: bind_eq_Some_conv)
  with Cons.IH [of s1] Cons.prems(1,2) scoped [of p c s s1] show ?case by (metis list.set_intros)
qed simp

end

text \<open>The calls of a client that may change sessions, with the fields of the request.\<close>

datatype rpc_call =
    CallStart StartSessionRequest
  | CallStop string bool
  | CallAttach string string u64 bool string
  | CallWrite string string bytes "int \<times> bridge_error option"
  | CallResize string string u32 u32 "bridge_error option"
  | CallClaim string string bool
  | CallRelease string string
  | CallGet string
  | CallDiagnose string
  | CallList string

definition drop_result :: "((grpc_code + 'r) \<times> BridgeServer) outcome \<Rightarrow> BridgeServer option" where
  "drop_result x = (case x of Ret (_, s) \<Rightarrow> Some s | Panic \<Rightarrow> None)"

text \<open>One call in the context an interceptor made; \<open>None\<close> when the daemon panics.\<close>

fun serve :: "server_env \<Rightarrow> clock \<times> rpc_context \<times> rpc_call \<Rightarrow> BridgeServer \<Rightarrow> BridgeServer option" where
  "serve E (clk, ctx, CallStart req) s = drop_result (StartSession E clk ctx req s)"
| "serve E (clk, ctx, CallStop sid force) s = drop_result (StopSession E clk ctx sid force s)"
| "serve E (clk, ctx, CallAttach sid client after obs fresh) s = drop_result (attach_begin E clk ctx fresh sid client after obs s)"
| "serve E (clk, ctx, CallWrite sid client dat wr) s = drop_result (server_WriteInput E clk ctx sid client dat wr s)"
| "serve E (clk, ctx, CallResize sid client cols rows ss) s = drop_result (ResizeSession E clk ctx sid client cols rows ss s)"
| "serve E (clk, ctx, CallClaim sid client force) s = drop_result (server_ClaimWriter E clk ctx sid client force s)"
| "serve E (clk, ctx, CallRelease sid client) s = drop_result (server_ReleaseWriter E clk ctx sid client s)"
| "serve E (clk, ctx, CallGet sid) s = drop_result (GetSession E clk ctx sid s)"
| "serve E (clk, ctx, CallDiagnose sid) s = drop_result (DiagnoseSession E clk ctx sid s)"
| "serve E (clk, ctx, CallList p) s = drop_result (ListSessions clk ctx p s)"

definition for_project :: "string \<Rightarrow> clock \<times> rpc_context \<times> rpc_call \<Rightarrow> bool" where
  "for_project p c \<longleftrightarrow> p \<noteq> '''' \<and> (case ctxClaims (fst (snd c)) of None \<Rightarrow> True | Some cl \<Rightarrow> ClProjectID cl = p)"

text \<open>The identifiers for which the calls ask to start a session.\<close>

fun start_id :: "rpc_call \<Rightarrow> string list" where
  "start_id (CallStart req) = [ReqSessionId req]"
| "start_id _ = []"

definition started_ids :: "(clock \<times> rpc_context \<times> rpc_call) list \<Rightarrow> string set" where
  "started_ids calls = set (concat (map (start_id \<circ> snd \<circ> snd) calls))"

text \<open>
  What belongs to a project other than \<open>p\<close> under an identifier: the live session, or the session of the history, with what the database holds
  of it. Sessions that only the history knows are left out when their identifier is in \<open>ids\<close>: \<open>Start\<close> refuses identifiers of live
  sessions only.
\<close>

datatype owned = LiveSession managedSession "(stored option \<times> (u64 \<Rightarrow> stored option)) option"
  | PastSession SessionInfo "(stored option \<times> (u64 \<Rightarrow> stored option)) option"

definition foreign_sessions :: "string \<Rightarrow> string set \<Rightarrow> BridgeServer \<Rightarrow> string \<Rightarrow> owned option" where
  "foreign_sessions p ids s i =
     (case gm_get (sessions (supervisor s)) i of
        Some ms \<Rightarrow> if ProjectID (info ms) = p then None else Some (LiveSession ms (stored_of (supervisor s) i))
      | None \<Rightarrow>
          if i \<in> ids then None
          else case gm_get (history (supervisor s)) i of
                 None \<Rightarrow> None
               | Some old \<Rightarrow> if ProjectID old = p then None else Some (PastSession old (stored_of (supervisor s) i)))"

text \<open>The table of live sessions is keyed by the identifier of the session.\<close>

definition keyed :: "Supervisor \<Rightarrow> bool" where
  "keyed sv \<longleftrightarrow> (\<forall>i ms. gm_get (sessions sv) i = Some ms \<longrightarrow> SessionID (info ms) = i)"

lemma sup_ok_keyed: "sup_ok V sv \<Longrightarrow> keyed sv"
  by (simp add: sup_ok_def keyed_def)

text \<open>
  The supervisor changed only sessions which are and stay ones of the project, or which are new under an identifier of \<open>ids\<close>.
\<close>

definition untouched :: "Supervisor \<Rightarrow> Supervisor \<Rightarrow> string \<Rightarrow> bool" where
  "untouched sv sv' i \<longleftrightarrow> gm_get (sessions sv') i = gm_get (sessions sv) i \<and> stored_of sv' i = stored_of sv i"

definition touchable :: "string \<Rightarrow> string set \<Rightarrow> Supervisor \<Rightarrow> Supervisor \<Rightarrow> string \<Rightarrow> bool" where
  "touchable p ids sv sv' i \<longleftrightarrow> (\<exists>ms'. gm_get (sessions sv') i = Some ms' \<and> ProjectID (info ms') = p) \<and>
     (case gm_get (sessions sv) i of Some ms \<Rightarrow> ProjectID (info ms) = p | None \<Rightarrow> i \<in> ids)"

definition touches_only :: "string \<Rightarrow> string set \<Rightarrow> Supervisor \<Rightarrow> Supervisor \<Rightarrow> bool" where
  "touches_only p ids sv sv' \<longleftrightarrow>
     (keyed sv \<longrightarrow> keyed sv' \<and> history sv' = history sv \<and> (\<forall>i. untouched sv sv' i \<or> touchable p ids sv sv' i))"

lemma touches_only_refl [simp]: "touches_only p ids sv sv"
  by (simp add: touches_only_def untouched_def)

lemma touches_only_trans: "touches_only p ids a b \<Longrightarrow> touches_only p ids b c \<Longrightarrow> touches_only p ids a c"
proof -
  assume ab: "touches_only p ids a b" and bc: "touches_only p ids b c"
  have "untouched a c i \<or> touchable p ids a c i"
    if "untouched a b i \<or> touchable p ids a b i" "untouched b c i \<or> touchable p ids b c i" for i
    using that by (auto simp: untouched_def touchable_def split: option.splits)
  with ab bc show ?thesis unfolding touches_only_def by metis
qed

lemma touches_only_put:
  assumes "gm_get (sessions sv) sid = Some ms" and "ProjectID (info ms) = p" and "keeps_owner ms ms' eff"
  shows "touches_only p ids sv (commit B sv sid ms' eff)"
  unfolding touches_only_def
proof (intro impI conjI allI)
  assume k: "keyed sv"
  then have sid: "SessionID (info ms) = sid" using assms(1) by (simp add: keyed_def)
  then have own: "list_all (own_effect sid) eff" "SessionID (info ms') = sid" "ProjectID (info ms') = p"
    using assms(2,3) by (simp_all add: keeps_owner_def)
  show "keyed (commit B sv sid ms' eff)" using k own(2) by (auto simp: keyed_def gomap_simps)
  show "history (commit B sv sid ms' eff) = history sv" by simp
  fix i
  show "untouched sv (commit B sv sid ms' eff) i \<or> touchable p ids sv (commit B sv sid ms' eff) i"
    using assms(1,2) own commit_stored [OF own(1)] by (cases "i = sid") (auto simp: untouched_def touchable_def gomap_simps)
qed

lemma touches_only_foreign:
  assumes "touches_only p ids (supervisor s) (supervisor s')" and "keyed (supervisor s)"
  shows "foreign_sessions p ids s' = foreign_sessions p ids s \<and> keyed (supervisor s')"
proof -
  from assms have h: "history (supervisor s') = history (supervisor s)" "keyed (supervisor s')"
    and t: "\<And>i. untouched (supervisor s) (supervisor s') i \<or> touchable p ids (supervisor s) (supervisor s') i"
    by (auto simp: touches_only_def)
  have "foreign_sessions p ids s' i = foreign_sessions p ids s i" for i
    using t [of i] h by (auto simp: untouched_def touchable_def foreign_sessions_def split: option.splits)
  with h show ?thesis by blast
qed

section \<open>The supervisor's operations touch one session\<close>

text \<open>A session that exists and belongs to the project, or none of that name.\<close>

definition in_project :: "string \<Rightarrow> Supervisor \<Rightarrow> string \<Rightarrow> bool" where
  "in_project p sv sid \<longleftrightarrow> (\<forall>ms. gm_get (sessions sv) sid = Some ms \<longrightarrow> ProjectID (info ms) = p)"

lemma touches_only_from: "(keyed sv \<Longrightarrow> touches_only p ids sv sv') \<Longrightarrow> touches_only p ids sv sv'"
  by (simp add: touches_only_def)

lemma in_project_touches: "keyed sv \<Longrightarrow> touches_only p ids sv sv' \<Longrightarrow> in_project p sv sid \<Longrightarrow> in_project p sv' sid"
  unfolding touches_only_def in_project_def untouched_def touchable_def by (metis option.inject)

lemma Stop_touches: "in_project p sv sid \<Longrightarrow> touches_only p ids sv (snd (Stop B sv sid force))"
  by (auto simp: Stop_def in_project_def Let_def intro!: touches_only_put stop_owner split: option.split prod.split)

lemma WriteInput_touches: "in_project p sv sid \<Longrightarrow> touches_only p ids sv (snd (WriteInput B now sv sid c dat wr))"
  by (auto simp: WriteInput_def in_project_def Let_def intro!: touches_only_put write_owner split: option.split prod.split)

lemma ClaimWriter_touches: "in_project p sv sid \<Longrightarrow> touches_only p ids sv (snd (ClaimWriter B sv sid c force))"
  by (auto simp: ClaimWriter_def in_project_def Let_def intro!: touches_only_put claim_owner split: option.split prod.split)

lemma ReleaseWriter_touches: "in_project p sv sid \<Longrightarrow> touches_only p ids sv (snd (ReleaseWriter B sv sid c))"
  by (auto simp: ReleaseWriter_def in_project_def Let_def intro!: touches_only_put release_owner split: option.split prod.split)

lemma notify_touches: "in_project p sv sid \<Longrightarrow> notify_writer B ty sv sid c = Ret sv' \<Longrightarrow> touches_only p ids sv sv'"
  by (auto simp: notify_writer_def in_project_def outcome_bind_Ret_iff intro!: touches_only_put fanout_owner split: option.splits)

lemma Resize_touches: "in_project p sv sid \<Longrightarrow> Resize B V now sv sid c cols rows ss = Ret (r, sv') \<Longrightarrow> touches_only p ids sv sv'"
  by (auto simp: Resize_def in_project_def outcome_bind_Ret_iff dest: resize_owner intro!: touches_only_put split: option.splits)

lemma Attach_touches: "in_project p sv sid \<Longrightarrow> Attach B V now sv sid c after r = Ret (res, sv') \<Longrightarrow> touches_only p ids sv sv'"
  by (auto simp: Attach_def in_project_def outcome_bind_Ret_iff dest: attach_owner intro!: touches_only_put split: option.splits)

lemma start_commit_touches:
  assumes "CfgProjectID cfg = p" and "CfgSessionID cfg \<in> ids"
  shows "touches_only p ids sv (snd (start_commit B now sv (pr, cfg, pid)))"
proof (cases "shuttingDown sv \<or> gm_get (sessions sv) (CfgSessionID cfg) \<noteq> None")
  case False
  define ms where "ms = startedSession (bufSize sv) pr cfg now pid"
  define eff where "eff = [TelStarted (telemetrySessionLocked ms), NotifyControl (snapshotInfo ms), PersistSession (snapshotInfo ms)]"
  have id: "SessionID (info ms) = CfgSessionID cfg" by (simp add: ms_def startedSession_id)
  have pid: "ProjectID (info ms) = p" using assms(1) by (simp add: ms_def startedSession_def Let_def)
  have own: "list_all (own_effect (CfgSessionID cfg)) eff" using id by (simp add: eff_def snapshotInfo_def)
  have "snd (start_commit B now sv (pr, cfg, pid)) = commit B sv (CfgSessionID cfg) ms eff"
    using False by (simp add: start_commit_def ms_def eff_def Let_def)
  then show ?thesis
    using False assms(2) id pid commit_stored [OF own]
    by (auto simp: touches_only_def untouched_def touchable_def keyed_def gomap_simps)
qed (auto simp: start_commit_def)

lemma Start_touches:
  assumes "CfgProjectID cfg = p" and "CfgSessionID cfg \<in> ids"
  shows "touches_only p ids sv (snd (Start B cwd spawn now sv cfg))"
proof -
  have "CfgProjectID cfg' = p \<and> CfgSessionID cfg' \<in> ids" if "start_prepare spawn sv cfg = Inr (pr, cfg', pid)" for pr cfg' pid
    using that assms by (auto simp: start_prepare_def Let_def split: option.splits sum.splits)
  with start_commit_touches show ?thesis by (auto simp: Start_def split: option.split sum.split)
qed

section \<open>Handlers touch the caller's project\<close>

definition confined :: "string \<Rightarrow> string set \<Rightarrow> 'r rpc \<Rightarrow> bool" where
  "confined p ids k \<longleftrightarrow> (\<forall>s r s'. k s = Ret (r, s') \<longrightarrow> touches_only p ids (supervisor s) (supervisor s'))"

lemma confined_require [intro]: "(err = None \<Longrightarrow> confined p ids k) \<Longrightarrow> confined p ids (require err k)"
  by (cases err) (auto simp: confined_def require_def)

lemma confined_global [intro]: "confined p ids k \<Longrightarrow> confined p ids (global_limit now k)"
  by (fastforce simp: confined_def global_limit_def Let_def split_beta split: if_splits)

lemma confined_claims [intro]: "(\<And>c. ctxClaims ctx = Some c \<Longrightarrow> confined p ids (k c)) \<Longrightarrow> confined p ids (with_claims ctx k)"
  by (auto simp: confined_def with_claims_def mustClaims_def ClaimsFromContext_def split: option.splits)

lemma authorize_in_project:
  assumes "authorizeSession s claims sid = None" and "ClProjectID claims = p" and "p \<noteq> ''''"
  shows "in_project p (supervisor s) sid \<and> (\<forall>i. Get (supervisor s) sid = Inr i \<longrightarrow> ProjectID i = p)"
  using assms by (auto simp: authorizeSession_def authorizeProject_def in_project_def Get_def snapshotInfo_def split: sum.splits option.splits if_splits)

lemma confined_authorize:
  assumes "ClProjectID claims = p" and "p \<noteq> ''''"
    and "\<And>s r s'. in_project p (supervisor s) sid \<Longrightarrow> k s = Ret (r, s') \<Longrightarrow> touches_only p ids (supervisor s) (supervisor s')"
  shows "confined p ids (\<lambda>s. require (authorizeSession s claims sid) k s)"
  using assms authorize_in_project [OF _ assms(1,2)]
  by (fastforce simp: confined_def require_def split: option.splits)


text \<open>A step on the supervisor, and a limiter in front of a handler.\<close>

lemma confined_case:
  assumes "\<And>s. touches_only p ids (supervisor s) (snd (f s))"
  shows "confined p ids (\<lambda>s. case f s of (Inl e, sv) \<Rightarrow> Ret (Inl (g e), with_supervisor s sv) | (Inr x, sv) \<Rightarrow> Ret (Inr (h x), with_supervisor s sv))"
  unfolding confined_def
proof (intro allI impI)
  fix s r s'
  assume a: "(case f s of (Inl e, sv) \<Rightarrow> Ret (Inl (g e), with_supervisor s sv) | (Inr x, sv) \<Rightarrow> Ret (Inr (h x), with_supervisor s sv)) = Ret (r, s')"
  obtain x sv where f: "f s = (x, sv)" by (cases "f s")
  then have "supervisor s' = sv" using a by (auto simp: with_supervisor_def split: sum.splits)
  then show "touches_only p ids (supervisor s) (supervisor s')" using assms [of s] f by simp
qed

lemma confined_start_limit:
  assumes "confined p ids k"
  shows "confined p ids (\<lambda>s. let clientID = cid; (ok, rl) = limiter_allow now clientID (startRL s); s1 = s\<lparr>startRL := rl\<rparr>
         in if \<not> ok then Ret (Inl ResourceExhausted, s1) else k s1)"
  using assms by (fastforce simp: confined_def Let_def split_beta split: if_splits)

text \<open>A context that carries no claims, or those of a token for the project.\<close>

definition claims_for :: "string \<Rightarrow> rpc_context \<Rightarrow> bool" where
  "claims_for p ctx \<longleftrightarrow> p \<noteq> '''' \<and> (case ctxClaims ctx of None \<Rightarrow> True | Some c \<Rightarrow> ClProjectID c = p)"

lemma claims_forD: "claims_for p ctx \<Longrightarrow> ctxClaims ctx = Some c \<Longrightarrow> ClProjectID c = p \<and> p \<noteq> ''''"
  by (simp add: claims_for_def)

lemma confined_StartSession:
  assumes "claims_for p ctx" and "ReqSessionId req \<in> ids"
  shows "confined p ids (StartSession E clk ctx req)"
proof -
  have "confined p ids (\<lambda>s. case Start (evBolt E) (evCwd E) (evSpawn E) (clk 2) (supervisor s) (start_config s req) of
                 (Inl e, sv) \<Rightarrow> Ret (Inl (mapBridgeError e), with_supervisor s sv)
               | (Inr i, sv) \<Rightarrow> Ret (Inr (SessionID i, mapState (State i), CreatedAt i), with_supervisor s sv))"
    if "ReqProjectId req = p"
    using that assms(2) by (intro confined_case Start_touches) (simp_all add: start_config_def)
  moreover have "ReqProjectId req = p" if "ctxClaims ctx = Some c" "authorizeProject c (ReqProjectId req) = None" for c
    using that claims_forD [OF assms(1)] by (auto simp: authorizeProject_def split: if_splits)
  ultimately show ?thesis unfolding StartSession_def
    by (intro confined_global confined_claims confined_require confined_start_limit) blast
qed

text \<open>The leaf of a handler that works on one session.\<close>

lemmas rpc_leaf = with_supervisor_def outcome_bind_Ret_iff Let_def split_beta

lemma confined_session:
  assumes "claims_for p ctx"
    and "\<And>s r s'. in_project p (supervisor s) sid \<Longrightarrow> k s = Ret (r, s') \<Longrightarrow> touches_only p ids (supervisor s) (supervisor s')"
  shows "confined p ids (global_limit now (with_claims ctx (\<lambda>claims. require err (\<lambda>s. require (authorizeSession s claims sid) k s))))"
  using claims_forD [OF assms(1)] assms(2)
  by (intro confined_global confined_claims confined_require confined_authorize) blast+

lemma confined_StopSession: "claims_for p ctx \<Longrightarrow> confined p ids (StopSession E clk ctx sid force)"
  unfolding StopSession_def using Stop_touches
  by (intro confined_session) (fastforce simp: rpc_leaf split: option.splits prod.splits)+

lemma confined_reads:
  assumes "claims_for p ctx"
  shows "confined p ids (GetSession E clk ctx sid)" and "confined p ids (DiagnoseSession E clk ctx sid)" and "confined p ids (ListSessions clk ctx q)"
proof -
  show "confined p ids (GetSession E clk ctx sid)" unfolding GetSession_def
    using assms by (intro confined_session) (auto split: sum.splits)
  show "confined p ids (DiagnoseSession E clk ctx sid)" unfolding DiagnoseSession_def
    using assms by (intro confined_session) (auto split: sum.splits option.splits)
  show "confined p ids (ListSessions clk ctx q)" unfolding ListSessions_def
    by (intro confined_global confined_claims) (auto simp: confined_def split: if_splits)
qed

lemma confined_authorized:
  assumes "claims_for p ctx" and "ctxClaims ctx = Some claims"
    and "\<And>s r s'. in_project p (supervisor s) sid \<Longrightarrow> k s = Ret (r, s') \<Longrightarrow> touches_only p ids (supervisor s) (supervisor s')"
  shows "confined p ids (\<lambda>s. require (authorizeSession s claims sid) k s)"
  using claims_forD [OF assms(1,2)] assms(3) by (intro confined_authorize) blast+

lemma outcome_supervisor:
  assumes "outcome_bind x (\<lambda>(res, sv). case res of Inl e \<Rightarrow> Ret (Inl (g e), with_supervisor s sv) | Inr y \<Rightarrow> Ret (Inr (h y), with_supervisor s sv)) = Ret (r, s')"
  shows "\<exists>res. x = Ret (res, supervisor s')"
  using assms by (cases x) (auto simp: with_supervisor_def split: sum.splits)

lemma confined_attach_begin: "claims_for p ctx \<Longrightarrow> confined p ids (attach_begin E clk ctx fresh sid c after obs)"
  unfolding attach_begin_def Let_def
  by (intro confined_global confined_claims confined_require confined_authorized)
    (auto dest!: outcome_supervisor dest: Attach_touches)

lemma confined_WriteInput: "claims_for p ctx \<Longrightarrow> confined p ids (server_WriteInput E clk ctx sid c dat wr)"
  unfolding server_WriteInput_def
proof (intro confined_global confined_claims confined_require confined_authorized)
  fix s :: BridgeServer and r :: "grpc_code + u32" and s'
  assume "in_project p (supervisor s) sid"
  note stop = Stop_touches [OF this] and wt = WriteInput_touches [OF this]
  obtain ok rl where l: "limiter_allow (clk 1) sid (writeRL s) = (ok, rl)" by (cases "limiter_allow (clk 1) sid (writeRL s)")
  obtain n e sv where w: "WriteInput (evBolt E) (clk 2) (supervisor s) sid c dat wr = ((n, e), sv)"
    by (cases "WriteInput (evBolt E) (clk 2) (supervisor s) sid c dat wr") auto
  have "touches_only p ids (supervisor s) sv" using wt [of ids "evBolt E" "clk 2" c dat wr] w by simp
  moreover assume "(let (ok, rl) = limiter_allow (clk 1) sid (writeRL s); s1 = s\<lparr>writeRL := rl\<rparr>
         in if \<not> ok then
              (if limiter_banned (clk 2) sid rl
               then Ret (Inl Unavailable, with_supervisor s1 (snd (Stop (evBolt E) (supervisor s1) sid True)))
               else Ret (Inl ResourceExhausted, s1))
            else
              (case WriteInput (evBolt E) (clk 2) (supervisor s1) sid c dat wr of
                 ((n, Some e), sv) \<Rightarrow> Ret (Inl (mapBridgeError e), with_supervisor s1 sv)
               | ((n, None), sv) \<Rightarrow> Ret (Inr (word_of_int n), with_supervisor s1 sv))) = Ret (r, s')"
  ultimately show "touches_only p ids (supervisor s) (supervisor s')"
    using stop by (cases ok; cases e) (auto simp: l w with_supervisor_def Let_def simp del: One_nat_def split: if_splits)
qed

lemma outcome_option_supervisor:
  assumes "outcome_bind x (\<lambda>(res, sv). case res of Some e \<Rightarrow> Ret (Inl (g e), with_supervisor s sv) | None \<Rightarrow> Ret (Inr h, with_supervisor s sv)) = Ret (r, s')"
  shows "\<exists>res. x = Ret (res, supervisor s')"
  using assms by (cases x) (auto simp: with_supervisor_def split: option.splits)

lemma confined_Resize: "claims_for p ctx \<Longrightarrow> confined p ids (ResizeSession E clk ctx sid c cols rows ss)"
  unfolding ResizeSession_def
  by (intro confined_global confined_claims confined_require confined_authorized)
    (auto dest!: outcome_option_supervisor dest: Resize_touches)

lemma confined_Claim: "claims_for p ctx \<Longrightarrow> confined p ids (server_ClaimWriter E clk ctx sid c force)"
  unfolding server_ClaimWriter_def
proof (intro confined_session)
  fix s :: BridgeServer and r s'
  assume proj: "in_project p (supervisor s) sid"
  obtain x sv where claim: "ClaimWriter (evBolt E) (supervisor s) sid c force = (x, sv)"
    by (cases "ClaimWriter (evBolt E) (supervisor s) sid c force")
  then have t: "touches_only p ids (supervisor s) sv" using ClaimWriter_touches [OF proj] by (metis snd_conv)
  have notify: "touches_only p ids (supervisor s) sv2" if "notify_writer (evBolt E) ty sv1 sid d = Ret sv2" "touches_only p ids (supervisor s) sv1" for ty sv1 sv2 d
    by (rule touches_only_from) (use that proj in \<open>meson in_project_touches notify_touches touches_only_trans\<close>)
  assume "require (if c = [] then Some InvalidArgument else None) (\<lambda>s.
         (case ClaimWriter (evBolt E) (supervisor s) sid c force of
            (Inl e, sv) \<Rightarrow> Ret (Inl (mapBridgeError e), with_supervisor s sv)
          | (Inr previous, sv) \<Rightarrow>
              outcome_bind (if previous \<noteq> [] then NotifyWriterReleased (evBolt E) sv sid previous else Ret sv) (\<lambda>sv1.
              outcome_bind (NotifyWriterClaimed (evBolt E) sv1 sid c) (\<lambda>sv2.
                Ret (Inr previous, with_supervisor s sv2))))) s = Ret (r, s')"
  then show "touches_only p ids (supervisor s) (supervisor s')"
    using t notify claim
    by (auto simp: require_def NotifyWriterReleased_def NotifyWriterClaimed_def rpc_leaf split: if_splits sum.splits)
qed

lemma confined_Release: "claims_for p ctx \<Longrightarrow> confined p ids (server_ReleaseWriter E clk ctx sid c)"
  unfolding server_ReleaseWriter_def
proof (intro confined_session)
  fix s :: BridgeServer and r s'
  assume proj: "in_project p (supervisor s) sid"
  obtain x sv where rel: "ReleaseWriter (evBolt E) (supervisor s) sid c = (x, sv)" by (cases "ReleaseWriter (evBolt E) (supervisor s) sid c")
  then have t: "touches_only p ids (supervisor s) sv" using ReleaseWriter_touches [OF proj] by (metis snd_conv)
  have notify: "touches_only p ids (supervisor s) sv2" if "notify_writer (evBolt E) ty sv sid d = Ret sv2" for ty sv2 d
    by (rule touches_only_from) (use that proj t in \<open>meson in_project_touches notify_touches touches_only_trans\<close>)
  assume "require (if c = [] then Some InvalidArgument else None) (\<lambda>s.
         (case ReleaseWriter (evBolt E) (supervisor s) sid c of
            (Some e, sv) \<Rightarrow> Ret (Inl (mapBridgeError e), with_supervisor s sv)
          | (None, sv) \<Rightarrow>
              outcome_bind (NotifyWriterReleased (evBolt E) sv sid c) (\<lambda>sv1. Ret (Inr (), with_supervisor s sv1)))) s = Ret (r, s')"
  then show "touches_only p ids (supervisor s) (supervisor s')"
    using t notify rel by (auto simp: require_def NotifyWriterReleased_def rpc_leaf split: if_splits option.splits)
qed

lemma drop_confined: "confined p ids k \<Longrightarrow> drop_result (k s) = Some s' \<Longrightarrow> touches_only p ids (supervisor s) (supervisor s')"
  by (auto simp: drop_result_def confined_def split: outcome.splits)

lemma serve_touches:
  assumes "for_project p c" and "set (start_id (snd (snd c))) \<subseteq> ids" and "serve E c s = Some s'"
  shows "touches_only p ids (supervisor s) (supervisor s')"
proof -
  obtain clk ctx call where c: "c = (clk, ctx, call)" by (cases c)
  then have "claims_for p ctx" using assms(1) by (simp add: for_project_def claims_for_def)
  note conf = confined_StartSession [OF this] confined_StopSession [OF this] confined_attach_begin [OF this] confined_WriteInput [OF this]
    confined_Resize [OF this] confined_Claim [OF this] confined_Release [OF this] confined_reads [OF this]
  show ?thesis using assms(2,3) c by (cases call) (auto intro: conf [THEN drop_confined])
qed

interpretation rpcs: project_scoped "serve E" "\<lambda>(p, ids) c. for_project p c \<and> set (start_id (snd (snd c))) \<subseteq> ids"
    "\<lambda>s. keyed (supervisor s)" "\<lambda>(p, ids). foreign_sessions p ids" for E
  by unfold_locales (use touches_only_foreign [OF serve_touches] in \<open>auto split: prod.splits\<close>)

text \<open>
  C2. Projects are isolated: any sequence of calls by clients whose tokens name a project (or who have no claims at
  all) leaves the sessions of all other projects exactly as they are, the live ones and those that only the history knows, with their
  records and output journals in the database: none is started, stopped, resized, written to, attached to or handed to another
  writer, and none disappears. There is one exception, which the statement names: \<open>StartSession\<close> accepts the identifier of a session
  that only the history knows, of whatever project, and then takes its place.
\<close>

theorem project_isolation:
  assumes "\<forall>c \<in> set calls. for_project p c" and "run_calls (serve E) calls s = Some s'" and "keyed (supervisor s)"
  shows "foreign_sessions p (started_ids calls) s' = foreign_sessions p (started_ids calls) s"
proof -
  have "\<forall>c \<in> set calls. for_project p c \<and> set (start_id (snd (snd c))) \<subseteq> started_ids calls" using assms(1) by (auto simp: started_ids_def)
  with rpcs.calls_scoped [of calls "(p, started_ids calls)" s E s'] assms(2,3) show ?thesis by simp
qed

text \<open>The exception: a client of one project takes over the identifier of an ended session of another.\<close>

theorem history_taken_over:
  assumes "gm_get (history sv) sid = Some old" and "ProjectID old \<noteq> p" and "gm_get (sessions sv) sid = None" and "\<not> shuttingDown sv"
    and "CfgSessionID cfg = sid" and "CfgProjectID cfg = p"
  shows "Get sv sid = Inr old \<and> (\<exists>i. Get (snd (start_commit B now sv (pr, cfg, pid))) sid = Inr i \<and> ProjectID i = p)"
proof
  show "Get sv sid = Inr old" using assms(1,3) by (simp add: Get_def)
  show "\<exists>i. Get (snd (start_commit B now sv (pr, cfg, pid))) sid = Inr i \<and> ProjectID i = p"
    using assms(3-6) by (simp add: start_commit_def Get_def gomap_simps snapshotInfo_def startedSession_def Let_def)
qed

section \<open>Reads\<close>

text \<open>The result of a call, if it succeeds.\<close>

definition answers :: "'r rpc \<Rightarrow> BridgeServer \<Rightarrow> 'r \<Rightarrow> bool" where
  "answers k s x \<longleftrightarrow> (\<exists>s'. k s = Ret (Inr x, s'))"

lemma answers_global:
  assumes "answers (global_limit now k) s x"
  shows "\<exists>s1. supervisor s1 = supervisor s \<and> answers k s1 x"
proof -
  obtain ok g where "limiter_allow now ''global'' (globalRL s) = (ok, g)" by (cases "limiter_allow now ''global'' (globalRL s)")
  then have "answers k (s\<lparr>globalRL := g\<rparr>) x" using assms by (auto simp: answers_def global_limit_def Let_def split: if_splits)
  then show ?thesis by (intro exI [of _ "s\<lparr>globalRL := g\<rparr>"]) simp
qed

lemma answers_claims: "answers (with_claims ctx k) s x \<Longrightarrow> \<exists>c. ctxClaims ctx = Some c \<and> answers (k c) s x"
  by (auto simp: answers_def with_claims_def mustClaims_def ClaimsFromContext_def split: option.splits)

lemma answers_require: "answers (require err k) s x \<Longrightarrow> err = None \<and> answers k s x"
  by (auto simp: answers_def require_def split: option.splits)

lemma answers_session:
  assumes "answers (global_limit now (with_claims ctx (\<lambda>claims. require err (\<lambda>s. require (authorizeSession s claims sid) k s)))) s x"
  shows "\<exists>c s1. ctxClaims ctx = Some c \<and> err = None \<and> supervisor s1 = supervisor s \<and> authorizeSession s1 c sid = None \<and> answers k s1 x"
proof -
  from answers_global [OF assms] obtain s1 where s1: "supervisor s1 = supervisor s"
    and 1: "answers (with_claims ctx (\<lambda>claims. require err (\<lambda>s. require (authorizeSession s claims sid) k s))) s1 x" by (elim exE conjE)
  from answers_claims [OF 1] obtain c where c: "ctxClaims ctx = Some c"
    and 2: "answers (require err (\<lambda>s. require (authorizeSession s c sid) k s)) s1 x" by (elim exE conjE)
  have "err = None" "answers (\<lambda>s. require (authorizeSession s c sid) k s) s1 x" using answers_require [OF 2] by simp_all
  then have "answers (require (authorizeSession s1 c sid) k) s1 x" by (simp add: answers_def)
  from answers_require [OF this] s1 c \<open>err = None\<close> show ?thesis by (intro exI [of _ c] exI [of _ s1]) simp
qed

text \<open>
  C28. Callers see their project only: with a token for a project, a session that \<open>GetSession\<close> returns and every
  session in a listing belongs to it, and an attach goes through only to a session (live or of the history) of
  that project.
\<close>

theorem reads_scoped:
  assumes "claims_for p ctx"
  shows "(answers (GetSession E clk ctx sid) s resp \<longrightarrow> RespProjectId resp = p) \<and>
    (answers (ListSessions clk ctx q) s resps \<longrightarrow> (\<forall>r \<in> set resps. RespProjectId r = p)) \<and>
    (answers (attach_begin E clk ctx fresh sid client after obs) s st \<longrightarrow> (\<exists>i. Get (supervisor s) sid = Inr i \<and> ProjectID i = p))"
proof (intro conjI impI)
  assume "answers (GetSession E clk ctx sid) s resp"
  from answers_session [OF this [unfolded GetSession_def]] obtain c s1 where c: "ctxClaims ctx = Some c"
      "authorizeSession s1 c sid = None" and
      ans: "answers (\<lambda>s. case Get (supervisor s) sid of Inl e \<Rightarrow> Ret (Inl (mapBridgeError e), s) | Inr i \<Rightarrow> Ret (Inr (sessionInfoToProto i), s)) s1 resp"
    by blast
  from ans obtain i where "Get (supervisor s1) sid = Inr i" "resp = sessionInfoToProto i"
    by (auto simp: answers_def split: sum.splits)
  then show "RespProjectId resp = p"
    using authorize_in_project [OF c(2)] claims_forD [OF assms c(1)] by (auto simp: sessionInfoToProto_def)
next
  assume "answers (ListSessions clk ctx q) s resps"
  from answers_global [OF this [unfolded ListSessions_def]] obtain s1 where
    1: "answers (with_claims ctx (\<lambda>claims s.
       if ClProjectID claims \<noteq> [] \<and> q \<noteq> [] \<and> q \<noteq> ClProjectID claims then Ret (Inl PermissionDenied, s)
       else Ret (Inr (map sessionInfoToProto
                        (List (supervisor s) (if ClProjectID claims \<noteq> [] then ClProjectID claims else q))), s))) s1 resps"
    by (elim exE conjE)
  from answers_claims [OF 1] claims_forD [OF assms] show "\<forall>r \<in> set resps. RespProjectId r = p"
    by (auto simp: answers_def sessionInfoToProto_def List_def Let_def split: if_splits)
next
  assume a: "answers (attach_begin E clk ctx fresh sid client after obs) s st"
  then obtain c s1 where c: "supervisor s1 = supervisor s" "ctxClaims ctx = Some c" "authorizeSession s1 c sid = None"
    unfolding attach_begin_def by (fastforce dest!: answers_global answers_claims answers_require simp: answers_def require_def split: option.splits)
  then show "\<exists>i. Get (supervisor s) sid = Inr i \<and> ProjectID i = p"
    using claims_forD [OF assms c(2)] authorize_in_project [OF c(3)] by (auto simp: authorizeSession_def split: sum.splits)
qed

section \<open>A server with one session\<close>

definition demo_env :: server_env where
  "demo_env = \<lparr>evBolt = sorted_bolt, evVT = demo_vt, evUUID = (\<lambda>_. True), evCwd = None, evSpawn = (\<lambda>_ _. Inr 7),
     evStat = (\<lambda>_. Inr True), evCreateTemp = (\<lambda>_. True), evReport = (\<lambda>_ _ _. None),
     evParseKey = (\<lambda>b. Ed25519Key b), evParseCSR = (\<lambda>b. Some \<lparr>csrSubject = \<lparr>CommonName = ''alice'', OtherNames = []\<rparr>, csrDNSNames = [], csrIPAddresses = [], csrPublicKey = b, csrSignatureOK = True\<rparr>),
     evLoadCA = (\<lambda>_ _. Some [1]), evSerial = Some 5, evSign = (\<lambda>t ca k. Some k), evNotAfter = (\<lambda>_. None),
     evReadFile = (\<lambda>_. Some [2]), evWriteKey = (\<lambda>_. True), evMkdir = (\<lambda>_. True), evFlush = None\<rparr>"

definition demo_server :: BridgeServer where
  "demo_server = New (snd (start_commit sorted_bolt 0 demo_sup (plainProvider ''x'', demo_request ''a'', 7)))
     \<lparr>GlobalRPS = 0, GlobalBurst = 0, StartSessionPerClientRPS = 0, StartSessionPerClientBurst = 0, SendInputPerSessionRPS = 0, SendInputPerSessionBurst = 0\<rparr>
     ''i'' [] (Some demo_verifier) ''/c'' ''v''"

definition demo_caller :: "string \<Rightarrow> rpc_context" where
  "demo_caller p = demo_ctx\<lparr>ctxClaims := Some (demo_claims\<lparr>ClProjectID := p\<rparr>)\<rparr>"

lemma demo_limit [simp]: "global_limit now k demo_server = k demo_server"
  by (simp add: global_limit_def demo_server_def New_def limiter_allow_def newKeyedLimiter_def)

lemma demo_with_claims [simp]: "with_claims (demo_caller p) k s = k (demo_claims\<lparr>ClProjectID := p\<rparr>) s"
  by (simp add: with_claims_def mustClaims_def ClaimsFromContext_def demo_caller_def)

lemma demo_uuid [simp]: "validateUUIDField (evUUID demo_env) ''a'' = None"
  by (simp add: validateUUIDField_def validateStringField_def demo_env_def ValidString_def codes_def decode_rune_def)

lemma demo_server_session:
  "gm_get (sessions (supervisor demo_server)) ''a'' = Some (startedSession 1024 (plainProvider ''x'') (demo_request ''a'') 0 7)"
  "ProjectID (info (startedSession 1024 (plainProvider ''x'') (demo_request ''a'') 0 7)) = ''p''"
  using demo_started(2) by (simp add: demo_server_def New_def)
    (simp add: startedSession_def demo_request_def demo_cfg_def Let_def)

lemma demo_Get: "\<exists>i. Get (supervisor demo_server) ''a'' = Inr i \<and> ProjectID i = ''p''"
  using demo_server_session by (simp add: Get_def snapshotInfo_def)

lemma demo_authorize: "authorizeSession demo_server (demo_claims\<lparr>ClProjectID := q\<rparr>) ''a'' = (if q = ''p'' \<or> q = '''' then None else Some PermissionDenied)"
  using demo_Get by (auto simp: authorizeSession_def authorizeProject_def)

text \<open>A client of another project cannot stop the session.\<close>

lemma demo_keyed: "keyed (supervisor demo_server)"
proof -
  have "sup_reachable sorted_bolt demo_vt demo_sup"
    unfolding demo_sup_def by (rule New) (rule Register_ok, rule NewRegistry_ok)
  then have "sup_reachable sorted_bolt demo_vt (snd (start_commit sorted_bolt 0 demo_sup (plainProvider ''x'', demo_request ''a'', 7)))"
    by (rule SupStep) (rule Starting, rule prod.collapse [symmetric])
  then have "sup_ok demo_vt (supervisor demo_server)" unfolding demo_server_def New_def by (simp add: sup_reachable_ok)
  then show ?thesis by (rule sup_ok_keyed)
qed

theorem project_isolation_witness:
  "\<exists>s' st. run_calls (serve demo_env) [((\<lambda>_. 0), demo_caller ''q'', CallStop ''a'' True)] demo_server = Some s' \<and>
     foreign_sessions ''q'' {} s' ''a'' = Some (LiveSession (startedSession 1024 (plainProvider ''x'') (demo_request ''a'') 0 7) st)"
proof -
  let ?calls = "[((\<lambda>_. 0 :: int), demo_caller ''q'', CallStop ''a'' True)]"
  have run: "run_calls (serve demo_env) ?calls demo_server = Some demo_server"
    by (simp add: StopSession_def require_def demo_authorize drop_result_def)
  have "\<forall>c \<in> set ?calls. for_project ''q'' c" by (simp add: for_project_def demo_caller_def)
  from project_isolation [OF this run demo_keyed]
  have "foreign_sessions ''q'' {} demo_server = foreign_sessions ''q'' {} demo_server" by (simp add: started_ids_def)
  moreover have "foreign_sessions ''q'' {} demo_server ''a'' =
      Some (LiveSession (startedSession 1024 (plainProvider ''x'') (demo_request ''a'') 0 7) (stored_of (supervisor demo_server) ''a''))"
    using demo_server_session by (simp add: foreign_sessions_def)
  ultimately show ?thesis using run by blast
qed

theorem reads_scoped_witness:
  "\<exists>resp. answers (GetSession demo_env (\<lambda>_. 0) (demo_caller ''p'') ''a'') demo_server resp \<and> RespProjectId resp = ''p''"
proof -
  obtain i where "Get (supervisor demo_server) ''a'' = Inr i" using demo_Get by blast
  then have a: "answers (GetSession demo_env (\<lambda>_. 0) (demo_caller ''p'') ''a'') demo_server (sessionInfoToProto i)"
    by (simp add: answers_def GetSession_def require_def demo_authorize)
  have "claims_for ''p'' (demo_caller ''p'')" by (simp add: claims_for_def demo_caller_def)
  from reads_scoped [OF this] a show ?thesis by blast
qed

section \<open>Keys\<close>

text \<open>Names that pass the filter stay in the directory of the keys.\<close>

lemma safeIssuer_no_slash: "safeIssuer i \<Longrightarrow> CHR ''/'' \<notin> set i \<and> i \<noteq> '''' \<and> i \<noteq> ''..'' \<and> i \<noteq> ''.''"
proof -
  have slash: "\<not> alnum_char (CHR ''/'')" and dot: "\<not> alnum_char (CHR ''.'')" by code_simp+
  assume "safeIssuer i"
  with slash dot show ?thesis by (auto simp: safeIssuer_def list_all_iff split: list.splits)
qed

text \<open>
  C27. A client can only register a key for itself: whatever it sends, the keys of every issuer but the common name of
  its certificate stay as they are, the only file written is the one of that name, and a success registers
  the parsed key under that name in memory and, with a certificate directory, on disk.
\<close>

theorem register_own_slot:
  assumes "RegisterJWTKey E clk ctx req key s = Ret (r, s')" and "jwtVerifier s = Some v"
  shows "\<exists>v'. jwtVerifier s' = Some v' \<and> (\<forall>i. i \<noteq> callerCommonName ctx \<longrightarrow> gm_get (Keys v') i = gm_get (Keys v) i) \<and>
    (\<forall>f. f \<noteq> key_path (certsDir s) (callerCommonName ctx) \<longrightarrow> gm_get (keyFiles s') f = gm_get (keyFiles s) f) \<and>
    (\<forall>i. r = Inr i \<longrightarrow> i = callerCommonName ctx \<and> safeIssuer i \<and> (\<exists>k. evParseKey E key = Ed25519Key k \<and> gm_get (Keys v') i = Some k \<and>
       (certsDir s \<noteq> '''' \<longrightarrow> gm_get (keyFiles s') (key_path (certsDir s) i) = Some k)))"
proof -
  obtain ok g where g: "limiter_allow (clk 0) ''global'' (globalRL s) = (ok, g)" by (cases "limiter_allow (clk 0) ''global'' (globalRL s)")
  show ?thesis
    using assms by (auto simp: RegisterJWTKey_def global_limit_def g Let_def persist_key_def AddKey_def gomap_simps
        split: if_splits parsed_key.splits option.splits)
qed

theorem register_own_slot_witness:
  "\<exists>s' v'. RegisterJWTKey demo_env (\<lambda>_. 0) (demo_ctx\<lparr>peerCerts := Some [''bob'']\<rparr>) '''' [3] demo_server = Ret (Inr ''bob'', s') \<and>
     jwtVerifier s' = Some v' \<and> gm_get (Keys v') ''i'' = Some [1] \<and> gm_get (Keys v') ''bob'' = Some [3]"
proof -
  let ?ctx = "demo_ctx\<lparr>peerCerts := Some [''bob'']\<rparr>"
  have cn: "callerCommonName ?ctx = ''bob''" by (simp add: callerCommonName_def)
  have safe: "safeIssuer ''bob''" by code_simp
  have v: "jwtVerifier demo_server = Some demo_verifier" "certsDir demo_server = ''/c''" by (simp_all add: demo_server_def New_def)
  obtain s' where s': "RegisterJWTKey demo_env (\<lambda>_. 0) ?ctx '''' [3] demo_server = Ret (Inr ''bob'', s')"
    using v safe by (simp add: RegisterJWTKey_def cn demo_env_def persist_key_def Let_def)
  from register_own_slot [OF s' v(1)] cn s' show ?thesis by (auto simp: demo_verifier_def demo_env_def)
qed

section \<open>Enrollment\<close>

text \<open>The consumption of the token decides; the rest of the handler leaves the token store alone.\<close>

lemma persist_key_store: "persist_key E s i k = Some s1 \<Longrightarrow> enrollStore s1 = enrollStore s \<and> enrollFs s1 = enrollFs s"
  by (auto simp: persist_key_def split: if_splits)

lemma enroll_with_store:
  "\<exists>r s'. enroll_with E now tok c k s = Ret (r, s') \<and> enrollStore s' = enrollStore s \<and> enrollFs s' = enrollFs s"
  by (auto simp: enroll_with_def register_enrolled_def dest: persist_key_store split: option.split parsed_key.split)

type_synonym enroll_request = "server_env \<times> clock \<times> string \<times> bytes \<times> bytes"

definition token_state :: "BridgeServer \<Rightarrow> enroll_state" where
  "token_state s = (enrollStore s, enrollFs s)"

fun enroll_call :: "enroll_request \<Rightarrow> BridgeServer \<Rightarrow> BridgeServer" where
  "enroll_call (E, clk, token, c, k) s = (case EnrollClient E clk token c k s of Ret (_, s') \<Rightarrow> s' | Panic \<Rightarrow> s)"

fun enrolls :: "string \<Rightarrow> enroll_request \<Rightarrow> BridgeServer \<Rightarrow> bool" where
  "enrolls v (E, clk, token, c, k) s \<longleftrightarrow> v = token \<and> (\<exists>resp. answers (EnrollClient E clk token c k) s resp)"

text \<open>A call either leaves the tokens alone and fails, or is one consumption.\<close>

lemma enroll_call_cases:
  "token_state (enroll_call (E, clk, v, c, k) s) = token_state s \<and> \<not> enrolls v (E, clk, v, c, k) s \<or>
   token_state (enroll_call (E, clk, v, c, k) s) = enroll_step (OpConsume v (clk 1) (evFlush E)) (token_state s) \<and>
   (enrolls v (E, clk, v, c, k) s \<longrightarrow> enroll_spends v (OpConsume v (clk 1) (evFlush E)) (token_state s))"
proof -
  obtain ok g where g: "limiter_allow (clk 0) ''global'' (globalRL s) = (ok, g)" by (cases "limiter_allow (clk 0) ''global'' (globalRL s)")
  show ?thesis
  proof (cases "ok \<and> enrollStore s \<noteq> None \<and> v \<noteq> '''' \<and> c \<noteq> [] \<and> k \<noteq> []")
    case False
    then show ?thesis
      by (auto simp: EnrollClient_def global_limit_def g Let_def token_state_def answers_def split: option.splits)
  next
    case True
    then obtain st where st: "enrollStore s = Some st" by blast
    obtain r st1 fs1 where v: "ValidateAndConsume (evFlush E) (clk 1) v (st, enrollFs s) = (r, st1, fs1)"
      by (cases "ValidateAndConsume (evFlush E) (clk 1) v (st, enrollFs s)") auto
    let ?s = "s\<lparr>globalRL := g, enrollStore := Some st1, enrollFs := fs1\<rparr>"
    have step: "enroll_step (OpConsume v (clk 1) (evFlush E)) (token_state s) = (Some st1, fs1)"
      using v st by (simp add: token_state_def)
    show ?thesis
    proof (cases r)
      case (Inl e)
      then have "EnrollClient E clk v c k s = Ret (Inl PermissionDenied, ?s)"
        using True v st g by (simp add: EnrollClient_def global_limit_def Let_def)
      then have "\<not> enrolls v (E, clk, v, c, k) s" by (simp add: answers_def)
      moreover have "token_state (enroll_call (E, clk, v, c, k) s) = (Some st1, fs1)"
        using \<open>EnrollClient E clk v c k s = _\<close> by (simp add: token_state_def)
      ultimately show ?thesis using step by metis
    next
      case (Inr tok)
      obtain r' s' where w: "enroll_with E (clk 2) tok c k ?s = Ret (r', s')" "enrollStore s' = Some st1" "enrollFs s' = fs1"
        using enroll_with_store [of E "clk 2" tok c k ?s] by auto
      have "EnrollClient E clk v c k s = Ret (r', s')"
        using True v st g Inr w(1) by (simp add: EnrollClient_def global_limit_def Let_def)
      then show ?thesis using step w(2,3) v st Inr by (simp add: token_state_def)
    qed
  qed
qed

lemma enroll_call_other: "v \<noteq> token \<Longrightarrow> \<not> enrolls v (E, clk, token, c, k) s"
  by simp

interpretation ec: one_time enroll_call "\<lambda>s. enroll_ok (token_state s)" enrolls "\<lambda>v s. enroll_spent v (token_state s)" "\<lambda>_ _. False"
proof
  fix s :: BridgeServer and x :: enroll_request and v
  assume ok: "enroll_ok (token_state s)"
  obtain E clk token c k where x: "x = (E, clk, token, c, k)" by (cases x)
  note cs = enroll_call_cases [of E clk token c k s]
  show "enroll_ok (token_state (enroll_call x s))" using cs es.step_ok [OF ok] ok by (auto simp only: x)
  show "enroll_spent v (token_state (enroll_call x s))" if "enrolls v x s"
  proof -
    have "v = token" "enrolls token (E, clk, token, c, k) s" using that by (auto simp: x)
    then show ?thesis using cs es.spends_spent [OF ok] by (auto simp only: x)
  qed
  show "enroll_spent v (token_state (enroll_call x s))" if "enroll_spent v (token_state s)"
  proof -
    have "\<not> enroll_reissues v (OpConsume token (clk 1) (evFlush E))" by simp
    from es.spent_stays [OF ok that this] that cs show ?thesis by (auto simp only: x)
  qed
  show "\<not> enrolls v x s" if "enroll_spent v (token_state s)"
  proof (cases "v = token")
    case True
    then show ?thesis using es.spent_barred [OF ok that] cs by (auto simp only: x)
  qed (simp add: x)
qed

text \<open>
  C26. One token, one certificate: over any sequence of enrollment calls, with whatever requests, faults and
  environments, at most one call with a given token is answered with a certificate.
\<close>

theorem enroll_once:
  assumes "NewStore True (enrollFs s) = Inr st" and "enrollStore s = Some st"
  shows "times_spent enroll_call (enrolls v) reqs s \<le> 1"
proof (rule ec.at_most_once)
  show "enroll_ok (token_state s)" using NewStore_Inr [OF assms(1)] assms(2) by (simp add: enroll_ok_def token_state_def)
qed simp

text \<open>A server with an enrollment token for \<open>alice\<close>, and two requests that present it.\<close>

definition demo_enrolling :: BridgeServer where
  "demo_enrolling = demo_server\<lparr>enrollStore := Some \<lparr>stTokens = [(''brg_enroll_01'', demo_token)]\<rparr>,
     enrollFs := \<lparr>enFile = TokenFile [demo_token], enTemps = 0\<rparr>\<rparr>"

theorem enroll_once_witness:
  "times_spent enroll_call (enrolls ''brg_enroll_01'')
     [(demo_env, (\<lambda>_. 1), ''brg_enroll_01'', [7], [8]), (demo_env, (\<lambda>_. 2), ''brg_enroll_01'', [7], [9])] demo_enrolling \<le> 1"
  by (rule enroll_once) (simp_all add: demo_enrolling_def NewStore_def demo_token_def)

text \<open>
  C25. What an enrollment yields: a certificate is only issued for a token that is known, unused and not expired,
  to a request whose signature is valid and that asks for exactly the token's identity; it is signed for the
  requester's key and that name, valid for ninety days, and the token is used up on disk. No key of an
  existing issuer is replaced.
\<close>

theorem enroll_certificate:
  assumes "enrollStore s = Some st" and "EnrollClient E clk token c k s = Ret (Inr resp, s')"
  shows "\<exists>tok r ca serial. gm_get (stTokens st) token = Some tok \<and> \<not> Used tok \<and> clk 1 \<le> TokExpiresAt tok \<and>
    evParseCSR E c = Some r \<and> csrSignatureOK r \<and> CommonName (csrSubject r) = Identity tok \<and> EcIdentity resp = Identity tok \<and>
    evSign E \<lparr>tmplSerial = serial, tmplSubject = csrSubject r, tmplDNSNames = csrDNSNames r, tmplIPAddresses = csrIPAddresses r,
       tmplNotBefore = clk 2, tmplNotAfter = clk 2 + 90 * 24 * 60 * minute,
       tmplExtKeyUsage = [ExtKeyUsageClientAuth], tmplKeyUsage = [KeyUsageDigitalSignature]\<rparr> ca (csrPublicKey r) = Some (EcCertificate resp) \<and>
    (\<exists>m. enFile (enrollFs s') = TokenFile (map snd m) \<and> gm_get m token = Some (tok\<lparr>Used := True\<rparr>)) \<and>
    (\<forall>v i key. jwtVerifier s = Some v \<longrightarrow> gm_get (Keys v) i = Some key \<longrightarrow> (\<exists>v'. jwtVerifier s' = Some v' \<and> gm_get (Keys v') i = Some key))"
proof -
  obtain ok g where g: "limiter_allow (clk 0) ''global'' (globalRL s) = (ok, g)" by (cases "limiter_allow (clk 0) ''global'' (globalRL s)")
  show ?thesis
  proof (cases rule: consume_cases [of "evFlush E" "clk 1" token st "enrollFs s"])
    case (refused e s1)
    then show ?thesis using assms g by (auto simp: EnrollClient_def global_limit_def Let_def split: if_splits)
  next
    case (spent t st1)
    let ?fs = "(enrollFs s)\<lparr>enFile := TokenFile (map snd (stTokens st1))\<rparr>"
    let ?s = "s\<lparr>globalRL := g, enrollStore := Some st1, enrollFs := ?fs\<rparr>" and ?t = "t\<lparr>Used := True\<rparr>"
    have w: "enroll_with E (clk 2) ?t c k ?s = Ret (Inr resp, s')"
      using assms g spent(6) by (auto simp: EnrollClient_def global_limit_def Let_def split: if_splits)
    have "evParseCSR E c \<noteq> None" using w by (auto simp: enroll_with_def split: option.splits)
    then obtain r where r: "evParseCSR E c = Some r" by blast
    then have checks: "csrSignatureOK r" "CommonName (csrSubject r) = Identity t" using w by (auto simp: enroll_with_def split: if_splits)
    obtain key where key: "evParseKey E k = Ed25519Key key" using w r checks by (auto simp: enroll_with_def split: parsed_key.splits)
    obtain certPEM cab where cert: "issueFromCSR E (clk 2) ?s r = Some certPEM" "loadCABundle E ?s = Some cab"
      using w r checks key by (auto simp: enroll_with_def split: option.splits)
    have reg: "register_enrolled E ?t key (\<lambda>s. Ret (Inr \<lparr>EcCertificate = certPEM, EcCaBundle = cab, EcIdentity = Identity t,
        EcExpires = evNotAfter E certPEM\<rparr>, s)) ?s = Ret (Inr resp, s')"
      using w r checks key cert by (simp add: enroll_with_def)
    have resp: "EcCertificate resp = certPEM" "EcIdentity resp = Identity t" "enrollFs s' = ?fs"
      using reg by (auto simp: register_enrolled_def dest: persist_key_store split: option.splits if_splits)
    have keys: "\<exists>v'. jwtVerifier s' = Some v' \<and> gm_get (Keys v') i = Some key'" if "jwtVerifier s = Some v" "gm_get (Keys v) i = Some key'" for v i key'
      using reg that by (auto simp: register_enrolled_def HasKey_def AddKey_def gomap_simps split: option.splits if_splits)
    from cert(1) obtain ca serial where "evSign E \<lparr>tmplSerial = serial, tmplSubject = csrSubject r, tmplDNSNames = csrDNSNames r,
        tmplIPAddresses = csrIPAddresses r, tmplNotBefore = clk 2, tmplNotAfter = clk 2 + 90 * 24 * 60 * minute,
       tmplExtKeyUsage = [ExtKeyUsageClientAuth], tmplKeyUsage = [KeyUsageDigitalSignature]\<rparr> ca (csrPublicKey r) = Some certPEM"
      by (auto simp: issueFromCSR_def split: if_splits option.splits)
    moreover have "gm_get (stTokens st1) token = Some ?t" using spent(5) by (simp add: gomap_simps)
    ultimately show ?thesis
      using spent(1-3) r checks resp keys by (intro exI [of _ t] exI [of _ r] exI [of _ ca] exI [of _ serial]) (auto simp: IsExpired_def)
  qed
qed

theorem enroll_certificate_witness:
  "\<exists>resp s'. EnrollClient demo_env (\<lambda>_. 1) ''brg_enroll_01'' [7] [8] demo_enrolling = Ret (Inr resp, s') \<and> EcIdentity resp = ''alice'' \<and>
     (\<exists>v'. jwtVerifier s' = Some v' \<and> gm_get (Keys v') ''i'' = Some [1])"
proof -
  have d: "jwtVerifier demo_enrolling = Some demo_verifier" "certsDir demo_enrolling = ''/c''"
      "enrollStore demo_enrolling = Some \<lparr>stTokens = [(''brg_enroll_01'', demo_token)]\<rparr>"
      "enrollFs demo_enrolling = \<lparr>enFile = TokenFile [demo_token], enTemps = 0\<rparr>"
      "global_limit now k demo_enrolling = (k demo_enrolling :: ((grpc_code + EnrollClientResponse) \<times> BridgeServer) outcome)" for now k
    by (simp_all add: demo_enrolling_def demo_server_def New_def global_limit_def limiter_allow_def newKeyedLimiter_def)
  have safe: "safeIssuer ''alice''" by code_simp
  obtain resp s' where e: "EnrollClient demo_env (\<lambda>_. 1) ''brg_enroll_01'' [7] [8] demo_enrolling = Ret (Inr resp, s')"
    using safe by (simp add: EnrollClient_def d ValidateAndConsume_def flush_def IsExpired_def enroll_with_def issueFromCSR_def loadCABundle_def
        register_enrolled_def persist_key_def HasKey_def demo_verifier_def demo_env_def demo_token_def Let_def)
  from enroll_certificate [OF d(3) this] e d(1) show ?thesis by (auto simp: demo_token_def demo_verifier_def)
qed

section \<open>The breaker of a session\<close>

text \<open>
  The write limiter is keyed by the session, and asked before anyone checks who the writer is: once it has
  banned a session, a request of any authorised client, writer or not, stops the session by force.
\<close>

lemma banned_denies:
  assumes "0 < klRate l" and "0 < klBurst l" and "gm_ok (buckets l)" and "gm_get (buckets l) key = Some b" and "t1 < bannedUntil b" and "t2 < bannedUntil b"
    and "0 \<le> ttl l"
  shows "fst (limiter_allow t1 key (Some l)) = False \<and> limiter_banned t2 key (snd (limiter_allow t1 key (Some l)))"
proof -
  have "limiter_allow t1 key (Some l) = (False, Some (cleanupLocked t1 (l\<lparr>buckets := gm_put key (b\<lparr>lastSeen := t1\<rparr>) (buckets l)\<rparr>)))"
    using assms(1,2,4,5) by (simp add: limiter_allow_def bucket_allow_def)
  then show ?thesis
    using assms by (simp add: limiter_banned_def cleanup_get gomap_simps isBanned_def time_sub_def)
qed

theorem breaker_stops_session:
  assumes "ctxClaims ctx = Some claims" and "fst (limiter_allow (clk 0) ''global'' (globalRL s))"
    and "validateUUIDField (evUUID E) sid = None" and "validateStringField client 64 False = None" and "validateByteField dat (2 ^ 20) = None"
    and "authorizeSession s claims sid = None" and "gm_get (sessions (supervisor s)) sid = Some ms"
    and "writeRL s = Some l" and "0 < klRate l" and "0 < klBurst l" and "gm_ok (buckets l)" and "0 \<le> ttl l"
    and "gm_get (buckets l) sid = Some b" and "clk 1 < bannedUntil b" and "clk 2 < bannedUntil b"
  shows "\<exists>s'. server_WriteInput E clk ctx sid client dat wr s = Ret (Inl Unavailable, s') \<and>
    gm_get (sessions (supervisor s')) sid = Some (fst (stopLocked ms True))"
proof -
  obtain g where g: "limiter_allow (clk 0) ''global'' (globalRL s) = (True, g)" using assms(2) by (cases "limiter_allow (clk 0) ''global'' (globalRL s)") auto
  note ban = banned_denies [OF assms(9-11,13-15,12)]
  obtain rl where rl: "limiter_allow (clk 1) sid (Some l) = (False, rl)" "limiter_banned (clk 2) sid rl"
    using ban by (cases "limiter_allow (clk 1) sid (Some l)") auto
  have auth: "authorizeSession (s\<lparr>globalRL := g\<rparr>) claims sid = None" using assms(6) by (simp add: authorizeSession_def)
  show ?thesis
    using assms(1,3-5,7,8) g rl auth
    by (simp add: server_WriteInput_def global_limit_def with_claims_def mustClaims_def ClaimsFromContext_def require_def with_supervisor_def
        Stop_def split_beta gomap_simps Let_def del: One_nat_def)
qed

end
