(* ===== verification/Control_Client.thy ===== *)
theory Control_Client
  imports Terminal
begin

text \<open>
  \<open>internal/bridgecontrol\<close>: the client that publishes the sessions of this daemon to Bridge over a WebSocket. This theory
  has its state, the revision counters and their files (\<open>revision.go\<close>), the connection status (\<open>status.go\<close>), the queue of
  notifications, and what is sent (\<open>client.go\<close>, \<open>observer.go\<close>, \<open>protocol.go\<close>, \<open>backoff.go\<close>, \<open>activity.go\<close>,
  \<open>diagnostic.go\<close>).
\<close>

declare map_of_eq_Some_iff [simp del] Some_eq_map_of_iff [simp del]

section \<open>Revision counters\<close>

text \<open>
  A JSON file that is replaced atomically. \<open>Unreadable\<close> and \<open>Corrupt\<close> are the failures of reading and of decoding; the
  JSON literal \<open>null\<close> decodes to a nil map. \<open>replaces\<close> says whether every call of the replacement (temporary file,
  write, close, permissions, rename) succeeds; when one fails the old file stays.
\<close>

datatype 'a json_file = Absent | Unreadable | Corrupt | NullFile | Content 'a

definition int64 :: "int \<Rightarrow> int" where
  "int64 x = (x + 2 ^ 63) mod 2 ^ 64 - 2 ^ 63"

record RevisionStore =
  rsPath :: string
  rev :: "(string, int) gomap"
  rsFile :: "(string, int) gomap json_file"

definition persistLocked :: "bool \<Rightarrow> RevisionStore \<Rightarrow> RevisionStore" where
  [control_defs]: "persistLocked replaces rs = (if rsPath rs = '''' \<or> \<not> replaces then rs else rs\<lparr>rsFile := Content (rev rs)\<rparr>)"

definition NewRevisionStore :: "string \<Rightarrow> (string, int) gomap json_file \<Rightarrow> RevisionStore" where
  [control_defs]: "NewRevisionStore path file =
     \<lparr>rsPath = path, rev = (if path = '''' then [] else case file of Content m \<Rightarrow> m | _ \<Rightarrow> []), rsFile = file\<rparr>"

definition Current :: "RevisionStore \<Rightarrow> string \<Rightarrow> int" where
  "Current rs sessionID = (case gm_get (rev rs) sessionID of None \<Rightarrow> 0 | Some r \<Rightarrow> r)"

definition Next :: "bool \<Rightarrow> RevisionStore \<Rightarrow> string \<Rightarrow> int \<times> RevisionStore" where
  [control_defs]: "Next replaces rs sessionID =
     (let nxt = int64 (Current rs sessionID + 1)
      in (nxt, persistLocked replaces (rs\<lparr>rev := gm_put sessionID nxt (rev rs)\<rparr>)))"

definition Forget :: "bool \<Rightarrow> RevisionStore \<Rightarrow> string \<Rightarrow> RevisionStore" where
  [control_defs]: "Forget replaces rs sessionID =
     (if gm_get (rev rs) sessionID = None then rs
      else persistLocked replaces (rs\<lparr>rev := gm_del sessionID (rev rs)\<rparr>))"

definition InteractionRevisionPath :: "string \<Rightarrow> string" where
  "InteractionRevisionPath base = (if base = '''' then '''' else base @ ''.interaction'')"

section \<open>Messages\<close>

record SessionSnapshot =
  SnSessionID :: string
  SnProvider :: string
  SnProjectID :: string
  SnStatus :: string
  SnCreatedAt :: go_time
  SnInteraction :: Interaction

definition StatusStarting :: string where "StatusStarting = ''starting''"
definition StatusRunning :: string where "StatusRunning = ''running''"
definition StatusAttached :: string where "StatusAttached = ''attached''"
definition StatusStopping :: string where "StatusStopping = ''stopping''"
definition StatusStopped :: string where "StatusStopped = ''stopped''"
definition StatusFailed :: string where "StatusFailed = ''failed''"
definition StatusUnknown :: string where "StatusUnknown = ''unknown''"

lemmas status_consts = StatusStarting_def StatusRunning_def StatusAttached_def StatusStopping_def
  StatusStopped_def StatusFailed_def StatusUnknown_def

fun sessionStatus :: "SessionState \<Rightarrow> string" where
  "sessionStatus SessionStateStarting = StatusStarting"
| "sessionStatus SessionStateRunning = StatusRunning"
| "sessionStatus SessionStateAttached = StatusAttached"
| "sessionStatus SessionStateStopping = StatusStopping"
| "sessionStatus SessionStateStopped = StatusStopped"
| "sessionStatus SessionStateFailed = StatusFailed"
| "sessionStatus (SessionStateOther _) = StatusUnknown"

definition snapshot_of :: "SessionInfo \<Rightarrow> SessionSnapshot" where
  "snapshot_of i = \<lparr>SnSessionID = SessionID i, SnProvider = ProviderID i, SnProjectID = ProjectID i,
     SnStatus = sessionStatus (State i), SnCreatedAt = CreatedAt i, SnInteraction = InfoInteraction i\<rparr>"

definition ActiveSnapshots :: "SessionInfo list \<Rightarrow> SessionSnapshot list" where
  "ActiveSnapshots infos = map snapshot_of (filter (\<lambda>i. \<not> terminal_state (State i)) infos)"

record pendingRequestPayload =
  PpID :: string
  PpType :: string
  PpSummary :: string

record interactionPayload =
  IpState :: string
  IpRevision :: int
  IpUpdatedAt :: go_time
  IpLastActivityAt :: go_time
  IpPending :: "pendingRequestPayload option"
  IpSource :: string
  IpCapability :: InteractionCapabilities

record sessionPayload =
  SpSessionID :: string
  SpProvider :: string
  SpProjectID :: string
  SpStatus :: string
  SpRevision :: int
  SpOccurredAt :: go_time
  SpInteraction :: "interactionPayload option"

record helloAckPayload =
  HaInstallationID :: string
  HaOrganizationID :: string
  HaDisplayName :: string
  HaProtocolVersion :: int
  HaHeartbeatIntervalSeconds :: int

record errorPayload =
  EpMessageID :: string
  EpCode :: string
  EpMessage :: string
  ReconcileRequired :: bool

record ObservationRequest =
  OrID :: string
  OrOrganizationID :: string
  OrInstallationID :: string
  OrSessionID :: string
  OrAfterSequence :: u64
  OrMaxEvents :: int
  OrMaxBytes :: int

record ObservationResult =
  ObsID :: string
  ObsWindow :: ActivityWindow
  ObsCode :: string

record DiagnosticRequest =
  DrID :: string
  DrOrganizationID :: string
  DrInstallationID :: string
  DrSessionID :: string

record DiagnosticResult =
  DgID :: string
  DgReport :: bytes
  DgCode :: string

record CommandResult =
  ResID :: string
  ResStatus :: string
  ResCode :: string

record TerminalResult =
  TrID :: string
  TrWindow :: "TerminalWindow option"
  TrCode :: string

text \<open>The payload of an outgoing envelope; \<open>NoPayload\<close> for a heartbeat.\<close>

datatype payload =
    HelloPayload string "(string \<times> bool) list"
  | NoPayload
  | SnapshotPayload "sessionPayload list"
  | EventPayload sessionPayload
  | ObservationPayload ObservationResult
  | DiagnosticPayload DiagnosticResult
  | CommandPayload CommandResult
  | TerminalPayload TerminalResult

record envelope =
  EnvProtocolVersion :: int
  EnvType :: string
  EnvMessageID :: string
  EnvPayload :: payload

section \<open>State\<close>

text \<open>
  The functions of the configuration act on the daemon, whose state has type \<open>'w\<close>. \<open>pendingOrder\<close> has the values of the
  list elements; a queued notification's \<open>position\<close> is the element that carries its session's identifier, so it is not
  repeated in \<open>queuedNotification\<close>. The channels \<open>dirty\<close> and \<open>reconcileCh\<close> hold at most one signal.
\<close>

type_synonym 'w dispatch = "string \<Rightarrow> string \<Rightarrow> string \<Rightarrow> 'w \<Rightarrow> bridge_error option \<times> 'w"

record 'w Config =
  TerminalSupervisor :: bool
  CommandPath :: string
  ObserveFunc :: "('w \<Rightarrow> string \<Rightarrow> u64 \<Rightarrow> int \<Rightarrow> int \<Rightarrow> bridge_error + ActivityWindow) option"
  InstructionFunc :: "'w dispatch option"
  DiagnoseFunc :: "('w \<Rightarrow> string \<Rightarrow> bridge_error + bytes) option"
  RespondFunc :: "'w dispatch option"
  ApprovalFunc :: "'w dispatch option"
  Credential :: string
  BridgectlVersion :: string
  CfgInstallationID :: string
  StatusPath :: string
  RevisionPath :: string
  SnapshotFunc :: "('w \<Rightarrow> SessionSnapshot list) option"

datatype ctl_state =
    StateNotProvisioned | StateConnecting | StateConnected | StateDisconnected | StateAuthRejected | StateUnavailable | StateNone

record Status =
  StState :: ctl_state
  StInstallationID :: string
  StLastError :: string
  StUpdatedAt :: go_time
  StLastConnectedAt :: go_time

record queuedNotification =
  qnInfo :: SessionSnapshot
  enqueuedAt :: go_time

record 'w Client =
  organizationID :: string
  installationID :: string
  lastConnectedAt :: go_time
  cfg :: "'w Config"
  revisions :: RevisionStore
  interactions :: RevisionStore
  lastSentLocalRev :: "(string, int) gomap"
  pendingNotes :: "(string, queuedNotification) gomap"
  pendingOrder :: "string list"
  dirty :: bool
  reconcileCh :: bool
  closeCh :: bool
  statusFile :: "Status json_file"

definition NewClient :: "'w Config \<Rightarrow> (string, int) gomap json_file \<Rightarrow> (string, int) gomap json_file \<Rightarrow> Status json_file \<Rightarrow> 'w Client" where
  [control_defs]: "NewClient conf revFile interactionFile stFile =
     \<lparr>organizationID = '''', installationID = '''', lastConnectedAt = 0, cfg = conf,
      revisions = NewRevisionStore (RevisionPath conf) revFile,
      interactions = NewRevisionStore (InteractionRevisionPath (RevisionPath conf)) interactionFile,
      lastSentLocalRev = [], pendingNotes = [], pendingOrder = [], dirty = False, reconcileCh = False, closeCh = False,
      statusFile = stFile\<rparr>"

section \<open>Notifications\<close>

abbreviation eventQueueSize :: nat where "eventQueueSize \<equiv> 64"

definition scheduleReconcile :: "'w Client \<Rightarrow> 'w Client" where
  [control_defs]: "scheduleReconcile c = c\<lparr>reconcileCh := True\<rparr>"

text \<open>\<open>Front\<close> of an empty list is nil, and reading its value panics.\<close>

definition Notify :: "go_time \<Rightarrow> 'w Client \<Rightarrow> SessionSnapshot \<Rightarrow> 'w Client outcome" where
  [control_defs]: "Notify now c s =
     (let sid = SnSessionID s; alreadyPending = gm_get (pendingNotes c) sid \<noteq> None
      in outcome_bind
           (if \<not> alreadyPending \<and> eventQueueSize \<le> length (pendingNotes c) then
              (case pendingOrder c of
                 [] \<Rightarrow> Panic
               | oldestID # rest \<Rightarrow>
                   Ret (scheduleReconcile (c\<lparr>pendingOrder := rest, pendingNotes := gm_del oldestID (pendingNotes c)\<rparr>)))
            else Ret c)
           (\<lambda>c1. Ret (c1\<lparr>pendingOrder := (if alreadyPending then remove1 sid (pendingOrder c1) else pendingOrder c1) @ [sid],
                        pendingNotes := gm_put sid \<lparr>qnInfo = s, enqueuedAt = now\<rparr> (pendingNotes c1),
                        dirty := True\<rparr>)))"

definition SessionChanged :: "go_time \<Rightarrow> 'w Client \<Rightarrow> SessionInfo \<Rightarrow> 'w Client outcome" where
  [control_defs]: "SessionChanged now c i = Notify now c (snapshot_of i)"

definition Client_Close :: "'w Client \<Rightarrow> 'w Client" where
  [control_defs]: "Client_Close c = c\<lparr>closeCh := True\<rparr>"

definition drainAllPending :: "'w Client \<Rightarrow> queuedNotification list \<times> 'w Client" where
  [control_defs]: "drainAllPending c =
     (if pendingNotes c = [] then ([], c)
      else (map snd (pendingNotes c), c\<lparr>pendingNotes := [], pendingOrder := []\<rparr>))"

definition forgetInteraction :: "bool \<Rightarrow> 'w Client \<Rightarrow> string \<Rightarrow> 'w Client" where
  [control_defs]: "forgetInteraction replaces c sid =
     c\<lparr>interactions := Forget replaces (interactions c) sid, lastSentLocalRev := gm_del sid (lastSentLocalRev c)\<rparr>"

abbreviation ended_status :: "string \<Rightarrow> bool" where
  "ended_status st \<equiv> st = StatusStopped \<or> st = StatusFailed"

text \<open>\<open>rep\<close> tells for each replacement of a revision file, in the order of the calls, whether it succeeds.\<close>

fun drain_loop :: "(nat \<Rightarrow> bool) \<Rightarrow> nat \<Rightarrow> go_time \<Rightarrow> (string \<times> queuedNotification) list \<Rightarrow> 'w Client \<Rightarrow> 'w Client" where
  "drain_loop rep n cutoff [] c = c"
| "drain_loop rep n cutoff ((sid, q) # qs) c =
     (if \<not> enqueuedAt q < cutoff then drain_loop rep n cutoff qs c
      else
        let c1 = (if ended_status (SnStatus (qnInfo q))
                  then forgetInteraction (rep (n + 1)) (c\<lparr>revisions := Forget (rep n) (revisions c) sid\<rparr>) sid
                  else c)
        in drain_loop rep (n + 2) cutoff qs
             (c1\<lparr>pendingOrder := remove1 sid (pendingOrder c1), pendingNotes := gm_del sid (pendingNotes c1)\<rparr>))"

definition drainStalePending :: "(nat \<Rightarrow> bool) \<Rightarrow> go_time \<Rightarrow> 'w Client \<Rightarrow> 'w Client" where
  [control_defs]: "drainStalePending rep cutoff c = drain_loop rep 0 cutoff (pendingNotes c) c"

section \<open>Status\<close>

definition ReadStatus :: "Status json_file \<Rightarrow> Status option" where
  "ReadStatus f =
     (case f of
        Content st \<Rightarrow> Some st
      | NullFile \<Rightarrow> Some \<lparr>StState = StateNone, StInstallationID = '''', StLastError = '''', StUpdatedAt = 0, StLastConnectedAt = 0\<rparr>
      | _ \<Rightarrow> None)"

definition WriteStatus :: "bool \<Rightarrow> Status \<Rightarrow> Status json_file \<Rightarrow> Status json_file" where
  "WriteStatus replaces st f = (if replaces then Content st else f)"

definition setStatus :: "go_time \<Rightarrow> bool \<Rightarrow> ctl_state \<Rightarrow> string \<Rightarrow> 'w Client \<Rightarrow> 'w Client" where
  [control_defs]: "setStatus now replaces state lastErr c =
     (if StatusPath (cfg c) = '''' then c
      else
        let inst = (if installationID c = '''' then CfgInstallationID (cfg c) else installationID c);
            lastConnected = (if state = StateConnected then now
                             else if lastConnectedAt c = 0 then
                               (case ReadStatus (statusFile c) of Some prev \<Rightarrow> StLastConnectedAt prev | None \<Rightarrow> 0)
                             else lastConnectedAt c)
        in c\<lparr>lastConnectedAt := lastConnected,
             statusFile := WriteStatus replaces
               \<lparr>StState = state, StInstallationID = inst, StLastError = lastErr, StUpdatedAt = now, StLastConnectedAt = lastConnected\<rparr>
               (statusFile c)\<rparr>)"

text \<open>\<open>classifyStatus\<close> looks at the text of an error, in lower case (the texts of the library are ASCII).\<close>

definition lower :: "char \<Rightarrow> char" where
  "lower ch = (let n = of_char ch :: nat in if 65 \<le> n \<and> n \<le> 90 then char_of (n + 32) else ch)"

definition contains :: "string \<Rightarrow> string \<Rightarrow> bool" where
  "contains s sub \<longleftrightarrow> (\<exists>i \<in> set [0..<Suc (length s)]. take (length sub) (drop i s) = sub)"

definition classifyStatus :: "string option \<Rightarrow> ctl_state" where
  "classifyStatus err =
     (case err of
        None \<Rightarrow> StateDisconnected
      | Some e \<Rightarrow>
          let msg = map lower e
          in if contains msg ''401'' \<or> contains msg ''invalid control credential'' \<or> contains msg ''credential no longer valid''
             then StateAuthRejected
             else if contains msg ''503'' \<or> contains msg ''too many connections'' then StateUnavailable
             else StateDisconnected)"

section \<open>Backoff\<close>

abbreviation backoffBase :: duration where "backoffBase \<equiv> second"
abbreviation backoffMax :: duration where "backoffMax \<equiv> 60 * second"
abbreviation backoffMin :: duration where "backoffMin \<equiv> 250 * millisecond"

text \<open>\<open>int63n n\<close> is \<open>rng.Int63n(n)\<close>.\<close>

definition backoffDelay :: "(int \<Rightarrow> int) \<Rightarrow> int \<Rightarrow> duration" where
  "backoffDelay int63n attempt =
     (let a = (if attempt < 1 then 1 else attempt);
          shift = (if a - 1 > 6 then 6 else a - 1);
          e = backoffBase * 2 ^ nat shift;
          e1 = (if e > backoffMax then backoffMax else e);
          d = int63n (e1 + 1)
      in if d < backoffMin then backoffMin else d)"

section \<open>Sending\<close>

text \<open>
  \<open>netErr n\<close> is the error of the \<open>n\<close>-th write on a connection, \<open>netID n\<close> the message identifier made for it. \<open>connSent\<close>
  are the envelopes whose write succeeded. Every payload can be encoded.
\<close>

record net =
  netErr :: "nat \<Rightarrow> string option"
  netID :: "nat \<Rightarrow> string"

record conn =
  connSent :: "envelope list"
  connWrites :: nat

definition writeEnvelope :: "net \<Rightarrow> string \<Rightarrow> payload \<Rightarrow> conn \<Rightarrow> string option \<times> conn" where
  [control_defs]: "writeEnvelope N msgType p k =
     (let n = connWrites k; env = \<lparr>EnvProtocolVersion = 1, EnvType = msgType, EnvMessageID = netID N n, EnvPayload = p\<rparr>
      in case netErr N n of
           Some e \<Rightarrow> (Some e, k\<lparr>connWrites := n + 1\<rparr>)
         | None \<Rightarrow> (None, k\<lparr>connSent := connSent k @ [env], connWrites := n + 1\<rparr>))"

definition sendHello :: "net \<Rightarrow> 'w Client \<Rightarrow> conn \<Rightarrow> string option \<times> conn" where
  [control_defs]: "sendHello N c k =
     (let vers = (if BridgectlVersion (cfg c) = '''' then ''dev'' else BridgectlVersion (cfg c))
      in writeEnvelope N ''hello'' (HelloPayload (take 64 vers)
           [(''terminal_session'', TerminalSupervisor (cfg c)), (''terminal_stream'', TerminalSupervisor (cfg c)),
            (''observe_session'', ObserveFunc (cfg c) \<noteq> None), (''send_instruction'', InstructionFunc (cfg c) \<noteq> None),
            (''diagnose_session'', DiagnoseFunc (cfg c) \<noteq> None)]) k)"

definition toInteractionPayload ::
  "go_time \<Rightarrow> bool \<Rightarrow> 'w Client \<Rightarrow> string \<Rightarrow> Interaction \<Rightarrow> bool \<Rightarrow> interactionPayload option \<times> 'w Client" where
  [control_defs]: "toInteractionPayload now replaces c sid current force =
     (let localRev = sint (Revision current);
          changed = (gm_get (lastSentLocalRev c) sid \<noteq> Some localRev)
      in if \<not> force \<and> \<not> changed then (None, c)
         else
           let cur = Current (interactions c) sid;
               (wireRev, ints) = (if cur \<le> 0 \<or> changed then Next replaces (interactions c) sid else (cur, interactions c));
               updatedAt = (if UpdatedAt current = 0 then now else UpdatedAt current)
           in (Some \<lparr>IpState = EffectiveState current, IpRevision = wireRev, IpUpdatedAt = updatedAt,
                     IpLastActivityAt = (if LastActivityAt current = 0 then updatedAt else LastActivityAt current),
                     IpPending = map_option (\<lambda>p. \<lparr>PpID = PendingID p, PpType = PendingType p, PpSummary = PendingSummary p\<rparr>) (Pending current),
                     IpSource = Source (Evidence current), IpCapability = Capability (Evidence current)\<rparr>,
               c\<lparr>lastSentLocalRev := gm_put sid localRev (lastSentLocalRev c), interactions := ints\<rparr>))"

definition snapshot_row :: "go_time \<Rightarrow> bool \<Rightarrow> bool \<Rightarrow> 'w Client \<Rightarrow> SessionSnapshot \<Rightarrow> sessionPayload \<times> 'w Client" where
  [control_defs]: "snapshot_row now rep1 rep2 c s =
     (let cur = Current (revisions c) (SnSessionID s);
          (r, revs) = (if cur \<le> 0 then Next rep1 (revisions c) (SnSessionID s) else (cur, revisions c));
          (i, c1) = toInteractionPayload now rep2 (c\<lparr>revisions := revs\<rparr>) (SnSessionID s) (SnInteraction s) True
      in (\<lparr>SpSessionID = SnSessionID s, SpProvider = SnProvider s, SpProjectID = SnProjectID s, SpStatus = SnStatus s, SpRevision = r,
           SpOccurredAt = (if SnCreatedAt s = 0 then now else SnCreatedAt s), SpInteraction = i\<rparr>, c1))"

fun snapshot_rows :: "go_time \<Rightarrow> (nat \<Rightarrow> bool) \<Rightarrow> nat \<Rightarrow> 'w Client \<Rightarrow> SessionSnapshot list \<Rightarrow> sessionPayload list \<times> 'w Client" where
  "snapshot_rows now rep n c [] = ([], c)"
| "snapshot_rows now rep n c (s # ss) =
     (let (row, c1) = snapshot_row now (rep n) (rep (n + 1)) c s; (rows, c2) = snapshot_rows now rep (n + 2) c1 ss
      in (row # rows, c2))"

abbreviation maxSnapshotSessions :: nat where "maxSnapshotSessions \<equiv> 500"

definition sendSnapshot :: "net \<Rightarrow> go_time \<Rightarrow> (nat \<Rightarrow> bool) \<Rightarrow> 'w \<Rightarrow> 'w Client \<Rightarrow> conn \<Rightarrow> string option \<times> 'w Client \<times> conn" where
  [control_defs]: "sendSnapshot N now rep w c k =
     (let snaps = (case SnapshotFunc (cfg c) of None \<Rightarrow> [] | Some f \<Rightarrow> f w);
          (rows, c1) = snapshot_rows now rep 0 c (take maxSnapshotSessions snaps);
          (e, k1) = writeEnvelope N ''session_snapshot'' (SnapshotPayload rows) k
      in (e, c1, k1))"

text \<open>\<open>cutoff\<close> and \<open>now\<close> are readings of the clock in that order; \<open>w\<close> is the daemon when \<open>SnapshotFunc\<close> runs.\<close>

definition sendAuthoritativeSnapshot ::
  "net \<Rightarrow> go_time \<Rightarrow> go_time \<Rightarrow> (nat \<Rightarrow> bool) \<Rightarrow> (nat \<Rightarrow> bool) \<Rightarrow> 'w \<Rightarrow> 'w Client \<Rightarrow> conn \<Rightarrow> string option \<times> 'w Client \<times> conn" where
  [control_defs]: "sendAuthoritativeSnapshot N cutoff now rep rep' w c k =
     (case sendSnapshot N now rep w c k of
        (Some e, c1, k1) \<Rightarrow> (Some e, c1, k1)
      | (None, c1, k1) \<Rightarrow> (None, drainStalePending rep' cutoff c1, k1))"

definition sendHeartbeat :: "net \<Rightarrow> go_time \<Rightarrow> bool \<Rightarrow> 'w Client \<Rightarrow> conn \<Rightarrow> string option \<times> 'w Client \<times> conn" where
  [control_defs]: "sendHeartbeat N now replaces c k =
     (case writeEnvelope N ''heartbeat'' NoPayload k of
        (Some e, k1) \<Rightarrow> (Some e, c, k1)
      | (None, k1) \<Rightarrow> (None, setStatus now replaces StateConnected '''' c, k1))"

definition sendEvent :: "net \<Rightarrow> go_time \<Rightarrow> (nat \<Rightarrow> bool) \<Rightarrow> SessionSnapshot \<Rightarrow> 'w Client \<Rightarrow> conn \<Rightarrow> string option \<times> 'w Client \<times> conn" where
  [control_defs]: "sendEvent N now rep s c k =
     (let sid = SnSessionID s;
          existed = (0 < Current (revisions c) sid);
          (r, revs) = Next (rep 0) (revisions c) sid;
          msgType = (if \<not> existed then ''session_started''
                     else if ended_status (SnStatus s) then ''session_stopped'' else ''session_updated'');
          (i, c1) = toInteractionPayload now (rep 1) (c\<lparr>revisions := revs\<rparr>) sid (SnInteraction s) False;
          p = \<lparr>SpSessionID = sid, SpProvider = SnProvider s, SpProjectID = SnProjectID s, SpStatus = SnStatus s, SpRevision = r,
               SpOccurredAt = now, SpInteraction = i\<rparr>
      in case writeEnvelope N msgType (EventPayload p) k of
           (Some e, k1) \<Rightarrow> (Some e, c1, k1)
         | (None, k1) \<Rightarrow>
             (None,
              if msgType = ''session_stopped''
              then forgetInteraction (rep 3) (c1\<lparr>revisions := Forget (rep 2) (revisions c1) sid\<rparr>) sid
              else c1,
              k1))"

text \<open>The loop over drained notifications; \<open>tm n\<close> and \<open>rep n\<close> are the clock and the file replacements of the \<open>n\<close>-th event.\<close>

fun send_events ::
  "net \<Rightarrow> (nat \<Rightarrow> go_time) \<Rightarrow> (nat \<Rightarrow> nat \<Rightarrow> bool) \<Rightarrow> nat \<Rightarrow> queuedNotification list \<Rightarrow> 'w Client \<Rightarrow> conn \<Rightarrow>
     string option \<times> 'w Client \<times> conn" where
  "send_events N tm rep n [] c k = (None, c, k)"
| "send_events N tm rep n (q # qs) c k =
     (case sendEvent N (tm n) (rep n) (qnInfo q) c k of
        (Some e, c1, k1) \<Rightarrow> (Some e, c1, k1)
      | (None, c1, k1) \<Rightarrow> send_events N tm rep (n + 1) qs c1 k1)"

text \<open>\<open>late n\<close> says that the deadline has passed before the \<open>n\<close>-th event of the flush.\<close>

fun flush_events ::
  "net \<Rightarrow> (nat \<Rightarrow> go_time) \<Rightarrow> (nat \<Rightarrow> nat \<Rightarrow> bool) \<Rightarrow> (nat \<Rightarrow> bool) \<Rightarrow> nat \<Rightarrow> queuedNotification list \<Rightarrow> 'w Client \<Rightarrow> conn \<Rightarrow> 'w Client \<times> conn" where
  "flush_events N tm rep late n [] c k = (c, k)"
| "flush_events N tm rep late n (q # qs) c k =
     (if late n then (c, k)
      else case sendEvent N (tm n) (rep n) (qnInfo q) c k of
             (Some e, c1, k1) \<Rightarrow> (c1, k1)
           | (None, c1, k1) \<Rightarrow> flush_events N tm rep late (n + 1) qs c1 k1)"

definition flushPendingEvents ::
  "net \<Rightarrow> (nat \<Rightarrow> go_time) \<Rightarrow> (nat \<Rightarrow> nat \<Rightarrow> bool) \<Rightarrow> (nat \<Rightarrow> bool) \<Rightarrow> 'w Client \<Rightarrow> conn \<Rightarrow> 'w Client \<times> conn" where
  [control_defs]: "flushPendingEvents N tm rep late c k = (let (items, c1) = drainAllPending c in flush_events N tm rep late 0 items c1 k)"

section \<open>Requests for a view of a session\<close>

definition observe :: "'w \<Rightarrow> 'w Client \<Rightarrow> ObservationRequest \<Rightarrow> ObservationResult" where
  [control_defs]: "observe w c r =
     (let result = \<lparr>ObsID = OrID r, ObsWindow = \<lparr>Events = [], NextSequence = 0, Gap = False, InstructionSupported = False\<rparr>, ObsCode = ''unsupported''\<rparr>
      in if OrID r = '''' \<or> 128 < length (OrID r) \<or> OrSessionID r = '''' \<or> 256 < length (OrSessionID r) \<or>
            OrOrganizationID r \<noteq> organizationID c \<or> OrInstallationID r \<noteq> installationID c
         then result\<lparr>ObsCode := ''invalid_request''\<rparr>
         else case ObserveFunc (cfg c) of
                None \<Rightarrow> result
              | Some f \<Rightarrow>
                  (case f w (OrSessionID r) (OrAfterSequence r) (OrMaxEvents r) (OrMaxBytes r) of
                     Inl e \<Rightarrow> result
                   | Inr wd \<Rightarrow> result\<lparr>ObsWindow := wd, ObsCode := ''''\<rparr>))"

text \<open>\<open>valid\<close> is \<open>json.Valid\<close>.\<close>

abbreviation maxDiagnosticBytes :: nat where "maxDiagnosticBytes \<equiv> 16 * 1024"

definition diagnose :: "(bytes \<Rightarrow> bool) \<Rightarrow> 'w \<Rightarrow> 'w Client \<Rightarrow> DiagnosticRequest \<Rightarrow> DiagnosticResult" where
  [control_defs]: "diagnose valid w c r =
     (let result = \<lparr>DgID = DrID r, DgReport = [], DgCode = ''unsupported''\<rparr>
      in if DrID r = '''' \<or> 128 < length (DrID r) \<or> DrSessionID r = '''' \<or> 256 < length (DrSessionID r) \<or>
            DrOrganizationID r \<noteq> organizationID c \<or> DrInstallationID r \<noteq> installationID c
         then result\<lparr>DgCode := ''invalid_request''\<rparr>
         else case DiagnoseFunc (cfg c) of
                None \<Rightarrow> result
              | Some f \<Rightarrow>
                  (case f w (DrSessionID r) of
                     Inl ErrSessionNotFound \<Rightarrow> result\<lparr>DgCode := ''not_found''\<rparr>
                   | Inl e \<Rightarrow> result\<lparr>DgCode := ''unavailable''\<rparr>
                   | Inr report \<Rightarrow>
                       if report = [] \<or> maxDiagnosticBytes < length report \<or> \<not> valid report
                       then result\<lparr>DgCode := ''unavailable''\<rparr>
                       else result\<lparr>DgReport := report, DgCode := ''''\<rparr>))"


end
