(* ===== verification/Control_Command.thy ===== *)
theory Control_Command
  imports Control_Client Enrollment
begin

text \<open>
  \<open>internal/bridgecontrol/command.go\<close>: commands that Bridge sends to a session, and the ledger that keeps a command from
  being dispatched twice. The ledger is a directory with one file per command; a claim is written before the command
  is dispatched, and replaced by the result afterwards.
\<close>

declare map_of_eq_Some_iff [simp del] Some_eq_map_of_iff [simp del]

section \<open>Commands\<close>

record Command =
  CmdID :: string
  CmdOrganizationID :: string
  CmdInstallationID :: string
  CmdSessionID :: string
  CmdUserID :: string
  Action :: string
  PendingRequestID :: string
  CmdExpiresAt :: go_time
  CmdText :: string
  Decision :: string

definition validCommandPayload :: "Command \<Rightarrow> bool" where
  "validCommandPayload cmd =
     (if Action cmd = ''instruct'' then PendingRequestID cmd = '''' \<and> Decision cmd = '''' \<and> ValidateResponse (CmdText cmd) = None
      else if Action cmd = ''respond'' then Decision cmd = '''' \<and> ValidateResponse (CmdText cmd) = None
      else Action cmd = ''approve'' \<and> CmdText cmd = '''' \<and> (Decision cmd = ''accept'' \<or> Decision cmd = ''cancel''))"

section \<open>The ledger\<close>

record commandRecord =
  Fingerprint :: string
  RecResult :: CommandResult

text \<open>
  The files of the directory by name; \<open>Damaged\<close> is one that does not decode. A fault of \<open>writeCommandRecord\<close> is the call
  that fails: after a failed write the file has part of the record, after a failed sync or close all of it.
\<close>

datatype ledger_file = Ledger commandRecord | Damaged

datatype record_fault = OpenFails | WriteFails | SyncFails | CloseFails | RenameFails | OpenDirFails | SyncDirFails

type_synonym ledger = "(string, ledger_file) gomap"

definition writeCommandRecord :: "record_fault option \<Rightarrow> string \<Rightarrow> commandRecord \<Rightarrow> bool \<Rightarrow> ledger \<Rightarrow> bool \<times> ledger" where
  "writeCommandRecord fault path rec claim d =
     (let target = (if claim then path else path @ ''.tmp'');
          d1 = gm_put target (Ledger rec) d
      in if fault = Some OpenFails \<or> gm_get d target \<noteq> None then (False, d)
         else if fault = Some WriteFails then (False, gm_put target Damaged d)
         else if fault = Some SyncFails \<or> fault = Some CloseFails then (False, d1)
         else if \<not> claim \<and> fault = Some RenameFails then (False, d1)
         else (fault \<noteq> Some OpenDirFails \<and> fault \<noteq> Some SyncDirFails,
               if claim then d1 else gm_put path (Ledger rec) (gm_del target d1)))"

section \<open>Execution\<close>

text \<open>
  What a call observes: \<open>ceCanonical\<close> is \<open>uuid.Parse\<close> followed by the comparison with the canonical form, \<open>ceMac\<close> the
  hexadecimal HMAC of the encoded command under the credential, and then the clock and the file system.
\<close>

record command_env =
  ceCanonical :: "string \<Rightarrow> bool"
  ceMac :: "string \<Rightarrow> Command \<Rightarrow> string"
  ceNow1 :: go_time
  ceNow2 :: go_time
  ceReadFails :: bool
  ceMkdirOK :: bool
  ceReadDirOK :: bool
  ceClaimFault :: "record_fault option"
  ceFinalFault :: "record_fault option"

text \<open>\<open>executeCommand\<close> up to the dispatch: an answer, or the claim it wrote.\<close>

definition command_dispatch :: "'w Client \<Rightarrow> Command \<Rightarrow> 'w dispatch option" where
  "command_dispatch c cmd =
     (if Action cmd = ''approve'' then ApprovalFunc (cfg c)
      else if Action cmd = ''instruct'' then InstructionFunc (cfg c)
      else RespondFunc (cfg c))"

definition ledger_path :: "Command \<Rightarrow> string" where
  "ledger_path cmd = CmdID cmd @ ''.json''"

definition unknown_result :: "Command \<Rightarrow> CommandResult" where
  "unknown_result cmd = \<lparr>ResID = CmdID cmd, ResStatus = ''unknown'', ResCode = ''delivery_unknown''\<rparr>"

definition rejected :: "Command \<Rightarrow> string \<Rightarrow> CommandResult" where
  "rejected cmd code = \<lparr>ResID = CmdID cmd, ResStatus = ''rejected'', ResCode = code\<rparr>"

definition command_check :: "command_env \<Rightarrow> 'w Client \<Rightarrow> Command \<Rightarrow> string + 'w dispatch" where
  "command_check E c cmd =
     (if \<not> ceCanonical E (CmdID cmd) \<or> CmdUserID cmd = '''' \<or> 256 < length (CmdUserID cmd) \<or> CmdSessionID cmd = '''' \<or>
         256 < length (CmdSessionID cmd) \<or> (Action cmd \<noteq> ''instruct'' \<and> PendingRequestID cmd = '''') \<or>
         256 < length (PendingRequestID cmd) \<or> \<not> validCommandPayload cmd
      then Inl ''invalid_command''
      else if CmdOrganizationID cmd \<noteq> organizationID c \<or> CmdInstallationID cmd \<noteq> installationID c
      then Inl ''wrong_installation''
      else case command_dispatch c cmd of
             None \<Rightarrow> Inl ''unsupported''
           | Some f \<Rightarrow> if CommandPath (cfg c) = '''' then Inl ''unsupported'' else Inr f)"

definition ledger_check :: "command_env \<Rightarrow> string \<Rightarrow> Command \<Rightarrow> ledger \<Rightarrow> CommandResult option" where
  "ledger_check E fp cmd d =
     (if ceReadFails E then Some (rejected cmd ''ledger_unavailable'')
      else case gm_get d (ledger_path cmd) of
             Some Damaged \<Rightarrow> Some (rejected cmd ''ledger_unavailable'')
           | Some (Ledger r) \<Rightarrow>
               if Fingerprint r \<noteq> fp then Some (rejected cmd ''idempotency_conflict'') else Some (RecResult r)
           | None \<Rightarrow>
               if CmdExpiresAt cmd < ceNow1 E \<or> ceNow2 E + 30 * second < CmdExpiresAt cmd then Some (rejected cmd ''expired'')
               else if \<not> ceMkdirOK E then Some (rejected cmd ''ledger_unavailable'')
               else if \<not> ceReadDirOK E \<or> 10000 \<le> length d then Some (rejected cmd ''ledger_full'')
               else None)"

definition command_claim :: "command_env \<Rightarrow> 'w Client \<Rightarrow> Command \<Rightarrow> ledger \<Rightarrow> (CommandResult + 'w dispatch \<times> commandRecord) \<times> ledger" where
  "command_claim E c cmd d =
     (case command_check E c cmd of
        Inl code \<Rightarrow> (Inl (rejected cmd code), d)
      | Inr f \<Rightarrow>
          let fp = ceMac E (Credential (cfg c)) cmd
          in case ledger_check E fp cmd d of
               Some r \<Rightarrow> (Inl r, d)
             | None \<Rightarrow>
                 let rec = \<lparr>Fingerprint = fp, RecResult = unknown_result cmd\<rparr>;
                     (ok, d1) = writeCommandRecord (ceClaimFault E) (ledger_path cmd) rec True d
                 in if ok then (Inr (f, rec), d1) else (Inl (rejected cmd ''ledger_unavailable''), d1))"

text \<open>The result of a dispatched command.\<close>

definition command_result :: "Command \<Rightarrow> bridge_error option \<Rightarrow> CommandResult" where
  "command_result cmd err =
     (case err of
        None \<Rightarrow> \<lparr>ResID = CmdID cmd, ResStatus = ''accepted'', ResCode = ''''\<rparr>
      | Some ErrWriterConflict \<Rightarrow> rejected cmd ''writer_conflict''
      | Some ErrPendingRequestMismatch \<Rightarrow> rejected cmd ''pending_request_mismatch''
      | Some ErrSessionNotFound \<Rightarrow> rejected cmd ''session_unavailable''
      | Some ErrSessionNotRunning \<Rightarrow> rejected cmd ''session_unavailable''
      | Some ErrSessionRecoveryUnavailable \<Rightarrow> rejected cmd ''session_unavailable''
      | Some ErrRemoteResponseUnsupported \<Rightarrow> rejected cmd ''unsupported''
      | Some _ \<Rightarrow> unknown_result cmd)"

definition command_finish :: "command_env \<Rightarrow> Command \<Rightarrow> commandRecord \<Rightarrow> bridge_error option \<Rightarrow> ledger \<Rightarrow> CommandResult \<times> ledger" where
  "command_finish E cmd rec err d =
     (let r = command_result cmd err
      in (r, snd (writeCommandRecord (ceFinalFault E) (ledger_path cmd) (rec\<lparr>RecResult := r\<rparr>) False d)))"

definition command_value :: "Command \<Rightarrow> string" where
  "command_value cmd = (if Action cmd = ''approve'' then Decision cmd else CmdText cmd)"

definition executeCommand :: "command_env \<Rightarrow> 'w Client \<Rightarrow> Command \<Rightarrow> 'w \<times> ledger \<Rightarrow> CommandResult \<times> 'w \<times> ledger" where
  "executeCommand E c cmd = (\<lambda>(w, d).
     case command_claim E c cmd d of
       (Inl r, d1) \<Rightarrow> (r, w, d1)
     | (Inr (f, rec), d1) \<Rightarrow>
         let (err, w1) = f (CmdSessionID cmd) (PendingRequestID cmd) (command_value cmd) w;
             (r, d2) = command_finish E cmd rec err d1
         in (r, w1, d2))"

section \<open>At most once\<close>

text \<open>
  What can happen to the ledger: a command is executed, or the daemon dies in the middle, before or after the dispatch.
  The ledger is what survives; each command may meet another client (a reconnected or restarted one).
\<close>

datatype 'w ledger_op =
    Execute command_env "'w Client" Command
  | DieBefore command_env "'w Client" Command
  | DieAfter command_env "'w Client" Command

fun ledger_step :: "'w ledger_op \<Rightarrow> 'w \<times> ledger \<Rightarrow> 'w \<times> ledger" where
  "ledger_step (Execute E c cmd) s = snd (executeCommand E c cmd s)"
| "ledger_step (DieBefore E c cmd) (w, d) = (w, snd (command_claim E c cmd d))"
| "ledger_step (DieAfter E c cmd) (w, d) =
     (case command_claim E c cmd d of
        (Inl r, d1) \<Rightarrow> (w, d1)
      | (Inr (f, rec), d1) \<Rightarrow> (snd (f (CmdSessionID cmd) (PendingRequestID cmd) (command_value cmd) w), d1))"

definition claims :: "command_env \<Rightarrow> 'w Client \<Rightarrow> Command \<Rightarrow> ledger \<Rightarrow> bool" where
  "claims E c cmd d \<longleftrightarrow> (case fst (command_claim E c cmd d) of Inl _ \<Rightarrow> False | Inr _ \<Rightarrow> True)"

text \<open>The operation dispatches the command with identifier \<open>i\<close>.\<close>

fun dispatches :: "string \<Rightarrow> 'w ledger_op \<Rightarrow> 'w \<times> ledger \<Rightarrow> bool" where
  "dispatches i (Execute E c cmd) (w, d) \<longleftrightarrow> CmdID cmd = i \<and> claims E c cmd d"
| "dispatches i (DieBefore E c cmd) (w, d) \<longleftrightarrow> False"
| "dispatches i (DieAfter E c cmd) (w, d) \<longleftrightarrow> CmdID cmd = i \<and> claims E c cmd d"

lemma write_claim:
  assumes "writeCommandRecord fault path rec True d = (ok, d1)"
  shows "(\<forall>p. gm_get d p \<noteq> None \<longrightarrow> gm_get d1 p \<noteq> None) \<and> (ok \<longrightarrow> gm_get d path = None \<and> d1 = gm_put path (Ledger rec) d)"
  using assms by (auto simp: writeCommandRecord_def Let_def gomap_simps split: if_splits)

lemma command_check_ok:
  assumes "command_check E c cmd = Inr f"
  shows "command_dispatch c cmd = Some f \<and> validCommandPayload cmd \<and> CmdOrganizationID cmd = organizationID c \<and>
    CmdInstallationID cmd = installationID c"
  using assms by (auto simp: command_check_def split: if_splits option.splits)

lemma ledger_check_None:
  assumes "ledger_check E fp cmd d = None"
  shows "gm_get d (ledger_path cmd) = None \<and> ceNow1 E \<le> CmdExpiresAt cmd \<and> CmdExpiresAt cmd \<le> ceNow2 E + 30 * second"
  using assms by (auto simp: ledger_check_def split: if_splits option.splits ledger_file.splits)

lemma claim_cases:
  obtains (answered) r d1 where "command_claim E c cmd d = (Inl r, d1)" "\<forall>p. gm_get d p \<noteq> None \<longrightarrow> gm_get d1 p \<noteq> None"
  | (claimed) f rec where "command_claim E c cmd d = (Inr (f, rec), gm_put (ledger_path cmd) (Ledger rec) d)"
      "gm_get d (ledger_path cmd) = None" "command_check E c cmd = Inr f"
      "rec = \<lparr>Fingerprint = ceMac E (Credential (cfg c)) cmd, RecResult = unknown_result cmd\<rparr>"
      "ceNow1 E \<le> CmdExpiresAt cmd" "CmdExpiresAt cmd \<le> ceNow2 E + 30 * second"
proof (cases "command_check E c cmd")
  case (Inl code)
  then show ?thesis by (intro answered) (auto simp: command_claim_def)
next
  case (Inr f)
  let ?fp = "ceMac E (Credential (cfg c)) cmd"
  let ?rec = "\<lparr>Fingerprint = ?fp, RecResult = unknown_result cmd\<rparr>"
  obtain ok d1 where wr: "writeCommandRecord (ceClaimFault E) (ledger_path cmd) ?rec True d = (ok, d1)" by (cases "writeCommandRecord (ceClaimFault E) (ledger_path cmd) ?rec True d")
  show ?thesis
  proof (cases "ledger_check E ?fp cmd d")
    case (Some r)
    with Inr show ?thesis by (intro answered) (auto simp: command_claim_def)
  next
    case None
    show ?thesis
    proof (cases ok)
      case True
      with wr None Inr show ?thesis
        using write_claim [OF wr] ledger_check_None [OF None] by (intro claimed [of f ?rec]) (auto simp: command_claim_def Let_def)
    next
      case False
      with wr None Inr show ?thesis
        using write_claim [OF wr] by (intro answered [of "rejected cmd ''ledger_unavailable''" d1]) (auto simp: command_claim_def Let_def)
    qed
  qed
qed

text \<open>The result of a dispatched command reaches its file: every call up to the rename succeeds.\<close>

definition completes :: "command_env \<Rightarrow> Command \<Rightarrow> ledger \<Rightarrow> bool" where
  "completes E cmd d \<longleftrightarrow> ceFinalFault E \<in> {None, Some OpenDirFails, Some SyncDirFails} \<and> gm_get d (ledger_path cmd @ ''.tmp'') = None"

lemma tmp_ne_json: "ledger_path cmd @ ''.tmp'' \<noteq> p @ ''.json''"
proof
  assume "ledger_path cmd @ ''.tmp'' = p @ ''.json''"
  then have "last (ledger_path cmd @ ''.tmp'') = last (p @ ''.json'')" by (rule arg_cong)
  then show False by simp
qed

lemma final_write:
  assumes "writeCommandRecord (ceFinalFault E) (ledger_path cmd) rec False d = (ok, d1)"
  shows "gm_get d1 (p @ ''.json'') =
    (if completes E cmd d \<and> ledger_path cmd = p @ ''.json'' then Some (Ledger rec) else gm_get d (p @ ''.json''))"
proof (cases "completes E cmd d")
  case True
  then show ?thesis
    using assms tmp_ne_json [of cmd p] by (auto simp: completes_def writeCommandRecord_def Let_def gomap_simps split: if_splits)
next
  case False
  then show ?thesis
    using assms tmp_ne_json [of cmd p]
    by (cases "ceFinalFault E"; cases "the (ceFinalFault E)")
      (auto simp: completes_def writeCommandRecord_def Let_def gomap_simps split: if_splits)
qed

lemma finish_get:
  assumes "command_finish E cmd rec err d = (r, d1)"
  shows "r = command_result cmd err \<and> gm_get d1 (p @ ''.json'') =
    (if completes E cmd d \<and> ledger_path cmd = p @ ''.json'' then Some (Ledger (rec\<lparr>RecResult := r\<rparr>)) else gm_get d (p @ ''.json''))"
  using assms final_write [of E cmd "rec\<lparr>RecResult := command_result cmd err\<rparr>" d _ _ p]
  by (cases "writeCommandRecord (ceFinalFault E) (ledger_path cmd) (rec\<lparr>RecResult := command_result cmd err\<rparr>) False d")
    (auto simp: command_finish_def Let_def)

lemma execute_answered: "command_claim E c cmd d = (Inl r, d1) \<Longrightarrow> executeCommand E c cmd (w, d) = (r, w, d1)"
  by (simp add: executeCommand_def)

lemma execute_keeps:
  assumes "gm_get d (p @ ''.json'') \<noteq> None"
  shows "gm_get (snd (snd (executeCommand E c cmd (w, d)))) (p @ ''.json'') \<noteq> None"
proof (cases rule: claim_cases [of E c cmd d])
  case (answered r d1)
  with assms show ?thesis by (simp add: execute_answered)
next
  case (claimed f rec)
  let ?d = "gm_put (ledger_path cmd) (Ledger rec) d"
  obtain err w1 where f: "f (CmdSessionID cmd) (PendingRequestID cmd) (command_value cmd) w = (err, w1)" by fastforce
  obtain r d2 where fin: "command_finish E cmd rec err ?d = (r, d2)" by fastforce
  from finish_get [OF fin, of p] assms have "gm_get d2 (p @ ''.json'') \<noteq> None" by (auto simp: gomap_simps)
  with claimed(1) f fin show ?thesis by (simp add: executeCommand_def)
qed

interpretation ledger: one_time ledger_step "\<lambda>_. True" dispatches "\<lambda>i s. gm_get (snd s) (i @ ''.json'') \<noteq> None" "\<lambda>_ _. False"
proof unfold_locales
  fix s :: "'a \<times> ledger" and x v
  obtain w d where s: "s = (w, d)" by fastforce
  show "gm_get (snd (ledger_step x s)) (v @ ''.json'') \<noteq> None" if "gm_get (snd s) (v @ ''.json'') \<noteq> None"
  proof (cases x)
    case (Execute E c cmd)
    with that s show ?thesis using execute_keeps by simp
  next
    case (DieBefore E c cmd)
    with that s show ?thesis by (cases rule: claim_cases [of E c cmd d]) (auto simp: gomap_simps)
  next
    case (DieAfter E c cmd)
    with that s show ?thesis by (cases rule: claim_cases [of E c cmd d]) (auto simp: gomap_simps)
  qed
  show "\<not> dispatches v x s" if "gm_get (snd s) (v @ ''.json'') \<noteq> None"
  proof (cases x)
    case (Execute E c cmd)
    with that s show ?thesis by (cases rule: claim_cases [of E c cmd d]) (auto simp: claims_def ledger_path_def)
  next
    case (DieAfter E c cmd)
    with that s show ?thesis by (cases rule: claim_cases [of E c cmd d]) (auto simp: claims_def ledger_path_def)
  qed (simp add: s)
  show "gm_get (snd (ledger_step x s)) (v @ ''.json'') \<noteq> None" if "dispatches v x s"
  proof (cases x)
    case (Execute E c cmd)
    with that s show ?thesis
    proof (cases rule: claim_cases [of E c cmd d])
      case (claimed f rec)
      let ?d = "gm_put (ledger_path cmd) (Ledger rec) d"
      obtain err w1 where f: "f (CmdSessionID cmd) (PendingRequestID cmd) (command_value cmd) w = (err, w1)" by fastforce
      obtain r d2 where fin: "command_finish E cmd rec err ?d = (r, d2)" by fastforce
      from finish_get [OF fin, of "CmdID cmd"] have "gm_get d2 (ledger_path cmd) \<noteq> None" by (auto simp: gomap_simps ledger_path_def)
      with claimed(1) f fin Execute s that show ?thesis by (simp add: executeCommand_def ledger_path_def)
    qed (auto simp: claims_def)
  next
    case (DieAfter E c cmd)
    with that s show ?thesis by (cases rule: claim_cases [of E c cmd d]) (auto simp: claims_def ledger_path_def gomap_simps)
  qed (use that s in simp)
qed simp

text \<open>
  C6. A command from Bridge is dispatched at most once: over any sequence of commands, with any failures of the ledger's
  file system, with the daemon dying before or after a dispatch and any reconnects and restarts in between, at most one
  of them dispatches the command with a given identifier.
\<close>

theorem command_at_most_once: "times_spent ledger_step (dispatches i) ops s \<le> 1"
  by (rule ledger.at_most_once) simp_all

text \<open>
  A repeated command is answered from the ledger: after a command was dispatched, the same command changes nothing and
  dispatches nothing; the answer is the result of the first run when its record was completed, and otherwise (a failed
  write, or a daemon that died) possibly \<open>delivery_unknown\<close>, but never anything else.
\<close>

theorem command_retry:
  assumes "claims E c cmd d" and "command_check E' c' cmd = Inr f'" and "\<not> ceReadFails E'"
    and "ceMac E' (Credential (cfg c')) cmd = ceMac E (Credential (cfg c)) cmd"
    and "executeCommand E c cmd (w, d) = (r, w1, d1)"
  shows "\<exists>r'. executeCommand E' c' cmd (w', d1) = (r', w', d1) \<and> (r' = r \<or> r' = unknown_result cmd) \<and>
      (completes E cmd d \<longrightarrow> r' = r) \<and>
      executeCommand E' c' cmd (w', snd (command_claim E c cmd d)) = (unknown_result cmd, w', snd (command_claim E c cmd d))"
proof (cases rule: claim_cases [of E c cmd d])
  case (answered r d1)
  with assms(1) show ?thesis by (simp add: claims_def)
next
  case (claimed f rec)
  let ?d = "gm_put (ledger_path cmd) (Ledger rec) d"
  have again: "executeCommand E' c' cmd (w', d') = (RecResult rec', w', d')"
    if "gm_get d' (ledger_path cmd) = Some (Ledger rec')" "Fingerprint rec' = Fingerprint rec" for d' rec'
    using that assms(2-4) claimed(4) by (intro execute_answered) (simp add: command_claim_def ledger_check_def)
  obtain err w2 where f: "f (CmdSessionID cmd) (PendingRequestID cmd) (command_value cmd) w = (err, w2)" by fastforce
  obtain r2 d2 where fin: "command_finish E cmd rec err ?d = (r2, d2)" by fastforce
  with assms(5) claimed(1) f have eq: "r2 = r" "d2 = d1" by (simp_all add: executeCommand_def)
  have "completes E cmd ?d \<longleftrightarrow> completes E cmd d" by (simp add: completes_def gomap_simps)
  with finish_get [OF fin, of "CmdID cmd"] eq
  have d1: "gm_get d1 (ledger_path cmd) = Some (Ledger (rec\<lparr>RecResult := if completes E cmd d then r else RecResult rec\<rparr>))"
    by (simp add: gomap_simps ledger_path_def)
  let ?r' = "if completes E cmd d then r else RecResult rec"
  have "executeCommand E' c' cmd (w', d1) = (?r', w', d1)" using again [OF d1] by simp
  moreover have "executeCommand E' c' cmd (w', ?d) = (RecResult rec, w', ?d)" by (rule again) (simp_all add: gomap_simps)
  ultimately show ?thesis using claimed(1,4) by (intro exI [of _ ?r']) auto
qed

section \<open>A command and its repetition\<close>

definition demo_config :: "nat Config" where
  "demo_config = \<lparr>TerminalSupervisor = False, CommandPath = ''/state/commands'', ObserveFunc = None, InstructionFunc = None, DiagnoseFunc = None,
     RespondFunc = None, ApprovalFunc = Some (\<lambda>_ _ _ n. (None, Suc n)), Credential = ''bri_1'', BridgectlVersion = '''',
     CfgInstallationID = '''', StatusPath = '''', RevisionPath = '''', SnapshotFunc = None\<rparr>"

definition demo_client :: "nat Client" where
  "demo_client = (NewClient demo_config Absent Absent Absent)\<lparr>organizationID := ''o'', installationID := ''i''\<rparr>"

definition demo_command :: Command where
  "demo_command = \<lparr>CmdID = ''1'', CmdOrganizationID = ''o'', CmdInstallationID = ''i'', CmdSessionID = ''s'', CmdUserID = ''u'',
     Action = ''approve'', PendingRequestID = ''p'', CmdExpiresAt = 9, CmdText = '''', Decision = ''accept''\<rparr>"

definition demo_ledger_env :: command_env where
  "demo_ledger_env = \<lparr>ceCanonical = (\<lambda>_. True), ceMac = (\<lambda>k c. k @ CmdID c @ Decision c), ceNow1 = 1, ceNow2 = 1, ceReadFails = False,
     ceMkdirOK = True, ceReadDirOK = True, ceClaimFault = None, ceFinalFault = None\<rparr>"

theorem command_retry_witness:
  "\<exists>r d1. executeCommand demo_ledger_env demo_client demo_command (0, []) = (r, 1, d1) \<and> ResStatus r = ''accepted'' \<and>
     executeCommand demo_ledger_env demo_client demo_command (7, d1) = (r, 7, d1)"
proof -
  have demo: "claims demo_ledger_env demo_client demo_command []" "completes demo_ledger_env demo_command []" "\<not> ceReadFails demo_ledger_env"
      "fst (snd (executeCommand demo_ledger_env demo_client demo_command (0, []))) = 1"
      "ResStatus (fst (executeCommand demo_ledger_env demo_client demo_command (0, []))) = ''accepted''"
    by code_simp+
  obtain r w1 d1 where e: "executeCommand demo_ledger_env demo_client demo_command (0, []) = (r, w1, d1)" by (metis prod.exhaust)
  obtain f where "command_check demo_ledger_env demo_client demo_command = Inr f"
    using demo(1) by (auto simp: claims_def command_claim_def split: sum.splits)
  from command_retry [OF demo(1) this demo(3) refl e, of 7] demo(2,4,5) e show ?thesis by auto
qed

end
