(* ===== verification/Control_Terminal.thy ===== *)
theory Control_Terminal
  imports Control_Client
begin

text \<open>
  \<open>internal/bridgecontrol/terminal.go\<close>: terminals that Bridge opens on a session for its users. A user's writer slot is a
  lease that has to be renewed; streams of terminal windows are bounded in number and time.
\<close>

declare map_of_eq_Some_iff [simp del] Some_eq_map_of_iff [simp del]

section \<open>State\<close>

record TerminalRequest =
  TqStream :: bool
  TqID :: string
  TqOrganizationID :: string
  TqInstallationID :: string
  TqSessionID :: string
  TqClientID :: string
  TqAction :: string
  KeepWriter :: bool
  TqAfterSequence :: u64
  TqData :: bytes
  TqCols :: u32
  TqRows :: u32
  TqExpiresAt :: go_time

text \<open>
  A lease with its identity (\<open>lsID\<close>, the pointer its timer compares) and the time its timer fires; a stream is whether its
  context was cancelled. The goroutine that drains a lease's live channel keeps that channel empty and is left out.
\<close>

record terminalLease =
  lsID :: nat
  lsTimer :: go_time
  lsSession :: string
  lsClient :: string
  lsExpires :: go_time

record terminalManager =
  leases :: "(string, terminalLease) gomap"
  streams :: "(string, bool) gomap"
  ttl :: duration
  nextLease :: nat

definition newTerminalManager :: terminalManager where
  "newTerminalManager = \<lparr>leases = [], streams = [], ttl = 15 * second, nextLease = 0\<rparr>"

text \<open>What an action uses of the system: the store, the emulator, the clock, and the results of a write and a resize.\<close>

record term_env =
  teBolt :: bolt
  teVT :: vt
  teNow :: "nat \<Rightarrow> go_time"
  teWrite :: "int \<times> bridge_error option"
  teSetsize :: "bridge_error option"

text \<open>The manager and the supervisor its function returns, \<open>None\<close> when there is no function or it returns nil.\<close>

type_synonym term_state = "terminalManager \<times> Supervisor option"

definition lease_key :: "string \<Rightarrow> string \<Rightarrow> string" where
  "lease_key session client = session @ char_of (0 :: nat) # client"

section \<open>Operations\<close>

definition lease_release :: "bolt \<Rightarrow> string \<Rightarrow> term_state \<Rightarrow> term_state outcome" where
  [control_defs]: "lease_release B key = (\<lambda>(m, sv).
     case gm_get (leases m) key of
       None \<Rightarrow> Ret (m, sv)
     | Some l \<Rightarrow>
         let m1 = m\<lparr>leases := gm_del key (leases m)\<rparr>
         in (case sv of
               None \<Rightarrow> Ret (m1, None)
             | Some s \<Rightarrow>
                 (case Detach B s (lsSession l) (lsClient l) of
                    ((writer, _), s1) \<Rightarrow>
                      if writer then outcome_bind (NotifyWriterReleased B s1 (lsSession l) (lsClient l)) (\<lambda>s2. Ret (m1, Some s2))
                      else Ret (m1, Some s1))))"

fun release_all :: "bolt \<Rightarrow> string list \<Rightarrow> term_state \<Rightarrow> term_state outcome" where
  "release_all B [] st = Ret st"
| "release_all B (key # keys) st = outcome_bind (lease_release B key st) (release_all B keys)"

definition manager_close :: "bolt \<Rightarrow> term_state \<Rightarrow> term_state outcome" where
  [control_defs]: "manager_close B = (\<lambda>(m, sv).
     release_all B (map fst (leases m)) (m\<lparr>streams := map (\<lambda>(i, _). (i, True)) (streams m)\<rparr>, sv))"

text \<open>The function of a lease's timer.\<close>

definition lease_timer :: "bolt \<Rightarrow> go_time \<Rightarrow> string \<Rightarrow> nat \<Rightarrow> term_state \<Rightarrow> term_state outcome" where
  [control_defs]: "lease_timer B now key i = (\<lambda>(m, sv).
     case gm_get (leases m) key of
       None \<Rightarrow> Ret (m, sv)
     | Some l \<Rightarrow>
         if lsID l \<noteq> i then Ret (m, sv)
         else if 0 < lsExpires l - now then Ret (m\<lparr>leases := gm_put key (l\<lparr>lsTimer := lsExpires l\<rparr>) (leases m)\<rparr>, sv)
         else lease_release B key (m, sv))"

text \<open>
  The actions of \<open>handle\<close>: \<open>Inl code\<close> is an immediate failure with that code, \<open>Inr err\<close> goes on with the error \<open>err\<close>.
\<close>

type_synonym action_result = "string + bridge_error option"

definition watch_action :: "term_env \<Rightarrow> TerminalRequest \<Rightarrow> term_state \<Rightarrow> (action_result \<times> term_state) outcome" where
  [control_defs]: "watch_action E r = (\<lambda>(m, sv).
     let key = lease_key (TqSessionID r) (TqClientID r)
     in case gm_get (leases m) key of
          None \<Rightarrow> Ret (Inr None, m, sv)
        | Some l \<Rightarrow>
            if KeepWriter r then
              Ret (Inr None, m\<lparr>leases := gm_put key (l\<lparr>lsExpires := teNow E 2 + ttl m, lsTimer := teNow E 2 + ttl m\<rparr>) (leases m)\<rparr>, sv)
            else outcome_bind (lease_release (teBolt E) key (m, sv)) (\<lambda>st. Ret (Inr None, st)))"

definition attach_action :: "term_env \<Rightarrow> TerminalRequest \<Rightarrow> terminalManager \<Rightarrow> Supervisor \<Rightarrow> (action_result \<times> term_state) outcome" where
  [control_defs]: "attach_action E r m s =
     (let key = lease_key (TqSessionID r) (TqClientID r); B = teBolt E
      in if gm_get (leases m) key \<noteq> None then Ret (Inr None, m, Some s)
         else if 64 \<le> length (leases m) then Ret (Inl ''busy'', m, Some s)
         else outcome_bind (Attach B (teVT E) (teNow E 2) s (TqSessionID r) (TqClientID r) (TqAfterSequence r) AttachRoleWriter) (\<lambda>(res, s1).
           case res of
             Inl e \<Rightarrow> Ret (Inr (Some e), m, Some s1)
           | Inr st \<Rightarrow>
               if AsRole st \<noteq> AttachRoleWriter \<or> AsExitRecorded st then
                 Ret (Inl ''session_ended'', m, Some (snd (Detach B s1 (TqSessionID r) (TqClientID r))))
               else
                 let l = \<lparr>lsID = nextLease m, lsTimer = teNow E 3 + ttl m, lsSession = TqSessionID r, lsClient = TqClientID r,
                          lsExpires = teNow E 3 + ttl m\<rparr>;
                     m1 = m\<lparr>leases := gm_put key l (leases m), nextLease := nextLease m + 1\<rparr>
                 in outcome_bind (NotifyWriterClaimed B s1 (TqSessionID r) (TqClientID r)) (\<lambda>s2. Ret (Inr None, m1, Some s2))))"

definition input_action :: "term_env \<Rightarrow> TerminalRequest \<Rightarrow> terminalManager \<Rightarrow> Supervisor \<Rightarrow> (action_result \<times> term_state) outcome" where
  [control_defs]: "input_action E r m s =
     (if gm_get (leases m) (lease_key (TqSessionID r) (TqClientID r)) = None then Ret (Inl ''not_attached'', m, Some s)
      else case WriteInput (teBolt E) (teNow E 2) s (TqSessionID r) (TqClientID r) (TqData r) (teWrite E) of
             ((_, err), s1) \<Rightarrow> Ret (Inr err, m, Some s1))"

definition resize_action :: "term_env \<Rightarrow> TerminalRequest \<Rightarrow> terminalManager \<Rightarrow> Supervisor \<Rightarrow> (action_result \<times> term_state) outcome" where
  [control_defs]: "resize_action E r m s =
     (if gm_get (leases m) (lease_key (TqSessionID r) (TqClientID r)) = None then Ret (Inl ''not_attached'', m, Some s)
      else if TqCols r < 2 \<or> 500 < TqCols r \<or> TqRows r < 1 \<or> 300 < TqRows r then Ret (Inl ''invalid_request'', m, Some s)
      else outcome_bind (Resize (teBolt E) (teVT E) (teNow E 2) s (TqSessionID r) (TqClientID r) (TqCols r) (TqRows r) (teSetsize E))
             (\<lambda>(err, s1). Ret (Inr err, m, Some s1)))"

definition terminal_action :: "term_env \<Rightarrow> TerminalRequest \<Rightarrow> terminalManager \<Rightarrow> Supervisor \<Rightarrow> (action_result \<times> term_state) outcome" where
  [control_defs]: "terminal_action E r m s =
     (if TqAction r = ''watch'' then watch_action E r (m, Some s)
      else if TqAction r = ''attach'' then attach_action E r m s
      else if TqAction r = ''detach'' then
        outcome_bind (lease_release (teBolt E) (lease_key (TqSessionID r) (TqClientID r)) (m, Some s)) (\<lambda>st. Ret (Inr None, st))
      else if TqAction r = ''input'' then input_action E r m s
      else if TqAction r = ''resize'' then resize_action E r m s
      else Ret (Inl ''invalid_request'', m, Some s))"

text \<open>After the action: the window, and the lease goes when the client is not the writer any more.\<close>

definition terminal_answer :: "term_env \<Rightarrow> TerminalRequest \<Rightarrow> terminalManager \<Rightarrow> Supervisor \<Rightarrow> (TerminalResult \<times> term_state) outcome" where
  [control_defs]: "terminal_answer E r m s =
     (let key = lease_key (TqSessionID r) (TqClientID r)
      in case Supervisor_TerminalWindow (teBolt E) (teVT E) s (TqSessionID r) (TqClientID r) (TqAfterSequence r) of
           (Inl e, s1) \<Rightarrow>
             Ret (\<lparr>TrID = TqID r, TrWindow = None,
                   TrCode = (if e = ErrSessionRecoveryUnavailable then ''recovery_unavailable'' else ''unavailable'')\<rparr>, m, Some s1)
         | (Inr w, s1) \<Rightarrow>
             outcome_bind (if \<not> Writer w \<and> gm_get (leases m) key \<noteq> None then lease_release (teBolt E) key (m, Some s1) else Ret (m, Some s1))
               (\<lambda>st. Ret (\<lparr>TrID = TqID r, TrWindow = Some w, TrCode = ''''\<rparr>, st)))"

definition terminal_handle :: "term_env \<Rightarrow> TerminalRequest \<Rightarrow> term_state \<Rightarrow> (TerminalResult \<times> term_state) outcome" where
  [control_defs]: "terminal_handle E r = (\<lambda>(m, sv).
     let fail = (\<lambda>code. \<lparr>TrID = TqID r, TrWindow = None, TrCode = code\<rparr>)
     in if TqID r = '''' \<or> 128 < length (TqID r) \<or> TqSessionID r = '''' \<or> 256 < length (TqSessionID r) \<or>
           length (TqClientID r) < 1 \<or> 128 < length (TqClientID r) \<or> 16384 < length (TqData r) \<or>
           TqExpiresAt r < teNow E 0 \<or> teNow E 1 + 30 * second < TqExpiresAt r
        then Ret (fail ''invalid_request'', m, sv)
        else case sv of
               None \<Rightarrow> Ret (fail ''unsupported'', m, None)
             | Some s \<Rightarrow>
                 outcome_bind (terminal_action E r m s) (\<lambda>(res, m1, sv1).
                   case res of
                     Inl code \<Rightarrow> Ret (fail code, m1, sv1)
                   | Inr (Some e) \<Rightarrow> Ret (fail (if e = ErrWriterConflict then ''writer_conflict'' else ''unavailable''), m1, sv1)
                   | Inr None \<Rightarrow>
                       (case sv1 of
                          None \<Rightarrow> Ret (fail ''unsupported'', m1, None)
                        | Some s1 \<Rightarrow> terminal_answer E r m1 s1)))"

text \<open>
  \<open>startStream\<close>: whether the stream is taken on, and the steps of its goroutine. The wait of \<open>WaitTerminalWindow\<close> is
  over when \<open>stream_poll\<close> runs: it gets the window the supervisor returns. The result is what is sent, and the cursor to go
  on with, or \<open>None\<close> at the end of the stream.
\<close>

definition startStream :: "TerminalRequest \<Rightarrow> terminalManager \<Rightarrow> TerminalResult option \<times> terminalManager" where
  [control_defs]: "startStream r m =
     (if gm_get (streams m) (TqID r) \<noteq> None \<or> 32 \<le> length (streams m) \<or> TqAction r \<noteq> ''watch'' \<or> KeepWriter r
      then (Some \<lparr>TrID = TqID r, TrWindow = None, TrCode = ''invalid_request''\<rparr>, m)
      else (None, m\<lparr>streams := gm_put (TqID r) False (streams m)\<rparr>))"

definition stream_first :: "TerminalResult \<Rightarrow> bool \<Rightarrow> u64 option" where
  [control_defs]: "stream_first result sendOK =
     (if \<not> sendOK \<or> TrCode result \<noteq> '''' then None
      else case TrWindow result of
             None \<Rightarrow> None
           | Some w \<Rightarrow> if Ended w then None else Some (TwNextSequence w))"

definition stream_poll :: "string \<Rightarrow> bridge_error + TerminalWindow \<Rightarrow> bool \<Rightarrow> TerminalResult option \<times> u64 option" where
  [control_defs]: "stream_poll i answer sendOK =
     (case answer of
        Inl e \<Rightarrow> (if e = ErrSessionRecoveryUnavailable then Some \<lparr>TrID = i, TrWindow = None, TrCode = ''recovery_unavailable''\<rparr> else None, None)
      | Inr w \<Rightarrow> (Some \<lparr>TrID = i, TrWindow = Some w, TrCode = ''''\<rparr>, if \<not> sendOK \<or> Ended w then None else Some (TwNextSequence w)))"

definition stream_done :: "string \<Rightarrow> terminalManager \<Rightarrow> terminalManager" where
  [control_defs]: "stream_done i m = m\<lparr>streams := gm_del i (streams m)\<rparr>"

definition cancelStream :: "string \<Rightarrow> terminalManager \<Rightarrow> terminalManager" where
  [control_defs]: "cancelStream i m =
     (case gm_get (streams m) i of None \<Rightarrow> m | Some _ \<Rightarrow> m\<lparr>streams := gm_put i True (streams m)\<rparr>)"

section \<open>Bounds of the manager\<close>

text \<open>The states of a manager; the supervisor may be in any state at each step, since local clients use it too.\<close>

inductive term_reachable :: "terminalManager \<Rightarrow> bool" where
  new: "term_reachable newTerminalManager"
| handle: "term_reachable m \<Longrightarrow> terminal_handle E r (m, sv) = Ret (res, m', sv') \<Longrightarrow> term_reachable m'"
| timer: "term_reachable m \<Longrightarrow> lease_timer B now key i (m, sv) = Ret (m', sv') \<Longrightarrow> term_reachable m'"
| close: "term_reachable m \<Longrightarrow> manager_close B (m, sv) = Ret (m', sv') \<Longrightarrow> term_reachable m'"
| start: "term_reachable m \<Longrightarrow> term_reachable (snd (startStream r m))"
| finished: "term_reachable m \<Longrightarrow> term_reachable (stream_done i m)"
| cancel: "term_reachable m \<Longrightarrow> term_reachable (cancelStream i m)"

definition leases_ok :: "terminalManager \<Rightarrow> bool" where
  "leases_ok m \<longleftrightarrow> gm_ok (leases m) \<and> length (leases m) \<le> 64 \<and>
     (\<forall>key l. gm_get (leases m) key = Some l \<longrightarrow>
        key = lease_key (lsSession l) (lsClient l) \<and> lsID l < nextLease m \<and> lsTimer l = lsExpires l)"

definition streams_ok :: "terminalManager \<Rightarrow> bool" where
  "streams_ok m \<longleftrightarrow> gm_ok (streams m) \<and> length (streams m) \<le> 32"

lemma gm_put_length: "length (gm_put k v m) = (if gm_get m k = None then Suc (length m) else length m)"
  by (induction m) auto

lemma gm_del_length: "length (gm_del k m) \<le> length m"
  by (simp add: AList.delete_eq length_filter_le)

lemma release_manager:
  assumes "lease_release B key (m, sv) = Ret (m', sv')"
  shows "m' = m\<lparr>leases := gm_del key (leases m)\<rparr>"
  using assms
  by (cases "gm_get (leases m) key"; cases sv)
    (auto simp: lease_release_def gm_del_absent Let_def split_beta outcome_bind_Ret_iff split: if_splits)

lemma release_leases_ok [intro]: "leases_ok m \<Longrightarrow> leases_ok (m\<lparr>leases := gm_del key (leases m)\<rparr>)"
  using gm_del_length [of key "leases m"] by (auto simp: leases_ok_def gomap_simps split: if_splits)

lemma put_leases_ok:
  assumes "leases_ok m" and "gm_get (leases m) key = None \<longrightarrow> length (leases m) < 64"
    and "key = lease_key (lsSession l) (lsClient l)" and "lsID l < n" and "lsTimer l = lsExpires l" and "nextLease m \<le> n"
  shows "leases_ok (m\<lparr>leases := gm_put key l (leases m), nextLease := n\<rparr>)"
  using assms by (auto simp: leases_ok_def gomap_simps gm_put_length split: if_splits) fastforce+

lemma renew_leases_ok:
  assumes "leases_ok m" and "gm_get (leases m) key = Some l" 
    and "lsSession l' = lsSession l" and "lsClient l' = lsClient l" and "lsID l' = lsID l" and "lsTimer l' = lsExpires l'"
  shows "leases_ok (m\<lparr>leases := gm_put key l' (leases m)\<rparr>)"
proof -
  from assms(1,2) have "key = lease_key (lsSession l) (lsClient l)" and "lsID l < nextLease m" by (simp_all add: leases_ok_def)
  with put_leases_ok [OF assms(1), of key l' "nextLease m"] assms(2-) show ?thesis by simp
qed

abbreviation terminal_attach :: "term_env \<Rightarrow> TerminalRequest \<Rightarrow> Supervisor \<Rightarrow> ((bridge_error + AttachState) \<times> Supervisor) outcome" where
  "terminal_attach E r s \<equiv>
     Attach (teBolt E) (teVT E) (teNow E 2) s (TqSessionID r) (TqClientID r) (TqAfterSequence r) AttachRoleWriter"

abbreviation granted_lease :: "term_env \<Rightarrow> TerminalRequest \<Rightarrow> terminalManager \<Rightarrow> terminalManager" where
  "granted_lease E r m \<equiv> m\<lparr>leases := gm_put (lease_key (TqSessionID r) (TqClientID r))
     \<lparr>lsID = nextLease m, lsTimer = teNow E 3 + ttl m, lsSession = TqSessionID r, lsClient = TqClientID r, lsExpires = teNow E 3 + ttl m\<rparr>
     (leases m), nextLease := nextLease m + 1\<rparr>"

lemma attach_action_cases:
  assumes "attach_action E r m s = Ret (res, m', sv')"
  obtains (idle) "m' = m" "sv' = Some s"
  | (refused) e s1 where "terminal_attach E r s = Ret (Inl e, s1)" "m' = m" "sv' = Some s1" "res = Inr (Some e)"
  | (ended) st s1 where "terminal_attach E r s = Ret (Inr st, s1)" "AsRole st \<noteq> AttachRoleWriter \<or> AsExitRecorded st" "m' = m"
      "sv' = Some (snd (Detach (teBolt E) s1 (TqSessionID r) (TqClientID r)))" "res = Inl ''session_ended''"
  | (leased) st s1 s2 where "terminal_attach E r s = Ret (Inr st, s1)" "gm_get (leases m) (lease_key (TqSessionID r) (TqClientID r)) = None"
      "length (leases m) < 64" "m' = granted_lease E r m"
      "NotifyWriterClaimed (teBolt E) s1 (TqSessionID r) (TqClientID r) = Ret s2" "sv' = Some s2"
proof (cases "gm_get (leases m) (lease_key (TqSessionID r) (TqClientID r)) \<noteq> None \<or> 64 \<le> length (leases m)")
  case True
  with assms show ?thesis by (intro idle) (auto simp: attach_action_def Let_def split: if_splits)
next
  case False
  with assms obtain x where "terminal_attach E r s = Ret x" by (auto simp: attach_action_def outcome_bind_Ret_iff Let_def)
  then obtain a s1 where at: "terminal_attach E r s = Ret (a, s1)" by (cases x) auto
  show ?thesis
  proof (cases a)
    case (Inl e)
    with at False assms show ?thesis by (intro refused [of e s1]) (auto simp: attach_action_def Let_def)
  next
    case (Inr st)
    show ?thesis
    proof (cases "AsRole st \<noteq> AttachRoleWriter \<or> AsExitRecorded st")
      case True
      with at Inr False assms show ?thesis by (intro ended [of st s1]) (auto simp: attach_action_def Let_def)
    next
      case writer: False
      with at Inr False assms obtain s2 where "NotifyWriterClaimed (teBolt E) s1 (TqSessionID r) (TqClientID r) = Ret s2"
        by (auto simp: attach_action_def Let_def outcome_bind_Ret_iff)
      with writer at Inr False assms show ?thesis by (intro leased [of st s1 s2]) (auto simp: attach_action_def Let_def)
    qed
  qed
qed

lemma action_manager:
  assumes "leases_ok m" and "terminal_action E r m s = Ret (res, m', sv')"
  shows "leases_ok m' \<and> streams m' = streams m"
proof -
  let ?key = "lease_key (TqSessionID r) (TqClientID r)"
  have watch: "leases_ok m' \<and> streams m' = streams m" if "watch_action E r (m, Some s) = Ret (res, m', sv')"
  proof (cases "gm_get (leases m) ?key")
    case (Some l)
    with that assms(1) show ?thesis
      using renew_leases_ok [OF assms(1) Some]
      by (auto simp: watch_action_def Let_def outcome_bind_Ret_iff dest: release_manager split: if_splits)
  qed (use that assms(1) in \<open>auto simp: watch_action_def\<close>)
  have attach: "leases_ok m' \<and> streams m' = streams m" if "attach_action E r m s = Ret (res, m', sv')"
    using that
  proof (cases rule: attach_action_cases)
    case (leased st s1 s2)
    then have "leases_ok m'" unfolding leased(4) using assms(1) by (intro put_leases_ok) simp_all
    with leased(4) show ?thesis by simp
  qed (use assms(1) in auto)
  show ?thesis
    using assms watch attach
    by (auto simp: terminal_action_def input_action_def resize_action_def split_beta outcome_bind_Ret_iff dest: release_manager split: if_splits)
qed

lemma answer_manager:
  assumes "leases_ok m" and "terminal_answer E r m s = Ret (res, m', sv')"
  shows "leases_ok m' \<and> streams m' = streams m"
  using assms by (auto simp: terminal_answer_def Let_def outcome_bind_Ret_iff dest!: release_manager split: prod.splits sum.splits if_splits)

lemma handle_manager:
  assumes "leases_ok m" and "terminal_handle E r (m, sv) = Ret (res, m', sv')"
  shows "leases_ok m' \<and> streams m' = streams m"
proof (cases sv)
  case None
  with assms show ?thesis by (auto simp: terminal_handle_def Let_def split: if_splits)
next
  case (Some s)
  show ?thesis
  proof (cases "terminal_action E r m s")
    case (Ret x)
    obtain ar m1 sv1 where x: "x = (ar, m1, sv1)" by (cases x)
    have act: "leases_ok m1 \<and> streams m1 = streams m" using action_manager [OF assms(1)] Ret x by simp
    have "m' = m \<or> m' = m1 \<or> (\<exists>s1. terminal_answer E r m1 s1 = Ret (res, m', sv'))"
      using assms(2) Some Ret x by (auto simp: terminal_handle_def Let_def split: if_splits sum.splits option.splits)
    then show ?thesis
    proof (elim disjE exE)
      fix s1 assume "terminal_answer E r m1 s1 = Ret (res, m', sv')"
      with act show ?thesis using answer_manager [of m1 E r s1 res m' sv'] by simp
    qed (use act assms(1) in auto)
  next
    case Panic
    with assms Some show ?thesis by (auto simp: terminal_handle_def Let_def split: if_splits)
  qed
qed

lemma release_all_manager:
  "leases_ok m \<Longrightarrow> release_all B keys (m, sv) = Ret (m', sv') \<Longrightarrow> leases_ok m' \<and> streams m' = streams m"
proof (induction keys arbitrary: m sv)
  case (Cons key keys)
  then obtain m1 sv1 where "lease_release B key (m, sv) = Ret (m1, sv1)" "release_all B keys (m1, sv1) = Ret (m', sv')"
    by (auto simp: outcome_bind_Ret_iff)
  with Cons show ?case using release_manager [of B key m sv m1 sv1] release_leases_ok [of m key] by simp
qed simp

lemma term_reachable_ok: "term_reachable m \<Longrightarrow> leases_ok m \<and> streams_ok m"
proof (induction rule: term_reachable.induct)
  case new
  show ?case by (simp add: newTerminalManager_def leases_ok_def streams_ok_def)
next
  case (handle m E r sv res m' sv')
  then show ?case using handle_manager [of m E r sv res m' sv'] by (simp add: streams_ok_def)
next
  case (timer m B now key i sv m' sv')
  then show ?case
    using renew_leases_ok [of m key "the (gm_get (leases m) key)"]
    by (auto simp: lease_timer_def streams_ok_def dest!: release_manager split: option.splits if_splits)
next
  case (close m B sv m' sv')
  let ?m = "m\<lparr>streams := map (\<lambda>(i, _). (i, True)) (streams m)\<rparr>"
  have "leases_ok ?m" using close.IH by (simp add: leases_ok_def)
  moreover have "streams_ok ?m" using close.IH by (simp add: streams_ok_def split_def comp_def)
  ultimately show ?case
    using release_all_manager [of ?m B "map fst (leases m)" sv m' sv'] close.hyps(2) by (simp add: manager_close_def streams_ok_def)
next
  case (start m r)
  then show ?case by (auto simp: startStream_def leases_ok_def streams_ok_def gm_put_length)
next
  case (finished m i)
  then show ?case using gm_del_length [of i "streams m"] by (auto simp: stream_done_def leases_ok_def streams_ok_def)
next
  case (cancel m i)
  then show ?case by (auto simp: cancelStream_def leases_ok_def streams_ok_def gm_put_length split: option.splits)
qed

section \<open>The writer slot\<close>

text \<open>Between two states of the supervisor the client \<open>w\<close> stays the writer of the session \<open>sid\<close>.\<close>

definition keeps_writer :: "string \<Rightarrow> string \<Rightarrow> Supervisor \<Rightarrow> Supervisor \<Rightarrow> bool" where
  "keeps_writer sid w s s' \<longleftrightarrow>
     (\<forall>ms. gm_get (sessions s) sid = Some ms \<longrightarrow> ActiveWriterClientID (info ms) = w \<longrightarrow>
        (\<exists>ms'. gm_get (sessions s') sid = Some ms' \<and> ActiveWriterClientID (info ms') = w))"

lemma keeps_writer_refl [simp]: "keeps_writer sid w s s"
  by (simp add: keeps_writer_def)

lemma keeps_writer_trans [trans]: "keeps_writer sid w a b \<Longrightarrow> keeps_writer sid w b c \<Longrightarrow> keeps_writer sid w a c"
  by (fastforce simp: keeps_writer_def)

lemma keeps_writer_put:
  assumes "i = sid \<Longrightarrow> gm_get (sessions s) i = Some ms \<Longrightarrow> ActiveWriterClientID (info ms) = w \<Longrightarrow> ActiveWriterClientID (info new) = w"
    and "sessions s' = gm_put i new (sessions s)" and "gm_get (sessions s) i = Some ms"
  shows "keeps_writer sid w s s'"
  using assms by (auto simp: keeps_writer_def gomap_simps)

lemma detach_writer:
  "ActiveWriterClientID (info (fst (snd (detachLocked ms c)))) =
     (if recovered ms \<or> gm_get (observers ms) c = None \<or> ActiveWriterClientID (info ms) \<noteq> c then ActiveWriterClientID (info ms) else '''')"
  by (auto simp: detachLocked_def Let_def split: option.split)

lemma fanout_info: "fanoutControlEvent ms ty p = Ret ms' \<Longrightarrow> info ms' = info ms"
  by (auto simp: fanoutControlEvent_def Let_def outcome_bind_Ret_iff split: if_splits)

lemma append_writer: "appendChunkLocked V now ms p ty = Ret (ms', eff) \<Longrightarrow> ActiveWriterClientID (info ms') = ActiveWriterClientID (info ms)"
  by (auto simp: appendChunkLocked_def Let_def split_beta outcome_bind_Ret_iff split: if_splits)

lemma resize_writer: "resizeLocked V now ms c cols rows ss = Ret (res, ms', eff) \<Longrightarrow> ActiveWriterClientID (info ms') = ActiveWriterClientID (info ms)"
  by (auto simp: resizeLocked_def Let_def split_beta outcome_bind_Ret_iff dest!: append_writer split: if_splits option.splits)

lemma attach_conflict:
  assumes "attachLocked V now ms c after AttachRoleWriter = Ret (res, ms', eff)" and "ActiveWriterClientID (info ms) \<noteq> ''''"
  shows "ms' = ms"
  using assms by (auto simp: attachLocked_def Let_def split: if_splits)

lemma write_writer: "info (fst (snd (writeInputLocked now ms c dat wr))) = info ms"
  by (auto simp: writeInputLocked_def)

lemma case_sum_const: "(case x of Inl a \<Rightarrow> y | Inr b \<Rightarrow> y) = y"
  by (cases x) auto

lemma info_screen: "info (ms\<lparr>screen := x\<rparr>) = info ms"
  by simp

lemma window_info: "info (snd (terminalWindowLocked V loader ms c after)) = info ms"
  unfolding terminalWindowLocked_def Let_def split_beta
  by (simp only: if_distrib [of "\<lambda>p. info (snd p)"] sum.case_distrib [of "\<lambda>p. info (snd p)"]
      option.case_distrib [of "\<lambda>p. info (snd p)"] snd_conv info_screen if_cancel case_sum_const option.case_eq_if)

lemma Detach_keeps: "(i, c) \<noteq> (sid, w) \<Longrightarrow> keeps_writer sid w s (snd (Detach B s i c))"
proof (cases "gm_get (sessions s) i")
  case (Some ms)
  assume "(i, c) \<noteq> (sid, w)"
  with Some show ?thesis
    by (intro keeps_writer_put [where i = i and ms = ms and new = "fst (snd (detachLocked ms c))"])
      (auto simp: Detach_def detach_writer split_beta)
qed (auto simp: Detach_def)

lemma notify_keeps: "notify_writer B ty s i c = Ret s' \<Longrightarrow> keeps_writer sid w s s'"
proof (cases "gm_get (sessions s) i")
  case (Some ms)
  assume "notify_writer B ty s i c = Ret s'"
  with Some obtain ms1 where "fanoutControlEvent ms ty (to_bytes c) = Ret ms1" "s' = commit B s i ms1 []"
    by (auto simp: notify_writer_def outcome_bind_Ret_iff)
  with Some show ?thesis by (intro keeps_writer_put [where i = i and ms = ms and new = ms1]) (auto dest: fanout_info)
qed (auto simp: notify_writer_def)

lemma Write_keeps: "keeps_writer sid w s (snd (WriteInput B now s i c dat wr))"
proof (cases "ValidateInputBytes (policy s) dat = None \<and> gm_get (sessions s) i \<noteq> None")
  case True
  then obtain ms where "gm_get (sessions s) i = Some ms" by blast
  with True show ?thesis
    by (intro keeps_writer_put [where i = i and ms = ms and new = "fst (snd (writeInputLocked now ms c dat wr))"])
      (auto simp: WriteInput_def write_writer split_beta)
qed (auto simp: WriteInput_def split: option.split)

lemma Resize_keeps:
  assumes "Resize B V now s i c cols rows ss = Ret (res, s')"
  shows "keeps_writer sid w s s'"
proof (cases "gm_get (sessions s) i")
  case (Some ms)
  with assms obtain ms1 eff where "resizeLocked V now ms c cols rows ss = Ret (res, ms1, eff)" "s' = commit B s i ms1 eff"
    by (auto simp: Resize_def outcome_bind_Ret_iff)
  with Some show ?thesis by (intro keeps_writer_put [where i = i and ms = ms and new = ms1]) (auto dest: resize_writer)
qed (use assms in \<open>auto simp: Resize_def\<close>)

lemma Attach_keeps:
  assumes "Attach B V now s i c after AttachRoleWriter = Ret (res, s')" and "w \<noteq> ''''"
  shows "keeps_writer sid w s s'"
proof (cases "gm_get (sessions s) i")
  case (Some ms)
  with assms obtain ms1 eff where "attachLocked V now ms c after AttachRoleWriter = Ret (res, ms1, eff)" "s' = commit B s i ms1 eff"
    by (auto simp: Attach_def outcome_bind_Ret_iff)
  with Some assms(2) show ?thesis by (intro keeps_writer_put [where i = i and ms = ms and new = ms1]) (auto dest: attach_conflict)
qed (use assms in \<open>auto simp: Attach_def\<close>)

lemma Window_keeps: "keeps_writer sid w s (snd (Supervisor_TerminalWindow B V s i c after))"
proof (cases "gm_get (sessions s) i")
  case (Some ms)
  let ?loader = "map_option (\<lambda>db a. LoadChunkPage B db i a 65536) (store s)"
  from Some show ?thesis
    by (intro keeps_writer_put [where i = i and ms = ms and new = "snd (terminalWindowLocked V ?loader ms c after)"])
      (auto simp: Supervisor_TerminalWindow_def window_info split_beta Let_def)
qed (auto simp: Supervisor_TerminalWindow_def split: option.split)

lemma release_keeps:
  assumes "leases_ok m" and "lease_release B key (m, Some s) = Ret (m', sv')" and "lease_key sid w \<noteq> key"
  shows "\<exists>s'. sv' = Some s' \<and> keeps_writer sid w s s'"
proof (cases "gm_get (leases m) key")
  case (Some l)
  obtain wr e s1 where d: "Detach B s (lsSession l) (lsClient l) = ((wr, e), s1)" by (metis prod.exhaust)
  have "(lsSession l, lsClient l) \<noteq> (sid, w)" using assms(1,3) Some by (auto simp: leases_ok_def)
  then have k1: "keeps_writer sid w s s1" using Detach_keeps [of "lsSession l" "lsClient l" sid w s B] d by simp
  from assms(2) Some d consider "sv' = Some s1" | s2 where "NotifyWriterReleased B s1 (lsSession l) (lsClient l) = Ret s2" "sv' = Some s2"
    by (auto simp: lease_release_def Let_def outcome_bind_Ret_iff split: if_splits)
  then show ?thesis using k1 notify_keeps by cases (auto simp: NotifyWriterReleased_def intro: keeps_writer_trans)
qed (use assms(2) in \<open>auto simp: lease_release_def\<close>)

lemma action_keeps:
  assumes "leases_ok m" and "terminal_action E r m s = Ret (res, m', sv')" and "w \<noteq> ''''"
    and key: "lease_key sid w \<noteq> lease_key (TqSessionID r) (TqClientID r)"
  shows "\<exists>s'. sv' = Some s' \<and> keeps_writer sid w s s'"
proof -
  have ne: "(TqSessionID r, TqClientID r) \<noteq> (sid, w)" using key by auto
  have release: "\<exists>s'. sv' = Some s' \<and> keeps_writer sid w s s'"
    if "outcome_bind (lease_release (teBolt E) (lease_key (TqSessionID r) (TqClientID r)) (m, Some s)) (\<lambda>st. Ret (Inr None, st)) = Ret (res, m', sv')"
    using that release_keeps [OF assms(1) _ key] by (auto simp: outcome_bind_Ret_iff)
  have watch: "\<exists>s'. sv' = Some s' \<and> keeps_writer sid w s s'" if "watch_action E r (m, Some s) = Ret (res, m', sv')"
    using that release by (auto simp: watch_action_def Let_def split: option.splits if_splits)
  have attach: "\<exists>s'. sv' = Some s' \<and> keeps_writer sid w s s'" if "attach_action E r m s = Ret (res, m', sv')"
    using that
  proof (cases rule: attach_action_cases)
    case (ended st s1)
    with Attach_keeps [OF ended(1) assms(3)] Detach_keeps [OF ne] show ?thesis by (auto intro: keeps_writer_trans)
  next
    case (leased st s1 s2)
    have "keeps_writer sid w s1 s2" using notify_keeps leased(5) by (simp add: NotifyWriterClaimed_def)
    with leased(6) keeps_writer_trans [OF Attach_keeps [OF leased(1) assms(3)]] show ?thesis by blast
  qed (use Attach_keeps assms(3) in auto)
  have input: "\<exists>s'. sv' = Some s' \<and> keeps_writer sid w s s'" if "input_action E r m s = Ret (res, m', sv')"
  proof -
    obtain n e s1 where wi: "WriteInput (teBolt E) (teNow E 2) s (TqSessionID r) (TqClientID r) (TqData r) (teWrite E) = ((n, e), s1)"
      by (metis prod.exhaust)
    then have "keeps_writer sid w s s1"
      using Write_keeps [of sid w s "teBolt E" "teNow E 2" "TqSessionID r" "TqClientID r" "TqData r" "teWrite E"] by simp
    with that wi show ?thesis by (auto simp: input_action_def split: if_splits)
  qed
  have resize: "\<exists>s'. sv' = Some s' \<and> keeps_writer sid w s s'" if "resize_action E r m s = Ret (res, m', sv')"
    using that Resize_keeps by (auto simp: resize_action_def outcome_bind_Ret_iff split: if_splits)
  show ?thesis
    using assms(2) release watch attach input resize by (auto simp: terminal_action_def split: if_splits)
qed

lemma answer_keeps:
  assumes "leases_ok m" and "terminal_answer E r m s = Ret (res, m', sv')"
    and key: "lease_key sid w \<noteq> lease_key (TqSessionID r) (TqClientID r)"
  shows "\<exists>s'. sv' = Some s' \<and> keeps_writer sid w s s'"
proof -
  obtain a s1 where w: "Supervisor_TerminalWindow (teBolt E) (teVT E) s (TqSessionID r) (TqClientID r) (TqAfterSequence r) = (a, s1)" by fastforce
  then have k: "keeps_writer sid w s s1"
    using Window_keeps [of sid w s "teBolt E" "teVT E" "TqSessionID r" "TqClientID r" "TqAfterSequence r"] by simp
  show ?thesis
  proof (cases a)
    case (Inl e)
    with assms(2) w k show ?thesis by (auto simp: terminal_answer_def)
  next
    case (Inr wd)
    with assms(2) w consider "sv' = Some s1"
      | "lease_release (teBolt E) (lease_key (TqSessionID r) (TqClientID r)) (m, Some s1) = Ret (m', sv')"
      by (auto simp: terminal_answer_def Let_def outcome_bind_Ret_iff split: if_splits)
    then show ?thesis
    proof cases
      case 2
      from release_keeps [OF assms(1) this key] k show ?thesis by (auto intro: keeps_writer_trans)
    qed (use k in simp)
  qed
qed

text \<open>
  A remote terminal never takes the keyboard away: whatever a user of Bridge sends, a client that is the writer of a
  session stays its writer, unless the request is made under that client's own session and client identifier.
\<close>

theorem remote_keeps_writer:
  assumes "term_reachable m" and "terminal_handle E r (m, Some s) = Ret (res, m', sv')"
    and "gm_get (sessions s) sid = Some ms" and "ActiveWriterClientID (info ms) = w" and "w \<noteq> ''''"
    and "lease_key sid w \<noteq> lease_key (TqSessionID r) (TqClientID r)"
  shows "\<exists>s' ms'. sv' = Some s' \<and> gm_get (sessions s') sid = Some ms' \<and> ActiveWriterClientID (info ms') = w"
proof -
  have ok: "leases_ok m" using term_reachable_ok [OF assms(1)] by simp
  have "\<exists>s'. sv' = Some s' \<and> keeps_writer sid w s s'"
  proof (cases "terminal_action E r m s")
    case (Ret x)
    obtain ar m1 sv1 where x: "x = (ar, m1, sv1)" by (cases x)
    have act: "\<exists>s1. sv1 = Some s1 \<and> keeps_writer sid w s s1" using action_keeps [OF ok _ assms(5,6)] Ret x by simp
    have ok1: "leases_ok m1" using action_manager [OF ok] Ret x by simp
    have "sv' = Some s \<or> sv' = sv1 \<or> (\<exists>s1. sv1 = Some s1 \<and> terminal_answer E r m1 s1 = Ret (res, m', sv'))"
      using assms(2) Ret x act by (auto simp: terminal_handle_def Let_def split: if_splits sum.splits option.splits)
    then show ?thesis
    proof (elim disjE exE conjE)
      fix s1 assume "sv1 = Some s1" "terminal_answer E r m1 s1 = Ret (res, m', sv')"
      with answer_keeps [OF ok1 _ assms(6), of E s1 res m' sv'] act show ?thesis by (auto intro: keeps_writer_trans)
    qed (use act in auto)
  next
    case Panic
    with assms(2) show ?thesis by (auto simp: terminal_handle_def Let_def split: if_splits)
  qed
  with assms(3,4) show ?thesis by (auto simp: keeps_writer_def)
qed

text \<open>
  Remote terminals are bounded: in every reachable state there are at most 64 leases, at most one per session and
  client and each with an identity of its own, and at most 32 streams; and every lease's timer is set for the moment it
  expires.
\<close>

theorem terminals_bounded:
  assumes "term_reachable m"
  shows "length (leases m) \<le> 64 \<and> length (streams m) \<le> 32 \<and> gm_ok (leases m) \<and> gm_ok (streams m) \<and>
    (\<forall>key l. gm_get (leases m) key = Some l \<longrightarrow> key = lease_key (lsSession l) (lsClient l) \<and> lsID l < nextLease m \<and> lsTimer l = lsExpires l)"
  using term_reachable_ok [OF assms] by (simp add: leases_ok_def streams_ok_def)

text \<open>
  A lease that is not renewed gives the keyboard back: when the timer of a lease fires, the lease is gone, and if its
  client was the attached writer of the session, the session has no writer any more.
\<close>

theorem lease_expires:
  assumes "term_reachable m" and "gm_get (leases m) key = Some l" and "lsTimer l \<le> now"
    and "lease_timer B now key (lsID l) (m, Some s) = Ret (m', sv')"
    and "gm_get (sessions s) (lsSession l) = Some ms" and "ActiveWriterClientID (info ms) = lsClient l"
    and "gm_get (observers ms) (lsClient l) \<noteq> None" and "\<not> recovered ms"
  shows "gm_get (leases m') key = None \<and>
    (\<exists>s' ms'. sv' = Some s' \<and> gm_get (sessions s') (lsSession l) = Some ms' \<and> ActiveWriterClientID (info ms') = '''')"
proof -
  have "lsTimer l = lsExpires l" using term_reachable_ok [OF assms(1)] assms(2) by (simp add: leases_ok_def)
  with assms(2-4) have rel: "lease_release B key (m, Some s) = Ret (m', sv')" by (simp add: lease_timer_def)
  then have "gm_get (leases m') key = None" using release_manager [OF rel] by (simp add: gomap_simps)
  moreover
  obtain wr e s1 where d: "Detach B s (lsSession l) (lsClient l) = ((wr, e), s1)" by (metis prod.exhaust)
  have s1: "gm_get (sessions s1) (lsSession l) = Some (fst (snd (detachLocked ms (lsClient l))))"
    using d assms(5) by (auto simp: Detach_def split_beta gomap_simps)
  let ?ms = "fst (snd (detachLocked ms (lsClient l)))"
  have w: "ActiveWriterClientID (info ?ms) = ''''" using assms(6-8) by (auto simp: detach_writer)
  from rel assms(2) d consider "sv' = Some s1" | s2 where "NotifyWriterReleased B s1 (lsSession l) (lsClient l) = Ret s2" "sv' = Some s2"
    by (auto simp: lease_release_def Let_def outcome_bind_Ret_iff split: if_splits)
  then have "\<exists>s' ms'. sv' = Some s' \<and> gm_get (sessions s') (lsSession l) = Some ms' \<and> ActiveWriterClientID (info ms') = ''''"
  proof cases
    case (2 s2)
    then have "keeps_writer (lsSession l) '''' s1 s2" using notify_keeps by (simp add: NotifyWriterReleased_def)
    with 2 s1 w show ?thesis by (auto simp: keeps_writer_def)
  qed (use s1 w in auto)
  ultimately show ?thesis by blast
qed

text \<open>
  A remote attach to an ended session leaves it locked. The request is refused with \<open>session_ended\<close>, but \<open>Attach\<close> has
  already made the client the writer and the session attached, and since an ended session does not register the client,
  the following \<open>Detach\<close> does not find it: from then on every attach as a writer is refused.
\<close>

theorem ended_attach_sticks:
  assumes "attach_action E r m s = Ret (res, m', sv')" and "gm_get (leases m) (lease_key (TqSessionID r) (TqClientID r)) = None"
    and "length (leases m) < 64" and "gm_get (sessions s) (TqSessionID r) = Some ms" and "\<not> recovered ms" and "liveClosed ms"
    and "ExitRecorded (info ms)" and "ActiveWriterClientID (info ms) = ''''" and "gm_get (observers ms) (TqClientID r) = None"
    and "TqClientID r \<noteq> ''''"
  shows "res = Inl ''session_ended'' \<and> (\<exists>s' ms'. sv' = Some s' \<and> gm_get (sessions s') (TqSessionID r) = Some ms' \<and>
    State (info ms') = SessionStateAttached \<and> ActiveWriterClientID (info ms') = TqClientID r \<and>
    (\<forall>V now c after. attachLocked V now ms' c after AttachRoleWriter = Ret (Inl ErrWriterConflict, ms', [])))"
proof -
  let ?c = "TqClientID r" and ?i = "TqSessionID r"
  obtain st ms1 eff where at: "attachLocked (teVT E) (teNow E 2) ms ?c (TqAfterSequence r) AttachRoleWriter = Ret (Inr st, ms1, eff)"
      and st: "AsExitRecorded st" "ActiveWriterClientID (info ms1) = ?c" "State (info ms1) = SessionStateAttached"
        "observers ms1 = observers ms" "\<not> recovered ms1"
    using assms(5-9) by (auto simp: attachLocked_def Let_def split_beta)
  let ?s1 = "commit (teBolt E) s ?i ms1 eff"
  have A: "terminal_attach E r s = Ret (Inr st, ?s1)" using assms(4) at by (simp add: Attach_def)
  have g: "gm_get (sessions ?s1) ?i = Some ms1" by (simp add: gomap_simps)
  have D: "detachLocked ms1 ?c = ((False, Some ErrClientMismatch), ms1, [])" using st(4,5) assms(9) by (simp add: detachLocked_def)
  have res: "res = Inl ''session_ended''" and sv: "sv' = Some (snd (Detach (teBolt E) ?s1 ?i ?c))"
    using assms(1-3) A st(1) by (auto simp: attach_action_def Let_def)
  have "gm_get (sessions (snd (Detach (teBolt E) ?s1 ?i ?c))) ?i = Some ms1"
    using g D by (simp add: Detach_def gomap_simps)
  moreover have "attachLocked V now ms1 c after AttachRoleWriter = Ret (Inl ErrWriterConflict, ms1, [])" for V now c after
    using st(2,5) assms(10) by (simp add: attachLocked_def Let_def)
  ultimately show ?thesis using res sv st(2,3) by blast
qed

section \<open>A terminal on a session\<close>

definition demo_term_env :: term_env where
  "demo_term_env = \<lparr>teBolt = sorted_bolt, teVT = demo_vt, teNow = (\<lambda>_. 1), teWrite = (0, None), teSetsize = None\<rparr>"

definition demo_attach :: "string \<Rightarrow> TerminalRequest" where
  "demo_attach client = \<lparr>TqStream = False, TqID = ''q'', TqOrganizationID = ''o'', TqInstallationID = ''i'', TqSessionID = ''s'',
     TqClientID = client, TqAction = ''attach'', KeepWriter = False, TqAfterSequence = 0, TqData = [], TqCols = 0, TqRows = 0, TqExpiresAt = 5\<rparr>"

definition demo_hosting :: "managedSession \<Rightarrow> Supervisor" where
  "demo_hosting ms = demo_sup\<lparr>sessions := [(''s'', ms)]\<rparr>"

lemma demo_lease:
  "\<exists>res m s l ms. terminal_handle demo_term_env (demo_attach ''w'') (newTerminalManager, Some (demo_hosting demo_session)) = Ret (res, m, Some s) \<and>
     TrCode res = '''' \<and> gm_get (leases m) (lease_key ''s'' ''w'') = Some l \<and> lsSession l = ''s'' \<and> lsClient l = ''w'' \<and> lsTimer l = 15 * second + 1 \<and>
     gm_get (sessions s) ''s'' = Some ms \<and> ActiveWriterClientID (info ms) = ''w'' \<and> gm_get (observers ms) ''w'' \<noteq> None \<and> \<not> recovered ms \<and>
     (\<exists>m' sv'. lease_timer sorted_bolt (16 * second) (lease_key ''s'' ''w'') (lsID l) (m, Some s) = Ret (m', sv'))"
proof -
  have demo: "case terminal_handle demo_term_env (demo_attach ''w'') (newTerminalManager, Some (demo_hosting demo_session)) of
      Ret (res, m, Some s) \<Rightarrow> TrCode res = '''' \<and>
        (case gm_get (leases m) (lease_key ''s'' ''w'') of
           None \<Rightarrow> False
         | Some l \<Rightarrow> lsSession l = ''s'' \<and> lsClient l = ''w'' \<and> lsTimer l = 15 * second + 1 \<and>
             (case lease_timer sorted_bolt (16 * second) (lease_key ''s'' ''w'') (lsID l) (m, Some s) of Ret _ \<Rightarrow> True | Panic \<Rightarrow> False)) \<and>
        (case gm_get (sessions s) ''s'' of
           None \<Rightarrow> False
         | Some ms \<Rightarrow> ActiveWriterClientID (info ms) = ''w'' \<and> gm_get (observers ms) ''w'' \<noteq> None \<and> \<not> recovered ms)
    | _ \<Rightarrow> False"
    by code_simp
  then obtain res m s where h: "terminal_handle demo_term_env (demo_attach ''w'') (newTerminalManager, Some (demo_hosting demo_session)) = Ret (res, m, Some s)"
    by (auto split: outcome.splits option.splits)
  from demo [unfolded h] obtain l ms where "gm_get (leases m) (lease_key ''s'' ''w'') = Some l" "gm_get (sessions s) ''s'' = Some ms"
    by (auto split: option.splits)
  with demo [unfolded h] h show ?thesis by (auto split: outcome.splits)
qed

theorem terminals_bounded_witness:
  "\<exists>res m s. terminal_handle demo_term_env (demo_attach ''w'') (newTerminalManager, Some (demo_hosting demo_session)) = Ret (res, m, Some s) \<and>
     gm_get (leases m) (lease_key ''s'' ''w'') \<noteq> None \<and> length (leases m) \<le> 64"
  using demo_lease terminals_bounded [OF handle [OF new]] by blast

theorem lease_expires_witness:
  "\<exists>res m s l m' s' ms'. terminal_handle demo_term_env (demo_attach ''w'') (newTerminalManager, Some (demo_hosting demo_session)) = Ret (res, m, Some s) \<and>
     gm_get (leases m) (lease_key ''s'' ''w'') = Some l \<and> lease_timer sorted_bolt (16 * second) (lease_key ''s'' ''w'') (lsID l) (m, Some s) = Ret (m', Some s') \<and>
     gm_get (leases m') (lease_key ''s'' ''w'') = None \<and> gm_get (sessions s') ''s'' = Some ms' \<and> ActiveWriterClientID (info ms') = ''''"
proof -
  obtain res m s l ms m' sv' where d: "terminal_handle demo_term_env (demo_attach ''w'') (newTerminalManager, Some (demo_hosting demo_session)) = Ret (res, m, Some s)"
    "gm_get (leases m) (lease_key ''s'' ''w'') = Some l" "lsSession l = ''s''" "lsClient l = ''w''" "lsTimer l = 15 * second + 1"
    "gm_get (sessions s) ''s'' = Some ms" "ActiveWriterClientID (info ms) = ''w''" "gm_get (observers ms) ''w'' \<noteq> None" "\<not> recovered ms"
    "lease_timer sorted_bolt (16 * second) (lease_key ''s'' ''w'') (lsID l) (m, Some s) = Ret (m', sv')"
    using demo_lease by blast
  from lease_expires [OF handle [OF new d(1)] d(2) _ d(10)] d show ?thesis by auto
qed

theorem remote_keeps_writer_witness:
  "\<exists>res m s s' ms'. terminal_handle demo_term_env (demo_attach ''w'') (newTerminalManager, Some (demo_hosting demo_session)) = Ret (res, m, Some s) \<and>
     (case terminal_handle demo_term_env (demo_attach ''x'') (m, Some s) of
        Ret (res2, m2, sv2) \<Rightarrow> sv2 = Some s' \<and> gm_get (sessions s') ''s'' = Some ms' \<and> ActiveWriterClientID (info ms') = ''w''
      | Panic \<Rightarrow> False)"
proof -
  obtain res m s l ms where d: "terminal_handle demo_term_env (demo_attach ''w'') (newTerminalManager, Some (demo_hosting demo_session)) = Ret (res, m, Some s)"
    "gm_get (sessions s) ''s'' = Some ms" "ActiveWriterClientID (info ms) = ''w''"
    using demo_lease by blast
  have "case terminal_handle demo_term_env (demo_attach ''w'') (newTerminalManager, Some (demo_hosting demo_session)) of
      Ret (res, st) \<Rightarrow> (case terminal_handle demo_term_env (demo_attach ''x'') st of Ret _ \<Rightarrow> True | Panic \<Rightarrow> False) | Panic \<Rightarrow> False"
    by code_simp
  then obtain res2 m2 sv2 where x: "terminal_handle demo_term_env (demo_attach ''x'') (m, Some s) = Ret (res2, m2, sv2)"
    using d(1) by (auto split: outcome.splits)
  have "lease_key ''s'' ''w'' \<noteq> lease_key (TqSessionID (demo_attach ''x'')) (TqClientID (demo_attach ''x''))" by (simp add: lease_key_def demo_attach_def)
  from remote_keeps_writer [OF handle [OF new d(1)] x d(2,3) _ this] d(1) x show ?thesis by auto
qed

theorem ended_attach_sticks_witness:
  "\<exists>m' s' ms'. attach_action demo_term_env (demo_attach ''x'') newTerminalManager (demo_hosting demo_exited) = Ret (Inl ''session_ended'', m', Some s') \<and>
     gm_get (sessions s') ''s'' = Some ms' \<and> State (info ms') = SessionStateAttached \<and> ActiveWriterClientID (info ms') = ''x''"
proof -
  have e: "case attach_action demo_term_env (demo_attach ''x'') newTerminalManager (demo_hosting demo_exited) of Ret _ \<Rightarrow> True | Panic \<Rightarrow> False"
      "\<not> recovered demo_exited" "liveClosed demo_exited" "ExitRecorded (info demo_exited)" "ActiveWriterClientID (info demo_exited) = ''''"
      "gm_get (observers demo_exited) ''x'' = None"
    by code_simp+
  then obtain res m' sv' where r: "attach_action demo_term_env (demo_attach ''x'') newTerminalManager (demo_hosting demo_exited) = Ret (res, m', sv')"
    by (auto split: outcome.splits)
  have "gm_get (leases newTerminalManager) k = None" "length (leases newTerminalManager) < 64"
      "gm_get (sessions (demo_hosting demo_exited)) (TqSessionID (demo_attach ''x'')) = Some demo_exited" "TqClientID (demo_attach ''x'') = ''x''"
      "TqSessionID (demo_attach ''x'') = ''s''" for k
    by (simp_all add: newTerminalManager_def demo_hosting_def demo_attach_def)
  from ended_attach_sticks [OF r this(1-3)] this(4,5) e r show ?thesis by auto
qed

end
