(* ===== verification/Control_Loop.thy ===== *)
theory Control_Loop
  imports Control_Command Control_Terminal
begin

text \<open>
  The loops of \<open>internal/bridgecontrol/client.go\<close>: connecting, the select loop that writes (\<open>serve\<close>), the loop that reads and
  answers (\<open>readLoop\<close>), and the reconnect loop (\<open>run\<close>). The client serves the supervisor of the daemon, so the
  functions of its configuration act on a \<open>Supervisor\<close> (\<open>internal/localserver/reporting.go\<close>).
\<close>

declare map_of_eq_Some_iff [simp del] Some_eq_map_of_iff [simp del]

section \<open>Configuration\<close>

text \<open>\<open>newControlClient\<close>: the functions the daemon passes to its client; \<open>report\<close> is the diagnostic report of a session.\<close>

definition controlConfig ::
  "bolt \<Rightarrow> (SessionInfo \<Rightarrow> bridge_error + bytes) \<Rightarrow> string \<Rightarrow> string \<Rightarrow> string \<Rightarrow> Supervisor Config" where
  [control_defs]: "controlConfig B report stateDir credential vers =
     \<lparr>TerminalSupervisor = True, CommandPath = path_clean (stateDir @ ''/bridge-control-commands''),
      ObserveFunc = Some ObserveActivity,
      InstructionFunc = Some (\<lambda>i _ text s. SendInstruction B s i text),
      DiagnoseFunc = Some (\<lambda>s i. case Get s i of Inl e \<Rightarrow> Inl e | Inr i \<Rightarrow> report i),
      RespondFunc = Some (\<lambda>i p text s. RespondToInput B s i p text),
      ApprovalFunc = Some (\<lambda>i p decision s. DecideApproval B s i p decision),
      Credential = credential, BridgectlVersion = vers, CfgInstallationID = '''',
      StatusPath = path_clean (stateDir @ ''/bridge-control-status.json''),
      RevisionPath = path_clean (stateDir @ ''/bridge-control-revisions.json''),
      SnapshotFunc = Some (\<lambda>s. ActiveSnapshots (List s ''''))\<rparr>"

section \<open>Frames\<close>

text \<open>
  A frame of the server, and \<open>encoding/json\<close>: each function decodes into one of the client's types, or gives the text of
  the error. \<open>dcError\<close> gives what could be decoded, since its error is ignored.
\<close>

record server_envelope =
  SvProtocolVersion :: int
  SvType :: string
  SvPayload :: bytes

record codec =
  dcEnvelope :: "bytes \<Rightarrow> string + server_envelope"
  dcAck :: "bytes \<Rightarrow> string + helloAckPayload"
  dcError :: "bytes \<Rightarrow> errorPayload"
  dcCancel :: "bytes \<Rightarrow> string option"
  dcTerminal :: "bytes \<Rightarrow> TerminalRequest option"
  dcObserve :: "bytes \<Rightarrow> ObservationRequest option"
  dcDiagnose :: "bytes \<Rightarrow> DiagnosticRequest option"
  dcCommand :: "bytes \<Rightarrow> Command option"
  dcValid :: "bytes \<Rightarrow> bool"

text \<open>\<open>%d\<close>.\<close>

fun digits :: "nat \<Rightarrow> string" where
  "digits n = (if n < 10 then [char_of (48 + n)] else digits (n div 10) @ [char_of (48 + n mod 10)])"

declare digits.simps [simp del]

definition itoa :: "int \<Rightarrow> string" where
  "itoa i = (if i < 0 then CHR ''-'' # digits (nat (- i)) else digits (nat i))"

text \<open>\<open>%q\<close> of a string without characters to escape.\<close>

definition quoted :: "string \<Rightarrow> string" where
  "quoted t = CHR 0x22 # t @ [CHR 0x22]"

section \<open>Connecting\<close>

definition readHelloAck :: "codec \<Rightarrow> string + bytes \<Rightarrow> string + helloAckPayload" where
  [control_defs]: "readHelloAck D frame =
     (case frame of
        Inl e \<Rightarrow> Inl (''read hello_ack: '' @ e)
      | Inr dat \<Rightarrow>
          (case dcEnvelope D dat of
             Inl e \<Rightarrow> Inl (''malformed hello_ack: '' @ e)
           | Inr env \<Rightarrow>
               if SvProtocolVersion env \<noteq> 1
               then Inl (''unsupported protocol_version '' @ itoa (SvProtocolVersion env) @ '' in server envelope (want 1)'')
               else if SvType env = ''error''
               then let p = dcError D (SvPayload env) in Inl (''bridge rejected hello: '' @ EpCode p @ '': '' @ EpMessage p)
               else if SvType env \<noteq> ''hello_ack'' then Inl (''unexpected message '' @ quoted (SvType env) @ '' before hello_ack'')
               else (case dcAck D (SvPayload env) of
                       Inl e \<Rightarrow> Inl (''malformed hello_ack payload: '' @ e)
                     | Inr ack \<Rightarrow>
                         if HaProtocolVersion ack \<noteq> 1
                         then Inl (''unsupported protocol_version '' @ itoa (HaProtocolVersion ack) @ '' in hello_ack payload (want 1)'')
                         else Inr ack)))"

abbreviation defaultHeartbeatEvery :: duration where "defaultHeartbeatEvery \<equiv> 30 * second"
abbreviation minIdleReadTimeout :: duration where "minIdleReadTimeout \<equiv> 30 * second"

text \<open>What a connection attempt meets: the dial (an HTTP status if there was a response, and the error), the first frame, clock and files.\<close>

record connect_env =
  coNet :: net
  coDial :: "(int option \<times> string) option"
  coFrame :: "string + bytes"
  coNow :: go_time
  coCutoff :: go_time
  coRep :: "nat \<Rightarrow> bool"
  coRep' :: "nat \<Rightarrow> bool"
  coStatusOK :: bool

text \<open>\<open>connectAndServe\<close> up to \<open>serve\<close>: an error, or the heartbeat interval.\<close>

definition connect :: "codec \<Rightarrow> connect_env \<Rightarrow> 'w \<Rightarrow> 'w Client \<Rightarrow> (string + duration) \<times> 'w Client \<times> conn" where
  [control_defs]: "connect D E w c =
     (let k0 = \<lparr>connSent = [], connWrites = 0\<rparr>
      in case coDial E of
           Some (Some st, e) \<Rightarrow> (Inl (''dial control endpoint: HTTP '' @ itoa st @ '': '' @ e), c, k0)
         | Some (None, e) \<Rightarrow> (Inl (''dial control endpoint: '' @ e), c, k0)
         | None \<Rightarrow>
             (case sendHello (coNet E) c k0 of
                (Some e, k1) \<Rightarrow> (Inl e, c, k1)
              | (None, k1) \<Rightarrow>
                  (case readHelloAck D (coFrame E) of
                     Inl e \<Rightarrow> (Inl e, c, k1)
                   | Inr ack \<Rightarrow>
                       let c1 = setStatus (coNow E) (coStatusOK E) StateConnected ''''
                                  (c\<lparr>organizationID := HaOrganizationID ack, installationID := HaInstallationID ack\<rparr>);
                           interval = int64 (HaHeartbeatIntervalSeconds ack * second)
                       in (case sendAuthoritativeSnapshot (coNet E) (coCutoff E) (coNow E) (coRep E) (coRep' E) w c1 k1 of
                             (Some e, c2, k2) \<Rightarrow> (Inl e, c2, k2)
                           | (None, c2, k2) \<Rightarrow> (Inr (if interval \<le> 0 then defaultHeartbeatEvery else interval), c2, k2)))))"

definition idleReadTimeout :: "duration \<Rightarrow> duration" where
  "idleReadTimeout interval = (let t = int64 (3 * interval) in if t < minIdleReadTimeout then minIdleReadTimeout else t)"

section \<open>Serving\<close>

text \<open>One turn of the select loop; \<open>ServeDone None\<close> is a graceful end. A case of a channel is enabled when it holds a signal.\<close>

datatype serve_event = OnClose | OnCtxDone | OnReadErr string | OnReconcile | OnTick | OnDirty

datatype serve_result = ServeOn | ServeDone "string option"

record serve_env =
  seNet :: net
  seCutoff :: go_time
  seNow :: go_time
  seTimes :: "nat \<Rightarrow> go_time"
  seRep :: "nat \<Rightarrow> bool"
  seRep' :: "nat \<Rightarrow> bool"
  seReps :: "nat \<Rightarrow> nat \<Rightarrow> bool"
  seLate :: "nat \<Rightarrow> bool"
  seStatusOK :: bool

definition serve_enabled :: "serve_event \<Rightarrow> 'w Client \<Rightarrow> bool" where
  "serve_enabled ev c = (case ev of OnClose \<Rightarrow> closeCh c | OnReconcile \<Rightarrow> reconcileCh c | OnDirty \<Rightarrow> dirty c | _ \<Rightarrow> True)"

abbreviation serve_outcome :: "string option \<times> 'w Client \<times> conn \<Rightarrow> serve_result \<times> 'w Client \<times> conn" where
  "serve_outcome r \<equiv> (case r of (Some e, c, k) \<Rightarrow> (ServeDone (Some e), c, k) | (None, c, k) \<Rightarrow> (ServeOn, c, k))"

fun serve :: "serve_env \<Rightarrow> serve_event \<Rightarrow> 'w \<Rightarrow> 'w Client \<Rightarrow> conn \<Rightarrow> serve_result \<times> 'w Client \<times> conn" where
  "serve E OnClose w c k = (ServeDone None, flushPendingEvents (seNet E) (seTimes E) (seReps E) (seLate E) c k)"
| "serve E OnCtxDone w c k = (ServeDone None, flushPendingEvents (seNet E) (seTimes E) (seReps E) (seLate E) c k)"
| "serve E (OnReadErr e) w c k = (ServeDone (Some e), c, k)"
| "serve E OnReconcile w c k =
     serve_outcome (sendAuthoritativeSnapshot (seNet E) (seCutoff E) (seNow E) (seRep E) (seRep' E) w (c\<lparr>reconcileCh := False\<rparr>) k)"
| "serve E OnTick w c k = serve_outcome (sendHeartbeat (seNet E) (seNow E) (seStatusOK E) c k)"
| "serve E OnDirty w c k =
     (let (items, c1) = drainAllPending (c\<lparr>dirty := False\<rparr>) in serve_outcome (send_events (seNet E) (seTimes E) (seReps E) 0 items c1 k))"

section \<open>Reading\<close>

text \<open>
  The state of the read loop besides the client: its terminals, the supervisor, the ledger and the connection. A turn goes
  on, or ends the loop, with an error for \<open>serve\<close> or without one.
\<close>

record read_state =
  rdClient :: "Supervisor Client"
  rdTerms :: terminalManager
  rdSup :: Supervisor
  rdLedger :: ledger
  rdConn :: conn

datatype read_result = ReadOn | ReadStop "string option"

record read_env =
  reNet :: net
  reCodec :: codec
  reTerm :: term_env
  reCommand :: command_env

definition read_write :: "net \<Rightarrow> string \<Rightarrow> payload \<Rightarrow> read_state \<Rightarrow> read_result \<times> read_state" where
  [control_defs]: "read_write N msgType p st =
     (case writeEnvelope N msgType p (rdConn st) of
        (Some e, k) \<Rightarrow> (ReadStop None, st\<lparr>rdConn := k\<rparr>)
      | (None, k) \<Rightarrow> (ReadOn, st\<lparr>rdConn := k\<rparr>))"

definition read_terminal :: "read_env \<Rightarrow> TerminalRequest \<Rightarrow> read_state \<Rightarrow> (read_result \<times> read_state) outcome" where
  [control_defs]: "read_terminal E r st =
     (let c = rdClient st
      in if TqOrganizationID r \<noteq> organizationID c \<or> TqInstallationID r \<noteq> installationID c
         then Ret (read_write (reNet E) ''terminal_result'' (TerminalPayload \<lparr>TrID = TqID r, TrWindow = None, TrCode = ''invalid_request''\<rparr>) st)
         else if TqStream r then
           (case startStream r (rdTerms st) of
              (Some res, m) \<Rightarrow> Ret (ReadOn, snd (read_write (reNet E) ''terminal_result'' (TerminalPayload res) (st\<lparr>rdTerms := m\<rparr>)))
            | (None, m) \<Rightarrow> Ret (ReadOn, st\<lparr>rdTerms := m\<rparr>))
         else outcome_bind
                (terminal_handle (reTerm E) r (rdTerms st, if TerminalSupervisor (cfg c) then Some (rdSup st) else None))
                (\<lambda>(res, m, sv). Ret (read_write (reNet E) ''terminal_result'' (TerminalPayload res)
                   (st\<lparr>rdTerms := m, rdSup := (case sv of None \<Rightarrow> rdSup st | Some s \<Rightarrow> s)\<rparr>))))"

definition read_frame :: "read_env \<Rightarrow> string + bytes \<Rightarrow> read_state \<Rightarrow> (read_result \<times> read_state) outcome" where
  [control_defs]: "read_frame E frame st =
     (let D = reCodec E; N = reNet E; c = rdClient st
      in case frame of
           Inl e \<Rightarrow> Ret (ReadStop (Some e), st)
         | Inr dat \<Rightarrow>
             (case dcEnvelope D dat of
                Inl e \<Rightarrow> Ret (ReadStop (Some (''malformed server message: '' @ e)), st)
              | Inr env \<Rightarrow>
                  let p = SvPayload env
                  in if SvProtocolVersion env \<noteq> 1
                     then Ret (ReadStop (Some (''unsupported protocol_version '' @ itoa (SvProtocolVersion env) @ '' in server message (want 1)'')), st)
                     else if SvType env = ''terminal_cancel'' then
                       (case dcCancel D p of None \<Rightarrow> Ret (ReadOn, st) | Some i \<Rightarrow> Ret (ReadOn, st\<lparr>rdTerms := cancelStream i (rdTerms st)\<rparr>))
                     else if SvType env = ''terminal_request'' then
                       (case dcTerminal D p of None \<Rightarrow> Ret (ReadOn, st) | Some r \<Rightarrow> read_terminal E r st)
                     else if SvType env = ''observe_session'' then
                       (case dcObserve D p of
                          None \<Rightarrow> Ret (ReadOn, st)
                        | Some r \<Rightarrow> Ret (read_write N ''session_activity'' (ObservationPayload (observe (rdSup st) c r)) st))
                     else if SvType env = ''diagnose_session'' then
                       (case dcDiagnose D p of
                          None \<Rightarrow> Ret (ReadOn, st)
                        | Some r \<Rightarrow> Ret (read_write N ''session_diagnostic'' (DiagnosticPayload (diagnose (dcValid D) (rdSup st) c r)) st))
                     else if SvType env = ''command'' then
                       (case dcCommand D p of
                          None \<Rightarrow> Ret (ReadOn, st)
                        | Some cmd \<Rightarrow>
                            let (res, s, d) = executeCommand (reCommand E) c cmd (rdSup st, rdLedger st)
                            in Ret (read_write N ''command_result'' (CommandPayload res) (st\<lparr>rdSup := s, rdLedger := d\<rparr>)))
                     else if SvType env = ''error'' then
                       let e = dcError D p
                       in Ret (ReadOn, if ReconcileRequired e \<or> EpCode e = ''revision_gap'' then st\<lparr>rdClient := scheduleReconcile c\<rparr> else st)
                     else Ret (ReadOn, st)))"

text \<open>\<open>readLoop\<close> over the frames it reads; it closes the terminals when it returns. \<open>None\<close> as a result: still reading.\<close>

fun readLoop_frames :: "read_env list \<Rightarrow> (string + bytes) list \<Rightarrow> read_state \<Rightarrow> (string option option \<times> read_state) outcome" where
  "readLoop_frames (E # Es) (f # fs) st =
     outcome_bind (read_frame E f st) (\<lambda>(r, st1).
       case r of
         ReadOn \<Rightarrow> readLoop_frames Es fs st1
       | ReadStop e \<Rightarrow>
           outcome_bind (manager_close (teBolt (reTerm E)) (rdTerms st1, if TerminalSupervisor (cfg (rdClient st1)) then Some (rdSup st1) else None))
             (\<lambda>(m, sv). Ret (Some e, st1\<lparr>rdTerms := m, rdSup := (case sv of None \<Rightarrow> rdSup st1 | Some s \<Rightarrow> s)\<rparr>)))"
| "readLoop_frames _ _ st = Ret (None, st)"

section \<open>Reconnecting\<close>

text \<open>The beginning of a turn of \<open>run\<close>: the client is not closed and an attempt is announced.\<close>

definition run_attempt :: "go_time \<Rightarrow> bool \<Rightarrow> 'w Client \<Rightarrow> bool \<times> 'w Client" where
  [control_defs]: "run_attempt now statusOK c =
     (if closeCh c then (False, setStatus now statusOK StateDisconnected '''' c) else (True, setStatus now statusOK StateConnecting '''' c))"

text \<open>
  A turn of \<open>run\<close> after \<open>connectAndServe\<close> has returned \<open>err\<close>: the end, or the next attempt after a delay. The deferred status
  is written at the end.
\<close>

definition run_turn :: "(int \<Rightarrow> int) \<Rightarrow> go_time \<Rightarrow> bool \<Rightarrow> int \<Rightarrow> string option \<Rightarrow> 'w Client \<Rightarrow> (int \<times> duration) option \<times> 'w Client" where
  [control_defs]: "run_turn int63n now statusOK attempt err c =
     (case err of
        None \<Rightarrow> (None, setStatus now statusOK StateDisconnected '''' c)
      | Some e \<Rightarrow>
          (Some (attempt + 1, backoffDelay int63n (attempt + 1)), setStatus now statusOK (classifyStatus (Some e)) e c))"

end
