(* ===== verification/Control_Sync.thy ===== *)
theory Control_Sync
  imports Control_Loop "HOL-Library.Multiset"
begin

text \<open>
  Synchronisation with Bridge: the interleavings of the supervisor's notifications with the client's writer, and what they
  guarantee. The queue of notifications stays consistent; what was sent converges to what the daemon last reported, and every
  run of the writer ends there; and revisions are numbered without gaps. The client relies on the daemon only through the locale \<open>published\<close>.
\<close>

declare map_of_eq_Some_iff [simp del] Some_eq_map_of_iff [simp del]

section \<open>The queue of notifications\<close>

definition queue_ok :: "'w Client \<Rightarrow> bool" where
  "queue_ok c \<longleftrightarrow> gm_ok (pendingNotes c) \<and> distinct (pendingOrder c) \<and> set (pendingOrder c) = fst ` set (pendingNotes c) \<and>
     length (pendingNotes c) \<le> eventQueueSize \<and> (\<forall>sid q. gm_get (pendingNotes c) sid = Some q \<longrightarrow> SnSessionID (qnInfo q) = sid)"

lemma dom_put: "fst ` set (gm_put k v m) = insert k (fst ` set m)"
  by (induction m) auto

lemma dom_del: "fst ` set (gm_del k m) = fst ` set m - {k}"
  by (auto simp: AList.delete_eq)

lemma gm_get_dom: "gm_get m k = None \<longleftrightarrow> k \<notin> fst ` set m"
  by (simp add: map_of_eq_None_iff)

lemma gm_del_shorter: "k \<in> fst ` set m \<Longrightarrow> length (gm_del k m) < length m"
  by (auto simp: AList.delete_eq intro!: length_filter_less)

text \<open>What a notification does to the queue, when it is consistent: it never panics.\<close>

lemma Notify_cases:
  assumes "queue_ok c"
  obtains (queued) c' where "Notify now c s = Ret c'" "pendingNotes c' = gm_put (SnSessionID s) \<lparr>qnInfo = s, enqueuedAt = now\<rparr> (pendingNotes c)"
      "reconcileCh c' = reconcileCh c" "dirty c'" "queue_ok c'" "revisions c' = revisions c"
  | (evicted) c' old where "Notify now c s = Ret c'" "old \<noteq> SnSessionID s"
      "pendingNotes c' = gm_put (SnSessionID s) \<lparr>qnInfo = s, enqueuedAt = now\<rparr> (gm_del old (pendingNotes c))"
      "reconcileCh c'" "dirty c'" "queue_ok c'" "revisions c' = revisions c"
proof (cases "gm_get (pendingNotes c) (SnSessionID s) = None \<and> eventQueueSize \<le> length (pendingNotes c)")
  case True
  then have "pendingNotes c \<noteq> []" by auto
  then have "fst ` set (pendingNotes c) \<noteq> {}" by simp
  with assms obtain old rest where o: "pendingOrder c = old # rest" by (cases "pendingOrder c") (auto simp: queue_ok_def)
  then have mem: "old \<in> fst ` set (pendingNotes c)" using assms by (auto simp: queue_ok_def)
  have ne: "old \<noteq> SnSessionID s" using True mem gm_get_dom by metis
  let ?c = "c\<lparr>pendingOrder := rest @ [SnSessionID s],
     pendingNotes := gm_put (SnSessionID s) \<lparr>qnInfo = s, enqueuedAt = now\<rparr> (gm_del old (pendingNotes c)), dirty := True, reconcileCh := True\<rparr>"
  have n: "Notify now c s = Ret ?c" using True o by (simp add: Notify_def scheduleReconcile_def Let_def)
  have "queue_ok ?c"
    using assms o True ne gm_del_shorter [OF mem]
    by (auto simp: queue_ok_def dom_put dom_del gm_put_length gomap_simps gm_get_dom split: if_splits)
  with n ne show ?thesis by (intro evicted [of ?c old]) simp_all
next
  case False
  let ?c = "c\<lparr>pendingOrder := (if gm_get (pendingNotes c) (SnSessionID s) \<noteq> None then remove1 (SnSessionID s) (pendingOrder c) else pendingOrder c) @ [SnSessionID s],
     pendingNotes := gm_put (SnSessionID s) \<lparr>qnInfo = s, enqueuedAt = now\<rparr> (pendingNotes c), dirty := True\<rparr>"
  have n: "Notify now c s = Ret ?c" using False by (auto simp: Notify_def Let_def)
  have "queue_ok ?c"
    using assms False
    by (auto simp: queue_ok_def dom_put gm_put_length gomap_simps gm_get_dom split: if_splits)
  with n show ?thesis by (intro queued [of ?c]) simp_all
qed

section \<open>What each operation leaves alone\<close>

definition same_queue :: "'w Client \<Rightarrow> 'w Client \<Rightarrow> bool" where
  "same_queue c c' \<longleftrightarrow> pendingNotes c' = pendingNotes c \<and> pendingOrder c' = pendingOrder c \<and> dirty c' = dirty c \<and> reconcileCh c' = reconcileCh c"

lemma same_queue_refl [simp]: "same_queue c c"
  by (simp add: same_queue_def)

lemma same_queue_trans [trans]: "same_queue a b \<Longrightarrow> same_queue b c \<Longrightarrow> same_queue a c"
  by (simp add: same_queue_def)

lemma interaction_frame:
  assumes "toInteractionPayload now r c sid cur force = (p, c1)"
  shows "same_queue c c1 \<and> revisions c1 = revisions c"
  using assms by (auto simp: toInteractionPayload_def Let_def split_beta same_queue_def split: if_splits)

lemma forgetInteraction_frame [simp]:
  "pendingNotes (forgetInteraction r c sid) = pendingNotes c" "pendingOrder (forgetInteraction r c sid) = pendingOrder c"
  "dirty (forgetInteraction r c sid) = dirty c" "reconcileCh (forgetInteraction r c sid) = reconcileCh c"
  "revisions (forgetInteraction r c sid) = revisions c"
  by (simp_all add: forgetInteraction_def)

lemma persist_rev [simp]: "rev (persistLocked r rs) = rev rs"
  by (simp add: persistLocked_def)

lemma Next_rev: "Next r rs sid = (int64 (Current rs sid + 1), snd (Next r rs sid)) \<and> rev (snd (Next r rs sid)) = gm_put sid (int64 (Current rs sid + 1)) (rev rs)"
  by (simp add: Next_def Let_def)

lemma Forget_get: "gm_get (rev (Forget r rs sid)) i = (if i = sid then None else gm_get (rev rs) i)"
  by (simp add: Forget_def gomap_simps)

lemma setStatus_frame: "same_queue c (setStatus now ok st e c)" "revisions (setStatus now ok st e c) = revisions c"
  by (simp_all add: setStatus_def same_queue_def Let_def split: option.split)

lemma heartbeat_frame:
  assumes "sendHeartbeat N now ok c k = (None, c1, k1)"
  shows "same_queue c c1 \<and> revisions c1 = revisions c \<and>
    (\<exists>env. connSent k1 = connSent k @ [env] \<and> EnvPayload env = NoPayload)"
proof -
  obtain e k2 where w: "writeEnvelope N ''heartbeat'' NoPayload k = (e, k2)" by fastforce
  with assms have "e = None" "k1 = k2" "c1 = setStatus now ok StateConnected '''' c"
    by (auto simp: sendHeartbeat_def split: option.splits)
  with w setStatus_frame show ?thesis by (auto simp: writeEnvelope_def Let_def split: option.splits)
qed

lemma row_frame:
  assumes "snapshot_row now r1 r2 c s = (row, c1)"
  shows "same_queue c c1 \<and> SpSessionID row = SnSessionID s \<and> SpStatus row = SnStatus s \<and>
    (\<forall>i. i \<noteq> SnSessionID s \<longrightarrow> gm_get (rev (revisions c1)) i = gm_get (rev (revisions c)) i) \<and>
    gm_get (rev (revisions c1)) (SnSessionID s) = Some (SpRevision row) \<and>
    (0 < Current (revisions c) (SnSessionID s) \<longrightarrow> SpRevision row = Current (revisions c) (SnSessionID s)) \<and>
    (gm_get (rev (revisions c)) (SnSessionID s) = None \<longrightarrow> SpRevision row = 1)"
proof -
  let ?cur = "Current (revisions c) (SnSessionID s)"
  obtain r revs where nx: "(if ?cur \<le> 0 then Next r1 (revisions c) (SnSessionID s) else (?cur, revisions c)) = (r, revs)" by fastforce
  obtain i c2 where ip: "toInteractionPayload now r2 (c\<lparr>revisions := revs\<rparr>) (SnSessionID s) (SnInteraction s) True = (i, c2)" by fastforce
  have fr: "same_queue (c\<lparr>revisions := revs\<rparr>) c2" "revisions c2 = revs" using interaction_frame [OF ip] by simp_all
  have row: "row = \<lparr>SpSessionID = SnSessionID s, SpProvider = SnProvider s, SpProjectID = SnProjectID s, SpStatus = SnStatus s, SpRevision = r,
      SpOccurredAt = (if SnCreatedAt s = 0 then now else SnCreatedAt s), SpInteraction = i\<rparr>" "c1 = c2"
    using assms nx ip by (simp_all add: snapshot_row_def Let_def)
  have revs: "(\<forall>i. i \<noteq> SnSessionID s \<longrightarrow> gm_get (rev revs) i = gm_get (rev (revisions c)) i) \<and> gm_get (rev revs) (SnSessionID s) = Some r \<and>
      (0 < ?cur \<longrightarrow> r = ?cur) \<and> (gm_get (rev (revisions c)) (SnSessionID s) = None \<longrightarrow> r = 1)"
  proof (cases "?cur \<le> 0")
    case True
    then show ?thesis
      using nx Next_rev [of r1 "revisions c" "SnSessionID s"] by (auto simp: gomap_simps Current_def int64_def)
  next
    case False
    then have "gm_get (rev (revisions c)) (SnSessionID s) = Some ?cur" by (auto simp: Current_def split: option.splits)
    with False nx show ?thesis by auto
  qed
  show ?thesis using fr revs by (simp add: row same_queue_def)
qed

lemma rows_frame:
  assumes "snapshot_rows now rep n c ss = (rows, c1)" and "distinct (map SnSessionID ss)"
  shows "same_queue c c1 \<and> map (\<lambda>r. (SpSessionID r, SpStatus r)) rows = map (\<lambda>s. (SnSessionID s, SnStatus s)) ss \<and>
    (\<forall>i. i \<notin> SnSessionID ` set ss \<longrightarrow> gm_get (rev (revisions c1)) i = gm_get (rev (revisions c)) i) \<and>
    (\<forall>r \<in> set rows. gm_get (rev (revisions c1)) (SpSessionID r) = Some (SpRevision r) \<and>
       (0 < Current (revisions c) (SpSessionID r) \<longrightarrow> SpRevision r = Current (revisions c) (SpSessionID r)) \<and>
       (gm_get (rev (revisions c)) (SpSessionID r) = None \<longrightarrow> SpRevision r = 1))"
  using assms
proof (induction ss arbitrary: n c rows)
  case (Cons s ss)
  obtain row c2 where r: "snapshot_row now (rep n) (rep (n + 1)) c s = (row, c2)" by fastforce
  obtain rows' c3 where rs: "snapshot_rows now rep (n + 2) c2 ss = (rows', c3)" by fastforce
  have eq: "rows = row # rows'" "c1 = c3" using Cons.prems(1) r rs by simp_all
  note f = row_frame [OF r]
  have IH: "same_queue c2 c3 \<and> map (\<lambda>r. (SpSessionID r, SpStatus r)) rows' = map (\<lambda>s. (SnSessionID s, SnStatus s)) ss \<and>
    (\<forall>i. i \<notin> SnSessionID ` set ss \<longrightarrow> gm_get (rev (revisions c3)) i = gm_get (rev (revisions c2)) i) \<and>
    (\<forall>r \<in> set rows'. gm_get (rev (revisions c3)) (SpSessionID r) = Some (SpRevision r) \<and>
       (0 < Current (revisions c2) (SpSessionID r) \<longrightarrow> SpRevision r = Current (revisions c2) (SpSessionID r)) \<and>
       (gm_get (rev (revisions c2)) (SpSessionID r) = None \<longrightarrow> SpRevision r = 1))"
    using Cons.IH [of "n + 2" c2 rows'] rs eq Cons.prems(2) by simp
  have notin: "SnSessionID s \<notin> SnSessionID ` set ss" using Cons.prems(2) by simp
  have ids: "SpSessionID ` set rows' = SnSessionID ` set ss"
    using arg_cong [OF conjunct1 [OF conjunct2 [OF IH]], of "\<lambda>xs. fst ` set xs"] by (simp add: image_image)
  have old: "gm_get (rev (revisions c2)) (SpSessionID r) = gm_get (rev (revisions c)) (SpSessionID r)" if "r \<in> set rows'" for r
    using that f ids notin by (metis imageI)
  then have cur: "Current (revisions c2) (SpSessionID r) = Current (revisions c) (SpSessionID r)" if "r \<in> set rows'" for r
    using that by (simp add: Current_def)
  have "same_queue c c3" using f IH same_queue_trans by blast
  moreover have "gm_get (rev (revisions c3)) (SnSessionID s) = Some (SpRevision row)" using IH f notin by simp
  ultimately show ?case unfolding eq using f IH old cur by simp
qed simp

lemma event_frame:
  assumes "sendEvent N now rep s c k = (e, c1, k1)"
  shows "same_queue c c1 \<and> (\<forall>i. i \<noteq> SnSessionID s \<longrightarrow> gm_get (rev (revisions c1)) i = gm_get (rev (revisions c)) i)"
    and "e \<noteq> None \<Longrightarrow> connSent k1 = connSent k"
    and "e = None \<Longrightarrow> \<exists>env p. connSent k1 = connSent k @ [env] \<and> EnvPayload env = EventPayload p \<and> SpSessionID p = SnSessionID s \<and>
      SpStatus p = SnStatus s \<and> SpRevision p = int64 (Current (revisions c) (SnSessionID s) + 1) \<and>
      (EnvType env = ''session_started'' \<longleftrightarrow> Current (revisions c) (SnSessionID s) \<le> 0) \<and>
      gm_get (rev (revisions c1)) (SnSessionID s) \<in> {None, Some (SpRevision p)}"
proof -
  let ?sid = "SnSessionID s" and ?cur = "Current (revisions c) (SnSessionID s)"
  let ?ty = "if ?cur \<le> 0 then ''session_started'' else if ended_status (SnStatus s) then ''session_stopped'' else ''session_updated''"
  obtain revs where nx: "Next (rep 0) (revisions c) ?sid = (int64 (?cur + 1), revs)" "rev revs = gm_put ?sid (int64 (?cur + 1)) (rev (revisions c))"
    using Next_rev [of "rep 0" "revisions c" ?sid] by (metis snd_conv)
  obtain i c2 where ip: "toInteractionPayload now (rep 1) (c\<lparr>revisions := revs\<rparr>) ?sid (SnInteraction s) False = (i, c2)" by fastforce
  have fr: "same_queue c c2" "revisions c2 = revs" using interaction_frame [OF ip] by (simp_all add: same_queue_def)
  let ?p = "\<lparr>SpSessionID = ?sid, SpProvider = SnProvider s, SpProjectID = SnProjectID s, SpStatus = SnStatus s, SpRevision = int64 (?cur + 1),
      SpOccurredAt = now, SpInteraction = i\<rparr>"
  obtain we k2 where wr: "writeEnvelope N ?ty (EventPayload ?p) k = (we, k2)" by fastforce
  have k2: "we \<noteq> None \<Longrightarrow> connSent k2 = connSent k"
      "we = None \<Longrightarrow> \<exists>env. connSent k2 = connSent k @ [env] \<and> EnvPayload env = EventPayload ?p \<and> EnvType env = ?ty"
    using wr by (auto simp: writeEnvelope_def Let_def split: option.splits)
  let ?c3 = "if ?ty = ''session_stopped'' then forgetInteraction (rep 3) (c2\<lparr>revisions := Forget (rep 2) (revisions c2) ?sid\<rparr>) ?sid else c2"
  have ev: "e = we" "k1 = k2" "c1 = (if we = None then ?c3 else c2)"
    using assms nx(1) ip wr by (auto simp: sendEvent_def Let_def not_less split: option.splits)
  have c3: "same_queue c ?c3" "\<And>i. i \<noteq> ?sid \<Longrightarrow> gm_get (rev (revisions ?c3)) i = gm_get (rev (revisions c)) i"
      "gm_get (rev (revisions ?c3)) ?sid \<in> {None, Some (int64 (?cur + 1))}"
    using fr nx(2) by (auto simp: same_queue_def Forget_get gomap_simps)
  have c2: "\<And>i. i \<noteq> ?sid \<Longrightarrow> gm_get (rev (revisions c2)) i = gm_get (rev (revisions c)) i" using fr nx(2) by (simp add: gomap_simps)
  show "same_queue c c1 \<and> (\<forall>i. i \<noteq> ?sid \<longrightarrow> gm_get (rev (revisions c1)) i = gm_get (rev (revisions c)) i)"
    using ev(3) c3(1,2) c2 fr(1) by (cases we) auto
  show "e \<noteq> None \<Longrightarrow> connSent k1 = connSent k" using ev k2 by simp
  show "e = None \<Longrightarrow> \<exists>env p. connSent k1 = connSent k @ [env] \<and> EnvPayload env = EventPayload p \<and> SpSessionID p = ?sid \<and>
      SpStatus p = SnStatus s \<and> SpRevision p = int64 (?cur + 1) \<and> (EnvType env = ''session_started'' \<longleftrightarrow> ?cur \<le> 0) \<and>
      gm_get (rev (revisions c1)) ?sid \<in> {None, Some (SpRevision p)}"
  proof -
    assume "e = None"
    with ev k2 obtain env where "connSent k1 = connSent k @ [env]" "EnvPayload env = EventPayload ?p" "EnvType env = ?ty" by auto
    moreover have "gm_get (rev (revisions c1)) ?sid \<in> {None, Some (SpRevision ?p)}" using ev(3) c3(3) \<open>e = None\<close> ev(1) by simp
    moreover have "?ty = ''session_started'' \<longleftrightarrow> ?cur \<le> 0" by simp
    ultimately show ?thesis by (intro exI [of _ env] exI [of _ ?p]) simp
  qed
qed

lemma drain_loop_frame:
  assumes "distinct (map fst qs)" and "\<forall>(sid, q) \<in> set qs. gm_get (pendingNotes c) sid = Some q" and "queue_ok c"
  shows "queue_ok (drain_loop rep n t qs c) \<and> dirty (drain_loop rep n t qs c) = dirty c \<and> reconcileCh (drain_loop rep n t qs c) = reconcileCh c \<and>
    (\<forall>sid. gm_get (pendingNotes (drain_loop rep n t qs c)) sid =
       (if \<exists>q. (sid, q) \<in> set qs \<and> enqueuedAt q < t then None else gm_get (pendingNotes c) sid)) \<and>
    (\<forall>sid. gm_get (rev (revisions (drain_loop rep n t qs c))) sid \<in> {None, gm_get (rev (revisions c)) sid})"
  using assms
proof (induction qs arbitrary: n c)
  case (Cons x qs)
  obtain sid q where x: "x = (sid, q)" by fastforce
  show ?case
  proof (cases "enqueuedAt q < t")
    case False
    with Cons.IH [of c n] Cons.prems x show ?thesis by auto
  next
    case True
    let ?c1 = "if ended_status (SnStatus (qnInfo q)) then forgetInteraction (rep (n + 1)) (c\<lparr>revisions := Forget (rep n) (revisions c) sid\<rparr>) sid else c"
    let ?c2 = "?c1\<lparr>pendingOrder := remove1 sid (pendingOrder ?c1), pendingNotes := gm_del sid (pendingNotes ?c1)\<rparr>"
    have eq: "drain_loop rep n t (x # qs) c = drain_loop rep (n + 2) t qs ?c2" using True x by (simp add: Let_def)
    have same: "pendingNotes ?c1 = pendingNotes c" "pendingOrder ?c1 = pendingOrder c" "dirty ?c1 = dirty c" "reconcileCh ?c1 = reconcileCh c" by simp_all
    have ok: "queue_ok ?c2"
      using Cons.prems(3) gm_del_length [of sid "pendingNotes c"] same by (auto simp: queue_ok_def dom_del gomap_simps split: if_splits)
    define c2 where "c2 = ?c2"
    have p2: "gm_get (pendingNotes c2) i = (if sid = i then None else gm_get (pendingNotes c) i)" for i
      unfolding c2_def using same by (simp add: gomap_simps)
    have r2: "gm_get (rev (revisions c2)) i \<in> {None, gm_get (rev (revisions c)) i}" for i unfolding c2_def by (simp add: Forget_get)
    have d2: "dirty c2 = dirty c" "reconcileCh c2 = reconcileCh c" unfolding c2_def using same by simp_all
    have d: "distinct (map fst qs)" and notin: "sid \<notin> fst ` set qs" using Cons.prems(1) x by simp_all
    have mem: "\<forall>(i, p) \<in> set qs. gm_get (pendingNotes c2) i = Some p"
    proof clarify
      fix i p
      assume m: "(i, p) \<in> set qs"
      with notin have "i \<noteq> sid" by force
      moreover have "gm_get (pendingNotes c) i = Some p" using Cons.prems(2) m by (auto dest: bspec)
      ultimately show "gm_get (pendingNotes c2) i = Some p" by (simp add: p2)
    qed
    note IH = Cons.IH [OF d mem ok [folded c2_def], of "n + 2"]
    have none: "\<not> (\<exists>p. (sid, p) \<in> set qs)" using notin by (force simp: image_iff)
    have pend: "gm_get (pendingNotes (drain_loop rep (n + 2) t qs c2)) i =
        (if \<exists>q. (i, q) \<in> set (x # qs) \<and> enqueuedAt q < t then None else gm_get (pendingNotes c) i)" for i
      using IH True none by (cases "i = sid") (auto simp: x p2)
    have "gm_get (rev (revisions (drain_loop rep (n + 2) t qs c2))) i \<in> {None, gm_get (rev (revisions c)) i}" for i
    proof -
      from IH have "gm_get (rev (revisions (drain_loop rep (n + 2) t qs c2))) i \<in> {None, gm_get (rev (revisions c2)) i}" by blast
      with r2 [of i] show ?thesis by fastforce
    qed
    with IH d2 pend show ?thesis unfolding eq c2_def [symmetric] by simp
  qed
qed simp

lemma drain_frame:
  assumes "queue_ok c" and "c1 = drainStalePending rep t c"
  shows "queue_ok c1 \<and> dirty c1 = dirty c \<and> reconcileCh c1 = reconcileCh c \<and>
    (\<forall>sid. gm_get (pendingNotes c1) sid =
       (case gm_get (pendingNotes c) sid of None \<Rightarrow> None | Some q \<Rightarrow> if enqueuedAt q < t then None else Some q)) \<and>
    (\<forall>sid. gm_get (rev (revisions c1)) sid \<in> {None, gm_get (rev (revisions c)) sid})"
proof -
  have ok: "gm_ok (pendingNotes c)" using assms(1) by (simp add: queue_ok_def)
  then have mem: "(sid, q) \<in> set (pendingNotes c) \<longleftrightarrow> gm_get (pendingNotes c) sid = Some q" for sid q by (rule gm_mem_get)
  then have all: "\<forall>(sid, q) \<in> set (pendingNotes c). gm_get (pendingNotes c) sid = Some q" by auto
  from drain_loop_frame [OF ok all assms(1), of rep 0 t] mem show ?thesis
    unfolding assms(2) drainStalePending_def by (auto split: option.splits)
qed

section \<open>The interleavings\<close>

text \<open>
  What Bridge knows after a sequence of messages: the status of each session that has not ended. A snapshot lists all of
  them, and a session that is not in it has ended. \<open>live\<close> drops the distinction of the two ended states.
\<close>

definition live :: "string \<Rightarrow> string option" where
  "live st = (if ended_status st then None else Some st)"

definition rows_view :: "sessionPayload list \<Rightarrow> string \<Rightarrow> string option" where
  "rows_view rows sid = Option.bind (map_of (map (\<lambda>r. (SpSessionID r, SpStatus r)) rows) sid) live"

fun view_step :: "(string \<Rightarrow> string option) \<Rightarrow> payload \<Rightarrow> string \<Rightarrow> string option" where
  "view_step v (SnapshotPayload rows) = rows_view rows"
| "view_step v (EventPayload p) = v(SpSessionID p := live (SpStatus p))"
| "view_step v _ = v"

definition view :: "envelope list \<Rightarrow> string \<Rightarrow> string option" where
  "view log = foldl (\<lambda>v env. view_step v (EnvPayload env)) (\<lambda>_. None) log"

lemma view_snoc [simp]: "view (log @ [env]) = view_step (view log) (EnvPayload env)"
  by (simp add: view_def)

text \<open>
  The points at which the goroutine of \<open>serve\<close> can be interrupted by notifications: before and after each step of
  \<open>sendAuthoritativeSnapshot\<close> (after \<open>cutoff\<close>, after the rows were built, after they were sent) and between the events of a
  drained queue, which come in the unspecified order of a Go map. \<open>Down\<close> is a broken connection.
\<close>

datatype phase = Idle | Cutoff go_time | Built go_time "sessionPayload list" | Sent go_time | Sending "queuedNotification list" | Down

text \<open>
  \<open>syReported\<close> and \<open>syStale\<close> say what the daemon reported, independently of the queue and of the connection. The last report of a
  session is its last notification, or the state a later snapshot read unless a notification queued since the cutoff of that snapshot is still
  to be sent. A session is stale when it changed after its last report, or that report already differed from its state: the supervisor
  notifies after it has released the session's lock, and not at all when a client claims or releases the writer slot.
  \<open>syCutoff\<close> is the cutoff of the last snapshot that was built.
\<close>

record 'w sync =
  syWorld :: 'w
  syClient :: "'w Client"
  syConn :: conn
  syPhase :: phase
  syClock :: go_time
  syTruncated :: bool
  syReported :: "string \<Rightarrow> string option"
  syStale :: "string set"
  syCutoff :: go_time

definition noted_since :: "go_time \<Rightarrow> 'w Client \<Rightarrow> string \<Rightarrow> bool" where
  "noted_since t c sid \<longleftrightarrow> (\<exists>q. gm_get (pendingNotes c) sid = Some q \<and> t \<le> enqueuedAt q)"

definition reported_built :: "go_time \<Rightarrow> (string \<Rightarrow> string option) \<Rightarrow> 'w sync \<Rightarrow> 'w sync" where
  "reported_built t W st = st\<lparr>syReported := (\<lambda>sid. if noted_since t (syClient st) sid then syReported st sid else W sid),
     syStale := {sid \<in> syStale st. noted_since t (syClient st) sid}, syCutoff := t\<rparr>"

definition reported_note :: "SessionSnapshot \<Rightarrow> (string \<Rightarrow> string option) \<Rightarrow> 'w sync \<Rightarrow> 'w sync" where
  "reported_note s W st = st\<lparr>syReported := (syReported st)(SnSessionID s := live (SnStatus s)),
     syStale := (if live (SnStatus s) = W (SnSessionID s) then syStale st - {SnSessionID s} else insert (SnSessionID s) (syStale st))\<rparr>"

text \<open>
  The steps of the client's own goroutine on a connection that works. \<open>snap\<close> is \<open>SnapshotFunc\<close>; \<open>truth w sid\<close> is the status of a session
  that has not ended in the state \<open>w\<close> of the daemon.
\<close>

inductive writer_step :: "('w \<Rightarrow> SessionSnapshot list) \<Rightarrow> ('w \<Rightarrow> string \<Rightarrow> string option) \<Rightarrow> 'w sync \<Rightarrow> 'w sync \<Rightarrow> bool"
  for snap truth where
  Reconcile: "syPhase st = Idle \<Longrightarrow> reconcileCh (syClient st) \<Longrightarrow> syClock st \<le> t \<Longrightarrow>
    writer_step snap truth st (st\<lparr>syClient := (syClient st)\<lparr>reconcileCh := False\<rparr>, syPhase := Cutoff t, syClock := t\<rparr>)"
| Build: "syPhase st = Cutoff t \<Longrightarrow> snapshot_rows now rep 0 (syClient st) (take maxSnapshotSessions (snap (syWorld st))) = (rows, c) \<Longrightarrow>
    writer_step snap truth st ((reported_built t (truth (syWorld st)) st)\<lparr>syClient := c, syPhase := Built t rows,
      syTruncated := maxSnapshotSessions < length (snap (syWorld st))\<rparr>)"
| Write: "syPhase st = Built t rows \<Longrightarrow> writeEnvelope N ''session_snapshot'' (SnapshotPayload rows) (syConn st) = (None, k) \<Longrightarrow>
    writer_step snap truth st (st\<lparr>syConn := k, syPhase := Sent t\<rparr>)"
| Drain: "syPhase st = Sent t \<Longrightarrow> writer_step snap truth st (st\<lparr>syClient := drainStalePending rep t (syClient st), syPhase := Idle\<rparr>)"
| Wake: "syPhase st = Idle \<Longrightarrow> dirty (syClient st) \<Longrightarrow> drainAllPending ((syClient st)\<lparr>dirty := False\<rparr>) = (drained, c) \<Longrightarrow> mset items = mset drained \<Longrightarrow>
    writer_step snap truth st (st\<lparr>syClient := c, syPhase := Sending items\<rparr>)"
| Event: "syPhase st = Sending (q # qs) \<Longrightarrow> sendEvent N now rep (qnInfo q) (syClient st) (syConn st) = (None, c, k) \<Longrightarrow>
    writer_step snap truth st (st\<lparr>syClient := c, syConn := k, syPhase := Sending qs\<rparr>)"
| SentAll: "syPhase st = Sending [] \<Longrightarrow> writer_step snap truth st (st\<lparr>syPhase := Idle\<rparr>)"
| Reconnect: "syPhase st = Down \<Longrightarrow> syClock st \<le> t \<Longrightarrow> sendHello N (syClient st) \<lparr>connSent = [], connWrites = 0\<rparr> = (None, k) \<Longrightarrow>
    writer_step snap truth st (st\<lparr>syClient := setStatus now ok StateConnected '''' ((syClient st)\<lparr>organizationID := org, installationID := inst\<rparr>),
      syConn := k, syPhase := Cutoff t, syClock := t\<rparr>)"

text \<open>
  Everything else that happens, in any order with the steps of the writer: the daemon changes in any way, with or without a notification; a
  notification of any state of a session arrives, however late; a gap is reported; a heartbeat is sent; a write fails; the connection breaks.
\<close>

inductive sync_step ::
  "('w \<Rightarrow> SessionSnapshot list) \<Rightarrow> ('w \<Rightarrow> string \<Rightarrow> string option) \<Rightarrow> ('w \<Rightarrow> bool) \<Rightarrow> 'w sync \<Rightarrow> 'w sync \<Rightarrow> bool"
  for snap truth good where
  Writer: "writer_step snap truth st st' \<Longrightarrow> sync_step snap truth good st st'"
| World: "good w \<Longrightarrow>
    sync_step snap truth good st (st\<lparr>syWorld := w, syStale := syStale st \<union> {sid. truth w sid \<noteq> truth (syWorld st) sid}\<rparr>)"
| Noted: "syClock st \<le> now \<Longrightarrow> Notify now (syClient st) s = Ret c \<Longrightarrow>
    sync_step snap truth good st ((reported_note s (truth (syWorld st)) st)\<lparr>syClient := c, syClock := now\<rparr>)"
| GapReported: "sync_step snap truth good st (st\<lparr>syClient := scheduleReconcile (syClient st)\<rparr>)"
| Heartbeat: "syPhase st = Idle \<Longrightarrow> sendHeartbeat N now ok (syClient st) (syConn st) = (None, c, k) \<Longrightarrow>
    sync_step snap truth good st (st\<lparr>syClient := c, syConn := k\<rparr>)"
| LostSnapshot: "syPhase st = Built t rows \<Longrightarrow> writeEnvelope N ''session_snapshot'' (SnapshotPayload rows) (syConn st) = (Some e, k) \<Longrightarrow>
    sync_step snap truth good st (st\<lparr>syConn := k, syPhase := Down\<rparr>)"
| LostEvent: "syPhase st = Sending (q # qs) \<Longrightarrow> sendEvent N now rep (qnInfo q) (syClient st) (syConn st) = (Some e, c, k) \<Longrightarrow>
    sync_step snap truth good st (st\<lparr>syClient := c, syConn := k, syPhase := Down\<rparr>)"
| Disconnect: "sync_step snap truth good st (st\<lparr>syPhase := Down\<rparr>)"

definition sync_started :: 
  "'w \<Rightarrow> 'w Config \<Rightarrow> (string, int) gomap json_file \<Rightarrow> (string, int) gomap json_file \<Rightarrow> Status json_file \<Rightarrow> go_time \<Rightarrow> 'w sync" where
  "sync_started w conf revFile intFile stFile t =
     \<lparr>syWorld = w, syClient = NewClient conf revFile intFile stFile, syConn = \<lparr>connSent = [], connWrites = 0\<rparr>, syPhase = Down, syClock = t,
      syTruncated = False, syReported = (\<lambda>_. None), syStale = UNIV, syCutoff = t\<rparr>"

inductive sync_reachable ::
  "('w \<Rightarrow> SessionSnapshot list) \<Rightarrow> ('w \<Rightarrow> string \<Rightarrow> string option) \<Rightarrow> ('w \<Rightarrow> bool) \<Rightarrow> 'w sync \<Rightarrow> bool"
  for snap truth good where
  Started: "good w \<Longrightarrow> sync_reachable snap truth good (sync_started w conf revFile intFile stFile t)"
| Stepped: "sync_reachable snap truth good st \<Longrightarrow> sync_step snap truth good st st' \<Longrightarrow> sync_reachable snap truth good st'"

text \<open>The steps of a snapshot without interruption are \<open>sendAuthoritativeSnapshot\<close>.\<close>

lemma snapshot_steps:
  assumes "syPhase st = Cutoff t" and "SnapshotFunc (cfg (syClient st)) = Some snap"
    and "sendAuthoritativeSnapshot N t now rep rep' (syWorld st) (syClient st) (syConn st) = (None, c, k)"
  shows "\<exists>tr. (writer_step snap truth)\<^sup>*\<^sup>* st ((reported_built t (truth (syWorld st)) st)\<lparr>syClient := c, syConn := k, syPhase := Idle, syTruncated := tr\<rparr>)"
proof -
  obtain rows c1 where rows: "snapshot_rows now rep 0 (syClient st) (take maxSnapshotSessions (snap (syWorld st))) = (rows, c1)" by fastforce
  with assms(2,3) have wr: "writeEnvelope N ''session_snapshot'' (SnapshotPayload rows) (syConn st) = (None, k)" "c = drainStalePending rep' t c1"
    by (auto simp: sendAuthoritativeSnapshot_def sendSnapshot_def Let_def split: prod.splits option.splits)
  let ?tr = "maxSnapshotSessions < length (snap (syWorld st))"
  define st0 where "st0 = reported_built t (truth (syWorld st)) st"
  have st0: "syConn st0 = syConn st" by (simp add: st0_def reported_built_def)
  define st1 where "st1 = st0\<lparr>syClient := c1, syPhase := Built t rows, syTruncated := ?tr\<rparr>"
  define st2 where "st2 = st1\<lparr>syConn := k, syPhase := Sent t\<rparr>"
  have s1: "writer_step snap truth st st1" unfolding st1_def st0_def by (rule Build) (use assms(1) rows in auto)
  have s2: "writer_step snap truth st1 st2" unfolding st2_def by (rule Write [of st1 t rows N k]) (simp_all add: st1_def st0 wr(1))
  have s3: "writer_step snap truth st2 (st2\<lparr>syClient := drainStalePending rep' t (syClient st2), syPhase := Idle\<rparr>)"
    by (rule Drain [of st2 t]) (simp add: st2_def)
  from s1 s2 s3 have "(writer_step snap truth)\<^sup>*\<^sup>* st (st2\<lparr>syClient := drainStalePending rep' t (syClient st2), syPhase := Idle\<rparr>)"
    by (meson rtranclp.rtrancl_into_rtrancl rtranclp.rtrancl_refl)
  moreover have "st2\<lparr>syClient := drainStalePending rep' t (syClient st2), syPhase := Idle\<rparr> =
      st0\<lparr>syClient := c, syConn := k, syPhase := Idle, syTruncated := ?tr\<rparr>"
    by (cases st0) (simp add: st2_def st1_def wr(2))
  ultimately show ?thesis unfolding st0_def by metis
qed

section \<open>Convergence\<close>

text \<open>
  Every session is covered: a reconciliation is due, or a notification of it is queued that will be sent, or what Bridge
  is told already (\<open>u\<close>) is its last report.
\<close>

definition covered :: "(queuedNotification \<Rightarrow> bool) \<Rightarrow> 'w Client \<Rightarrow> (string \<Rightarrow> string option) \<Rightarrow> (string \<Rightarrow> string option) \<Rightarrow> bool" where
  "covered P c R u \<longleftrightarrow> reconcileCh c \<or> (\<forall>sid. (\<exists>q. gm_get (pendingNotes c) sid = Some q \<and> P q) \<or> u sid = R sid)"

definition item_view :: "queuedNotification list \<Rightarrow> (string \<Rightarrow> string option) \<Rightarrow> string \<Rightarrow> string option" where
  "item_view items v sid =
     (case map_of (map (\<lambda>q. (SnSessionID (qnInfo q), SnStatus (qnInfo q))) items) sid of Some st \<Rightarrow> live st | None \<Rightarrow> v sid)"

definition recent :: "go_time \<Rightarrow> 'w Client \<Rightarrow> bool" where
  "recent mk c \<longleftrightarrow> (\<forall>sid q. gm_get (pendingNotes c) sid = Some q \<longrightarrow> mk \<le> enqueuedAt q)"

fun phase_inv :: "phase \<Rightarrow> go_time \<Rightarrow> go_time \<Rightarrow> bool \<Rightarrow> 'w Client \<Rightarrow> (string \<Rightarrow> string option) \<Rightarrow> (string \<Rightarrow> string option) \<Rightarrow> bool" where
  "phase_inv Idle mk now tr c R v \<longleftrightarrow> recent mk c \<and> (tr \<or> covered (\<lambda>_. True) c R v)"
| "phase_inv (Cutoff t) mk now tr c R v \<longleftrightarrow> mk \<le> t \<and> t \<le> now"
| "phase_inv (Built t rows) mk now tr c R v \<longleftrightarrow> t = mk \<and> (tr \<or> covered (\<lambda>q. t \<le> enqueuedAt q) c R (rows_view rows))"
| "phase_inv (Sent t) mk now tr c R v \<longleftrightarrow> t = mk \<and> (tr \<or> covered (\<lambda>q. t \<le> enqueuedAt q) c R v)"
| "phase_inv (Sending items) mk now tr c R v \<longleftrightarrow>
     recent mk c \<and> distinct (map (SnSessionID \<circ> qnInfo) items) \<and> (tr \<or> covered (\<lambda>_. True) c R (item_view items v))"
| "phase_inv Down mk now tr c R v \<longleftrightarrow> True"

definition queue_inv :: "go_time \<Rightarrow> go_time \<Rightarrow> 'w Client \<Rightarrow> (string \<Rightarrow> string option) \<Rightarrow> bool" where
  "queue_inv mk now c R \<longleftrightarrow> queue_ok c \<and> mk \<le> now \<and> (pendingNotes c \<noteq> [] \<longrightarrow> dirty c) \<and>
     (\<forall>sid q. gm_get (pendingNotes c) sid = Some q \<longrightarrow> enqueuedAt q \<le> now \<and> (mk \<le> enqueuedAt q \<longrightarrow> live (SnStatus (qnInfo q)) = R sid))"

definition sync_inv :: "('w \<Rightarrow> string \<Rightarrow> string option) \<Rightarrow> ('w \<Rightarrow> bool) \<Rightarrow> 'w sync \<Rightarrow> bool" where
  "sync_inv truth good st \<longleftrightarrow> good (syWorld st) \<and> queue_inv (syCutoff st) (syClock st) (syClient st) (syReported st) \<and>
     phase_inv (syPhase st) (syCutoff st) (syClock st) (syTruncated st) (syClient st) (syReported st) (view (connSent (syConn st))) \<and>
     (\<forall>sid. sid \<notin> syStale st \<longrightarrow> syReported st sid = truth (syWorld st) sid)"

lemma covered_same: "same_queue c c' \<Longrightarrow> covered P c' R u = covered P c R u"
  by (simp add: covered_def same_queue_def)

lemma recent_same: "same_queue c c' \<Longrightarrow> recent mk c' = recent mk c"
  by (simp add: recent_def same_queue_def)

lemma phase_same: "same_queue c c' \<Longrightarrow> phase_inv ph mk now tr c' R v = phase_inv ph mk now tr c R v"
  by (cases ph) (simp_all add: covered_same recent_same)

lemma queue_later: "queue_inv mk now c R \<Longrightarrow> now \<le> now' \<Longrightarrow> queue_inv mk now' c R"
  by (fastforce simp: queue_inv_def)

lemma queue_same: "same_queue c c' \<Longrightarrow> queue_inv mk now c' R = queue_inv mk now c R"
  by (simp add: queue_inv_def queue_ok_def same_queue_def)

lemma covered_reconcile: "reconcileCh c \<Longrightarrow> covered P c R u"
  by (simp add: covered_def)

lemma coveredI:
  "(\<And>sid. \<not> reconcileCh c \<Longrightarrow> (\<exists>q. gm_get (pendingNotes c) sid = Some q \<and> P q) \<or> u sid = R sid) \<Longrightarrow> covered P c R u"
  by (auto simp: covered_def)

lemma covered_notify:
  assumes "queue_ok c" and "Notify now c s = Ret c'" and "covered P c R u" and "P \<lparr>qnInfo = s, enqueuedAt = now\<rparr>"
  shows "covered P c' (R(SnSessionID s := live (SnStatus s))) u"
  using assms(1)
proof (cases rule: Notify_cases [where now = now and s = s])
  case (queued d)
  with assms show ?thesis by (auto simp: covered_def gomap_simps)
next
  case (evicted d old)
  with assms(2) show ?thesis by (simp add: covered_reconcile)
qed

lemma Notify_pending:
  assumes "queue_ok c" and "Notify now c s = Ret c'" and "gm_get (pendingNotes c') sid = Some q"
  shows "sid = SnSessionID s \<and> q = \<lparr>qnInfo = s, enqueuedAt = now\<rparr> \<or> sid \<noteq> SnSessionID s \<and> gm_get (pendingNotes c) sid = Some q"
  using assms(1)
proof (cases rule: Notify_cases [where now = now and s = s])
  case (queued d)
  with assms show ?thesis by (auto simp: gomap_simps split: if_splits)
next
  case (evicted d old)
  with assms show ?thesis by (auto simp: gomap_simps split: if_splits)
qed

lemma phase_notify:
  assumes "queue_ok c" and "Notify now' c s = Ret c'" and "phase_inv ph mk now tr c R v" and "now \<le> now'" and "mk \<le> now"
  shows "phase_inv ph mk now' tr c' (R(SnSessionID s := live (SnStatus s))) v"
proof -
  have "recent mk c'" if "recent mk c" using that Notify_pending [OF assms(1,2)] assms(4,5) by (fastforce simp: recent_def)
  then show ?thesis using assms(3,4,5) by (cases ph) (auto intro!: covered_notify [OF assms(1,2)])
qed

lemma queue_notify:
  assumes "queue_inv mk now c R" and "Notify now' c s = Ret c'" and "now \<le> now'"
  shows "queue_inv mk now' c' (R(SnSessionID s := live (SnStatus s)))"
proof -
  have ok: "queue_ok c" and mk: "mk \<le> now" using assms(1) by (simp_all add: queue_inv_def)
  have "queue_ok c' \<and> dirty c'" using ok by (cases rule: Notify_cases [where now = now' and s = s]) (use assms(2) in auto)
  moreover have "enqueuedAt q \<le> now' \<and> (mk \<le> enqueuedAt q \<longrightarrow> live (SnStatus (qnInfo q)) = (R(SnSessionID s := live (SnStatus s))) sid)"
    if "gm_get (pendingNotes c') sid = Some q" for sid q
    using Notify_pending [OF ok assms(2) that] assms(1,3) by (fastforce simp: queue_inv_def)
  ultimately show ?thesis using mk assms(3) by (simp add: queue_inv_def)
qed

lemma item_view_Nil [simp]: "item_view [] v = v"
  by (simp add: item_view_def fun_eq_iff)

lemma item_view_Cons:
  assumes "SnSessionID (qnInfo q) \<notin> (SnSessionID \<circ> qnInfo) ` set qs"
  shows "item_view (q # qs) v = item_view qs (v(SnSessionID (qnInfo q) := live (SnStatus (qnInfo q))))"
proof
  fix sid
  let ?m = "map (\<lambda>q. (SnSessionID (qnInfo q), SnStatus (qnInfo q))) qs"
  have none: "map_of ?m (SnSessionID (qnInfo q)) = None" unfolding map_of_eq_None_iff using assms by (auto simp: image_image)
  show "item_view (q # qs) v sid = item_view qs (v(SnSessionID (qnInfo q) := live (SnStatus (qnInfo q)))) sid"
    using none by (cases "sid = SnSessionID (qnInfo q)") (simp_all add: item_view_def split: option.split)
qed

lemma queue_ids: "queue_ok c \<Longrightarrow> (k, q) \<in> set (pendingNotes c) \<Longrightarrow> SnSessionID (qnInfo q) = k"
  by (metis gm_mem_get queue_ok_def)

lemma item_view_mem:
  assumes "distinct (map (SnSessionID \<circ> qnInfo) items)" and "q \<in> set items"
  shows "item_view items v (SnSessionID (qnInfo q)) = live (SnStatus (qnInfo q))"
proof -
  have "map fst (map (\<lambda>q. (SnSessionID (qnInfo q), SnStatus (qnInfo q))) items) = map (SnSessionID \<circ> qnInfo) items" by (simp add: comp_def)
  with assms(1) have "distinct (map fst (map (\<lambda>q. (SnSessionID (qnInfo q), SnStatus (qnInfo q))) items))" by metis
  moreover have "(SnSessionID (qnInfo q), SnStatus (qnInfo q)) \<in> set (map (\<lambda>q. (SnSessionID (qnInfo q), SnStatus (qnInfo q))) items)"
    using assms(2) by simp
  ultimately have "map_of (map (\<lambda>q. (SnSessionID (qnInfo q), SnStatus (qnInfo q))) items) (SnSessionID (qnInfo q)) = Some (SnStatus (qnInfo q))"
    by (rule map_of_is_SomeI)
  then show ?thesis by (simp add: item_view_def)
qed

lemma item_view_other:
  assumes "sid \<notin> (SnSessionID \<circ> qnInfo) ` set items"
  shows "item_view items v sid = v sid"
proof -
  have "map_of (map (\<lambda>q. (SnSessionID (qnInfo q), SnStatus (qnInfo q))) items) sid = None"
    unfolding map_of_eq_None_iff using assms by (auto simp: image_image)
  then show ?thesis by (simp add: item_view_def)
qed

lemma drained_ids:
  assumes "queue_ok c"
  shows "map (SnSessionID \<circ> qnInfo) (map snd (pendingNotes c)) = map fst (pendingNotes c)"
  unfolding map_map by (rule map_cong) (auto dest: queue_ids [OF assms])

lemma distinct_items:
  assumes "queue_ok c" and "mset items = mset (map snd (pendingNotes c))"
  shows "distinct (map (SnSessionID \<circ> qnInfo) items)"
proof -
  have "mset (map (SnSessionID \<circ> qnInfo) items) = mset (map fst (pendingNotes c))"
    using assms(2) drained_ids [OF assms(1)] by (metis mset_map)
  moreover have "distinct (map fst (pendingNotes c))" using assms(1) by (simp add: queue_ok_def)
  ultimately show ?thesis by (metis mset_eq_imp_distinct_iff)
qed

text \<open>Whatever the order in which the map was read, the drained notifications bring Bridge the queued state.\<close>

lemma item_view_drained:
  assumes "queue_ok c" and "mset items = mset (map snd (pendingNotes c))"
  shows "item_view items v sid = (case gm_get (pendingNotes c) sid of Some q \<Rightarrow> live (SnStatus (qnInfo q)) | None \<Rightarrow> v sid)"
proof (cases "gm_get (pendingNotes c) sid")
  case None
  have "(SnSessionID \<circ> qnInfo) ` set items = (SnSessionID \<circ> qnInfo) ` set (map snd (pendingNotes c))"
    using assms(2) by (metis mset_eq_setD)
  also have "\<dots> = fst ` set (pendingNotes c)" using drained_ids [OF assms(1)] by (metis list.set_map)
  finally show ?thesis using None gm_get_dom [of "pendingNotes c" sid] by (simp add: item_view_other)
next
  case (Some q)
  have "gm_ok (pendingNotes c)" using assms(1) by (simp add: queue_ok_def)
  then have "(sid, q) \<in> set (pendingNotes c)" using Some by (simp only: gm_mem_get)
  then have "q \<in> set (map snd (pendingNotes c))" and id: "SnSessionID (qnInfo q) = sid"
    using queue_ids [OF assms(1)] by force+
  then have "q \<in> set items" using assms(2) by (metis mset_eq_setD)
  from item_view_mem [OF distinct_items [OF assms] this] id Some show ?thesis by simp
qed

section \<open>What the client relies on\<close>

text \<open>
  The daemon publishes its sessions: \<open>snap\<close> is \<open>SnapshotFunc\<close>, and \<open>truth\<close> the status of the sessions that have not ended.
\<close>

locale published =
  fixes snap :: "'w \<Rightarrow> SessionSnapshot list" and truth :: "'w \<Rightarrow> string \<Rightarrow> string option" and good :: "'w \<Rightarrow> bool"
  assumes snap_distinct: "good w \<Longrightarrow> distinct (map SnSessionID (snap w))"
    and snap_truth: "good w \<Longrightarrow> truth w sid = Option.bind (map_of (map (\<lambda>s. (SnSessionID s, SnStatus s)) (snap w)) sid) live"
begin

lemma take_distinct: "good w \<Longrightarrow> distinct (map SnSessionID (take n (snap w)))"
  using snap_distinct [of w] by (simp add: take_map [symmetric])

lemma built_inv:
  assumes "good w" and "snapshot_rows now rep 0 c (take maxSnapshotSessions (snap w)) = (rows, c1)"
  shows "same_queue c c1" and "maxSnapshotSessions < length (snap w) \<or> rows_view rows = truth w"
proof -
  note f = rows_frame [OF assms(2) take_distinct [OF assms(1)]]
  then show "same_queue c c1" by blast
  show "maxSnapshotSessions < length (snap w) \<or> rows_view rows = truth w"
  proof (cases "maxSnapshotSessions < length (snap w)")
    case False
    then have "map (\<lambda>r. (SpSessionID r, SpStatus r)) rows = map (\<lambda>s. (SnSessionID s, SnStatus s)) (snap w)" using f by simp
    then show ?thesis by (simp add: rows_view_def snap_truth [OF assms(1)] fun_eq_iff)
  qed simp
qed

lemma started_inv: "good w \<Longrightarrow> sync_inv truth good (sync_started w conf rf nf sf t)"
  by (simp add: sync_inv_def queue_inv_def queue_ok_def NewClient_def sync_started_def Let_def)

lemma build_inv:
  assumes inv: "sync_inv truth good st" and ph: "syPhase st = Cutoff t"
    and rows: "snapshot_rows now rep 0 (syClient st) (take maxSnapshotSessions (snap (syWorld st))) = (rows, c)"
  shows "sync_inv truth good ((reported_built t (truth (syWorld st)) st)\<lparr>syClient := c, syPhase := Built t rows,
    syTruncated := maxSnapshotSessions < length (snap (syWorld st))\<rparr>)"
proof -
  have g: "good (syWorld st)" and mk: "syCutoff st \<le> t" "t \<le> syClock st"
    and q: "queue_inv (syCutoff st) (syClock st) (syClient st) (syReported st)"
    and fresh: "\<And>sid. sid \<notin> syStale st \<Longrightarrow> syReported st sid = truth (syWorld st) sid"
    using inv ph by (auto simp: sync_inv_def)
  note b = built_inv [OF g rows]
  define R where "R = (\<lambda>sid. if noted_since t (syClient st) sid then syReported st sid else truth (syWorld st) sid)"
  have "queue_inv t (syClock st) (syClient st) R"
    using q mk unfolding queue_inv_def R_def noted_since_def by (fastforce intro: order_trans)
  moreover have "maxSnapshotSessions < length (snap (syWorld st)) \<or> covered (\<lambda>q. t \<le> enqueuedAt q) (syClient st) R (rows_view rows)"
    using b(2) by (auto simp: covered_def R_def noted_since_def)
  ultimately show ?thesis
    using g fresh by (auto simp: sync_inv_def reported_built_def R_def [symmetric] queue_same [OF b(1)] covered_same [OF b(1)]) (auto simp: R_def)
qed

lemma event_inv:
  assumes "phase_inv (Sending (q # qs)) mk now tr c R (view (connSent k))" and "sendEvent N t rep (qnInfo q) c k = (None, c1, k1)"
  shows "phase_inv (Sending qs) mk now tr c1 R (view (connSent k1))"
proof -
  have sq: "same_queue c c1" using event_frame(1) [OF assms(2)] by blast
  from event_frame(3) [OF assms(2) refl] obtain env p where e: "connSent k1 = connSent k @ [env]" "EnvPayload env = EventPayload p"
    "SpSessionID p = SnSessionID (qnInfo q)" "SpStatus p = SnStatus (qnInfo q)" by blast
  have "SnSessionID (qnInfo q) \<notin> (SnSessionID \<circ> qnInfo) ` set qs" using assms(1) by simp
  from item_view_Cons [OF this] e assms(1) show ?thesis by (simp add: covered_same [OF sq] recent_same [OF sq])
qed

lemma wake_inv:
  assumes "phase_inv Idle mk now tr c R v" and "queue_inv mk now c R" and "drainAllPending (c\<lparr>dirty := False\<rparr>) = (drained, c1)" and "mset items = mset drained"
  shows "phase_inv (Sending items) mk now tr c1 R v \<and> queue_inv mk now c1 R"
proof -
  have ok: "queue_ok c" and mk: "mk \<le> now" using assms(2) by (simp_all add: queue_inv_def)
  have d: "drained = map snd (pendingNotes c)" and c1: "pendingNotes c1 = []" "pendingOrder c1 = []" "reconcileCh c1 = reconcileCh c"
    using assms(3) ok by (auto simp: drainAllPending_def queue_ok_def split: if_splits)
  note m = assms(4) [unfolded d]
  have "covered (\<lambda>_. True) c1 R (item_view items v)" if "covered (\<lambda>_. True) c R v"
  proof (rule coveredI, rule disjI2)
    fix sid
    assume "\<not> reconcileCh c1"
    with that c1 have "gm_get (pendingNotes c) sid \<noteq> None \<or> v sid = R sid" by (auto simp: covered_def)
    with assms(1,2) show "item_view items v sid = R sid"
      unfolding item_view_drained [OF ok m] by (cases "gm_get (pendingNotes c) sid") (auto simp: queue_inv_def recent_def)
  qed
  then show ?thesis using assms(1) distinct_items [OF ok m] c1 mk by (auto simp: queue_inv_def queue_ok_def recent_def)
qed

lemma drain_inv:
  assumes "phase_inv (Sent t) mk now tr c R v" and "queue_inv mk now c R"
  shows "phase_inv Idle mk now tr (drainStalePending rep t c) R v \<and> queue_inv mk now (drainStalePending rep t c) R"
proof -
  have ok: "queue_ok c" and mk: "t = mk" "mk \<le> now" using assms by (simp_all add: queue_inv_def)
  note f = drain_frame [OF ok refl, of rep t]
  have kept: "gm_get (pendingNotes (drainStalePending rep t c)) sid =
      (case gm_get (pendingNotes c) sid of None \<Rightarrow> None | Some q \<Rightarrow> if enqueuedAt q < t then None else Some q)" for sid using f by blast
  then have old: "gm_get (pendingNotes c) sid = Some q \<and> t \<le> enqueuedAt q" if "gm_get (pendingNotes (drainStalePending rep t c)) sid = Some q" for sid q
    using that by (cases "gm_get (pendingNotes c) sid") (auto split: if_splits)
  have "covered (\<lambda>_. True) (drainStalePending rep t c) R v" if "covered (\<lambda>q. t \<le> enqueuedAt q) c R v"
  proof (rule coveredI)
    fix sid
    assume "\<not> reconcileCh (drainStalePending rep t c)"
    with that f have "(\<exists>q. gm_get (pendingNotes c) sid = Some q \<and> t \<le> enqueuedAt q) \<or> v sid = R sid" by (simp add: covered_def)
    then show "(\<exists>q. gm_get (pendingNotes (drainStalePending rep t c)) sid = Some q \<and> True) \<or> v sid = R sid"
      using kept [of sid] by (auto simp: not_less)
  qed
  moreover have "recent mk (drainStalePending rep t c)" using old mk(1) unfolding recent_def by blast
  moreover have "queue_inv mk now (drainStalePending rep t c) R"
    unfolding queue_inv_def
  proof (intro conjI allI)
    show "queue_ok (drainStalePending rep t c)" using f by blast
    show "pendingNotes (drainStalePending rep t c) \<noteq> [] \<longrightarrow> dirty (drainStalePending rep t c)"
    proof
      assume "pendingNotes (drainStalePending rep t c) \<noteq> []"
      then obtain sid q where "(sid, q) \<in> set (pendingNotes (drainStalePending rep t c))" by (metis list.set_intros(1) neq_Nil_conv surj_pair)
      then have "gm_get (pendingNotes (drainStalePending rep t c)) sid \<noteq> None" unfolding gm_get_dom by force
      then have "pendingNotes c \<noteq> []" using kept [of sid] by auto
      with assms(2) f show "dirty (drainStalePending rep t c)" by (simp add: queue_inv_def)
    qed
    show "gm_get (pendingNotes (drainStalePending rep t c)) sid = Some q \<longrightarrow> enqueuedAt q \<le> now \<and> (mk \<le> enqueuedAt q \<longrightarrow> live (SnStatus (qnInfo q)) = R sid)"
      for sid q using old [of sid q] assms(2) by (auto simp: queue_inv_def)
  qed (rule mk(2))
  ultimately show ?thesis using assms(1) by auto
qed

lemma hello_view: "sendHello N c \<lparr>connSent = [], connWrites = 0\<rparr> = (None, k) \<Longrightarrow> view (connSent k) = (\<lambda>_. None)"
  by (auto simp: sendHello_def writeEnvelope_def view_def Let_def split: option.splits)

lemma writer_inv:
  assumes "writer_step snap truth st st'" and "sync_inv truth good st"
  shows "sync_inv truth good st'"
  using assms(1)
proof (cases rule: writer_step.cases)
  case (Reconcile t)
  with assms(2) show ?thesis by (fastforce simp: sync_inv_def queue_inv_def queue_ok_def)
next
  case (Build t now rep rows c)
  from build_inv [OF assms(2) Build(2,3)] Build(1) show ?thesis by simp
next
  case (Write t rows N k)
  then have "view (connSent k) = rows_view rows"
    by (auto simp: writeEnvelope_def Let_def split: option.splits)
  with Write assms(2) show ?thesis by (auto simp: sync_inv_def)
next
  case (Drain t rep)
  then have "phase_inv (Sent t) (syCutoff st) (syClock st) (syTruncated st) (syClient st) (syReported st) (view (connSent (syConn st)))"
    "queue_inv (syCutoff st) (syClock st) (syClient st) (syReported st)" using assms(2) by (auto simp: sync_inv_def)
  from drain_inv [OF this, of rep] Drain assms(2) show ?thesis by (simp add: sync_inv_def)
next
  case (Wake drained c items)
  then have "phase_inv Idle (syCutoff st) (syClock st) (syTruncated st) (syClient st) (syReported st) (view (connSent (syConn st)))"
    "queue_inv (syCutoff st) (syClock st) (syClient st) (syReported st)" using assms(2) by (auto simp: sync_inv_def)
  from wake_inv [OF this Wake(4,5)] Wake assms(2) show ?thesis by (simp add: sync_inv_def)
next
  case (Event q qs N now rep c k)
  have sq: "same_queue (syClient st) c" using event_frame(1) [OF Event(3)] by blast
  from Event assms(2) event_inv [OF _ Event(3)] show ?thesis by (auto simp: sync_inv_def queue_same [OF sq])
next
  case SentAll
  with assms(2) show ?thesis by (simp add: sync_inv_def)
next
  case (Reconnect t N k now ok inst org)
  then have "same_queue (syClient st) (syClient st')"
    using setStatus_frame(1) [of "(syClient st)\<lparr>organizationID := org, installationID := inst\<rparr>"] by (simp add: same_queue_def)
  then have "queue_inv (syCutoff st) t (syClient st') (syReported st)"
    using assms(2) Reconnect(3) by (auto simp: queue_same sync_inv_def intro: queue_later)
  moreover have "syCutoff st \<le> t" using assms(2) Reconnect(3) by (auto simp: sync_inv_def queue_inv_def)
  ultimately show ?thesis using Reconnect assms(2) by (simp add: sync_inv_def)
qed

lemma sync_inv_step:
  assumes "sync_step snap truth good st st'" and "sync_inv truth good st"
  shows "sync_inv truth good st'"
  using assms(1)
proof (cases rule: sync_step.cases)
  case Writer
  then show ?thesis by (rule writer_inv [OF _ assms(2)])
next
  case (World w)
  with assms(2) show ?thesis by (auto simp: sync_inv_def)
next
  case (Noted now s c)
  have ok: "queue_ok (syClient st)" and mk: "syCutoff st \<le> syClock st" using assms(2) by (auto simp: sync_inv_def queue_inv_def)
  have q: "queue_inv (syCutoff st) now c ((syReported st)(SnSessionID s := live (SnStatus s)))"
    by (rule queue_notify [OF _ Noted(3,2)]) (use assms(2) in \<open>simp add: sync_inv_def\<close>)
  have p: "phase_inv (syPhase st) (syCutoff st) now (syTruncated st) c ((syReported st)(SnSessionID s := live (SnStatus s))) (view (connSent (syConn st)))"
    by (rule phase_notify [OF ok Noted(3) _ Noted(2) mk]) (use assms(2) in \<open>simp add: sync_inv_def\<close>)
  show ?thesis
    using assms(2) q p unfolding Noted(1) sync_inv_def reported_note_def by (simp del: phase_inv.simps)
next
  case GapReported
  with assms(2) show ?thesis
    by (cases "syPhase st") (auto simp: sync_inv_def queue_inv_def queue_ok_def scheduleReconcile_def covered_reconcile recent_def)
next
  case (Heartbeat N now ok c k)
  from heartbeat_frame [OF Heartbeat(3)] have "same_queue (syClient st) c" "view (connSent k) = view (connSent (syConn st))" by auto
  with Heartbeat assms(2) show ?thesis by (simp add: sync_inv_def queue_same phase_same del: phase_inv.simps)
next
  case (LostSnapshot t rows N e k)
  with assms(2) show ?thesis by (simp add: sync_inv_def)
next
  case (LostEvent q qs N now rep e c k)
  have sq: "same_queue (syClient st) c" using event_frame(1) [OF LostEvent(3)] by blast
  with LostEvent assms(2) show ?thesis by (simp add: sync_inv_def queue_same [OF sq])
next
  case Disconnect
  with assms(2) show ?thesis by (simp add: sync_inv_def)
qed

lemma sync_reachable_inv: "sync_reachable snap truth good st \<Longrightarrow> sync_inv truth good st"
  by (induction rule: sync_reachable.induct) (auto intro: started_inv sync_inv_step)

lemma converged:
  assumes "sync_reachable snap truth good st" and "syPhase st = Idle" and "\<not> dirty (syClient st)" and "\<not> reconcileCh (syClient st)"
    and "\<not> syTruncated st"
  shows "view (connSent (syConn st)) = syReported st" and "sid \<notin> syStale st \<Longrightarrow> syReported st sid = truth (syWorld st) sid"
  using sync_reachable_inv [OF assms(1)] assms(2-) by (auto simp: sync_inv_def queue_inv_def covered_def)

end


section \<open>The supervisor publishes its sessions\<close>

definition published_status :: "Supervisor \<Rightarrow> string \<Rightarrow> string option" where
  "published_status s sid = (case Get s sid of Inr i \<Rightarrow> live (sessionStatus (State i)) | Inl _ \<Rightarrow> None)"

lemma live_terminal: "live (sessionStatus st) = None \<longleftrightarrow> terminal_state st"
  by (cases st) (simp_all add: live_def status_consts)

lemma map_of_filtered:
  assumes "distinct (map f xs)"
  shows "map_of (map (\<lambda>x. (f x, g x)) (filter P xs)) k = (case find (\<lambda>x. f x = k) xs of Some x \<Rightarrow> if P x then Some (g x) else None | None \<Rightarrow> None)"
  using assms
proof (induction xs)
  case (Cons x xs)
  have "find (\<lambda>y. f y = f x) xs = None" unfolding find_None_iff using Cons.prems by (metis distinct.simps(2) image_eqI list.simps(9) list.set_map)
  with Cons show ?case by auto
qed simp

lemma find_Get:
  assumes "sup_ok V s"
  shows "find (\<lambda>i. SessionID i = sid) (List s '''') = (case Get s sid of Inr i \<Rightarrow> Some i | Inl _ \<Rightarrow> None)"
proof (cases "find (\<lambda>i. SessionID i = sid) (List s '''')")
  case None
  have "SessionID i = sid" if "Get s sid = Inr i" for i
    using that assms by (auto simp: Get_def sup_ok_def snapshotInfo_def split: option.splits)
  with None list_get_ok [OF assms, where project = "''''"] show ?thesis by (auto simp: find_None_iff split: sum.splits)
next
  case (Some i)
  then have "i \<in> set (List s '''')" "SessionID i = sid" by (auto simp: find_Some_iff)
  with Some list_get_ok [OF assms, of i "''''"] show ?thesis by auto
qed

interpretation supervised: published "\<lambda>s. ActiveSnapshots (List s '''')" published_status "sup_ok V" for V
proof unfold_locales
  fix w sid
  assume ok: "sup_ok V w"
  have d: "distinct (map SessionID (List w ''''))" using list_get_ok [OF ok] by blast
  have "map SnSessionID (ActiveSnapshots infos) = map SessionID (filter (\<lambda>i. \<not> terminal_state (State i)) infos)" for infos
    by (simp add: ActiveSnapshots_def snapshot_of_def comp_def)
  with d show "distinct (map SnSessionID (ActiveSnapshots (List w '''')))" by (simp add: distinct_map_filter)
  have m: "map (\<lambda>s. (SnSessionID s, SnStatus s)) (ActiveSnapshots infos) =
      map (\<lambda>i. (SessionID i, sessionStatus (State i))) (filter (\<lambda>i. \<not> terminal_state (State i)) infos)" for infos
    by (simp add: ActiveSnapshots_def snapshot_of_def comp_def)
  show "published_status w sid = Option.bind (map_of (map (\<lambda>s. (SnSessionID s, SnStatus s)) (ActiveSnapshots (List w ''''))) sid) live"
    unfolding m map_of_filtered [OF d] find_Get [OF ok]
    by (auto simp: published_status_def live_terminal split: sum.splits)
qed


section \<open>Recovery\<close>

text \<open>
  While nothing else happens every run of the writer ends, and it can only end with nothing left to send: \<open>settled\<close>.
\<close>

definition settled :: "'w sync \<Rightarrow> bool" where
  "settled st \<longleftrightarrow> syPhase st = Idle \<and> \<not> dirty (syClient st) \<and> \<not> reconcileCh (syClient st)"

fun phase_rank :: "phase \<Rightarrow> nat" where
  "phase_rank Idle = 0"
| "phase_rank (Sent t) = 1"
| "phase_rank (Built t rows) = 2"
| "phase_rank (Cutoff t) = 3"
| "phase_rank Down = 4"
| "phase_rank (Sending items) = length items + 1"

definition sync_rank :: "'w sync \<Rightarrow> nat" where
  "sync_rank st = phase_rank (syPhase st) + (if reconcileCh (syClient st) then 4 else 0) + (if dirty (syClient st) then eventQueueSize + 2 else 0)"

definition up_net :: net where
  "up_net = \<lparr>netErr = (\<lambda>_. None), netID = (\<lambda>_. '''')\<rparr>"

lemma up_net_writes: "fst (writeEnvelope up_net ty p k) = None"
  by (simp add: writeEnvelope_def up_net_def Let_def)

lemma up_net_sends: "\<exists>c1 k1. sendEvent up_net now rep s c k = (None, c1, k1)"
  by (simp add: sendEvent_def writeEnvelope_def up_net_def Let_def split_beta)

lemma writer_moves: "settled st \<or> (\<exists>st'. writer_step snap truth st st')"
proof (cases "syPhase st")
  case Idle
  show ?thesis
  proof (cases "reconcileCh (syClient st)")
    case True
    with Reconcile [OF Idle True order_refl] show ?thesis by blast
  next
    case False
    obtain drained c where d: "drainAllPending ((syClient st)\<lparr>dirty := False\<rparr>) = (drained, c)" by fastforce
    with False Idle Wake [OF Idle _ d refl] show ?thesis unfolding settled_def by blast
  qed
next
  case (Cutoff t)
  obtain rows c where "snapshot_rows 0 (\<lambda>_. True) 0 (syClient st) (take maxSnapshotSessions (snap (syWorld st))) = (rows, c)" by fastforce
  with Build [where snap = snap, OF Cutoff] show ?thesis by blast
next
  case (Built t rows)
  obtain k where "writeEnvelope up_net ''session_snapshot'' (SnapshotPayload rows) (syConn st) = (None, k)" using up_net_writes by (metis prod.collapse)
  with Write [OF Built] show ?thesis by blast
next
  case (Sent t)
  with Drain [OF Sent] show ?thesis by blast
next
  case (Sending items)
  show ?thesis
  proof (cases items)
    case Nil
    with Sending SentAll show ?thesis by blast
  next
    case (Cons q qs)
    obtain c k where "sendEvent up_net 0 (\<lambda>_. True) (qnInfo q) (syClient st) (syConn st) = (None, c, k)" using up_net_sends by blast
    with Event Sending Cons show ?thesis by blast
  qed
next
  case Down
  obtain k where "sendHello up_net (syClient st) \<lparr>connSent = [], connWrites = 0\<rparr> = (None, k)"
    using up_net_writes by (metis prod.collapse sendHello_def)
  with Reconnect [OF Down order_refl] show ?thesis by blast
qed

context published
begin

lemma writer_rank:
  assumes "writer_step snap truth st st'" and "sync_inv truth good st"
  shows "sync_rank st' < sync_rank st"
proof -
  have ok: "queue_ok (syClient st)" and g: "good (syWorld st)" using assms(2) by (auto simp: sync_inv_def queue_inv_def)
  from assms(1) show ?thesis
  proof (cases rule: writer_step.cases)
    case (Build t now rep rows c)
    with built_inv(1) [OF g Build(3)] show ?thesis by (simp add: sync_rank_def same_queue_def reported_built_def)
  next
    case (Drain t rep)
    with drain_frame [OF ok refl, of rep t] show ?thesis by (simp add: sync_rank_def)
  next
    case (Wake drained c items)
    have "drained = map snd (pendingNotes (syClient st))" "\<not> dirty c" "reconcileCh c = reconcileCh (syClient st)"
      using Wake(4) ok by (auto simp: drainAllPending_def queue_ok_def split: if_splits)
    moreover have "length items = length drained" using Wake(5) by (metis size_mset)
    moreover have "length (pendingNotes (syClient st)) \<le> eventQueueSize" using ok by (simp add: queue_ok_def)
    ultimately show ?thesis using Wake(1-3) by (simp add: sync_rank_def)
  next
    case (Event q qs N now rep c k)
    with event_frame(1) [OF Event(3)] show ?thesis by (simp add: sync_rank_def same_queue_def)
  next
    case (Reconnect t N k now ok inst org)
    with setStatus_frame(1) [of "(syClient st)\<lparr>organizationID := org, installationID := inst\<rparr>" now ok StateConnected "''''"] show ?thesis
      by (simp add: sync_rank_def same_queue_def)
  qed (simp_all add: sync_rank_def)
qed

lemma writer_frame:
  assumes "writer_step snap truth st st'"
  shows "syWorld st' = syWorld st" and "syStale st' \<subseteq> syStale st"
    and "length (snap (syWorld st)) \<le> maxSnapshotSessions \<Longrightarrow> \<not> syTruncated st \<Longrightarrow> \<not> syTruncated st'"
  using assms by (cases rule: writer_step.cases; auto simp: reported_built_def)+

lemma writer_reachable: "(writer_step snap truth)\<^sup>*\<^sup>* st st' \<Longrightarrow> sync_reachable snap truth good st \<Longrightarrow> sync_reachable snap truth good st'"
  by (induction rule: rtranclp_induct) (auto intro: Stepped Writer)

lemma writer_run_frame:
  assumes "(writer_step snap truth)\<^sup>*\<^sup>* st st'"
  shows "syWorld st' = syWorld st \<and> syStale st' \<subseteq> syStale st \<and>
    (length (snap (syWorld st)) \<le> maxSnapshotSessions \<longrightarrow> \<not> syTruncated st \<longrightarrow> \<not> syTruncated st')"
  using assms
proof (induction rule: rtranclp_induct)
  case (step y z)
  with writer_frame [OF step(2)] show ?case by auto
qed simp

lemma writer_runs_bounded: "sync_reachable snap truth good st \<Longrightarrow> (writer_step snap truth ^^ n) st st' \<Longrightarrow> sync_rank st' + n \<le> sync_rank st"
proof (induction n arbitrary: st')
  case (Suc n)
  then obtain y where y: "(writer_step snap truth ^^ n) st y" "writer_step snap truth y st'" by auto
  have "sync_reachable snap truth good y" using writer_reachable [OF relpowp_imp_rtranclp [OF y(1)] Suc.prems(1)] .
  from writer_rank [OF y(2) sync_reachable_inv [OF this]] Suc.IH [OF Suc.prems(1) y(1)] show ?case by simp
qed simp

lemma settles:
  assumes "sync_reachable snap truth good st"
  obtains st' where "(writer_step snap truth)\<^sup>*\<^sup>* st st'" "settled st'"
  using assms
proof (induction "sync_rank st" arbitrary: st thesis rule: less_induct)
  case less
  show ?case
  proof (cases "settled st")
    case False
    then obtain y where y: "writer_step snap truth st y" using writer_moves by blast
    have "sync_rank y < sync_rank st" by (rule writer_rank [OF y sync_reachable_inv [OF less.prems(2)]])
    moreover have "sync_reachable snap truth good y" using less.prems(2) y by (blast intro: Stepped Writer)
    ultimately obtain st' where "(writer_step snap truth)\<^sup>*\<^sup>* y st'" "settled st'" using less.hyps by blast
    with y less.prems(1) show ?thesis by (meson converse_rtranclp_into_rtranclp)
  qed (use less.prems(1) in blast)
qed

lemma recovers:
  assumes "sync_reachable snap truth good st" and "\<not> syTruncated st" and "length (snap (syWorld st)) \<le> maxSnapshotSessions"
    and "(writer_step snap truth)\<^sup>*\<^sup>* st st'" and "\<nexists>st''. writer_step snap truth st' st''"
  shows "settled st' \<and> syWorld st' = syWorld st \<and> view (connSent (syConn st')) = syReported st' \<and> syStale st' \<subseteq> syStale st \<and>
    (\<forall>sid. sid \<notin> syStale st' \<longrightarrow> view (connSent (syConn st')) sid = truth (syWorld st) sid)"
proof -
  have s: "settled st'" using writer_moves [of st'] assms(5) by blast
  have r: "sync_reachable snap truth good st'" by (rule writer_reachable [OF assms(4,1)])
  have f: "syWorld st' = syWorld st" "syStale st' \<subseteq> syStale st" "\<not> syTruncated st'" using writer_run_frame [OF assms(4)] assms(2,3) by auto
  from s have i: "syPhase st' = Idle" "\<not> dirty (syClient st')" "\<not> reconcileCh (syClient st')" by (simp_all add: settled_def)
  from converged [OF r i f(3)] s f show ?thesis by simp
qed

end


section \<open>Revision numbers\<close>

text \<open>
  The revision last sent of each session on a connection, and the numbers that may follow it: an event counts on by one, or
  starts anew with 1; a snapshot repeats the number, or starts anew. The addition is that of a Go \<open>int64\<close>.
\<close>

fun last_step :: "(string \<Rightarrow> int option) \<Rightarrow> payload \<Rightarrow> string \<Rightarrow> int option" where
  "last_step l (SnapshotPayload rows) = l ++ map_of (map (\<lambda>r. (SpSessionID r, SpRevision r)) rows)"
| "last_step l (EventPayload p) = l(SpSessionID p \<mapsto> SpRevision p)"
| "last_step l _ = l"

definition last_rev :: "envelope list \<Rightarrow> string \<Rightarrow> int option" where
  "last_rev log = foldl (\<lambda>l env. last_step l (EnvPayload env)) (\<lambda>_. None) log"

definition row_follows :: "(string \<Rightarrow> int option) \<Rightarrow> sessionPayload \<Rightarrow> bool" where
  "row_follows l r \<longleftrightarrow> (case l (SpSessionID r) of None \<Rightarrow> True | Some n \<Rightarrow> 0 < n \<longrightarrow> SpRevision r = n \<or> SpRevision r = 1)"

definition event_follows :: "(string \<Rightarrow> int option) \<Rightarrow> string \<Rightarrow> sessionPayload \<Rightarrow> bool" where
  "event_follows l ty p \<longleftrightarrow> (case l (SpSessionID p) of None \<Rightarrow> True
     | Some n \<Rightarrow> SpRevision p = int64 (n + 1) \<or> ty = ''session_started'' \<and> SpRevision p = 1)"

definition follows :: "(string \<Rightarrow> int option) \<Rightarrow> envelope \<Rightarrow> bool" where
  "follows l env = (case EnvPayload env of SnapshotPayload rows \<Rightarrow> list_all (row_follows l) rows | EventPayload p \<Rightarrow> event_follows l (EnvType env) p | _ \<Rightarrow> True)"

definition numbered :: "envelope list \<Rightarrow> bool" where
  "numbered log = list_all (\<lambda>i. follows (last_rev (take i log)) (log ! i)) [0..<length log]"

lemma last_rev_snoc [simp]: "last_rev (log @ [env]) = last_step (last_rev log) (EnvPayload env)"
  by (simp add: last_rev_def)

lemma numbered_snoc: "numbered (log @ [env]) \<longleftrightarrow> numbered log \<and> follows (last_rev log) env"
  by (auto simp: numbered_def list_all_iff nth_append)

fun in_flight :: "phase \<Rightarrow> sessionPayload list" where
  "in_flight (Built t rows) = rows"
| "in_flight _ = []"

definition tracked :: "sessionPayload list \<Rightarrow> (string \<Rightarrow> int option) \<Rightarrow> 'w Client \<Rightarrow> bool" where
  "tracked rows l c \<longleftrightarrow>
     (\<forall>sid n. sid \<notin> SpSessionID ` set rows \<longrightarrow> l sid = Some n \<longrightarrow> gm_get (rev (revisions c)) sid \<in> {None, Some n}) \<and>
     (\<forall>r \<in> set rows. row_follows l r \<and> gm_get (rev (revisions c)) (SpSessionID r) = Some (SpRevision r))"

definition num_inv :: "'w sync \<Rightarrow> bool" where
  "num_inv st \<longleftrightarrow> numbered (connSent (syConn st)) \<and>
     (syPhase st = Down \<or> tracked (in_flight (syPhase st)) (last_rev (connSent (syConn st))) (syClient st))"

lemma tracked_same: "revisions c' = revisions c \<Longrightarrow> tracked rows l c' = tracked rows l c"
  by (simp add: tracked_def)

lemma tracked_drained:
  "tracked [] l c \<Longrightarrow> (\<And>sid. gm_get (rev (revisions c')) sid \<in> {None, gm_get (rev (revisions c)) sid}) \<Longrightarrow> tracked [] l c'"
  by (fastforce simp: tracked_def)

lemma Notify_revisions: "Notify now c s = Ret c' \<Longrightarrow> revisions c' = revisions c"
  by (auto simp: Notify_def scheduleReconcile_def Let_def split: if_splits list.splits)

lemma tracked_built:
  assumes "tracked [] l c" and "snapshot_rows now rep 0 c ss = (rows, c1)" and "distinct (map SnSessionID ss)"
  shows "tracked rows l c1"
proof -
  note f = rows_frame [OF assms(2,3)]
  then have eq: "map (\<lambda>r. (SpSessionID r, SpStatus r)) rows = map (\<lambda>s. (SnSessionID s, SnStatus s)) ss" by blast
  have ids: "SpSessionID ` set rows = SnSessionID ` set ss"
    using arg_cong [OF eq, of "\<lambda>xs. fst ` set xs"] by (simp add: image_image)
  have "row_follows l r" if "r \<in> set rows" for r
  proof -
    have g: "gm_get (rev (revisions c)) (SpSessionID r) \<in> {None, Some n}" if "l (SpSessionID r) = Some n" for n
      using assms(1) that by (simp add: tracked_def)
    have "(0 < Current (revisions c) (SpSessionID r) \<longrightarrow> SpRevision r = Current (revisions c) (SpSessionID r)) \<and>
       (gm_get (rev (revisions c)) (SpSessionID r) = None \<longrightarrow> SpRevision r = 1)" using f that by blast
    with g show ?thesis by (auto simp: row_follows_def Current_def split: option.splits)
  qed
  with f ids assms(1) show ?thesis unfolding tracked_def by auto
qed

lemma tracked_sent:
  assumes "tracked rows l c"
  shows "tracked [] (last_step l (SnapshotPayload rows)) c"
proof -
  have "gm_get (rev (revisions c)) sid \<in> {None, Some n}" if "(l ++ map_of (map (\<lambda>r. (SpSessionID r, SpRevision r)) rows)) sid = Some n" for sid n
  proof (cases "map_of (map (\<lambda>r. (SpSessionID r, SpRevision r)) rows) sid")
    case None
    then have "sid \<notin> SpSessionID ` set rows" unfolding map_of_eq_None_iff by (simp add: image_image)
    with None that assms show ?thesis by (auto simp: tracked_def map_add_def)
  next
    case (Some m)
    then have "m = n" using that by (simp add: map_add_def)
    with map_of_SomeD [OF Some] obtain r where "r \<in> set rows" "SpSessionID r = sid" "SpRevision r = n" by auto
    with assms show ?thesis by (auto simp: tracked_def)
  qed
  then show ?thesis by (simp add: tracked_def)
qed

lemma tracked_event:
  assumes "tracked [] l c" and "sendEvent N now rep s c k = (None, c1, k1)"
  obtains env where "connSent k1 = connSent k @ [env]" "follows l env" "tracked [] (last_step l (EnvPayload env)) c1"
proof -
  from event_frame(3) [OF assms(2) refl] obtain env p where e: "connSent k1 = connSent k @ [env]" "EnvPayload env = EventPayload p"
    "SpSessionID p = SnSessionID s" "SpRevision p = int64 (Current (revisions c) (SnSessionID s) + 1)"
    "EnvType env = ''session_started'' \<longleftrightarrow> Current (revisions c) (SnSessionID s) \<le> 0"
    "gm_get (rev (revisions c1)) (SnSessionID s) \<in> {None, Some (SpRevision p)}" by blast
  have other: "gm_get (rev (revisions c1)) i = gm_get (rev (revisions c)) i" if "i \<noteq> SnSessionID s" for i
    using event_frame(1) [OF assms(2)] that by blast
  have "event_follows l (EnvType env) p"
  proof (cases "l (SnSessionID s)")
    case (Some n)
    with assms(1) have "gm_get (rev (revisions c)) (SnSessionID s) \<in> {None, Some n}" by (simp add: tracked_def)
    then have "Current (revisions c) (SnSessionID s) \<in> {0, n} \<and> (Current (revisions c) (SnSessionID s) = n \<or> Current (revisions c) (SnSessionID s) = 0)"
      by (auto simp: Current_def)
    with Some e(3-5) show ?thesis by (auto simp: event_follows_def int64_def)
  qed (simp add: event_follows_def e(3))
  moreover have "tracked [] (last_step l (EnvPayload env)) c1"
    using assms(1) e(2,3,6) other by (auto simp: tracked_def)
  ultimately show thesis by (intro that [of env] e(1)) (simp add: follows_def e(2))
qed

lemma hello_numbered:
  assumes "sendHello N c \<lparr>connSent = [], connWrites = 0\<rparr> = (None, k)"
  shows "numbered (connSent k) \<and> last_rev (connSent k) = (\<lambda>_. None)"
proof -
  obtain env v caps where "connSent k = [env]" "EnvPayload env = HelloPayload v caps"
    using assms by (simp add: sendHello_def writeEnvelope_def Let_def split: option.splits) force
  then show ?thesis by (simp add: numbered_def follows_def last_rev_def)
qed

context published
begin

lemma num_inv_writer:
  assumes "writer_step snap truth st st'" and "num_inv st" and "sync_inv truth good st"
  shows "num_inv st'"
  using assms(1)
proof (cases rule: writer_step.cases)
  case (Build t now rep rows c)
  have "good (syWorld st)" using assms(3) by (simp add: sync_inv_def)
  from tracked_built [OF _ Build(3) take_distinct [OF this]] Build assms(2) show ?thesis by (simp add: num_inv_def reported_built_def)
next
  case (Write t rows N k)
  then obtain env where "connSent k = connSent (syConn st) @ [env]" "EnvPayload env = SnapshotPayload rows"
    by (auto simp: writeEnvelope_def Let_def split: option.splits)
  moreover have tr: "tracked rows (last_rev (connSent (syConn st))) (syClient st)" "numbered (connSent (syConn st))"
    using Write assms(2) by (simp_all add: num_inv_def)
  moreover have "list_all (row_follows (last_rev (connSent (syConn st)))) rows" using tr(1) by (simp add: tracked_def list_all_iff)
  ultimately show ?thesis using Write(1) tracked_sent [OF tr(1)]
    by (simp add: num_inv_def numbered_snoc follows_def del: last_step.simps)
next
  case (Drain t rep)
  have "queue_ok (syClient st)" using assms(3) by (simp add: sync_inv_def queue_inv_def)
  from drain_frame [OF this refl, of rep t]
  have "\<forall>sid. gm_get (rev (revisions (drainStalePending rep t (syClient st)))) sid \<in> {None, gm_get (rev (revisions (syClient st))) sid}"
    by (elim conjE)
  moreover have "tracked [] (last_rev (connSent (syConn st))) (syClient st)" "numbered (connSent (syConn st))"
    using Drain assms(2) by (simp_all add: num_inv_def)
  ultimately have "tracked [] (last_rev (connSent (syConn st))) (drainStalePending rep t (syClient st))" by (blast intro: tracked_drained)
  then show ?thesis unfolding Drain(1) num_inv_def using \<open>numbered _\<close> by simp
next
  case (Wake drained c items)
  then have "revisions c = revisions (syClient st)" by (auto simp: drainAllPending_def split: if_splits)
  note tr = tracked_same [OF this]
  from Wake(1,2) assms(2) show ?thesis by (simp add: num_inv_def tr)
next
  case (Event q qs N now rep c k)
  then have "tracked [] (last_rev (connSent (syConn st))) (syClient st)" using assms(2) by (simp add: num_inv_def)
  then obtain env where "connSent k = connSent (syConn st) @ [env]" "follows (last_rev (connSent (syConn st))) env"
      "tracked [] (last_step (last_rev (connSent (syConn st))) (EnvPayload env)) c"
    by (rule tracked_event [OF _ Event(3)])
  with Event(1) assms(2) show ?thesis by (simp add: num_inv_def numbered_snoc)
next
  case (Reconnect t N k now ok inst org)
  from hello_numbered [OF Reconnect(4)] have "numbered (connSent k)" "last_rev (connSent k) = (\<lambda>_. None)" by blast+
  with Reconnect(1) show ?thesis by (simp add: num_inv_def tracked_def)
next
  case (Reconcile t)
  with assms(2) show ?thesis by (simp add: num_inv_def tracked_def)
next
  case SentAll
  with assms(2) show ?thesis by (simp add: num_inv_def)
qed

lemma num_inv_step:
  assumes "sync_step snap truth good st st'" and "num_inv st" and "sync_inv truth good st"
  shows "num_inv st'"
  using assms(1)
proof (cases rule: sync_step.cases)
  case Writer
  then show ?thesis by (rule num_inv_writer [OF _ assms(2,3)])
next
  case (Noted now s c)
  with assms(2) show ?thesis by (simp add: num_inv_def reported_note_def tracked_same [OF Notify_revisions [OF Noted(3)]])
next
  case GapReported
  with assms(2) show ?thesis by (simp add: num_inv_def tracked_def scheduleReconcile_def)
next
  case (Heartbeat N now ok c k)
  from heartbeat_frame [OF Heartbeat(3)] obtain env where "revisions c = revisions (syClient st)" "connSent k = connSent (syConn st) @ [env]"
      "EnvPayload env = NoPayload" by blast
  note h = this tracked_same [OF this(1)]
  from Heartbeat(1,2) assms(2) show ?thesis by (simp add: num_inv_def numbered_snoc follows_def h(2-4))
next
  case (LostSnapshot t rows N e k)
  then have "connSent k = connSent (syConn st)" by (auto simp: writeEnvelope_def Let_def split: option.splits)
  with LostSnapshot(1) assms(2) show ?thesis by (simp add: num_inv_def)
next
  case (LostEvent q qs N now rep e c k)
  with event_frame(2) [OF LostEvent(3)] assms(2) show ?thesis by (simp add: num_inv_def)
next
  case (World w)
  with assms(2) show ?thesis by (simp add: num_inv_def)
next
  case Disconnect
  with assms(2) show ?thesis by (simp add: num_inv_def)
qed

lemma numbering: "sync_reachable snap truth good st \<Longrightarrow> num_inv st"
proof (induction rule: sync_reachable.induct)
  case (Started w conf revFile intFile stFile t)
  then show ?case by (simp add: num_inv_def numbered_def sync_started_def)
next
  case (Stepped st st')
  with num_inv_step sync_reachable_inv show ?case by blast
qed

lemma queue_bounded:
  "sync_reachable snap truth good st \<Longrightarrow> queue_ok (syClient st) \<and> (\<exists>c. Notify now (syClient st) s = Ret c \<and> queue_ok c)"
proof -
  assume "sync_reachable snap truth good st"
  from sync_reachable_inv [OF this] have "queue_ok (syClient st)" by (simp add: sync_inv_def queue_inv_def)
  then show ?thesis by (metis Notify_cases)
qed

end


section \<open>The client of the supervisor\<close>

abbreviation sup_sync_reachable :: "vt \<Rightarrow> Supervisor sync \<Rightarrow> bool" where
  "sup_sync_reachable V \<equiv> sync_reachable (\<lambda>s. ActiveSnapshots (List s '''')) published_status (sup_ok V)"

abbreviation sup_writer_step :: "Supervisor sync \<Rightarrow> Supervisor sync \<Rightarrow> bool" where
  "sup_writer_step \<equiv> writer_step (\<lambda>s. ActiveSnapshots (List s '''')) published_status"

definition demo_world :: Supervisor where
  "demo_world = snd (start_commit sorted_bolt 0 demo_sup (plainProvider ''x'', demo_request ''a'', 7))"

definition demo_sync_config :: "Supervisor Config" where
  "demo_sync_config = \<lparr>TerminalSupervisor = False, CommandPath = '''', ObserveFunc = None, InstructionFunc = None, DiagnoseFunc = None,
     RespondFunc = None, ApprovalFunc = None, Credential = '''', BridgectlVersion = '''', CfgInstallationID = '''', StatusPath = '''',
     RevisionPath = '''', SnapshotFunc = Some (\<lambda>s. ActiveSnapshots (List s ''''))\<rparr>"

definition demo_snapshot :: SessionSnapshot where
  "demo_snapshot = \<lparr>SnSessionID = ''b'', SnProvider = ''x'', SnProjectID = ''p'', SnStatus = StatusRunning, SnCreatedAt = 3,
     SnInteraction = zeroInteraction\<rparr>"

definition demo_sync :: "Supervisor sync" where
  "demo_sync = sync_started demo_world demo_sync_config Absent Absent Absent 0"

lemma demo_world_ok: "sup_ok demo_vt demo_world"
proof -
  have "sup_reachable sorted_bolt demo_vt demo_sup"
    unfolding demo_sup_def by (rule New) (rule Register_ok, rule NewRegistry_ok)
  then have "sup_reachable sorted_bolt demo_vt demo_world"
    unfolding demo_world_def by (rule SupStep) (rule Starting, rule prod.collapse [symmetric])
  then show ?thesis by (rule sup_reachable_ok)
qed

lemma demo_sync_reachable: "sup_sync_reachable demo_vt demo_sync"
  unfolding demo_sync_def using demo_world_ok by (rule Started)

lemma demo_published: "published_status demo_world ''a'' = Some StatusRunning" "length (ActiveSnapshots (List demo_world '''')) = 1"
  by code_simp+

text \<open>The first connection of the demo client: after the snapshot of the empty queue no session is stale.\<close>

lemma demo_connects:
  obtains st where "sup_writer_step\<^sup>*\<^sup>* demo_sync st" "syStale st = {}"
proof -
  obtain k where h: "sendHello up_net (syClient demo_sync) \<lparr>connSent = [], connWrites = 0\<rparr> = (None, k)"
    using up_net_writes by (metis prod.collapse sendHello_def)
  define st1 where "st1 = demo_sync\<lparr>syClient := setStatus 0 True StateConnected '''' ((syClient demo_sync)\<lparr>organizationID := '''', installationID := ''''\<rparr>),
      syConn := k, syPhase := Cutoff 0, syClock := 0\<rparr>"
  have d: "syPhase demo_sync = Down" "syClock demo_sync \<le> 0" "pendingNotes (syClient demo_sync) = []"
    by (simp_all add: demo_sync_def sync_started_def NewClient_def Let_def)
  have s1: "sup_writer_step demo_sync st1" unfolding st1_def by (rule Reconnect [OF d(1,2) h])
  obtain rows c where "snapshot_rows 0 (\<lambda>_. True) 0 (syClient st1) (take maxSnapshotSessions (ActiveSnapshots (List (syWorld st1) ''''))) = (rows, c)" by fastforce
  with Build [of st1 0, where snap = "\<lambda>s. ActiveSnapshots (List s '''')" and truth = published_status] have s2: "sup_writer_step st1
      ((reported_built 0 (published_status (syWorld st1)) st1)\<lparr>syClient := c, syPhase := Built 0 rows,
        syTruncated := maxSnapshotSessions < length (ActiveSnapshots (List (syWorld st1) ''''))\<rparr>)" (is "sup_writer_step _ ?st2")
    by (simp add: st1_def)
  have "pendingNotes (syClient st1) = []"
    using setStatus_frame(1) [of "(syClient demo_sync)\<lparr>organizationID := '''', installationID := ''''\<rparr>" 0 True StateConnected "''''"] d(3)
    by (simp add: st1_def same_queue_def)
  then have "syStale ?st2 = {}" by (simp add: reported_built_def noted_since_def)
  moreover from s1 s2 have "sup_writer_step\<^sup>*\<^sup>* demo_sync ?st2" by (meson rtranclp.rtrancl_into_rtrancl rtranclp.rtrancl_refl)
  ultimately show thesis by (rule that [rotated])
qed

lemma demo_settles:
  obtains st where "sup_writer_step\<^sup>*\<^sup>* demo_sync st" "sup_sync_reachable demo_vt st" "settled st" "syWorld st = demo_world" "\<not> syTruncated st" "syStale st = {}"
proof -
  obtain st1 where s1: "sup_writer_step\<^sup>*\<^sup>* demo_sync st1" "syStale st1 = {}" by (rule demo_connects)
  have r1: "sup_sync_reachable demo_vt st1" by (rule supervised.writer_reachable [OF s1(1) demo_sync_reachable])
  obtain st where st: "sup_writer_step\<^sup>*\<^sup>* st1 st" "settled st" by (rule supervised.settles [OF r1])
  have run: "sup_writer_step\<^sup>*\<^sup>* demo_sync st" using s1(1) st(1) by simp
  have "syWorld demo_sync = demo_world" "\<not> syTruncated demo_sync" by (simp_all add: demo_sync_def sync_started_def)
  with supervised.writer_run_frame [OF run] demo_published(2) have "syWorld st = demo_world" "\<not> syTruncated st" by simp_all
  moreover have "syStale st = {}" using supervised.writer_run_frame [OF st(1)] s1(2) by simp
  ultimately show thesis using that [OF run supervised.writer_reachable [OF st(1) r1] st(2)] by blast
qed

text \<open>
  C5. Convergence. Whatever the daemon does, whichever notifications come, in any order and however late, and whatever evictions,
  lost messages and reconnections came before: at every moment at which the writer is idle, nothing is queued and no reconciliation is due,
  what Bridge was told on this connection of every session is the last report of it. That is the status in its last notification, or the
  one that the last snapshot read when no notification was queued since its cutoff. It is the status the session has, unless the session is
  stale: changed after its last report, or reported with another status. (A snapshot lists at most 500 sessions; the last one was not cut.)
\<close>

theorem control_converges:
  assumes "sup_sync_reachable V st" and "syPhase st = Idle" and "\<not> dirty (syClient st)" and "\<not> reconcileCh (syClient st)"
    and "\<not> syTruncated st"
  shows "view (connSent (syConn st)) sid = syReported st sid \<and>
    (sid \<notin> syStale st \<longrightarrow> view (connSent (syConn st)) sid = published_status (syWorld st) sid)"
  using supervised.converged [OF assms] by simp

theorem control_converges_witness:
  "\<exists>st. sup_sync_reachable demo_vt st \<and> settled st \<and> syStale st = {} \<and> view (connSent (syConn st)) ''a'' = Some StatusRunning"
proof -
  obtain st where st: "sup_sync_reachable demo_vt st" "settled st" "syWorld st = demo_world" "\<not> syTruncated st" "syStale st = {}" by (rule demo_settles)
  with control_converges [OF st(1), of "''a''"] have "view (connSent (syConn st)) ''a'' = Some StatusRunning"
    by (auto simp: settled_def demo_published)
  with st show ?thesis by blast
qed

text \<open>
  C38. Recovery. From every reachable state, a lost connection included, in which the last snapshot was not cut and at most 500 sessions have
  not ended: as long as the network works and nothing else happens, every run of the writer is finite, whatever it does next at each
  point; and when it can do nothing more, nothing is queued or due, Bridge knows the last report of every session, and the
  status of every session that is not stale. No session became stale on the way.
\<close>

theorem control_recovers:
  assumes "sup_sync_reachable V st" and "\<not> syTruncated st" and "length (ActiveSnapshots (List (syWorld st) '''')) \<le> maxSnapshotSessions"
  shows "(\<exists>bound. \<forall>n st'. (sup_writer_step ^^ n) st st' \<longrightarrow> n \<le> bound) \<and>
    (\<forall>st'. sup_writer_step\<^sup>*\<^sup>* st st' \<and> (\<nexists>st''. sup_writer_step st' st'') \<longrightarrow>
       settled st' \<and> syWorld st' = syWorld st \<and> view (connSent (syConn st')) = syReported st' \<and> syStale st' \<subseteq> syStale st \<and>
       (\<forall>sid. sid \<notin> syStale st' \<longrightarrow> view (connSent (syConn st')) sid = published_status (syWorld st) sid))"
proof (intro conjI allI impI)
  show "\<exists>bound. \<forall>n st'. (sup_writer_step ^^ n) st st' \<longrightarrow> n \<le> bound"
    using supervised.writer_runs_bounded [OF assms(1)] by (meson add_leD2)
qed (use supervised.recovers [OF assms] in blast)+

theorem control_recovers_witness:
  "\<exists>st'. sup_writer_step\<^sup>*\<^sup>* demo_sync st' \<and> settled st' \<and> view (connSent (syConn st')) ''a'' = Some StatusRunning"
proof -
  obtain st where st: "sup_writer_step\<^sup>*\<^sup>* demo_sync st" "settled st" "syStale st = {}" by (rule demo_settles)
  have d: "\<not> syTruncated demo_sync" "length (ActiveSnapshots (List (syWorld demo_sync) '''')) \<le> maxSnapshotSessions" "syWorld demo_sync = demo_world"
    using demo_published(2) by (simp_all add: demo_sync_def sync_started_def)
  have "\<not> sup_writer_step st st''" for st''
    using st(2) by (auto simp: settled_def elim: writer_step.cases)
  with control_recovers [OF demo_sync_reachable d(1,2)] st(1,3) have "view (connSent (syConn st)) ''a'' = published_status demo_world ''a''"
    unfolding d(3) by blast
  with st demo_published(1) show ?thesis by auto
qed

text \<open>
  Numbering: on every connection the revisions of a session count without gaps. An event carries the revision sent before
  plus one, or is a new start with revision 1; a snapshot repeats the positive revision sent before, or starts anew with 1.
\<close>

theorem control_numbered:
  assumes "sup_sync_reachable V st"
  shows "numbered (connSent (syConn st))"
  using supervised.numbering [OF assms] by (simp add: num_inv_def)

theorem control_numbered_witness:
  "\<exists>st :: Supervisor sync. settled st \<and> connSent (syConn st) \<noteq> [] \<and> numbered (connSent (syConn st))"
proof -
  obtain st where st: "sup_sync_reachable demo_vt st" "settled st" "syWorld st = demo_world" "\<not> syTruncated st" "syStale st = {}" by (rule demo_settles)
  then have "view (connSent (syConn st)) ''a'' = published_status demo_world ''a''"
    using supervised.converged [OF st(1)] by (simp add: settled_def)
  then have "connSent (syConn st) \<noteq> []" using demo_published(1) by (metis view_def foldl_Nil option.distinct(1))
  with st control_numbered [OF st(1)] show ?thesis by blast
qed

text \<open>
  C39. The queue of notifications: \<open>Notify\<close> never panics (the list it takes the oldest entry from is never empty when the
  queue is full), the queue holds at most 64 sessions, and its order lists exactly them, each once.
\<close>

theorem notify_total:
  assumes "sup_sync_reachable V st"
  shows "\<exists>c. Notify now (syClient st) s = Ret c \<and> length (pendingNotes c) \<le> 64 \<and> distinct (pendingOrder c) \<and>
    set (pendingOrder c) = fst ` set (pendingNotes c)"
  using supervised.queue_bounded [OF assms, of now s] by (auto simp: queue_ok_def)

theorem notify_total_witness:
  "\<exists>c. Notify 5 (syClient demo_sync) demo_snapshot = Ret c \<and> length (pendingNotes c) \<le> 64"
  using notify_total [OF demo_sync_reachable] by blast

end
