(* ===== verification/Telemetry_Framing.thy ===== *)
theory Telemetry_Framing
  imports Go_Std
begin

text \<open>
  The text algorithms of \<open>internal/telemetry\<close>: logical frames of terminal output (\<open>framing.go\<close>), and the incremental scanner
  and the incremental UTF-8 check of the live collector (\<open>live.go\<close>). Data is a list of bytes, written as characters.
  Each incremental routine is proved equal to the same work done at once.
\<close>

abbreviation ESC :: char where "ESC \<equiv> CHR 0x1B"
abbreviation BEL :: char where "BEL \<equiv> CHR 0x07"
abbreviation BSL :: char where "BSL \<equiv> CHR 0x5C"
abbreviation LF :: char where "LF \<equiv> CHR 0x0A"
abbreviation CR :: char where "CR \<equiv> CHR 0x0D"

definition string_introducer :: "char \<Rightarrow> bool" where
  "string_introducer c \<longleftrightarrow> c = CHR '']'' \<or> c = CHR ''P'' \<or> c = CHR ''X'' \<or> c = CHR ''^'' \<or> c = CHR ''_''"

definition csi_final :: "char \<Rightarrow> bool" where
  "csi_final c \<longleftrightarrow> 0x40 \<le> (of_char c :: nat) \<and> (of_char c :: nat) \<le> 0x7e"

section \<open>Frames\<close>

text \<open>
  \<open>ansiSequenceEnd\<close> of the sequence at the head of a suffix of the buffer: the number of its bytes, or \<open>None\<close> when it is not
  complete. The two loops look for the terminator of a string sequence and of a control sequence.
\<close>

fun st_end :: "bool \<Rightarrow> string \<Rightarrow> nat option" where
  "st_end osc [] = None"
| "st_end osc (c # cs) =
     (if osc \<and> c = BEL then Some 1
      else if c = ESC \<and> cs \<noteq> [] \<and> hd cs = BSL then Some 2
      else map_option Suc (st_end osc cs))"

fun csi_end :: "string \<Rightarrow> nat option" where
  "csi_end [] = None"
| "csi_end (c # cs) = (if csi_final c then Some 1 else map_option Suc (csi_end cs))"

definition ansiSequenceEnd :: "string \<Rightarrow> nat option" where
  "ansiSequenceEnd buffer =
     (case buffer of
        esc # introducer # cs \<Rightarrow>
          if string_introducer introducer then map_option (\<lambda>n. n + 2) (st_end (introducer = CHR '']'') cs)
          else if introducer \<noteq> CHR ''['' then Some 2
          else map_option (\<lambda>n. n + 2) (csi_end cs)
      | _ \<Rightarrow> None)"

text \<open>\<open>strings.TrimSpace\<close>.\<close>

lemma decode_codes_pos: "decode_rune (codes s) = (r, w, ok) \<Longrightarrow> s \<noteq> [] \<Longrightarrow> 0 < w"
  using decode_rune_pos [of "codes s"] by (simp add: codes_def)

function trim_left_space :: "string \<Rightarrow> string" where
  "trim_left_space s =
     (case decode_rune (codes s) of (r, w, ok) \<Rightarrow> if s \<noteq> [] \<and> ok \<and> is_space r then trim_left_space (drop w s) else s)"
  by auto
termination by (relation "measure length") (auto dest!: decode_codes_pos [OF sym])

text \<open>The width of a space at the end of a string: \<open>DecodeLastRuneInString\<close> on the encodings a space can have.\<close>

definition last_space :: "string \<Rightarrow> nat" where
  "last_space s =
     (let enc = (\<lambda>w. w \<le> length s \<and> (case decode_rune (codes (drop (length s - w) s)) of (r, v, ok) \<Rightarrow> ok \<and> v = w \<and> is_space r))
      in if enc 1 then 1 else if enc 2 then 2 else if enc 3 then 3 else 0)"

function trim_right_space :: "string \<Rightarrow> string" where
  "trim_right_space s = (if s \<noteq> [] \<and> last_space s \<noteq> 0 then trim_right_space (take (length s - last_space s) s) else s)"
  by auto
termination by (relation "measure length") auto

declare trim_left_space.simps [simp del] trim_right_space.simps [simp del]

definition TrimSpace :: "string \<Rightarrow> string" where
  "TrimSpace s = trim_right_space (trim_left_space s)"

text \<open>
  The loop of \<open>splitFrames\<close> at index \<open>i\<close>: \<open>cur\<close> is \<open>buffer[start:i]\<close>, the second argument \<open>buffer[i:]\<close>; the result is the frames
  that are still to come and the remainder.
\<close>

definition frame_end :: "bool \<Rightarrow> char \<Rightarrow> bool" where
  "frame_end questionMark c \<longleftrightarrow> c = LF \<or> c = CR \<or> questionMark \<and> c = CHR ''?''"

lemma ansiSequenceEnd_pos: "ansiSequenceEnd s = Some n \<Longrightarrow> 2 \<le> n"
  by (auto simp: ansiSequenceEnd_def split: list.splits if_splits)

function (sequential) frames_loop :: "bool \<Rightarrow> string \<Rightarrow> string \<Rightarrow> string list \<times> string" where
  "frames_loop questionMark cur [] = ([], cur)"
| "frames_loop questionMark cur (c # cs) =
     (if c = ESC then
        (case ansiSequenceEnd (c # cs) of
           None \<Rightarrow> ([], cur @ c # cs)
         | Some n \<Rightarrow> frames_loop questionMark (cur @ take n (c # cs)) (drop n (c # cs)))
      else if \<not> frame_end questionMark c then frames_loop questionMark (cur @ [c]) cs
      else let frame = TrimSpace (if c = CHR ''?'' then cur @ [c] else cur);
               (fs, rest) = frames_loop questionMark [] cs
           in (if frame \<noteq> '''' then frame # fs else fs, rest))"
  by pat_completeness auto
termination by (relation "measure (length \<circ> snd \<circ> snd)") (auto dest: ansiSequenceEnd_pos)

definition splitFrames :: "string \<Rightarrow> bool \<Rightarrow> string list \<times> string" where
  "splitFrames buffer questionMark = frames_loop questionMark [] buffer"

text \<open>\<open>trimFrameBuffer\<close>: the longest suffix within the limit that starts at a rune.\<close>

definition rune_start :: "char \<Rightarrow> bool" where
  "rune_start c \<longleftrightarrow> \<not> (0x80 \<le> (of_char c :: nat) \<and> (of_char c :: nat) < 0xC0)"

definition trimFrameBuffer :: "string \<Rightarrow> nat \<Rightarrow> string" where
  "trimFrameBuffer buffer maxBytes =
     (if length buffer \<le> maxBytes then buffer else dropWhile (\<lambda>c. \<not> rune_start c) (drop (length buffer - maxBytes) buffer))"

abbreviation defaultFrameBufferSize :: nat where "defaultFrameBufferSize \<equiv> 16384"

record Framer =
  fmMaxBytes :: nat
  fmOutputs :: "(string, string) gomap"
  fmInputs :: "(string, string) gomap"

definition NewFramer :: "int \<Rightarrow> Framer" where
  "NewFramer maxBytes = \<lparr>fmMaxBytes = (if maxBytes \<le> 0 then defaultFrameBufferSize else nat maxBytes), fmOutputs = [], fmInputs = []\<rparr>"

definition buffered :: "(string, string) gomap \<Rightarrow> string \<Rightarrow> string" where
  "buffered m sid = (case gm_get m sid of Some s \<Rightarrow> s | None \<Rightarrow> '''')"

definition FeedOutput :: "Framer \<Rightarrow> string \<Rightarrow> string \<Rightarrow> string list \<times> Framer" where
  "FeedOutput f sid dat =
     (let (frames, remainder) = splitFrames (trimFrameBuffer (buffered (fmOutputs f) sid @ dat) (fmMaxBytes f)) True
      in (frames, f\<lparr>fmOutputs := gm_put sid remainder (fmOutputs f)\<rparr>))"

definition FeedInput :: "Framer \<Rightarrow> string \<Rightarrow> string \<Rightarrow> string list \<times> Framer" where
  "FeedInput f sid dat =
     (let (frames, remainder) = splitFrames (trimFrameBuffer (buffered (fmInputs f) sid @ dat) (fmMaxBytes f)) False
      in (frames, f\<lparr>fmInputs := gm_put sid remainder (fmInputs f)\<rparr>))"

definition FlushOutput :: "Framer \<Rightarrow> string \<Rightarrow> string \<times> Framer" where
  "FlushOutput f sid = (buffered (fmOutputs f) sid, f\<lparr>fmOutputs := gm_del sid (fmOutputs f)\<rparr>)"

definition FlushInput :: "Framer \<Rightarrow> string \<Rightarrow> string \<times> Framer" where
  "FlushInput f sid = (buffered (fmInputs f) sid, f\<lparr>fmInputs := gm_del sid (fmInputs f)\<rparr>)"

definition framer_Reset :: "Framer \<Rightarrow> string \<Rightarrow> Framer" where
  "framer_Reset f sid = f\<lparr>fmOutputs := gm_del sid (fmOutputs f), fmInputs := gm_del sid (fmInputs f)\<rparr>"


section \<open>Frames do not depend on how the output is cut\<close>

lemma st_end_take: "st_end osc s = Some n \<Longrightarrow> n \<le> length s \<and> st_end osc (take n s @ t) = Some n"
proof (induction s arbitrary: n)
  case (Cons c cs)
  show ?case
  proof (cases "osc \<and> c = BEL \<or> c = ESC \<and> cs \<noteq> [] \<and> hd cs = BSL")
    case True
    then show ?thesis using Cons.prems by (cases cs) (auto split: if_splits)
  next
    case False
    with Cons.prems obtain m where m: "st_end osc cs = Some m" "n = Suc m" by auto
    with Cons.IH have IH: "m \<le> length cs" "st_end osc (take m cs @ t) = Some m" by blast+
    have "0 < m" using m(1) by (cases cs) (auto split: if_splits)
    then have "take m cs @ t \<noteq> [] \<and> hd (take m cs @ t) = hd cs" if "cs \<noteq> []" using that by (cases cs) (auto simp: take_Cons')
    moreover have "cs \<noteq> []" using m(1) by auto
    ultimately show ?thesis using False IH m(2) by auto
  qed
qed simp

lemma csi_end_take: "csi_end s = Some n \<Longrightarrow> n \<le> length s \<and> csi_end (take n s @ t) = Some n"
  by (induction s arbitrary: n) (auto split: if_splits)

lemma ansiSequenceEnd_take:
  assumes "ansiSequenceEnd s = Some n"
  shows "n \<le> length s \<and> ansiSequenceEnd (take n s @ t) = Some n"
proof -
  from assms obtain e i cs where s: "s = e # i # cs" by (auto simp: ansiSequenceEnd_def split: list.splits)
  consider (str) m where "string_introducer i" "st_end (i = CHR '']'') cs = Some m" "n = m + 2"
    | (two) "\<not> string_introducer i" "i \<noteq> CHR ''[''" "n = 2"
    | (csi) m where "i = CHR ''[''" "csi_end cs = Some m" "n = m + 2"
    using assms by (auto simp: s ansiSequenceEnd_def string_introducer_def split: if_splits)
  then show ?thesis
  proof cases
    case str
    with st_end_take [OF str(2)] show ?thesis by (simp add: s ansiSequenceEnd_def)
  next
    case two
    then show ?thesis by (simp add: s ansiSequenceEnd_def)
  next
    case csi
    with csi_end_take [OF csi(2)] show ?thesis by (simp add: s ansiSequenceEnd_def string_introducer_def)
  qed
qed

lemma ansiSequenceEnd_append: "ansiSequenceEnd s = Some n \<Longrightarrow> ansiSequenceEnd (s @ t) = Some n"
  using ansiSequenceEnd_take [of s n "drop n s @ t"] by (metis append.assoc append_take_drop_id)

text \<open>The part of the buffer after the last frame is scanned again without effect.\<close>

lemma frames_step:
  assumes "clean = (\<lambda>cur. \<forall>x. frames_loop q [] (cur @ x) = frames_loop q cur x)" and "clean cur"
  shows "c = ESC \<Longrightarrow> ansiSequenceEnd (c # cs) = Some n \<Longrightarrow> clean (cur @ take n (c # cs))"
    and "c \<noteq> ESC \<Longrightarrow> \<not> frame_end q c \<Longrightarrow> clean (cur @ [c])"
proof -
  assume e: "c = ESC" "ansiSequenceEnd (c # cs) = Some n"
  have "frames_loop q [] ((cur @ take n (c # cs)) @ x) = frames_loop q (cur @ take n (c # cs)) x" for x
  proof -
    have n: "n \<le> length (c # cs)" "ansiSequenceEnd (take n (c # cs) @ x) = Some n" using ansiSequenceEnd_take [OF e(2)] by auto
    obtain m where m: "n = Suc m" using ansiSequenceEnd_pos [OF e(2)] by (cases n) auto
    have "frames_loop q [] (cur @ take n (c # cs) @ x) = frames_loop q cur (take n (c # cs) @ x)" using assms by simp
    also have "\<dots> = frames_loop q (cur @ take n (c # cs)) x" using n e(1) by (simp add: m min_def)
    finally show ?thesis by simp
  qed
  then show "clean (cur @ take n (c # cs))" using assms(1) by simp
next
  assume c: "c \<noteq> ESC" "\<not> frame_end q c"
  have "frames_loop q [] ((cur @ [c]) @ x) = frames_loop q (cur @ [c]) x" for x
    using assms c by simp
  then show "clean (cur @ [c])" using assms(1) by simp
qed

lemma frames_split:
  assumes "\<forall>x. frames_loop q [] (cur @ x) = frames_loop q cur x"
  shows "frames_loop q cur (a @ b) =
    (fst (frames_loop q cur a) @ fst (frames_loop q [] (snd (frames_loop q cur a) @ b)), snd (frames_loop q [] (snd (frames_loop q cur a) @ b)))"
  using assms
proof (induction q cur a rule: frames_loop.induct)
  case (1 q cur)
  then show ?case by simp
next
  case (2 q cur c cs)
  define clean where "clean = (\<lambda>cur. \<forall>x. frames_loop q [] (cur @ x) = frames_loop q cur x)"
  have cl: "clean cur" using 2(4) by (simp add: clean_def)
  note step = frames_step [OF clean_def cl]
  consider (unfinished) "c = ESC" "ansiSequenceEnd (c # cs) = None" | (seq) n where "c = ESC" "ansiSequenceEnd (c # cs) = Some n"
    | (plain) "c \<noteq> ESC" "\<not> frame_end q c" | (frame) "c \<noteq> ESC" "frame_end q c" by fastforce
  then show ?case
  proof cases
    case unfinished
    then show ?thesis using 2(4) by simp
  next
    case seq
    have "frames_loop q (cur @ take n (c # cs)) (drop n (c # cs) @ b) =
      (fst (frames_loop q (cur @ take n (c # cs)) (drop n (c # cs))) @
         fst (frames_loop q [] (snd (frames_loop q (cur @ take n (c # cs)) (drop n (c # cs))) @ b)),
       snd (frames_loop q [] (snd (frames_loop q (cur @ take n (c # cs)) (drop n (c # cs))) @ b)))"
      using 2(1) [OF seq(1,2)] step(1) [OF seq] by (simp add: clean_def)
    moreover have "n \<le> length (c # cs)" "ansiSequenceEnd (c # cs @ b) = Some n"
      using ansiSequenceEnd_take [OF seq(2)] ansiSequenceEnd_append [OF seq(2), of b] by simp_all
    moreover from this(1) have "take n ((c # cs) @ b) = take n (c # cs)" "drop n ((c # cs) @ b) = drop n (c # cs) @ b"
      by (simp_all del: append_Cons)
    ultimately show ?thesis using seq by simp
  next
    case plain
    with 2(2) [OF plain] step(2) [OF plain] show ?thesis by (simp add: clean_def)
  next
    case frame
    have "frames_loop q [] (cs @ b) = (fst (frames_loop q [] cs) @ fst (frames_loop q [] (snd (frames_loop q [] cs) @ b)),
        snd (frames_loop q [] (snd (frames_loop q [] cs) @ b)))"
      using 2(3) [OF frame(1)] frame(2) by simp
    with frame show ?thesis by (simp add: Let_def split_beta)
  qed
qed

lemma splitFrames_append:
  "splitFrames (a @ b) q = (fst (splitFrames a q) @ fst (splitFrames (snd (splitFrames a q) @ b) q), snd (splitFrames (snd (splitFrames a q) @ b) q))"
  unfolding splitFrames_def by (rule frames_split) simp


text \<open>Feeding a session chunk by chunk; \<open>untrimmed\<close>: no step exceeds the limit of the buffer.\<close>

fun feed_chunks :: "Framer \<Rightarrow> string \<Rightarrow> string list \<Rightarrow> string list \<times> Framer" where
  "feed_chunks f sid [] = ([], f)"
| "feed_chunks f sid (c # cs) = (let (fs, f1) = FeedOutput f sid c; (gs, f2) = feed_chunks f1 sid cs in (fs @ gs, f2))"

fun untrimmed :: "Framer \<Rightarrow> string \<Rightarrow> string list \<Rightarrow> bool" where
  "untrimmed f sid [] = True"
| "untrimmed f sid (c # cs) \<longleftrightarrow> length (buffered (fmOutputs f) sid @ c) \<le> fmMaxBytes f \<and> untrimmed (snd (FeedOutput f sid c)) sid cs"

lemma FeedOutput_untrimmed:
  "length (buffered (fmOutputs f) sid @ c) \<le> fmMaxBytes f \<Longrightarrow> fst (FeedOutput f sid c) = fst (splitFrames (buffered (fmOutputs f) sid @ c) True) \<and>
     buffered (fmOutputs (snd (FeedOutput f sid c))) sid = snd (splitFrames (buffered (fmOutputs f) sid @ c) True)"
  by (simp add: FeedOutput_def trimFrameBuffer_def split_beta buffered_def gomap_simps)

lemma feed_chunks_split:
  assumes "untrimmed f sid (c # cs)"
  shows "(fst (feed_chunks f sid (c # cs)), buffered (fmOutputs (snd (feed_chunks f sid (c # cs)))) sid) =
    splitFrames (buffered (fmOutputs f) sid @ concat (c # cs)) True"
  using assms
proof (induction cs arbitrary: f c)
  case Nil
  with FeedOutput_untrimmed [of f sid c] show ?case by (simp add: split_beta)
next
  case (Cons d cs)
  let ?f = "snd (FeedOutput f sid c)"
  have u: "untrimmed ?f sid (d # cs)" and b: "length (buffered (fmOutputs f) sid @ c) \<le> fmMaxBytes f" using Cons.prems by simp_all
  note IH = Cons.IH [OF u] and feed = FeedOutput_untrimmed [OF b]
  let ?s = "splitFrames (buffered (fmOutputs f) sid @ c) True"
  have "splitFrames ((buffered (fmOutputs f) sid @ c) @ concat (d # cs)) True =
      (fst ?s @ fst (splitFrames (snd ?s @ concat (d # cs)) True), snd (splitFrames (snd ?s @ concat (d # cs)) True))"
    by (rule splitFrames_append)
  moreover have "splitFrames (snd ?s @ concat (d # cs)) True =
      (fst (feed_chunks ?f sid (d # cs)), buffered (fmOutputs (snd (feed_chunks ?f sid (d # cs)))) sid)" using IH feed by simp
  moreover have "feed_chunks f sid (c # d # cs) = (fst (FeedOutput f sid c) @ fst (feed_chunks ?f sid (d # cs)), snd (feed_chunks ?f sid (d # cs)))"
    by (simp add: split_beta)
  ultimately show ?case using feed by simp
qed

text \<open>
  The frames of a session do not depend on how the reads cut its output: as long as the buffer is not trimmed, the frames
  found chunk by chunk are those of the whole output at once, and the same rest is left, wherever a chunk ends, within an
  escape sequence too.
\<close>

theorem frames_chunked:
  assumes "untrimmed f sid chunks" and "chunks \<noteq> []"
  shows "(fst (feed_chunks f sid chunks), buffered (fmOutputs (snd (feed_chunks f sid chunks))) sid) =
    splitFrames (buffered (fmOutputs f) sid @ concat chunks) True"
  using feed_chunks_split [of f sid "hd chunks" "tl chunks"] assms by simp


lemma TrimSpace_left: "s \<noteq> [] \<Longrightarrow> 33 \<le> (of_char (hd s) :: nat) \<Longrightarrow> (of_char (hd s) :: nat) \<le> 126 \<Longrightarrow> trim_left_space s = s"
  by (cases s) (simp_all add: trim_left_space.simps [of "x # xs" for x xs] codes_def decode_rune_ascii is_space_def)

lemma TrimSpace_right:
  assumes "s \<noteq> []" and "33 \<le> (of_char (last s) :: nat)" and "(of_char (last s) :: nat) \<le> 126"
  shows "trim_right_space s = s"
proof -
  obtain t c where s: "s = t @ [c]" "last s = c" using assms(1) by (metis append_butlast_last_id)
  have d: "decode_rune (codes (drop (length s - 1) s)) = (of_char c, 1, True)"
    using assms(2,3) s by (simp add: codes_def decode_rune_ascii)
  have two: "\<not> (fst (snd (decode_rune [a, of_char c])) = 2 \<and> snd (snd (decode_rune [a, of_char c])))" for a
    using assms(2,3) s by (auto simp: decode_rune_def cont_byte_def second_lo_def split: if_splits)
  have three: "\<not> (fst (snd (decode_rune [a, b, of_char c])) = 3 \<and> snd (snd (decode_rune [a, b, of_char c])))" for a b
    using assms(2,3) s by (auto simp: decode_rune_def cont_byte_def second_lo_def split: if_splits)
  have "last_space s = 0"
  proof -
    have e2: "\<not> (2 \<le> length s \<and> (case decode_rune (codes (drop (length s - 2) s)) of (r, v, ok) \<Rightarrow> ok \<and> v = 2 \<and> is_space r))"
    proof (cases "length s < 2")
      case False
      then obtain u a where t: "t = u @ [a]" using s by (cases t rule: rev_cases) auto
      with s two [of "of_char a"] show ?thesis by (auto simp: codes_def split: prod.splits)
    qed simp
    have e3: "\<not> (3 \<le> length s \<and> (case decode_rune (codes (drop (length s - 3) s)) of (r, v, ok) \<Rightarrow> ok \<and> v = 3 \<and> is_space r))"
    proof (cases "length s < 3")
      case False
      then obtain u b where t: "t = u @ [b]" using s by (cases t rule: rev_cases) auto
      then obtain v a where u: "u = v @ [a]" using s False by (cases u rule: rev_cases) auto
      with s t three [of "of_char a" "of_char b"] show ?thesis by (auto simp: codes_def split: prod.splits)
    qed simp
    show ?thesis unfolding last_space_def Let_def using d e2 e3 assms(2,3) s by (simp add: is_space_def)
  qed
  then show ?thesis by (simp add: trim_right_space.simps [of s])
qed

lemmas TrimSpace_id = TrimSpace_def TrimSpace_left TrimSpace_right

theorem frames_chunked_witness:
  "fst (feed_chunks (NewFramer 64) ''s'' [''Run'' @ [ESC], ''[1mit?y'', ''es'' @ [LF]]) = [''Run'' @ [ESC] @ ''[1mit?'', ''yes'']"
proof -
  note defs = NewFramer_def FeedOutput_def splitFrames_def trimFrameBuffer_def buffered_def frame_end_def ansiSequenceEnd_def string_introducer_def csi_final_def TrimSpace_id gomap_simps
  have "untrimmed (NewFramer 64) ''s'' [''Run'' @ [ESC], ''[1mit?y'', ''es'' @ [LF]]" by (simp add: defs)
  from frames_chunked [OF this]
  have "fst (feed_chunks (NewFramer 64) ''s'' [''Run'' @ [ESC], ''[1mit?y'', ''es'' @ [LF]]) =
      fst (splitFrames (buffered (fmOutputs (NewFramer 64)) ''s'' @ concat [''Run'' @ [ESC], ''[1mit?y'', ''es'' @ [LF]]) True)"
    by (metis fst_conv list.distinct(1))
  also have "\<dots> = [''Run'' @ [ESC] @ ''[1mit?'', ''yes'']" by (simp add: defs)
  finally show ?thesis .
qed


section \<open>The incremental UTF-8 check\<close>

text \<open>\<open>utf8.Valid\<close> and \<open>utf8.FullRune\<close>: a rune is not full exactly when it is a proper prefix of an encoding.\<close>

definition Valid :: "string \<Rightarrow> bool" where
  "Valid s = valid_utf8 (codes s)"

definition full_rune :: "nat list \<Rightarrow> bool" where
  "full_rune s =
     (case s of
        [] \<Rightarrow> False
      | b0 # s1 \<Rightarrow>
          if b0 < 194 \<or> 244 < b0 then True
          else case s1 of
                 [] \<Rightarrow> False
               | b1 # s2 \<Rightarrow>
                   if b0 \<le> 223 \<or> \<not> cont_byte (second_lo b0) (second_hi b0) b1 then True
                   else case s2 of
                          [] \<Rightarrow> False
                        | b2 # s3 \<Rightarrow> if b0 \<le> 239 \<or> \<not> cont_byte 128 191 b2 then True else s3 \<noteq> [])"

definition FullRune :: "string \<Rightarrow> bool" where
  "FullRune s = full_rune (codes s)"

record utf8State =
  usBroken :: bool
  usTail :: string

abbreviation utf8Clean :: utf8State where "utf8Clean \<equiv> \<lparr>usBroken = False, usTail = ''''\<rparr>"

text \<open>The loop over the suffixes of the window, from length \<open>k\<close> on.\<close>

definition incomplete_at :: "string \<Rightarrow> nat \<Rightarrow> bool" where
  "incomplete_at w k \<longleftrightarrow> k \<le> length w \<and> Valid (take (length w - k) w) \<and> \<not> FullRune (drop (length w - k) w)"

definition incomplete_tail :: "string \<Rightarrow> string option" where
  "incomplete_tail w =
     (if incomplete_at w 1 then Some (drop (length w - 1) w)
      else if incomplete_at w 2 then Some (drop (length w - 2) w)
      else if incomplete_at w 3 then Some (drop (length w - 3) w)
      else None)"

definition advanceUTF8State :: "utf8State \<Rightarrow> string \<Rightarrow> utf8State" where
  "advanceUTF8State prev newData =
     (if usBroken prev then prev
      else let window = usTail prev @ newData
           in if Valid window then utf8Clean
              else case incomplete_tail window of
                     Some t \<Rightarrow> \<lparr>usBroken = False, usTail = t\<rparr>
                   | None \<Rightarrow> \<lparr>usBroken = True, usTail = ''''\<rparr>)"

definition validOrIncompleteUTF8 :: "string \<Rightarrow> bool" where
  "validOrIncompleteUTF8 dat \<longleftrightarrow> Valid dat \<or> incomplete_tail dat \<noteq> None"


lemma decode_ok_take: "decode_rune s = (r, w, True) \<Longrightarrow> 0 < w \<and> w \<le> length s \<and> decode_rune (take w s @ x) = (r, w, True)"
  by (auto simp: decode_rune_def split: list.splits if_splits)

lemma decode_ok_full: "decode_rune s = (r, w, True) \<Longrightarrow> full_rune (s @ x)"
  by (auto simp: decode_rune_def full_rune_def split: list.splits if_splits)

lemma full_rune_mono: "full_rune s \<Longrightarrow> full_rune (s @ x)"
  by (auto simp: full_rune_def split: list.splits if_splits)

lemma not_full_short: "\<not> full_rune s \<Longrightarrow> length s \<le> 3"
  by (auto simp: full_rune_def split: list.splits if_splits)

lemma decode_ok_prefix: "decode_rune (s @ x) = (r, w, True) \<Longrightarrow> length s < w \<Longrightarrow> \<not> full_rune s"
  by (auto simp: decode_rune_def full_rune_def split: list.splits if_splits)

lemma valid_step: "s \<noteq> [] \<Longrightarrow> valid_utf8 s \<longleftrightarrow> (\<exists>r w. decode_rune s = (r, w, True) \<and> valid_utf8 (drop w s))"
proof (cases s)
  case (Cons b bs)
  obtain r w ok where d: "decode_rune (b # bs) = (r, w, ok)" by (cases "decode_rune (b # bs)")
  have "drop w (b # bs) = drop (w - 1) bs" if ok using decode_ok_take [of "b # bs" r w] d that by (cases w) auto
  with d Cons show ?thesis by auto
qed simp

lemma valid_append: "valid_utf8 a \<Longrightarrow> valid_utf8 (a @ b) = valid_utf8 b"
proof (induction "length a" arbitrary: a rule: less_induct)
  case less
  show ?case
  proof (cases "a = []")
    case False
    then obtain r w where d: "decode_rune a = (r, w, True)" and v: "valid_utf8 (drop w a)" using less.prems valid_step by blast
    have w: "0 < w" "w \<le> length a" "decode_rune (a @ b) = (r, w, True)"
      using decode_ok_take [OF d, of "drop w a @ b"] by (simp_all add: append.assoc [symmetric] del: append.assoc)
    have "valid_utf8 (a @ b) = valid_utf8 (drop w a @ b)" using valid_step [of "a @ b"] False w by simp
    also have "\<dots> = valid_utf8 b" using less.hyps [of "drop w a"] w False v by simp
    finally show ?thesis .
  qed simp
qed

lemma valid_full: "valid_utf8 s \<Longrightarrow> s \<noteq> [] \<Longrightarrow> full_rune (s @ x)"
  using valid_step decode_ok_full by blast

text \<open>The one way to cut data that may still become valid: a valid part, and the beginning of a rune.\<close>

definition utf8_cut :: "nat list \<Rightarrow> nat list \<Rightarrow> nat list \<Rightarrow> bool" where
  "utf8_cut d c t \<longleftrightarrow> d = c @ t \<and> valid_utf8 c \<and> (t = [] \<or> \<not> full_rune t)"

lemma cut_unique: "utf8_cut d c t \<Longrightarrow> utf8_cut d c' t' \<Longrightarrow> t = t'"
proof -
  have "t = t'" if "utf8_cut d c t" "utf8_cut d c' t'" "length c \<le> length c'" for c t c' t'
  proof -
    from that obtain m where m: "c' = c @ m" "t = m @ t'" unfolding utf8_cut_def
      by (metis append_eq_append_conv_if append_eq_conv_conj append_take_drop_id)
    with that have "valid_utf8 m" by (simp add: utf8_cut_def valid_append)
    moreover have "\<not> full_rune t \<or> t = []" using that(1) by (auto simp: utf8_cut_def)
    ultimately show ?thesis using m(2) valid_full [of m t'] by auto
  qed
  then show "utf8_cut d c t \<Longrightarrow> utf8_cut d c' t' \<Longrightarrow> t = t'" by (metis linear)
qed

lemma valid_prefix_cut: "valid_utf8 (a @ m) \<Longrightarrow> \<exists>c t. utf8_cut a c t"
proof (induction "length a" arbitrary: a rule: less_induct)
  case less
  show ?case
  proof (cases "a = []")
    case False
    then obtain r w where d: "decode_rune (a @ m) = (r, w, True)" and v: "valid_utf8 (drop w (a @ m))" using less.prems valid_step [of "a @ m"] by auto
    show ?thesis
    proof (cases "w \<le> length a")
      case True
      have w: "0 < w" "decode_rune (take w a @ x) = (r, w, True)" for x using decode_ok_take [OF d, of x] True by simp_all
      have "valid_utf8 (drop w a @ m)" using v True by simp
      with less.hyps [of "drop w a"] w False obtain c t where c: "utf8_cut (drop w a) c t" by auto
      have "valid_utf8 (take w a)" using valid_step [of "take w a"] w(2) [of "[]"] w(1) False True by simp
      then have "utf8_cut a (take w a @ c) t" using c by (auto simp: utf8_cut_def valid_append intro: append_take_drop_id [symmetric, THEN trans])
      then show ?thesis by blast
    next
      case False
      then have "utf8_cut a [] a" using decode_ok_prefix [OF d] by (simp add: utf8_cut_def)
      then show ?thesis by blast
    qed
  next
    case True
    then have "utf8_cut a [] []" by (simp add: utf8_cut_def)
    then show ?thesis by blast
  qed
qed

lemma cut_append:
  assumes "utf8_cut a c t"
  shows "utf8_cut (a @ b) (c @ c') t' \<longleftrightarrow> utf8_cut (t @ b) c' t'"
  using assms by (auto simp: utf8_cut_def valid_append)

lemma cut_extends:
  assumes "utf8_cut (a @ b) C T"
  shows "\<exists>c t. utf8_cut a c t"
proof (cases "length C \<le> length a")
  case True
  then obtain T' where "a = C @ T'" "T = T' @ b" using assms unfolding utf8_cut_def
    by (metis append_eq_append_conv_if append_eq_conv_conj append_take_drop_id)
  with assms have "utf8_cut a C T'" using full_rune_mono [of T' b] by (auto simp: utf8_cut_def)
  then show ?thesis by blast
next
  case False
  then obtain m where "C = a @ m" using assms unfolding utf8_cut_def by (metis append_eq_append_conv_if append_take_drop_id nat_le_linear)
  with assms valid_prefix_cut [of a m] show ?thesis by (simp add: utf8_cut_def)
qed

lemma cut_longer:
  assumes "utf8_cut a c t" and "utf8_cut (a @ b) C T"
  shows "\<exists>c'. C = c @ c'"
proof (cases "length c \<le> length C")
  case True
  with assms show ?thesis unfolding utf8_cut_def by (metis append.assoc append_eq_append_conv_if append_take_drop_id)
next
  case False
  then obtain m where m: "c = C @ m" "T = m @ t @ b" "m \<noteq> []" using assms unfolding utf8_cut_def
    by (metis append.assoc append_eq_append_conv_if append_eq_conv_conj append_take_drop_id append_Nil2 nat_le_linear order_refl)
  then have "valid_utf8 m" using assms by (simp add: utf8_cut_def valid_append)
  with valid_full [of m "t @ b"] m(3) assms(2) m(2) show ?thesis by (auto simp: utf8_cut_def)
qed


text \<open>The same for strings, and what the check computes: the part after the last complete rune, if the data can still become valid.\<close>

definition data_cut :: "string \<Rightarrow> string \<Rightarrow> string \<Rightarrow> bool" where
  "data_cut d c t \<longleftrightarrow> d = c @ t \<and> Valid c \<and> (t = [] \<or> \<not> FullRune t)"

lemma codes_append [simp]: "codes (a @ b) = codes a @ codes b"
  by (simp add: codes_def)

lemma codes_inj: "codes a = codes b \<longleftrightarrow> a = b"
  by (simp add: codes_def inj_map_eq_map inj_def)

lemma codes_Nil [simp]: "codes s = [] \<longleftrightarrow> s = []" "codes [] = []"
  by (simp_all add: codes_def)

lemma data_cut_codes: "data_cut d c t \<longleftrightarrow> utf8_cut (codes d) (codes c) (codes t)"
  using codes_inj [of d "c @ t"] by (simp add: data_cut_def utf8_cut_def Valid_def FullRune_def)

lemma utf8_cut_data:
  assumes "utf8_cut (codes d) x y"
  obtains c t where "data_cut d c t" "x = codes c" "y = codes t"
proof -
  have "codes d = x @ y" using assms by (simp add: utf8_cut_def)
  then obtain c t where "d = c @ t" "x = codes c" "y = codes t" unfolding codes_def by (metis map_eq_append_conv)
  with assms that show thesis by (simp add: data_cut_codes)
qed

lemma data_cut_unique: "data_cut d c t \<Longrightarrow> data_cut d c' t' \<Longrightarrow> t = t'"
  unfolding data_cut_codes using cut_unique codes_inj by blast

lemma incomplete_at_cut:
  "incomplete_at w k \<Longrightarrow> data_cut w (take (length w - k) w) (drop (length w - k) w)"
  by (auto simp: incomplete_at_def data_cut_def)

lemma cut_incomplete_at: "data_cut w c t \<Longrightarrow> t \<noteq> [] \<Longrightarrow> incomplete_at w (length t)"
  by (auto simp: incomplete_at_def data_cut_def)

lemma incomplete_tail_Some:
  assumes "data_cut w c t" and "t \<noteq> []"
  shows "incomplete_tail w = Some t"
proof -
  have only: "k = length t" if "incomplete_at w k" for k
  proof -
    have "drop (length w - k) w = t" using data_cut_unique [OF incomplete_at_cut [OF that] assms(1)] .
    moreover have "k \<le> length w" using that by (simp add: incomplete_at_def)
    ultimately show ?thesis by auto
  qed
  have "length t \<le> 3" using assms not_full_short [of "codes t"] by (auto simp: data_cut_def FullRune_def codes_def)
  moreover have "incomplete_at w (length t)" "length t \<noteq> 0" using cut_incomplete_at [OF assms] assms(2) by auto
  moreover have "drop (length w - length t) w = t" using assms(1) by (simp add: data_cut_def)
  ultimately show ?thesis unfolding incomplete_tail_def using only [of 1] only [of 2] only [of 3]
    by (cases "length t = 1"; cases "length t = 2") (auto simp: le_Suc_eq numeral_3_eq_3 numeral_2_eq_2)
qed

lemma incomplete_tail_SomeD: "incomplete_tail w = Some t \<Longrightarrow> \<exists>c. data_cut w c t"
  by (auto simp: incomplete_tail_def dest: incomplete_at_cut split: if_splits)

lemma advance_cut:
  assumes "data_cut w c t" and "\<not> usBroken s" and "w = usTail s @ d"
  shows "advanceUTF8State s d = \<lparr>usBroken = False, usTail = t\<rparr>"
proof (cases "t = []")
  case True
  with assms show ?thesis by (simp add: advanceUTF8State_def data_cut_def)
next
  case False
  have "\<not> Valid w"
  proof
    assume "Valid w"
    then have "data_cut w w []" by (simp add: data_cut_def)
    with data_cut_unique [OF assms(1)] False show False by blast
  qed
  with assms incomplete_tail_Some [OF assms(1) False] show ?thesis by (simp add: advanceUTF8State_def Let_def)
qed

lemma advance_broken:
  assumes "\<nexists>c t. data_cut (usTail s @ d) c t" and "\<not> usBroken s"
  shows "advanceUTF8State s d = \<lparr>usBroken = True, usTail = ''''\<rparr>"
proof -
  have "\<not> Valid (usTail s @ d)" using assms(1) by (auto simp: data_cut_def)
  moreover have "incomplete_tail (usTail s @ d) = None" using assms(1) incomplete_tail_SomeD by (metis option.exhaust)
  ultimately show ?thesis using assms(2) by (simp add: advanceUTF8State_def Let_def)
qed

lemma advance_advance: "advanceUTF8State (advanceUTF8State utf8Clean a) b = advanceUTF8State utf8Clean (a @ b)"
proof (cases "\<exists>c t. data_cut a c t")
  case True
  then obtain c t where a: "data_cut a c t" by blast
  have st: "advanceUTF8State utf8Clean a = \<lparr>usBroken = False, usTail = t\<rparr>" using advance_cut [OF a, of utf8Clean] by simp
  show ?thesis
  proof (cases "\<exists>c' t'. data_cut (t @ b) c' t'")
    case True
    then obtain c' t' where t: "data_cut (t @ b) c' t'" by blast
    then have "data_cut (a @ b) (c @ c') t'" using a cut_append [of "codes a" "codes c" "codes t" "codes b" "codes c'" "codes t'"]
      by (simp add: data_cut_codes)
    with t show ?thesis by (simp add: st advance_cut)
  next
    case False
    have "\<not> data_cut (a @ b) C T" for C T
    proof
      assume C: "data_cut (a @ b) C T"
      then obtain x where x: "codes C = codes c @ x" using cut_longer [of "codes a" "codes c" "codes t" "codes b"] a by (auto simp: data_cut_codes)
      then obtain c' where "C = c @ c'" unfolding codes_def by (metis append_eq_map_conv inj_map_eq_map inj_of_char)
      with C a cut_append [of "codes a" "codes c" "codes t" "codes b" "codes c'" "codes T"] have "data_cut (t @ b) c' T" by (simp add: data_cut_codes)
      with False show False by blast
    qed
    then show ?thesis using False by (simp add: st advance_broken)
  qed
next
  case False
  have "\<not> data_cut (a @ b) C T" for C T
    using False cut_extends [of "codes a" "codes b" "codes C" "codes T"] utf8_cut_data [of a] by (metis codes_append data_cut_codes)
  then have "advanceUTF8State utf8Clean (a @ b) = \<lparr>usBroken = True, usTail = ''''\<rparr>" using advance_broken [of utf8Clean] by simp
  moreover have "advanceUTF8State utf8Clean a = \<lparr>usBroken = True, usTail = ''''\<rparr>" using advance_broken [of utf8Clean] False by simp
  ultimately show ?thesis by (simp add: advanceUTF8State_def)
qed

lemma advance_clean_iff: "advanceUTF8State utf8Clean d = utf8Clean \<longleftrightarrow> Valid d"
proof (cases "Valid d")
  case False
  have "t \<noteq> []" if "incomplete_tail d = Some t" for t
    using that by (auto simp: incomplete_tail_def incomplete_at_def split: if_splits)
  with False show ?thesis by (auto simp: advanceUTF8State_def Let_def split: option.splits)
qed (simp add: advanceUTF8State_def)

text \<open>
  The incremental UTF-8 check is exact: advancing the state of the data read so far by a new chunk gives the state of all the
  data at once. It is clean exactly when all the data is valid UTF-8, and otherwise says whether the data ends within a rune
  or can never become valid again.
\<close>

theorem utf8_incremental:
  "advanceUTF8State (advanceUTF8State utf8Clean a) b = advanceUTF8State utf8Clean (a @ b) \<and>
   (advanceUTF8State utf8Clean (a @ b) = utf8Clean \<longleftrightarrow> Valid (a @ b)) \<and>
   (\<not> usBroken (advanceUTF8State utf8Clean (a @ b)) \<longleftrightarrow> validOrIncompleteUTF8 (a @ b))"
  unfolding advance_advance advance_clean_iff
  by (auto simp: advanceUTF8State_def validOrIncompleteUTF8_def Let_def split: option.splits)

end
