(* ===== verification/Telemetry_Live.thy ===== *)
theory Telemetry_Live
  imports Telemetry_Framing
begin

text \<open>
  The live collector of \<open>internal/telemetry/live.go\<close>: the buffer of an interaction, its resumable scan for record boundaries,
  and the records it emits.
\<close>

section \<open>The resumable scan\<close>

text \<open>
  \<open>ansiSequenceEndFrom\<close>: the end of the sequence at \<open>start\<close> if it is complete, and otherwise where to resume the search. The
  loops stand at an index of the data.
\<close>

function st_from :: "string \<Rightarrow> bool \<Rightarrow> nat \<Rightarrow> nat \<times> bool" where
  "st_from d osc i =
     (if length d \<le> i then (length d, False)
      else if osc \<and> d ! i = BEL then (i + 1, True)
      else if d ! i = ESC then
        (if length d \<le> i + 1 then (i, False) else if d ! (i + 1) = BSL then (i + 2, True) else st_from d osc (i + 1))
      else st_from d osc (i + 1))"
  by auto
termination by (relation "measure (\<lambda>(d, osc, i). length d - i)") auto

function csi_from :: "string \<Rightarrow> nat \<Rightarrow> nat \<times> bool" where
  "csi_from d i =
     (if length d \<le> i then (length d, False) else if csi_final (d ! i) then (i + 1, True) else csi_from d (i + 1))"
  by auto
termination by (relation "measure (\<lambda>(d, i). length d - i)") auto

declare st_from.simps [simp del] csi_from.simps [simp del]

definition ansiSequenceEndFrom :: "string \<Rightarrow> nat \<Rightarrow> nat \<Rightarrow> nat \<times> bool" where
  "ansiSequenceEndFrom d start scanFrom =
     (if length d \<le> start + 1 then (length d, False)
      else
        let introducer = d ! (start + 1); scanFrom = max scanFrom (start + 2)
        in if string_introducer introducer then st_from d (introducer = CHR '']'') scanFrom
           else if introducer \<noteq> CHR ''['' then (start + 2, True)
           else csi_from d scanFrom)"

definition DirectionAgent :: string where "DirectionAgent = ''agent''"
definition DirectionHuman :: string where "DirectionHuman = ''human''"
definition StreamOutput :: string where "StreamOutput = ''output''"
definition StreamThinking :: string where "StreamThinking = ''thinking''"
definition StreamInput :: string where "StreamInput = ''input''"

record interactionBuffer =
  ibDirection :: string
  ibStream :: string
  ibData :: string
  scanned :: nat
  frameRetryAt :: nat
  escStart :: "nat option"
  escScanned :: nat
  ibUTF8 :: utf8State

definition newInteractionBuffer :: "string \<Rightarrow> string \<Rightarrow> interactionBuffer" where
  "newInteractionBuffer direction stream =
     \<lparr>ibDirection = direction, ibStream = stream, ibData = '''', scanned = 0, frameRetryAt = 0, escStart = None, escScanned = 0, ibUTF8 = utf8Clean\<rparr>"

text \<open>
  The end of a synchronized update is a boundary for full-screen providers, where \<open>safeFrameBoundary\<close> finds one. That
  function matches regular expressions for credentials and is the parameter \<open>safe\<close> of the scan.
\<close>

definition frame_marker :: "interactionBuffer \<Rightarrow> nat \<Rightarrow> nat \<Rightarrow> bool" where
  "frame_marker p start e \<longleftrightarrow>
     ibDirection p = DirectionAgent \<and> ibStream p = StreamOutput \<and> take (e - start) (drop start (ibData p)) = ESC # ''[?2026l''"

definition frameBoundary :: "(string \<Rightarrow> nat) \<Rightarrow> interactionBuffer \<Rightarrow> nat \<Rightarrow> nat \<times> interactionBuffer" where
  "frameBoundary safe p e =
     (if e < frameRetryAt p then (0, p)
      else let boundary = safe (take e (ibData p)) in (boundary, if boundary = 0 then p\<lparr>frameRetryAt := e * 2\<rparr> else p))"

definition isRecordBoundary :: "char \<Rightarrow> bool" where
  "isRecordBoundary c \<longleftrightarrow> c = LF \<or> c = CR"

lemma st_from_bounds: "st_from d osc i = (e, b) \<Longrightarrow> i \<le> length d \<Longrightarrow> i \<le> e \<and> e \<le> length d \<and> (b \<longrightarrow> i < e)"
  by (induction d osc i arbitrary: e rule: st_from.induct) (subst (asm) (2) st_from.simps, fastforce split: if_splits)

lemma csi_from_bounds: "csi_from d i = (e, b) \<Longrightarrow> i \<le> length d \<Longrightarrow> i \<le> e \<and> e \<le> length d \<and> (b \<longrightarrow> i < e)"
  by (induction d i arbitrary: e rule: csi_from.induct) (subst (asm) (2) csi_from.simps, fastforce split: if_splits)

lemma ansiFrom_bounds:
  assumes "ansiSequenceEndFrom d s f = (e, b)" and "f \<le> length d \<or> f \<le> s + 2"
  shows "e \<le> length d \<and> (b \<longrightarrow> s + 2 \<le> e)"
proof (cases "length d \<le> s + 1")
  case False
  let ?f = "max f (s + 2)"
  have f: "?f \<le> length d" "s + 2 \<le> ?f" using False assms(2) by auto
  from False assms(1) consider "st_from d (d ! (s + 1) = CHR '']'') ?f = (e, b)" | "(e, b) = (s + 2, True)" | "csi_from d ?f = (e, b)"
    by (auto simp: ansiSequenceEndFrom_def Let_def split: if_splits)
  then show ?thesis
  proof cases
    case 1
    with st_from_bounds [OF 1 f(1)] f(2) show ?thesis by auto
  next
    case 2
    with False show ?thesis by simp
  next
    case 3
    with csi_from_bounds [OF 3 f(1)] f(2) show ?thesis by auto
  qed
qed (use assms in \<open>simp add: ansiSequenceEndFrom_def\<close>)


lemma ansi_progress: "(e, True) = ansiSequenceEndFrom d i (Suc (Suc i)) \<Longrightarrow> i < e"
  using ansiFrom_bounds [of d i "i + 2" e True] by auto

lemma frameBoundary_data: "frameBoundary safe p e = (b, q) \<Longrightarrow> ibData q = ibData p"
  by (auto simp: frameBoundary_def Let_def split: if_splits)

function scan_loop :: "(string \<Rightarrow> nat) \<Rightarrow> interactionBuffer \<Rightarrow> nat \<Rightarrow> nat \<times> interactionBuffer" where
  "scan_loop safe p i =
     (let d = ibData p
      in if length d \<le> i then (0, p\<lparr>scanned := i\<rparr>)
         else if d ! i = ESC then
           (case ansiSequenceEndFrom d i (i + 2) of
              (e, False) \<Rightarrow> (0, p\<lparr>escStart := Some i, escScanned := e, scanned := i\<rparr>)
            | (e, True) \<Rightarrow>
                if frame_marker p i e
                then (case frameBoundary safe p e of (boundary, q) \<Rightarrow> if 0 < boundary then (boundary, q) else scan_loop safe q e)
                else scan_loop safe p e)
         else if isRecordBoundary (d ! i) then (i + 1, p)
         else scan_loop safe p (i + 1))"
  by auto
termination
proof (relation "measure (\<lambda>(safe, p, i). length (ibData p) - i)", goal_cases)
  case 2
  from 2(1,2,4-) show ?case by auto (metis ansi_progress diff_less_mono2 frameBoundary_data not_le)
next
  case 3
  from 3(1,2,4-) show ?case by auto (metis ansi_progress diff_less_mono2 not_le)
qed auto

declare scan_loop.simps [simp del]

definition nextInteractionBoundary :: "(string \<Rightarrow> nat) \<Rightarrow> interactionBuffer \<Rightarrow> nat \<times> interactionBuffer" where
  "nextInteractionBoundary safe p =
     (let d = ibData p; p0 = (if length d < scanned p then p\<lparr>scanned := 0, frameRetryAt := 0\<rparr> else p)
      in case escStart p0 of
           None \<Rightarrow> scan_loop safe p0 (scanned p0)
         | Some s \<Rightarrow>
             (case ansiSequenceEndFrom d s (escScanned p0) of
                (e, False) \<Rightarrow> (0, p0\<lparr>escScanned := e\<rparr>)
              | (e, True) \<Rightarrow>
                  let p1 = p0\<lparr>escStart := None\<rparr>
                  in if frame_marker p1 s e
                     then (case frameBoundary safe p1 e of (boundary, q) \<Rightarrow> if 0 < boundary then (boundary, q) else scan_loop safe q e)
                     else scan_loop safe p1 e))"

section \<open>Resuming is rescanning\<close>

lemma st_from_more:
  "st_from d osc i = (e, b) \<Longrightarrow> i \<le> length d \<Longrightarrow> st_from (d @ x) osc i = (if b then (e, True) else st_from (d @ x) osc e)"
proof (induction d osc i arbitrary: e rule: st_from.induct)
  case (1 d osc i)
  have nth: "(d @ x) ! i = d ! i" "i + 1 < length d \<Longrightarrow> (d @ x) ! (i + 1) = d ! (i + 1)" if "i < length d" using that by (simp_all add: nth_append)
  consider (stop) "e = i" "\<not> b" | (found) "i < length d" "b" "osc \<and> d ! i = BEL \<or> d ! i = ESC \<and> i + 1 < length d \<and> d ! (i + 1) = BSL"
    | (on) "i < length d" "\<not> (osc \<and> d ! i = BEL)" "\<not> (d ! i = ESC \<and> (length d \<le> i + 1 \<or> d ! (i + 1) = BSL))"
    using 1(3,4) by (auto simp: st_from.simps [of d osc i] not_le split: if_splits)
  then show ?case
  proof cases
    case found
    with 1(3) nth show ?thesis by (auto simp: st_from.simps [of d osc i] st_from.simps [of "d @ x" osc i] split: if_splits)
  next
    case on
    then have "st_from d osc i = st_from d osc (i + 1)" "st_from (d @ x) osc i = st_from (d @ x) osc (i + 1)"
      using nth by (auto simp: st_from.simps [of d osc i] st_from.simps [of "d @ x" osc i] not_le)
    with 1 on show ?thesis by (cases "d ! i = ESC") auto
  qed simp
qed

lemma csi_from_more:
  "csi_from d i = (e, b) \<Longrightarrow> i \<le> length d \<Longrightarrow> csi_from (d @ x) i = (if b then (e, True) else csi_from (d @ x) e)"
proof (induction d i arbitrary: e rule: csi_from.induct)
  case (1 d i)
  have nth: "(d @ x) ! i = d ! i" if "i < length d" using that by (simp add: nth_append)
  consider (stop) "e = i" "\<not> b" | (found) "i < length d" "b" "csi_final (d ! i)" | (on) "i < length d" "\<not> csi_final (d ! i)"
    using 1(2,3) by (auto simp: csi_from.simps [of d i] not_le split: if_splits)
  then show ?case
  proof cases
    case found
    with 1(2) nth show ?thesis by (auto simp: csi_from.simps [of d i] csi_from.simps [of "d @ x" i] split: if_splits)
  next
    case on
    then have "csi_from d i = csi_from d (i + 1)" "csi_from (d @ x) i = csi_from (d @ x) (i + 1)"
      using nth by (auto simp: csi_from.simps [of d i] csi_from.simps [of "d @ x" i])
    with 1 on show ?thesis by auto
  qed simp
qed

lemma ansiFrom_more:
  assumes "ansiSequenceEndFrom d s f = (e, b)" and "s < length d" and "f \<le> length d \<or> f \<le> s + 2"
  shows "ansiSequenceEndFrom (d @ x) s f = (if b then (e, True) else ansiSequenceEndFrom (d @ x) s e)"
proof (cases "length d \<le> s + 1")
  case True
  then have "e = length d" "\<not> b" "max e (s + 2) = s + 2" "max f (s + 2) = s + 2" using assms by (auto simp: ansiSequenceEndFrom_def)
  then show ?thesis by (simp add: ansiSequenceEndFrom_def Let_def)
next
  case False
  let ?f = "max f (s + 2)"
  have f: "?f \<le> length d" "s + 2 \<le> ?f" using False assms(3) by auto
  have nth: "(d @ x) ! (s + 1) = d ! (s + 1)" using False by (simp add: nth_append)
  from False assms(1) consider
      "string_introducer (d ! (s + 1))" "st_from d (d ! (s + 1) = CHR '']'') ?f = (e, b)"
    | "\<not> string_introducer (d ! (s + 1))" "d ! (s + 1) \<noteq> CHR ''[''" "(e, b) = (s + 2, True)"
    | "\<not> string_introducer (d ! (s + 1))" "d ! (s + 1) = CHR ''[''" "csi_from d ?f = (e, b)"
    by (auto simp: ansiSequenceEndFrom_def Let_def split: if_splits)
  then show ?thesis
  proof cases
    case 1
    then have "max e (s + 2) = e" using st_from_bounds [OF 1(2) f(1)] f(2) by auto
    with 1 st_from_more [OF 1(2) f(1), of x] nth False show ?thesis by (auto simp: ansiSequenceEndFrom_def Let_def)
  next
    case 2
    with nth False show ?thesis by (auto simp: ansiSequenceEndFrom_def Let_def)
  next
    case 3
    then have "max e (s + 2) = e" using csi_from_bounds [OF 3(3) f(1)] f(2) by auto
    with 3 csi_from_more [OF 3(3) f(1), of x] nth False show ?thesis by (auto simp: ansiSequenceEndFrom_def Let_def)
  qed
qed


text \<open>
  A scan without result: its markers all lie before the next retry, so that scanning the data again, extended or not, from the
  same index passes over them to where the scan stopped.
\<close>

definition resumable :: "interactionBuffer \<Rightarrow> bool" where
  "resumable p \<longleftrightarrow> scanned p \<le> length (ibData p) \<and>
     (\<forall>s. escStart p = Some s \<longrightarrow> s = scanned p \<and> s < length (ibData p) \<and> ibData p ! s = ESC \<and>
        (\<forall>x. ansiSequenceEndFrom (ibData p @ x) s (escScanned p) = ansiSequenceEndFrom (ibData p @ x) s (s + 2)))"

definition passes :: "(string \<Rightarrow> nat) \<Rightarrow> interactionBuffer \<Rightarrow> nat \<Rightarrow> bool" where
  "passes safe q i \<longleftrightarrow> (\<forall>x p. ibData p = ibData q @ x \<longrightarrow> frameRetryAt p = frameRetryAt q \<longrightarrow> ibDirection p = ibDirection q \<longrightarrow>
     ibStream p = ibStream q \<longrightarrow> scan_loop safe p i = scan_loop safe p (scanned q))"

definition same_source :: "interactionBuffer \<Rightarrow> interactionBuffer \<Rightarrow> bool" where
  "same_source p q \<longleftrightarrow> ibData q = ibData p \<and> ibDirection q = ibDirection p \<and> ibStream q = ibStream p \<and> ibUTF8 q = ibUTF8 p"

lemma frameBoundary_none:
  assumes "frameBoundary safe p e = (0, q)" and "0 < e"
  shows "same_source p q \<and> escStart q = escStart p \<and> frameRetryAt p \<le> frameRetryAt q \<and> e < frameRetryAt q \<and> scanned q = scanned p \<and> escScanned q = escScanned p"
  using assms by (auto simp: frameBoundary_def Let_def same_source_def split: if_splits)

lemma frame_marker_cong:
  assumes "ibData p = ibData q @ x" "ibDirection p = ibDirection q" "ibStream p = ibStream q" "e \<le> length (ibData q)" "i \<le> e"
  shows "frame_marker p i e = frame_marker q i e"
proof -
  have "take (e - i) (drop i (ibData p)) = take (e - i) (drop i (ibData q))" using assms by simp
  with assms show ?thesis by (simp add: frame_marker_def)
qed

lemma scan_esc_step:
  assumes "i < length (ibData p)" and "ibData p ! i = ESC" and "ansiSequenceEndFrom (ibData p) i (i + 2) = (e, True)"
    and "\<not> frame_marker p i e \<or> e < frameRetryAt p"
  shows "scan_loop safe p i = scan_loop safe p e"
  using assms by (auto simp: scan_loop.simps [of safe p i] Let_def frameBoundary_def)

lemma scan_none:
  assumes "scan_loop safe p i = (0, q)" and "i \<le> length (ibData p)" and "escStart p = None"
  shows "same_source p q \<and> frameRetryAt p \<le> frameRetryAt q \<and> i \<le> scanned q \<and> resumable q \<and> passes safe q i"
  using assms
proof (induction safe p i arbitrary: q rule: scan_loop.induct)
  case (1 safe p i)
  show ?case
  proof (cases "length (ibData p) \<le> i")
    case True
    then have "q = p\<lparr>scanned := i\<rparr>" using 1(4) by (simp add: scan_loop.simps [of safe p i] Let_def)
    with 1(5,6) show ?thesis by (simp add: same_source_def resumable_def passes_def)
  next
    case long: False
    then have i: "i < length (ibData p)" by simp
    show ?thesis
    proof (cases "ibData p ! i = ESC")
      case False
      then have nb: "\<not> isRecordBoundary (ibData p ! i)" and s: "scan_loop safe p (i + 1) = (0, q)"
        using 1(4) long by (auto simp: scan_loop.simps [of safe p i] Let_def split: if_splits)
      have IH: "same_source p q \<and> frameRetryAt p \<le> frameRetryAt q \<and> i + 1 \<le> scanned q \<and> resumable q \<and> passes safe q (i + 1)"
        using 1(3) [OF refl long False nb s] 1(6) i by simp
      have "scan_loop safe r i = scan_loop safe r (i + 1)" if "ibData r = ibData q @ x" for r x
      proof -
        have "ibData r ! i = ibData p ! i" "i < length (ibData r)" using that IH i by (auto simp: same_source_def nth_append)
        with False nb show ?thesis by (simp add: scan_loop.simps [of safe r i] Let_def)
      qed
      with IH show ?thesis by (auto simp: passes_def)
    next
      case esc: True
      obtain e b where a: "ansiSequenceEndFrom (ibData p) i (i + 2) = (e, b)" by fastforce
      show ?thesis
      proof (cases b)
        case False
        then have q: "q = p\<lparr>escStart := Some i, escScanned := e, scanned := i\<rparr>"
          using 1(4) long esc a by (simp add: scan_loop.simps [of safe p i] Let_def)
        have "ansiSequenceEndFrom (ibData p @ x) i e = ansiSequenceEndFrom (ibData p @ x) i (i + 2)" for x
          using ansiFrom_more [OF a i, of x] False by simp
        with q esc i show ?thesis by (simp add: same_source_def resumable_def passes_def)
      next
        case True
        have e: "i + 2 \<le> e" "e \<le> length (ibData p)" using ansiFrom_bounds [OF a] True by auto
        have a': "(e, True) = ansiSequenceEndFrom (ibData p) i (i + 2)" using a True by simp
        obtain p1 where p1: "scan_loop safe p1 e = (0, q)" "same_source p p1" "frameRetryAt p \<le> frameRetryAt p1" "escStart p1 = None"
            "\<not> frame_marker p i e \<or> e < frameRetryAt p1"
            and IH: "same_source p1 q \<and> frameRetryAt p1 \<le> frameRetryAt q \<and> e \<le> scanned q \<and> resumable q \<and> passes safe q e"
        proof (cases "frame_marker p i e")
          case fm: True
          obtain bd p1 where f: "frameBoundary safe p e = (bd, p1)" by fastforce
          then have bd: "bd = 0" and s: "scan_loop safe p1 e = (0, q)"
            using 1(4) long esc a True fm by (auto simp: scan_loop.simps [of safe p i] Let_def split: if_splits)
          have fr: "same_source p p1" "escStart p1 = None" "frameRetryAt p \<le> frameRetryAt p1" "e < frameRetryAt p1"
            using frameBoundary_none [of safe p e p1] f bd e 1(6) by auto
          have "same_source p1 q \<and> frameRetryAt p1 \<le> frameRetryAt q \<and> e \<le> scanned q \<and> resumable q \<and> passes safe q e"
            using 1(1) [OF refl long esc a' refl fm f [symmetric]] bd s fr e by (simp add: same_source_def)
          with that s fr show thesis by blast
        next
          case fm: False
          then have s: "scan_loop safe p e = (0, q)" using 1(4) long esc a True by (simp add: scan_loop.simps [of safe p i] Let_def)
          have "same_source p q \<and> frameRetryAt p \<le> frameRetryAt q \<and> e \<le> scanned q \<and> resumable q \<and> passes safe q e"
            using 1(2) [OF refl long esc a' refl fm s] e 1(6) by simp
          with that [of p] s fm 1(6) show thesis by (simp add: same_source_def)
        qed
        have src: "same_source p q" using p1(2) IH by (simp add: same_source_def)
        have "scan_loop safe r i = scan_loop safe r e"
          if r: "ibData r = ibData q @ x" "frameRetryAt r = frameRetryAt q" "ibDirection r = ibDirection q" "ibStream r = ibStream q" for r x
        proof (rule scan_esc_step)
          have d: "ibData r = ibData p @ x" "ibDirection r = ibDirection p" "ibStream r = ibStream p" using r src by (simp_all add: same_source_def)
          then show "i < length (ibData r)" "ibData r ! i = ESC" using i esc by (simp_all add: nth_append)
          show "ansiSequenceEndFrom (ibData r) i (i + 2) = (e, True)" using ansiFrom_more [OF a i, of x] True d(1) by simp
          show "\<not> frame_marker r i e \<or> e < frameRetryAt r" using frame_marker_cong [OF d e(2), of i] e(1) p1(5) IH r(2) by auto
        qed
        with IH p1(3) src e(1) show ?thesis by (auto simp: passes_def)
      qed
    qed
  qed
qed


text \<open>
  The states of a buffer between two boundaries: new or after a boundary, which leaves \<open>escScanned\<close> as it was, and after a scan without
  result followed by more data.
\<close>

inductive scanning :: "(string \<Rightarrow> nat) \<Rightarrow> interactionBuffer \<Rightarrow> bool" for safe where
  Fresh: "scanning safe ((newInteractionBuffer dir str)\<lparr>ibData := dat, escScanned := n, ibUTF8 := u\<rparr>)"
| More: "scanning safe p \<Longrightarrow> nextInteractionBoundary safe p = (0, p') \<Longrightarrow> scanning safe (p'\<lparr>ibData := ibData p' @ dat, ibUTF8 := u\<rparr>)"

definition rescan :: "(string \<Rightarrow> nat) \<Rightarrow> interactionBuffer \<Rightarrow> nat \<times> interactionBuffer" where
  "rescan safe p = nextInteractionBoundary safe (p\<lparr>scanned := 0, escStart := None\<rparr>)"

lemma scan_loop_scanned:
  "fst (scan_loop safe (p\<lparr>scanned := n\<rparr>) i) = fst (scan_loop safe p i) \<and>
   (fst (scan_loop safe p i) = 0 \<longrightarrow> snd (scan_loop safe (p\<lparr>scanned := n\<rparr>) i) = snd (scan_loop safe p i))"
proof (induction safe p i rule: scan_loop.induct)
  case (1 safe p i)
  let ?p = "p\<lparr>scanned := n\<rparr>"
  have d: "ibData ?p = ibData p" and fm: "frame_marker ?p i e = frame_marker p i e" for e by (simp_all add: frame_marker_def)
  have fb: "frameBoundary safe ?p e = (fst (frameBoundary safe p e), (snd (frameBoundary safe p e))\<lparr>scanned := n\<rparr>)" for e
    by (simp add: frameBoundary_def Let_def)
  obtain e b where a: "ansiSequenceEndFrom (ibData p) i (i + 2) = (e, b)" by fastforce
  obtain bd q where f: "frameBoundary safe p e = (bd, q)" by fastforce
  consider (long) "length (ibData p) \<le> i" | (unfinished) "\<not> length (ibData p) \<le> i" "ibData p ! i = ESC" "\<not> b"
    | (frame) "\<not> length (ibData p) \<le> i" "ibData p ! i = ESC" "b" "frame_marker p i e"
    | (seq) "\<not> length (ibData p) \<le> i" "ibData p ! i = ESC" "b" "\<not> frame_marker p i e"
    | (plain) "\<not> length (ibData p) \<le> i" "ibData p ! i \<noteq> ESC" by blast
  then show ?case
  proof cases
    case frame
    then have a': "(e, True) = ansiSequenceEndFrom (ibData p) i (i + 2)" using a by simp
    have "scan_loop safe p i = (if 0 < bd then (bd, q) else scan_loop safe q e)"
      "scan_loop safe ?p i = (if 0 < bd then (bd, q\<lparr>scanned := n\<rparr>) else scan_loop safe (q\<lparr>scanned := n\<rparr>) e)"
      using frame a' [symmetric] f fb [of e] by (simp_all add: scan_loop.simps [of safe p i] scan_loop.simps [of safe ?p i] Let_def fm)
    then show ?thesis using 1(1) [OF refl frame(1,2) a' refl frame(4) f [symmetric]] by (cases "0 < bd") auto
  next
    case seq
    then have a': "(e, True) = ansiSequenceEndFrom (ibData p) i (i + 2)" using a by simp
    have "scan_loop safe p i = scan_loop safe p e" "scan_loop safe ?p i = scan_loop safe ?p e"
      using seq a' [symmetric] by (simp_all add: scan_loop.simps [of safe p i] scan_loop.simps [of safe ?p i] Let_def fm)
    then show ?thesis using 1(2) [OF refl seq(1,2) a' refl seq(4)] by simp
  next
    case plain
    show ?thesis
    proof (cases "isRecordBoundary (ibData p ! i)")
      case True
      with plain show ?thesis by (simp add: scan_loop.simps [of safe p i] scan_loop.simps [of safe ?p i] Let_def)
    next
      case False
      then have "scan_loop safe p i = scan_loop safe p (i + 1)" "scan_loop safe ?p i = scan_loop safe ?p (i + 1)"
        using plain by (simp_all add: scan_loop.simps [of safe p i] scan_loop.simps [of safe ?p i] Let_def)
      then show ?thesis using 1(3) [OF refl plain False] by simp
    qed
  qed (use a in \<open>simp_all add: scan_loop.simps [of safe p i] scan_loop.simps [of safe ?p i] Let_def\<close>)
qed

lemma next_is_loop:
  assumes "resumable p"
  shows "nextInteractionBoundary safe p = scan_loop safe (p\<lparr>escStart := None\<rparr>) (scanned p)"
proof (cases "escStart p")
  case None
  then have eq: "p\<lparr>escStart := None\<rparr> = p" by simp
  show ?thesis unfolding eq using None assms by (simp add: nextInteractionBoundary_def Let_def resumable_def)
next
  case (Some s)
  let ?p = "p\<lparr>escStart := None\<rparr>"
  from assms Some have s: "s = scanned p" "s < length (ibData p)" "ibData p ! s = ESC"
      "ansiSequenceEndFrom (ibData p @ []) s (escScanned p) = ansiSequenceEndFrom (ibData p @ []) s (s + 2)"
    unfolding resumable_def by blast+
  obtain e b where a: "ansiSequenceEndFrom (ibData p) s (s + 2) = (e, b)" by fastforce
  have "p\<lparr>escScanned := e\<rparr> = ?p\<lparr>escStart := Some s, escScanned := e, scanned := s\<rparr>" using Some s(1) by (cases p) simp
  with Some s a assms show ?thesis
    by (cases b) (simp_all add: nextInteractionBoundary_def scan_loop.simps [of safe ?p "scanned p"] Let_def resumable_def)
qed

lemma scanning_ok: "scanning safe p \<Longrightarrow> resumable p \<and> passes safe p 0"
proof (induction rule: scanning.induct)
  case Fresh
  then show ?case by (simp add: newInteractionBuffer_def resumable_def passes_def)
next
  case (More p p' u dat)
  have "scan_loop safe (p\<lparr>escStart := None\<rparr>) 0 = scan_loop safe (p\<lparr>escStart := None\<rparr>) (scanned p)"
    using More.IH unfolding passes_def by (metis append_Nil2 interactionBuffer.simps(1-4,5) interactionBuffer.ext_inject interactionBuffer.surjective interactionBuffer.update_convs(6))
  then have "scan_loop safe (p\<lparr>escStart := None\<rparr>) 0 = (0, p')" using More next_is_loop [of p safe] by simp
  from scan_none [OF this] have q: "same_source p p' \<and> resumable p' \<and> passes safe p' 0" by (simp add: same_source_def)
  then have "resumable (p'\<lparr>ibData := ibData p' @ dat, ibUTF8 := u\<rparr>)" by (auto simp: resumable_def nth_append)
  moreover have "passes safe (p'\<lparr>ibData := ibData p' @ dat, ibUTF8 := u\<rparr>) 0" using q unfolding passes_def by simp
  ultimately show ?case by blast
qed

text \<open>
  C37. The resumable scan is exact: between two boundaries, whatever the chunks the data came in, the scan that continues where the
  last one stopped, within an unfinished escape sequence too, finds the same boundary as a scan of all the buffered data
  from its first byte, and when there is none leaves the same state.
\<close>

theorem scan_resumes:
  assumes "scanning safe p"
  shows "fst (nextInteractionBoundary safe p) = fst (rescan safe p) \<and>
    (fst (rescan safe p) = 0 \<longrightarrow> snd (nextInteractionBoundary safe p) = snd (rescan safe p))"
proof -
  let ?p = "p\<lparr>escStart := None\<rparr>"
  have ok: "resumable p" "passes safe p 0" using scanning_ok [OF assms] by blast+
  have "scan_loop safe ?p 0 = scan_loop safe ?p (scanned p)" using ok(2) unfolding passes_def by (auto elim!: allE [of _ "[]"])
  then have "nextInteractionBoundary safe p = scan_loop safe ?p 0" using next_is_loop [OF ok(1)] by simp
  moreover have "rescan safe p = scan_loop safe (?p\<lparr>scanned := 0\<rparr>) 0"
  proof -
    have eq: "p\<lparr>scanned := 0, escStart := None\<rparr> = ?p\<lparr>scanned := 0\<rparr>" "(?p\<lparr>scanned := 0\<rparr>)\<lparr>escStart := None\<rparr> = ?p\<lparr>scanned := 0\<rparr>"
      "scanned (?p\<lparr>scanned := 0\<rparr>) = 0" by (cases p, simp)+
    have "resumable (?p\<lparr>scanned := 0\<rparr>)" by (simp add: resumable_def)
    from next_is_loop [OF this, of safe] show ?thesis unfolding rescan_def eq .
  qed
  ultimately show ?thesis using scan_loop_scanned [where safe = safe and p = ?p and n = 0 and i = 0] by metis
qed


theorem scan_resumes_witness:
  "\<exists>p. scanning (\<lambda>_. 0) p \<and> ibData p = ''ab'' @ [ESC] @ ''[0mc'' @ [LF] \<and> escStart p = Some 2 \<and> fst (nextInteractionBoundary (\<lambda>_. 0) p) = 8"
proof -
  let ?p0 = "(newInteractionBuffer DirectionHuman StreamInput)\<lparr>ibData := ''ab'' @ [ESC] @ ''[0'', escScanned := 7, ibUTF8 := utf8Clean\<rparr>"
  note defs = nextInteractionBoundary_def newInteractionBuffer_def scan_loop.simps ansiSequenceEndFrom_def csi_from.simps csi_final_def string_introducer_def
    isRecordBoundary_def frame_marker_def Let_def
  obtain p' where p': "nextInteractionBoundary (\<lambda>_. 0) ?p0 = (0, p')" "escStart p' = Some 2" "ibData p' = ''ab'' @ [ESC] @ ''[0''"
    by (simp add: defs)
  let ?p = "p'\<lparr>ibData := ibData p' @ ''mc'' @ [LF], ibUTF8 := utf8Clean\<rparr>"
  have s: "scanning (\<lambda>_. 0) ?p" by (rule More [OF Fresh p'(1)])
  have "fst (rescan (\<lambda>_. 0) ?p) = 8" using p'(3) by (simp add: rescan_def defs DirectionAgent_def)
  with scan_resumes [OF s] p' s show ?thesis by (intro exI [of _ ?p]) simp
qed

section \<open>Records of an interaction\<close>

text \<open>
  What the collector hands on for analysis: a record of at most \<open>maxInteractionBufferSize\<close> bytes, or the omission of a longer one.
\<close>

abbreviation maxInteractionBufferSize :: nat where "maxInteractionBufferSize \<equiv> 1048576"

record emission =
  emDirection :: string
  emStream :: string
  emOmitted :: bool
  emData :: string

lemma scan_loop_data: "ibData (snd (scan_loop safe p i)) = ibData p"
proof (induction safe p i rule: scan_loop.induct)
  case (1 safe p i)
  obtain e b where a: "ansiSequenceEndFrom (ibData p) i (i + 2) = (e, b)" by fastforce
  obtain bd q where f: "frameBoundary safe p e = (bd, q)" by fastforce
  note fd = frameBoundary_data [OF f]
  show ?case
  proof (cases "length (ibData p) \<le> i \<or> ibData p ! i \<noteq> ESC \<and> isRecordBoundary (ibData p ! i) \<or> ibData p ! i = ESC \<and> \<not> b")
    case True
    with a show ?thesis by (auto simp: scan_loop.simps [of safe p i] Let_def)
  next
    case False
    then have l: "\<not> length (ibData p) \<le> i" by simp
    show ?thesis
    proof (cases "ibData p ! i = ESC")
      case esc: True
      then have a': "(e, True) = ansiSequenceEndFrom (ibData p) i (i + 2)" using a False by simp
      show ?thesis
      proof (cases "frame_marker p i e")
        case fm: True
        from 1(1) [OF refl l esc a' refl fm f [symmetric]] fd f fm l esc a' [symmetric] show ?thesis
          by (cases "0 < bd") (simp_all add: scan_loop.simps [of safe p i] Let_def)
      next
        case fm: False
        from 1(2) [OF refl l esc a' refl fm] fm l esc a' [symmetric] show ?thesis by (simp add: scan_loop.simps [of safe p i] Let_def)
      qed
    next
      case plain: False
      with False have nb: "\<not> isRecordBoundary (ibData p ! i)" by simp
      from 1(3) [OF refl l plain nb] l plain nb show ?thesis by (simp add: scan_loop.simps [of safe p i] Let_def)
    qed
  qed
qed

lemma next_data:
  assumes "nextInteractionBoundary safe p = (b, q)"
  shows "ibData q = ibData p" and "0 < b \<Longrightarrow> ibData p \<noteq> []"
proof -
  have q: "q = snd (nextInteractionBoundary safe p)" "b = fst (nextInteractionBoundary safe p)" using assms by simp_all
  let ?p = "if length (ibData p) < scanned p then p\<lparr>scanned := 0, frameRetryAt := 0\<rparr> else p"
  show "ibData q = ibData p"
  proof (cases "escStart ?p")
    case None
    then have "q = snd (scan_loop safe ?p (scanned ?p))" using q by (simp add: nextInteractionBoundary_def Let_def split: option.splits)
    then show ?thesis by (simp add: scan_loop_data)
  next
    case (Some s)
    obtain e c where a: "ansiSequenceEndFrom (ibData p) s (escScanned ?p) = (e, c)" by fastforce
    let ?p1 = "?p\<lparr>escStart := None\<rparr>"
    obtain bd r where f: "frameBoundary safe ?p1 e = (bd, r)" by fastforce
    have p1: "ibData ?p1 = ibData p" by simp
    have "q \<in> {?p\<lparr>escScanned := e\<rparr>, r, snd (scan_loop safe r e), snd (scan_loop safe ?p1 e)}"
      using q Some a f by (simp add: nextInteractionBoundary_def Let_def split: if_splits bool.splits)
    then show ?thesis using frameBoundary_data [OF f] p1 by (auto simp: scan_loop_data)
  qed
  have "fst (nextInteractionBoundary safe p) = 0" if "ibData p = []"
    using that by (auto simp: nextInteractionBoundary_def scan_loop.simps ansiSequenceEndFrom_def Let_def split: option.splits)
  then show "0 < b \<Longrightarrow> ibData p \<noteq> []" using q(2) by auto
qed


lemma frameBoundary_source: "frameBoundary safe p e = (b, q) \<Longrightarrow> same_source p q"
  by (auto simp: frameBoundary_def Let_def same_source_def split: if_splits)

lemma same_source_trans: "same_source p q \<Longrightarrow> same_source q r \<Longrightarrow> same_source p r"
  by (simp add: same_source_def)

lemma scan_loop_source:
  assumes "\<And>r. safe r \<le> length r"
  shows "same_source p (snd (scan_loop safe p i)) \<and> fst (scan_loop safe p i) \<le> length (ibData p)"
  using assms
proof (induction safe p i rule: scan_loop.induct)
  case (1 safe p i)
  obtain e b where a: "ansiSequenceEndFrom (ibData p) i (i + 2) = (e, b)" by fastforce
  obtain bd q where f: "frameBoundary safe p e = (bd, q)" by fastforce
  note fs = frameBoundary_source [OF f]
  show ?case
  proof (cases "length (ibData p) \<le> i \<or> ibData p ! i \<noteq> ESC \<and> isRecordBoundary (ibData p ! i) \<or> ibData p ! i = ESC \<and> \<not> b")
    case True
    with a show ?thesis by (auto simp: scan_loop.simps [of safe p i] same_source_def Let_def)
  next
    case False
    then have l: "\<not> length (ibData p) \<le> i" by simp
    show ?thesis
    proof (cases "ibData p ! i = ESC")
      case esc: True
      then have a': "(e, True) = ansiSequenceEndFrom (ibData p) i (i + 2)" using a False by simp
      show ?thesis
      proof (cases "frame_marker p i e")
        case fm: True
        have bd: "bd \<le> length (ibData p)" using f 1(4) [of "take e (ibData p)"] by (auto simp: frameBoundary_def Let_def split: if_splits)
        have "same_source p (snd (scan_loop safe q e)) \<and> fst (scan_loop safe q e) \<le> length (ibData p)" if "\<not> 0 < bd"
          using 1(1) [OF refl l esc a' refl fm f [symmetric] that 1(4)] fs same_source_trans by (auto simp: same_source_def)
        with fs bd f fm l esc a' [symmetric] show ?thesis
          by (cases "0 < bd") (simp_all add: scan_loop.simps [of safe p i] Let_def)
      next
        case fm: False
        from 1(2) [OF refl l esc a' refl fm 1(4)] fm l esc a' [symmetric] show ?thesis by (simp add: scan_loop.simps [of safe p i] Let_def)
      qed
    next
      case plain: False
      with False have nb: "\<not> isRecordBoundary (ibData p ! i)" by simp
      from 1(3) [OF refl l plain nb 1(4)] l plain nb show ?thesis by (simp add: scan_loop.simps [of safe p i] Let_def)
    qed
  qed
qed

lemma next_source:
  assumes "nextInteractionBoundary safe p = (b, q)" and safe: "\<And>r. safe r \<le> length r"
  shows "same_source p q \<and> b \<le> length (ibData p)"
proof -
  define p0 where "p0 = (if length (ibData p) < scanned p then p\<lparr>scanned := 0, frameRetryAt := 0\<rparr> else p)"
  have src: "same_source p p0" "same_source p (p0\<lparr>escStart := None\<rparr>)" "\<And>e. same_source p (p0\<lparr>escScanned := e\<rparr>)"
    by (simp_all add: same_source_def p0_def)
  have eq: "(b, q) = (case escStart p0 of None \<Rightarrow> scan_loop safe p0 (scanned p0)
      | Some s \<Rightarrow> (case ansiSequenceEndFrom (ibData p) s (escScanned p0) of
          (e, False) \<Rightarrow> (0, p0\<lparr>escScanned := e\<rparr>)
        | (e, True) \<Rightarrow> if frame_marker (p0\<lparr>escStart := None\<rparr>) s e
            then (case frameBoundary safe (p0\<lparr>escStart := None\<rparr>) e of (bd, r) \<Rightarrow> if 0 < bd then (bd, r) else scan_loop safe r e)
            else scan_loop safe (p0\<lparr>escStart := None\<rparr>) e))"
    unfolding assms(1) [symmetric] nextInteractionBoundary_def Let_def p0_def ..
  have loop: "same_source p q \<and> b \<le> length (ibData p)" if "(b, q) = scan_loop safe r i" "same_source p r" for r i
  proof -
    have "b = fst (scan_loop safe r i)" "q = snd (scan_loop safe r i)" using that(1) by (metis fst_conv, metis snd_conv)
    with scan_loop_source [OF safe, of r i] that(2) show ?thesis by (simp add: same_source_def)
  qed
  show ?thesis
  proof (cases "escStart p0")
    case None
    with eq loop src(1) show ?thesis by simp
  next
    case (Some s)
    obtain e c where a: "ansiSequenceEndFrom (ibData p) s (escScanned p0) = (e, c)" by fastforce
    obtain bd r where f: "frameBoundary safe (p0\<lparr>escStart := None\<rparr>) e = (bd, r)" by fastforce
    have fs: "same_source p r" using frameBoundary_source [OF f] src(2) same_source_trans by blast
    have "ibData (p0\<lparr>escStart := None\<rparr>) = ibData p" using src(2) by (simp add: same_source_def)
    then have bd: "bd \<le> length (ibData p)" using f safe [of "take e (ibData p)"] by (auto simp: frameBoundary_def Let_def split: if_splits)
    have "(b, q) = (if c then if frame_marker (p0\<lparr>escStart := None\<rparr>) s e then if 0 < bd then (bd, r) else scan_loop safe r e
        else scan_loop safe (p0\<lparr>escStart := None\<rparr>) e else (0, p0\<lparr>escScanned := e\<rparr>))"
      unfolding eq Some option.case a prod.case f by (cases c) simp_all
    then consider "(b, q) = (0, p0\<lparr>escScanned := e\<rparr>)" | "(b, q) = (bd, r)" | "(b, q) = scan_loop safe r e"
      | "(b, q) = scan_loop safe (p0\<lparr>escStart := None\<rparr>) e"
      by meson
    then show ?thesis
    proof cases
      case 3
      then show ?thesis using fs by (rule loop)
    next
      case 4
      then show ?thesis using src(2) by (rule loop)
    qed (use fs bd src(3) in simp_all)
  qed
qed

function boundary_loop :: "(string \<Rightarrow> nat) \<Rightarrow> string \<Rightarrow> string \<Rightarrow> interactionBuffer \<Rightarrow> emission list \<times> interactionBuffer" where
  "boundary_loop safe direction stream p =
     (case nextInteractionBoundary safe p of (boundary, q) \<Rightarrow>
        if boundary = 0 then ([], q)
        else
          let em = \<lparr>emDirection = direction, emStream = stream, emOmitted = maxInteractionBufferSize < boundary, emData = take boundary (ibData q)\<rparr>;
              remainder = drop boundary (ibData q);
              (ems, r) = boundary_loop safe direction stream
                (q\<lparr>ibData := remainder, scanned := 0, frameRetryAt := 0, escStart := None, ibUTF8 := advanceUTF8State utf8Clean remainder\<rparr>)
          in (em # ems, r))"
  by auto
termination
proof (relation "measure (\<lambda>(safe, direction, stream, p). length (ibData p))", goal_cases)
  case (2 safe direction stream p boundary q)
  then show ?case using next_data [of safe p boundary q] by auto
qed simp

declare boundary_loop.simps [simp del]

definition flushInteraction :: "interactionBuffer \<Rightarrow> emission list" where
  "flushInteraction p =
     (if ibData p = '''' then [] else [\<lparr>emDirection = ibDirection p, emStream = ibStream p, emOmitted = False, emData = ibData p\<rparr>])"

type_synonym sessionIdentity = "string \<times> string"

definition observeInteraction ::
  "(string \<Rightarrow> nat) \<Rightarrow> sessionIdentity \<Rightarrow> string \<Rightarrow> string \<Rightarrow> string \<Rightarrow> (sessionIdentity, interactionBuffer) gomap \<Rightarrow>
     emission list \<times> (sessionIdentity, interactionBuffer) gomap" where
  "observeInteraction safe key direction stream dat pend =
     (if dat = '''' then ([], pend)
      else
        let (flushed, p) =
              (case gm_get pend key of
                 Some p \<Rightarrow>
                   if ibDirection p \<noteq> direction \<or> ibStream p \<noteq> stream then (flushInteraction p, newInteractionBuffer direction stream)
                   else ([], p)
               | None \<Rightarrow> ([], newInteractionBuffer direction stream));
            resetNeeded = (ibData p \<noteq> '''' \<and> \<not> usBroken (ibUTF8 p) \<and> usTail (ibUTF8 p) = '''' \<and> \<not> validOrIncompleteUTF8 dat);
            (reset, p1) =
              (if resetNeeded
               then (flushInteraction p, p\<lparr>ibData := '''', scanned := 0, frameRetryAt := 0, escStart := None, ibUTF8 := utf8Clean\<rparr>)
               else ([], p));
            p2 = p1\<lparr>ibData := ibData p1 @ dat, ibUTF8 := advanceUTF8State (ibUTF8 p1) dat\<rparr>;
            (records, p3) = boundary_loop safe direction stream p2
        in if maxInteractionBufferSize < length (ibData p3)
           then (flushed @ reset @ records @ [\<lparr>emDirection = direction, emStream = stream, emOmitted = True, emData = ibData p3\<rparr>], gm_del key pend)
           else (flushed @ reset @ records, gm_put key p3 pend))"

text \<open>The chunks of a session as the collector sees them, and its end.\<close>

datatype live_input = ProviderChunk string string | InputChunk string

definition flush_pending :: "sessionIdentity \<Rightarrow> (sessionIdentity, interactionBuffer) gomap \<Rightarrow> emission list \<times> (sessionIdentity, interactionBuffer) gomap" where
  "flush_pending key pend = (case gm_get pend key of Some p \<Rightarrow> (flushInteraction p, gm_del key pend) | None \<Rightarrow> ([], pend))"

fun observe_chunk ::
  "(string \<Rightarrow> nat) \<Rightarrow> sessionIdentity \<Rightarrow> live_input \<Rightarrow> (sessionIdentity, interactionBuffer) gomap \<Rightarrow>
     emission list \<times> (sessionIdentity, interactionBuffer) gomap" where
  "observe_chunk safe key (ProviderChunk stream dat) pend = observeInteraction safe key DirectionAgent stream dat pend"
| "observe_chunk safe key (InputChunk dat) pend =
     (let (flushed, pend1) = (case gm_get pend key of
            Some p \<Rightarrow> if ibDirection p = DirectionAgent then flush_pending key pend else ([], pend)
          | None \<Rightarrow> ([], pend));
          (ems, pend2) = observeInteraction safe key DirectionHuman StreamInput dat pend1
      in (flushed @ ems, pend2))"

fun observe_all ::
  "(string \<Rightarrow> nat) \<Rightarrow> sessionIdentity \<Rightarrow> live_input list \<Rightarrow> (sessionIdentity, interactionBuffer) gomap \<Rightarrow>
     emission list \<times> (sessionIdentity, interactionBuffer) gomap" where
  "observe_all safe key [] pend = ([], pend)"
| "observe_all safe key (x # xs) pend =
     (let (ems, pend1) = observe_chunk safe key x pend; (fs, pend2) = observe_all safe key xs pend1 in (ems @ fs, pend2))"

section \<open>Nothing is lost\<close>

text \<open>Each byte with its direction and stream.\<close>

definition tagged :: "string \<Rightarrow> string \<Rightarrow> string \<Rightarrow> (string \<times> string \<times> char) list" where
  "tagged direction stream dat = map (\<lambda>c. (direction, stream, c)) dat"

definition em_bytes :: "emission list \<Rightarrow> (string \<times> string \<times> char) list" where
  "em_bytes ems = concat (map (\<lambda>e. tagged (emDirection e) (emStream e) (emData e)) ems)"

definition held :: "sessionIdentity \<Rightarrow> (sessionIdentity, interactionBuffer) gomap \<Rightarrow> (string \<times> string \<times> char) list" where
  "held key pend = (case gm_get pend key of Some p \<Rightarrow> tagged (ibDirection p) (ibStream p) (ibData p) | None \<Rightarrow> [])"

fun chunk_bytes :: "live_input \<Rightarrow> (string \<times> string \<times> char) list" where
  "chunk_bytes (ProviderChunk stream dat) = tagged DirectionAgent stream dat"
| "chunk_bytes (InputChunk dat) = tagged DirectionHuman StreamInput dat"

definition em_ok :: "emission \<Rightarrow> bool" where
  "em_ok e \<longleftrightarrow> emData e \<noteq> '''' \<and> (emOmitted e \<longleftrightarrow> maxInteractionBufferSize < length (emData e))"

definition held_ok :: "(sessionIdentity, interactionBuffer) gomap \<Rightarrow> bool" where
  "held_ok pend \<longleftrightarrow> (\<forall>key p. gm_get pend key = Some p \<longrightarrow> length (ibData p) \<le> maxInteractionBufferSize)"


lemma em_bytes_simps [simp]:
  "em_bytes [] = []" "em_bytes (e # es) = tagged (emDirection e) (emStream e) (emData e) @ em_bytes es" "em_bytes (es @ fs) = em_bytes es @ em_bytes fs"
  by (simp_all add: em_bytes_def)

lemma tagged_simps [simp]: "tagged d s [] = []" "tagged d s (a @ b) = tagged d s a @ tagged d s b"
  by (simp_all add: tagged_def)

lemma flushInteraction_bytes [simp]: "em_bytes (flushInteraction p) = tagged (ibDirection p) (ibStream p) (ibData p)"
  by (simp add: flushInteraction_def)

lemma flushInteraction_ok: "length (ibData p) \<le> maxInteractionBufferSize \<Longrightarrow> list_all em_ok (flushInteraction p)"
  by (simp add: flushInteraction_def em_ok_def)

lemma held_okD: "held_ok pend \<Longrightarrow> gm_get pend key = Some p \<Longrightarrow> length (ibData p) \<le> maxInteractionBufferSize"
  by (cases key) (simp add: held_ok_def)

lemma held_ok_del: "held_ok pend \<Longrightarrow> held_ok (gm_del key pend)"
  by (cases key) (simp add: held_ok_def gomap_simps)

lemma held_ok_put: "held_ok pend \<Longrightarrow> length (ibData p) \<le> maxInteractionBufferSize \<Longrightarrow> held_ok (gm_put key p pend)"
  by (cases key) (simp add: held_ok_def gomap_simps)

lemma boundary_loop_conserves:
  assumes "boundary_loop safe dir str p = (ems, q)" and "\<And>r. safe r \<le> length r" and "ibDirection p = dir" and "ibStream p = str"
  shows "em_bytes ems @ tagged dir str (ibData q) = tagged dir str (ibData p) \<and> list_all em_ok ems \<and> ibDirection q = dir \<and> ibStream q = str"
  using assms
proof (induction safe dir str p arbitrary: ems q rule: boundary_loop.induct)
  case (1 safe dir str p)
  obtain b r where n: "nextInteractionBoundary safe p = (b, r)" by fastforce
  have src: "same_source p r" "b \<le> length (ibData p)" using next_source [OF n 1(3)] by simp_all
  show ?case
  proof (cases "b = 0")
    case True
    with 1(2) n have "ems = []" "q = r" by (auto simp: boundary_loop.simps [of safe dir str p])
    with src 1(4,5) show ?thesis by (simp add: same_source_def)
  next
    case False
    let ?r = "r\<lparr>ibData := drop b (ibData r), scanned := 0, frameRetryAt := 0, escStart := None, ibUTF8 := advanceUTF8State utf8Clean (drop b (ibData r))\<rparr>"
    obtain fs q' where l: "boundary_loop safe dir str ?r = (fs, q')" by fastforce
    let ?e = "\<lparr>emDirection = dir, emStream = str, emOmitted = maxInteractionBufferSize < b, emData = take b (ibData r)\<rparr>"
    have ems: "ems = ?e # fs" "q = q'" using 1(2) n False l by (simp_all add: boundary_loop.simps [of safe dir str p] Let_def)
    have "em_bytes fs @ tagged dir str (ibData q') = tagged dir str (ibData ?r) \<and> list_all em_ok fs \<and> ibDirection q' = dir \<and> ibStream q' = str"
      by (rule 1(1) [OF n [symmetric] False refl refl l 1(3)]) (use src 1(4,5) in \<open>simp_all add: same_source_def\<close>)
    moreover have "em_ok ?e" using False src by (auto simp: em_ok_def same_source_def min_def)
    moreover have "tagged dir str (take b (ibData r)) @ tagged dir str (drop b (ibData r)) = tagged dir str (ibData p)"
      using src(1) by (simp add: tagged_simps(2) [symmetric] same_source_def del: tagged_simps)
    ultimately show ?thesis by (simp add: ems)
  qed
qed

lemma observeInteraction_conserves:
  assumes "observeInteraction safe key dir str dat pend = (ems, pend')" and "\<And>r. safe r \<le> length r" and "held_ok pend"
  shows "em_bytes ems @ held key pend' = held key pend @ tagged dir str dat \<and> list_all em_ok ems \<and> held_ok pend'"
proof (cases "dat = ''''")
  case True
  with assms show ?thesis by (simp add: observeInteraction_def)
next
  case False
  define fp where "fp = (case gm_get pend key of
      Some p \<Rightarrow> if ibDirection p \<noteq> dir \<or> ibStream p \<noteq> str then (flushInteraction p, newInteractionBuffer dir str) else ([], p)
    | None \<Rightarrow> ([], newInteractionBuffer dir str))"
  obtain fl p where fl: "fp = (fl, p)" by fastforce
  have p: "ibDirection p = dir" "ibStream p = str" "length (ibData p) \<le> maxInteractionBufferSize"
      "em_bytes fl @ tagged dir str (ibData p) = held key pend" "list_all em_ok fl"
    using fl assms(3) by (auto simp: fp_def newInteractionBuffer_def held_def flushInteraction_ok dest: held_okD split: option.splits if_splits)
  define rp where "rp = (if ibData p \<noteq> '''' \<and> \<not> usBroken (ibUTF8 p) \<and> usTail (ibUTF8 p) = '''' \<and> \<not> validOrIncompleteUTF8 dat
     then (flushInteraction p, p\<lparr>ibData := '''', scanned := 0, frameRetryAt := 0, escStart := None, ibUTF8 := utf8Clean\<rparr>) else ([], p))"
  obtain rs p1 where rs: "rp = (rs, p1)" by fastforce
  have p1: "ibDirection p1 = dir" "ibStream p1 = str" "em_bytes rs @ tagged dir str (ibData p1) = tagged dir str (ibData p)" "list_all em_ok rs"
    using rs p by (auto simp: rp_def flushInteraction_ok split: if_splits)
  let ?p2 = "p1\<lparr>ibData := ibData p1 @ dat, ibUTF8 := advanceUTF8State (ibUTF8 p1) dat\<rparr>"
  obtain recs p3 where l: "boundary_loop safe dir str ?p2 = (recs, p3)" by fastforce
  have b: "em_bytes recs @ tagged dir str (ibData p3) = tagged dir str (ibData p1) @ tagged dir str dat" "list_all em_ok recs" "ibDirection p3 = dir" "ibStream p3 = str"
    using boundary_loop_conserves [OF l assms(2)] p1 by simp_all
  have all: "em_bytes (fl @ rs @ recs) @ tagged dir str (ibData p3) = held key pend @ tagged dir str dat"
    using p(4) p1(3) b(1) by (metis append.assoc em_bytes_simps(3))
  have res: "(ems, pend') = (if maxInteractionBufferSize < length (ibData p3)
      then (fl @ rs @ recs @ [\<lparr>emDirection = dir, emStream = str, emOmitted = True, emData = ibData p3\<rparr>], gm_del key pend)
      else (fl @ rs @ recs, gm_put key p3 pend))"
    using assms(1) False fl rs l by (simp add: observeInteraction_def fp_def [symmetric] rp_def [symmetric] Let_def split: if_splits)
  show ?thesis
  proof (cases "maxInteractionBufferSize < length (ibData p3)")
    case True
    then have "ems = (fl @ rs @ recs) @ [\<lparr>emDirection = dir, emStream = str, emOmitted = True, emData = ibData p3\<rparr>]" "pend' = gm_del key pend" using res by simp_all
    with all p p1 b True assms(3) show ?thesis by (auto simp: held_def em_ok_def gomap_simps held_ok_del)
  next
    case False
    then have "ems = fl @ rs @ recs" "pend' = gm_put key p3 pend" using res by simp_all
    with all p p1 b False assms(3) show ?thesis by (auto simp: held_def gomap_simps held_ok_put)
  qed
qed

lemma observe_chunk_conserves:
  assumes "observe_chunk safe key x pend = (ems, pend')" and "\<And>r. safe r \<le> length r" and "held_ok pend"
  shows "em_bytes ems @ held key pend' = held key pend @ chunk_bytes x \<and> list_all em_ok ems \<and> held_ok pend'"
proof (cases x)
  case (ProviderChunk str dat)
  with assms observeInteraction_conserves [OF _ assms(2,3)] show ?thesis by simp
next
  case (InputChunk dat)
  obtain fl pend1 where f: "(case gm_get pend key of Some p \<Rightarrow> if ibDirection p = DirectionAgent then flush_pending key pend else ([], pend) | None \<Rightarrow> ([], pend)) = (fl, pend1)"
    by fastforce
  then have fl: "em_bytes fl @ held key pend1 = held key pend" "list_all em_ok fl" "held_ok pend1"
    using assms(3) by (auto simp: flush_pending_def held_def flushInteraction_ok held_ok_del gomap_simps dest: held_okD split: option.splits if_splits)
  obtain es pend2 where o: "observeInteraction safe key DirectionHuman StreamInput dat pend1 = (es, pend2)" by fastforce
  have "ems = fl @ es" "pend' = pend2" using assms(1) f o InputChunk by simp_all
  with observeInteraction_conserves [OF o assms(2) fl(3)] fl InputChunk show ?thesis by (metis append.assoc chunk_bytes.simps(2) em_bytes_simps(3) list_all_append)
qed

text \<open>
  C32. Telemetry loses nothing and mixes nothing: the records and omissions a session's chunks give rise to, followed by what is
  still buffered, are exactly the bytes of the chunks, each once, in order, and under its own direction and stream. A
  record is never empty, an omission stands exactly for a record over the limit, and the buffer stays within it.
\<close>

theorem telemetry_conserves:
  assumes "\<And>r. safe r \<le> length r" and "held_ok pend" and "observe_all safe key chunks pend = (ems, pend')"
  shows "em_bytes ems @ held key pend' = held key pend @ concat (map chunk_bytes chunks) \<and> list_all em_ok ems \<and> held_ok pend'"
  using assms(2,3)
proof (induction chunks arbitrary: pend ems)
  case (Cons x xs)
  obtain es pend1 where c: "observe_chunk safe key x pend = (es, pend1)" by fastforce
  obtain fs pend2 where r: "observe_all safe key xs pend1 = (fs, pend2)" by fastforce
  have eq: "ems = es @ fs" "pend' = pend2" using Cons.prems(2) c r by simp_all
  note o = observe_chunk_conserves [OF c assms(1) Cons.prems(1)]
  with Cons.IH [OF _ r [folded eq(2)]] show ?case by (simp add: eq)
qed simp


theorem telemetry_conserves_witness:
  "\<exists>ems pend. observe_all (\<lambda>_. 0) (''src'', ''s'') [ProviderChunk StreamOutput ''ok'', InputChunk ''y''] [] = (ems, pend) \<and>
     em_bytes ems @ held (''src'', ''s'') pend =
       [(DirectionAgent, StreamOutput, CHR ''o''), (DirectionAgent, StreamOutput, CHR ''k''), (DirectionHuman, StreamInput, CHR ''y'')]"
proof -
  obtain ems pend where o: "observe_all (\<lambda>_. 0) (''src'', ''s'') [ProviderChunk StreamOutput ''ok'', InputChunk ''y''] [] = (ems, pend)" by fastforce
  have "held_ok []" by (simp add: held_ok_def)
  from telemetry_conserves [OF _ this o] o show ?thesis by (simp add: held_def tagged_def)
qed

end
