(* ===== verification/Telemetry_Queue.thy ===== *)
theory Telemetry_Queue
  imports Telemetry_Live
begin

text \<open>
  The events of \<open>internal/telemetry\<close> on their way to a sink: numbering by the analyzer (\<open>questions.go\<close>, \<open>record\<close>), selection by kind
  (\<open>filter.go\<close>), and the bounded queue with its account of what was attempted, dropped and delivered (\<open>async.go\<close>,
  \<open>completeness.go\<close>).
\<close>

declare map_of_eq_Some_iff [simp del] Some_eq_map_of_iff [simp del] split_paired_All [simp del] split_paired_Ex [simp del]

section \<open>Events\<close>

datatype EventKind = EventQuestion | EventAnswer | EventSessionStarted | EventSessionContext | EventSessionEnded | EventProviderOutput
  | EventUserInput | EventTelemetryCheckpoint | EventOther string

record Completeness =
  AttemptedEvents :: u64
  LastSequence :: u64
  QueueDroppedEvents :: u64
  SinkFailedEvents :: u64
  OmittedEvents :: u64
  SessionStartedObserved :: bool
  SessionEndedObserved :: bool
  CaptureKinds :: "EventKind list"
  CmIncludeRedactedText :: bool

record TerminalSnapshot =
  TsVersion :: int
  TsCols :: int
  TsRows :: int
  TsANSI :: string
  TsScrollback :: string

record SessionContext =
  CxActorID :: string
  CxSourceLabel :: string
  CxOS :: string
  CxArch :: string
  CxMachineID :: string
  CxWorkingDirectoryID :: string
  CxRepositoryID :: string
  CxBranch :: string
  CxCommitSHA :: string

record sessionContextDiscovery =
  cdRepoPath :: string
  cdActorID :: string
  cdSourceLabel :: string
  cdKey :: string

record Event =
  EvTerminal :: "TerminalSnapshot option"
  EvSchemaVersion :: int
  EvTimestamp :: go_time
  EvSourceID :: string
  EvActorID :: string
  EvSessionID :: string
  EvProjectID :: string
  EvProvider :: string
  EvDirection :: string
  EvKind :: EventKind
  EvStream :: string
  EvSequence :: u64
  EvClass :: string
  EvDecision :: string
  EvFingerprint :: string
  EvText :: string
  EvByteCount :: int
  EvRedactions :: int
  EvContentHash :: string
  EvOmittedReason :: string
  EvLatencyMS :: int
  EvContext :: "SessionContext option"
  EvCompleteness :: "Completeness option"
  contextDiscovery :: "sessionContextDiscovery option"

definition emptyEvent :: Event where
  "emptyEvent = \<lparr>EvTerminal = None, EvSchemaVersion = 0, EvTimestamp = 0, EvSourceID = '''', EvActorID = '''', EvSessionID = '''', EvProjectID = '''', EvProvider = '''',
     EvDirection = '''', EvKind = EventOther '''', EvStream = '''', EvSequence = 0, EvClass = '''', EvDecision = '''', EvFingerprint = '''', EvText = '''',
     EvByteCount = 0, EvRedactions = 0, EvContentHash = '''', EvOmittedReason = '''', EvLatencyMS = 0, EvContext = None, EvCompleteness = None, contextDiscovery = None\<rparr>"

definition eventKey :: "Event \<Rightarrow> sessionIdentity" where
  "eventKey e = (EvSourceID e, EvSessionID e)"

section \<open>The queue\<close>

text \<open>
  \<open>csRevision\<close> is a \<open>uint64\<close> that grows by one with each change of the account and is compared with a value read during one call of
  the sink; it does not return to that value in the meantime, and is a natural number here.
\<close>

record completenessState =
  csEvent :: Event
  csStats :: Completeness
  csProcessed :: u64
  csRevision :: nat
  csDirty :: bool

text \<open>
  What the goroutine of \<open>run\<close> is doing: waiting, holding an event it took, about to collect the checkpoints, recording them, or
  finished. The second argument tells whether this is the last flush, after the closed queue was drained. A collected
  checkpoint carries the key and the revision of its session. Revisions count changes of a session and are natural numbers.
\<close>

type_synonym snapshot = "sessionIdentity \<times> Event \<times> nat"

datatype worker = Waiting | Holding Event | Collecting bool bool | Recording "snapshot list" bool | Finished

record AsyncSink =
  asQueue :: "Event list"
  asCapacity :: nat
  asClosed :: bool
  asDropped :: u64
  asFailures :: u64
  asSessions :: "(sessionIdentity, completenessState) gomap"
  captureKinds :: "EventKind list"
  includeText :: bool
  checkpointWake :: bool
  asWorker :: worker

definition NewAsyncSink :: "int \<Rightarrow> AsyncSink" where
  "NewAsyncSink queueSize =
     \<lparr>asQueue = [], asCapacity = (if queueSize \<le> 0 then 1024 else nat queueSize), asClosed = False, asDropped = 0, asFailures = 0, asSessions = [],
      captureKinds = [], includeText = False, checkpointWake = False, asWorker = Waiting\<rparr>"

definition setCapturePolicy :: "EventKind list \<Rightarrow> bool \<Rightarrow> AsyncSink \<Rightarrow> AsyncSink" where
  "setCapturePolicy kinds text s = s\<lparr>captureKinds := kinds, includeText := text\<rparr>"

text \<open>A session is accounted for when it has an identifier and the event is not itself a checkpoint.\<close>

definition counted :: "Event \<Rightarrow> bool" where
  "counted e \<longleftrightarrow> EvSessionID e \<noteq> '''' \<and> EvKind e \<noteq> EventTelemetryCheckpoint"

definition new_state :: "Event \<Rightarrow> AsyncSink \<Rightarrow> completenessState" where
  "new_state e s =
     \<lparr>csEvent = emptyEvent\<lparr>EvSchemaVersion := 2, EvSourceID := EvSourceID e, EvActorID := EvActorID e, EvSessionID := EvSessionID e,
        EvProjectID := EvProjectID e, EvProvider := EvProvider e, EvKind := EventTelemetryCheckpoint\<rparr>,
      csStats = \<lparr>AttemptedEvents = 0, LastSequence = 0, QueueDroppedEvents = 0, SinkFailedEvents = 0, OmittedEvents = 0,
        SessionStartedObserved = False, SessionEndedObserved = False, CaptureKinds = captureKinds s, CmIncludeRedactedText = includeText s\<rparr>,
      csProcessed = 0, csRevision = 0, csDirty = False\<rparr>"

text \<open>\<open>completenessLocked\<close>: the state of the event's session, marked as changed; \<open>None\<close> when the event is not counted.\<close>

definition completenessLocked :: "Event \<Rightarrow> AsyncSink \<Rightarrow> completenessState option" where
  "completenessLocked e s =
     (if \<not> counted e then None
      else
        let st = (case gm_get (asSessions s) (eventKey e) of Some st \<Rightarrow> st | None \<Rightarrow> new_state e s);
            stats = (csStats st)\<lparr>SessionStartedObserved := SessionStartedObserved (csStats st) \<or> EvKind e = EventSessionStarted,
                                 SessionEndedObserved := SessionEndedObserved (csStats st) \<or> EvKind e = EventSessionEnded\<rparr>
        in Some (st\<lparr>csStats := stats, csRevision := csRevision st + 1, csDirty := True\<rparr>))"

definition put_state :: "Event \<Rightarrow> completenessState option \<Rightarrow> AsyncSink \<Rightarrow> AsyncSink" where
  "put_state e st s = (case st of None \<Rightarrow> s | Some st \<Rightarrow> s\<lparr>asSessions := gm_put (eventKey e) st (asSessions s)\<rparr>)"

datatype sink_error = ErrSinkClosed | ErrQueueFull

definition async_Record :: "Event \<Rightarrow> AsyncSink \<Rightarrow> sink_error option \<times> AsyncSink" where
  "async_Record e s =
     (if asClosed s then (Some ErrSinkClosed, s)
      else
        let attempted = map_option (\<lambda>st. st\<lparr>csStats := (csStats st)\<lparr>AttemptedEvents := AttemptedEvents (csStats st) + 1,
               LastSequence := max (LastSequence (csStats st)) (EvSequence e),
               OmittedEvents := (if EvOmittedReason e \<noteq> '''' then OmittedEvents (csStats st) + 1 else OmittedEvents (csStats st))\<rparr>\<rparr>) (completenessLocked e s)
        in if length (asQueue s) < asCapacity s
           then (None, (put_state e attempted s)\<lparr>asQueue := asQueue s @ [e]\<rparr>)
           else (Some ErrQueueFull,
                 (put_state e (map_option (\<lambda>st. st\<lparr>csStats := (csStats st)\<lparr>QueueDroppedEvents := QueueDroppedEvents (csStats st) + 1\<rparr>\<rparr>) attempted) s)
                   \<lparr>asDropped := asDropped s + 1, checkpointWake := True\<rparr>))"

definition observeLifecycle :: "Event \<Rightarrow> AsyncSink \<Rightarrow> AsyncSink" where
  "observeLifecycle e s =
     (if EvKind e \<noteq> EventSessionStarted \<and> EvKind e \<noteq> EventSessionEnded then s
      else if asClosed s then s
      else (put_state e (completenessLocked e s) s)\<lparr>checkpointWake := True\<rparr>)"

definition async_Close :: "AsyncSink \<Rightarrow> AsyncSink" where
  "async_Close s = s\<lparr>asClosed := True\<rparr>"

section \<open>The worker\<close>

text \<open>After \<open>sink.Record\<close> of the event it holds; \<open>failed\<close>: the sink returned an error.\<close>

definition worker_recorded :: "bool \<Rightarrow> Event \<Rightarrow> AsyncSink \<Rightarrow> AsyncSink" where
  "worker_recorded failed e s =
     (let s1 = (case gm_get (asSessions s) (eventKey e) of
                  None \<Rightarrow> s
                | Some st \<Rightarrow> s\<lparr>asSessions := gm_put (eventKey e) (st\<lparr>csProcessed := csProcessed st + 1, csRevision := csRevision st + 1,
                     csStats := (if failed then (csStats st)\<lparr>SinkFailedEvents := SinkFailedEvents (csStats st) + 1\<rparr> else csStats st)\<rparr>) (asSessions s)\<rparr>)
      in (if failed then s1\<lparr>asFailures := asFailures s1 + 1\<rparr> else s1)\<lparr>asWorker := Collecting True False\<rparr>)"

definition quiescent :: "completenessState \<Rightarrow> bool" where
  "quiescent st \<longleftrightarrow> csProcessed st + QueueDroppedEvents (csStats st) = AttemptedEvents (csStats st)"

text \<open>The first loop of \<open>flushCheckpoints\<close>, under the lock, and what follows the sink's answer to one checkpoint.\<close>

definition collect :: "go_time \<Rightarrow> bool \<Rightarrow> AsyncSink \<Rightarrow> snapshot list" where
  "collect now endedOnly s =
     map (\<lambda>(k, st). (k, (csEvent st)\<lparr>EvTimestamp := now, EvCompleteness := Some (csStats st)\<rparr>, csRevision st))
       (filter (\<lambda>(k, st). csDirty st \<and> \<not> (endedOnly \<and> \<not> SessionEndedObserved (csStats st)) \<and> quiescent st) (asSessions s))"

definition mark_flushed :: "bool \<Rightarrow> snapshot \<Rightarrow> AsyncSink \<Rightarrow> AsyncSink" where
  "mark_flushed failed snap s =
     (case snap of (k, e, r) \<Rightarrow>
        if failed then s
        else case gm_get (asSessions s) k of
               None \<Rightarrow> s
             | Some st \<Rightarrow>
                 if csRevision st \<noteq> r then s
                 else if SessionEndedObserved (csStats st) then s\<lparr>asSessions := gm_del k (asSessions s)\<rparr>
                 else s\<lparr>asSessions := gm_put k (st\<lparr>csDirty := False\<rparr>) (asSessions s)\<rparr>)"

text \<open>The callers of \<open>Record\<close> and the worker, interleaved.\<close>

inductive async_step :: "AsyncSink \<Rightarrow> AsyncSink \<Rightarrow> bool" where
  Recorded: "EvKind e \<noteq> EventTelemetryCheckpoint \<Longrightarrow> async_step s (snd (async_Record e s))"
| Lifecycle: "async_step s (observeLifecycle e s)"
| Closed: "async_step s (async_Close s)"
| Taken: "asWorker s = Waiting \<Longrightarrow> asQueue s = e # es \<Longrightarrow> async_step s (s\<lparr>asQueue := es, asWorker := Holding e\<rparr>)"
| Sunk: "asWorker s = Holding e \<Longrightarrow> async_step s (worker_recorded failed e s)"
| Woken: "asWorker s = Waiting \<Longrightarrow> checkpointWake s \<Longrightarrow> async_step s (s\<lparr>checkpointWake := False, asWorker := Collecting True False\<rparr>)"
| Ticked: "asWorker s = Waiting \<Longrightarrow> async_step s (s\<lparr>asWorker := Collecting False False\<rparr>)"
| Draining: "asWorker s = Waiting \<Longrightarrow> asClosed s \<Longrightarrow> asQueue s = [] \<Longrightarrow> async_step s (s\<lparr>asWorker := Collecting False True\<rparr>)"
| Collected: "asWorker s = Collecting endedOnly final \<Longrightarrow> async_step s (s\<lparr>asWorker := Recording (collect now endedOnly s) final\<rparr>)"
| Marked: "asWorker s = Recording (x # xs) final \<Longrightarrow> async_step s ((mark_flushed failed x s)\<lparr>asWorker := Recording xs final\<rparr>)"
| Flushed: "asWorker s = Recording [] final \<Longrightarrow> async_step s (s\<lparr>asWorker := (if final then Finished else Waiting)\<rparr>)"

text \<open>The analyzer produces no checkpoints of its own, and the size of the queue is a Go \<open>int\<close>.\<close>

inductive async_reachable :: "AsyncSink \<Rightarrow> bool" where
  Created: "n < 2 ^ 63 \<Longrightarrow> async_reachable (setCapturePolicy kinds text (NewAsyncSink n))"
| Stepped: "async_reachable s \<Longrightarrow> async_step s s' \<Longrightarrow> async_reachable s'"

section \<open>The account is exact\<close>

fun held_event :: "worker \<Rightarrow> Event list" where
  "held_event (Holding e) = [e]"
| "held_event _ = []"

definition of_session :: "sessionIdentity \<Rightarrow> Event list \<Rightarrow> nat" where
  "of_session k es = length (filter (\<lambda>e. counted e \<and> eventKey e = k) es)"

definition in_flight :: "sessionIdentity \<Rightarrow> AsyncSink \<Rightarrow> nat" where
  "in_flight k s = of_session k (held_event (asWorker s) @ asQueue s)"

definition account :: "sessionIdentity \<Rightarrow> completenessState option \<Rightarrow> nat \<Rightarrow> bool" where
  "account k st n = (case st of
      Some st \<Rightarrow> snd k \<noteq> '''' \<and> AttemptedEvents (csStats st) = csProcessed st + QueueDroppedEvents (csStats st) + of_nat n
    | None \<Rightarrow> n = 0)"

definition balanced :: "AsyncSink \<Rightarrow> bool" where
  "balanced s \<longleftrightarrow> gm_ok (asSessions s) \<and> length (asQueue s) \<le> asCapacity s \<and> asCapacity s < 2 ^ 63 \<and>
     (\<forall>e \<in> set (held_event (asWorker s) @ asQueue s). EvKind e \<noteq> EventTelemetryCheckpoint) \<and>
     (\<forall>k. account k (gm_get (asSessions s) k) (in_flight k s))"

fun snapshots :: "worker \<Rightarrow> snapshot list" where
  "snapshots (Recording xs final) = xs"
| "snapshots _ = []"

text \<open>A collected checkpoint still describes its session as long as the revision is the same.\<close>

definition fresh :: "AsyncSink \<Rightarrow> bool" where
  "fresh s \<longleftrightarrow> distinct (map fst (snapshots (asWorker s))) \<and>
     (\<forall>(k, e, r) \<in> set (snapshots (asWorker s)). \<exists>st. gm_get (asSessions s) k = Some st \<and> r \<le> csRevision st \<and> (csRevision st = r \<longrightarrow> quiescent st))"

lemma of_session_simps [simp]:
  "of_session k [] = 0" "of_session k (es @ fs) = of_session k es + of_session k fs"
  "of_session k (e # es) = (if counted e \<and> eventKey e = k then Suc (of_session k es) else of_session k es)"
  by (simp_all add: of_session_def)

lemma of_session_le: "of_session k es \<le> length es"
  by (simp add: of_session_def)

lemma held_event_le: "length (held_event w) \<le> 1"
  by (cases w) auto

lemma in_flight_small: "balanced s \<Longrightarrow> in_flight k s < 2 ^ 64"
proof -
  assume "balanced s"
  then have "length (asQueue s) < 2 ^ 63" by (auto simp: balanced_def)
  moreover have "in_flight k s \<le> 1 + length (asQueue s)"
    using of_session_le [of k "held_event (asWorker s) @ asQueue s"] held_event_le [of "asWorker s"] by (simp add: in_flight_def)
  ultimately show ?thesis by simp
qed

lemma accountD: "balanced s \<Longrightarrow> account k (gm_get (asSessions s) k) (in_flight k s)"
  by (simp add: balanced_def)

lemma quiescent_empty:
  assumes "balanced s" and "gm_get (asSessions s) k = Some st" and "quiescent st"
  shows "in_flight k s = 0"
proof -
  have "(of_nat (in_flight k s) :: u64) = 0"
    using accountD [OF assms(1), of k] assms(2,3) by (simp add: account_def quiescent_def)
  then have "unat (of_nat (in_flight k s) :: u64) = 0" by simp
  with in_flight_small [OF assms(1), of k] show ?thesis by (simp add: unat_of_nat)
qed

text \<open>What a counted event does to the state of its session.\<close>

lemma completenessLocked_state:
  assumes "balanced s"
  shows "completenessLocked e s = None \<and> \<not> counted e \<or>
    counted e \<and> (\<exists>st. completenessLocked e s = Some st \<and> csDirty st \<and>
      AttemptedEvents (csStats st) = csProcessed st + QueueDroppedEvents (csStats st) + of_nat (in_flight (eventKey e) s) \<and>
      (case gm_get (asSessions s) (eventKey e) of Some old \<Rightarrow> csRevision st = csRevision old + 1 | None \<Rightarrow> True))"
proof (cases "counted e")
  case True
  then show ?thesis
    using accountD [OF assms, of "eventKey e"]
    by (auto simp: completenessLocked_def account_def new_state_def Let_def split: option.splits)
qed (simp add: completenessLocked_def)


text \<open>An operation that replaces the state of one session keeps the account of the others, and outdates the checkpoint of that session.\<close>

lemma touch_ok:
  assumes b: "balanced s" and f: "fresh s"
    and put: "asSessions s' = gm_put k0 st' (asSessions s)" and key: "snd k0 \<noteq> ''''"
    and acc: "AttemptedEvents (csStats st') = csProcessed st' + QueueDroppedEvents (csStats st') + of_nat (in_flight k0 s')"
    and others: "\<And>k. k \<noteq> k0 \<Longrightarrow> in_flight k s' = in_flight k s"
    and cap: "length (asQueue s') \<le> asCapacity s'" "asCapacity s' = asCapacity s"
    and kinds: "\<forall>e \<in> set (held_event (asWorker s') @ asQueue s'). EvKind e \<noteq> EventTelemetryCheckpoint"
    and snaps: "snapshots (asWorker s') = snapshots (asWorker s)"
    and rev: "case gm_get (asSessions s) k0 of Some old \<Rightarrow> csRevision old < csRevision st' | None \<Rightarrow> True"
  shows "balanced s' \<and> fresh s'"
proof
  have "account k (gm_get (asSessions s') k) (in_flight k s')" for k
  proof (cases "k = k0")
    case True
    then show ?thesis using put acc key by (simp add: account_def gomap_simps)
  next
    case False
    then have "gm_get (asSessions s') k = gm_get (asSessions s) k" using put by (simp add: gomap_simps)
    then show ?thesis using accountD [OF b, of k] others [OF False] by simp
  qed
  moreover have "gm_ok (asSessions s')" "asCapacity s' < 2 ^ 63" using b put cap(2) by (auto simp: balanced_def)
  ultimately show "balanced s'" unfolding balanced_def using cap(1) kinds by blast
  show "fresh s'"
    unfolding fresh_def
  proof (intro conjI ballI)
    show "distinct (map fst (snapshots (asWorker s')))" using f snaps by (simp add: fresh_def)
    fix x
    assume "x \<in> set (snapshots (asWorker s'))"
    moreover obtain k ev r where x: "x = (k, ev, r)" by (rule prod_cases3)
    ultimately obtain old where old: "gm_get (asSessions s) k = Some old" "r \<le> csRevision old" "csRevision old = r \<longrightarrow> quiescent old"
      using f snaps by (auto simp: fresh_def)
    show "case x of (k, ev, r) \<Rightarrow> \<exists>st. gm_get (asSessions s') k = Some st \<and> r \<le> csRevision st \<and> (csRevision st = r \<longrightarrow> quiescent st)"
      using x old put rev by (cases "k = k0") (auto simp: gomap_simps)
  qed
qed

text \<open>An operation that leaves the sessions alone.\<close>

lemma untouched_ok:
  assumes "balanced s" and "fresh s" and "asSessions s' = asSessions s" and "\<And>k. in_flight k s' = in_flight k s"
    and "length (asQueue s') \<le> asCapacity s'" and "asCapacity s' = asCapacity s"
    and "\<forall>e \<in> set (held_event (asWorker s') @ asQueue s'). EvKind e \<noteq> EventTelemetryCheckpoint"
    and "snapshots (asWorker s') = snapshots (asWorker s)"
  shows "balanced s' \<and> fresh s'"
  using assms by (auto simp: balanced_def fresh_def)

lemma async_Record_ok:
  assumes b: "balanced s" and f: "fresh s" and kind: "EvKind e \<noteq> EventTelemetryCheckpoint"
  shows "balanced (snd (async_Record e s)) \<and> fresh (snd (async_Record e s))"
proof (cases "asClosed s")
  case True
  with b f show ?thesis by (simp add: async_Record_def)
next
  case not_closed: False
  define s' where "s' = snd (async_Record e s)"
  let ?k = "eventKey e"
  have "balanced s' \<and> fresh s'"
  proof (cases "counted e")
    case False
    then have c: "completenessLocked e s = None" by (simp add: completenessLocked_def)
    show ?thesis
      by (rule untouched_ok [OF b f])
        (use b kind not_closed c False in \<open>auto simp: s'_def async_Record_def put_state_def balanced_def in_flight_def\<close>)
  next
    case True
    from completenessLocked_state [OF b, of e] True obtain st where st: "completenessLocked e s = Some st"
        "AttemptedEvents (csStats st) = csProcessed st + QueueDroppedEvents (csStats st) + of_nat (in_flight ?k s)"
        "case gm_get (asSessions s) ?k of Some old \<Rightarrow> csRevision st = csRevision old + 1 | None \<Rightarrow> True" by blast
    obtain st' q where s': "asSessions s' = gm_put ?k st' (asSessions s)" "asQueue s' = asQueue s @ q" "asWorker s' = asWorker s" "asCapacity s' = asCapacity s"
        "q \<in> {[], [e]}" "length (asQueue s') \<le> max (length (asQueue s)) (asCapacity s)" "csRevision st' = csRevision st"
        "AttemptedEvents (csStats st') = csProcessed st' + QueueDroppedEvents (csStats st') + of_nat (in_flight ?k s) + of_nat (length q)"
      using not_closed st by (cases "length (asQueue s) < asCapacity s") (auto simp: s'_def async_Record_def put_state_def Let_def)
    have fl: "in_flight k s' = in_flight k s + (if k = ?k then length q else 0)" for k
      using s'(2,3,5) True by (auto simp: in_flight_def)
    show ?thesis
    proof (rule touch_ok [OF b f s'(1)])
      show "snd ?k \<noteq> ''''" using True by (simp add: counted_def eventKey_def)
      show "AttemptedEvents (csStats st') = csProcessed st' + QueueDroppedEvents (csStats st') + of_nat (in_flight ?k s')"
        using s'(8) fl [of ?k] by simp
      show "length (asQueue s') \<le> asCapacity s'" using b s'(4,6) by (simp add: balanced_def)
      show "\<forall>e \<in> set (held_event (asWorker s') @ asQueue s'). EvKind e \<noteq> EventTelemetryCheckpoint"
        using b kind s'(2,3,5) by (auto simp: balanced_def)
      show "case gm_get (asSessions s) ?k of Some old \<Rightarrow> csRevision old < csRevision st' | None \<Rightarrow> True"
        using st(3) s'(7) by (simp split: option.splits)
    qed (use s' fl in auto)
  qed
  then show ?thesis by (simp add: s'_def)
qed

lemma observeLifecycle_ok:
  assumes b: "balanced s" and f: "fresh s"
  shows "balanced (observeLifecycle e s) \<and> fresh (observeLifecycle e s)"
proof (cases "(EvKind e = EventSessionStarted \<or> EvKind e = EventSessionEnded) \<and> \<not> asClosed s")
  case False
  with b f show ?thesis by (auto simp: observeLifecycle_def)
next
  case True
  define s' where "s' = observeLifecycle e s"
  have s': "s' = (put_state e (completenessLocked e s) s)\<lparr>checkpointWake := True\<rparr>" using True by (auto simp: s'_def observeLifecycle_def)
  have "balanced s' \<and> fresh s'"
  proof (cases "counted e")
    case False
    then have c: "completenessLocked e s = None" by (simp add: completenessLocked_def)
    show ?thesis by (rule untouched_ok [OF b f]) (use b c in \<open>auto simp: s' put_state_def balanced_def in_flight_def\<close>)
  next
    case True
    from completenessLocked_state [OF b, of e] True obtain st where st: "completenessLocked e s = Some st"
        "AttemptedEvents (csStats st) = csProcessed st + QueueDroppedEvents (csStats st) + of_nat (in_flight (eventKey e) s)"
        "case gm_get (asSessions s) (eventKey e) of Some old \<Rightarrow> csRevision st = csRevision old + 1 | None \<Rightarrow> True" by blast
    have eq: "s' = s\<lparr>asSessions := gm_put (eventKey e) st (asSessions s), checkpointWake := True\<rparr>" by (simp add: s' put_state_def st(1))
    show ?thesis
    proof (rule touch_ok [OF b f])
      show "asSessions s' = gm_put (eventKey e) st (asSessions s)" by (simp add: eq)
      show "snd (eventKey e) \<noteq> ''''" using True by (simp add: counted_def eventKey_def)
      show "case gm_get (asSessions s) (eventKey e) of Some old \<Rightarrow> csRevision old < csRevision st | None \<Rightarrow> True"
        using st(3) by (simp split: option.splits)
    qed (use b st(2) in \<open>auto simp: eq balanced_def in_flight_def\<close>)
  qed
  then show ?thesis by (simp add: s'_def)
qed

lemma worker_recorded_ok:
  assumes b: "balanced s" and f: "fresh s" and w: "asWorker s = Holding e"
  shows "balanced (worker_recorded failed e s) \<and> fresh (worker_recorded failed e s)"
proof -
  define s' where "s' = worker_recorded failed e s"
  have kind: "EvKind e \<noteq> EventTelemetryCheckpoint" using b w by (simp add: balanced_def)
  have q: "asQueue s' = asQueue s" "asCapacity s' = asCapacity s" "held_event (asWorker s') = []" "snapshots (asWorker s') = []"
    by (auto simp: s'_def worker_recorded_def Let_def split: option.splits)
  have fl: "in_flight k s = in_flight k s' + (if counted e \<and> eventKey e = k then 1 else 0)" for k
    using q w by (simp add: in_flight_def)
  have ok: "\<forall>e \<in> set (held_event (asWorker s') @ asQueue s'). EvKind e \<noteq> EventTelemetryCheckpoint" "length (asQueue s') \<le> asCapacity s'"
    using b q by (auto simp: balanced_def)
  have "balanced s' \<and> fresh s'"
  proof (cases "gm_get (asSessions s) (eventKey e)")
    case None
    then have c: "\<not> counted e" using accountD [OF b, of "eventKey e"] fl [of "eventKey e"] by (auto simp: account_def)
    show ?thesis
      by (rule untouched_ok [OF b f]) (use None c fl ok q w in \<open>auto simp: s'_def worker_recorded_def\<close>)
  next
    case (Some st)
    then have c: "counted e" "snd (eventKey e) \<noteq> ''''"
      using accountD [OF b, of "eventKey e"] kind by (auto simp: account_def counted_def eventKey_def)
    obtain st' where st': "asSessions s' = gm_put (eventKey e) st' (asSessions s)" "csProcessed st' = csProcessed st + 1" "csRevision st' = csRevision st + 1"
        "QueueDroppedEvents (csStats st') = QueueDroppedEvents (csStats st)" "AttemptedEvents (csStats st') = AttemptedEvents (csStats st)"
      using Some by (cases failed) (auto simp: s'_def worker_recorded_def Let_def)
    show ?thesis
    proof (rule touch_ok [OF b f st'(1) c(2)])
      show "AttemptedEvents (csStats st') = csProcessed st' + QueueDroppedEvents (csStats st') + of_nat (in_flight (eventKey e) s')"
        using accountD [OF b, of "eventKey e"] Some st' fl [of "eventKey e"] c(1) by (simp add: account_def algebra_simps)
    qed (use fl ok q w Some st'(3) in auto)
  qed
  then show ?thesis by (simp add: s'_def)
qed

lemma collect_mem:
  assumes "gm_ok (asSessions s)" and "(k, e, r) \<in> set (collect now endedOnly s)"
  shows "\<exists>st. gm_get (asSessions s) k = Some st \<and> r = csRevision st \<and> quiescent st \<and> EvCompleteness e = Some (csStats st)"
proof -
  from assms(2) obtain st where "(k, st) \<in> set (asSessions s)" "r = csRevision st" "quiescent st" "EvCompleteness e = Some (csStats st)"
    by (auto simp: collect_def)
  then show ?thesis using gm_mem_get [OF assms(1)] by blast
qed

lemma collect_ok:
  assumes b: "balanced s" and w: "asWorker s = Collecting endedOnly final"
  shows "balanced (s\<lparr>asWorker := Recording (collect now endedOnly s) final\<rparr>) \<and> fresh (s\<lparr>asWorker := Recording (collect now endedOnly s) final\<rparr>)"
proof
  show "balanced (s\<lparr>asWorker := Recording (collect now endedOnly s) final\<rparr>)" using b w by (simp add: balanced_def in_flight_def)
  have ok: "gm_ok (asSessions s)" using b by (simp add: balanced_def)
  then have "distinct (map fst (collect now endedOnly s))"
    by (simp add: collect_def comp_def case_prod_beta distinct_map_filter)
  moreover have "\<exists>st. gm_get (asSessions s) k = Some st \<and> r = csRevision st \<and> quiescent st" if "(k, e, r) \<in> set (collect now endedOnly s)" for k e r
    using collect_mem [OF ok that] by blast
  ultimately show "fresh (s\<lparr>asWorker := Recording (collect now endedOnly s) final\<rparr>)" by (fastforce simp: fresh_def)
qed

lemma mark_flushed_fields [simp]:
  "asQueue (mark_flushed failed x s) = asQueue s" "asCapacity (mark_flushed failed x s) = asCapacity s" "asWorker (mark_flushed failed x s) = asWorker s"
  by (auto simp: mark_flushed_def split: prod.splits option.splits)

lemma mark_flushed_get:
  assumes "gm_ok (asSessions s)"
  shows "gm_get (asSessions (mark_flushed failed (k, e, r) s)) j =
    (case gm_get (asSessions s) j of
       None \<Rightarrow> None
     | Some st \<Rightarrow> if j = k \<and> \<not> failed \<and> csRevision st = r
                 then (if SessionEndedObserved (csStats st) then None else Some (st\<lparr>csDirty := False\<rparr>)) else Some st)"
  using assms by (auto simp: mark_flushed_def gomap_simps split: option.splits)

lemma freshD:
  assumes "fresh s" and "(k, e, r) \<in> set (snapshots (asWorker s))"
  obtains st where "gm_get (asSessions s) k = Some st" "r \<le> csRevision st" "csRevision st = r \<longrightarrow> quiescent st"
  using assms unfolding fresh_def by blast

lemma mark_flushed_ok:
  assumes b: "balanced s" and f: "fresh s" and w: "asWorker s = Recording (x # xs) final"
  shows "balanced ((mark_flushed failed x s)\<lparr>asWorker := Recording xs final\<rparr>) \<and> fresh ((mark_flushed failed x s)\<lparr>asWorker := Recording xs final\<rparr>)"
proof -
  define s' where "s' = (mark_flushed failed x s)\<lparr>asWorker := Recording xs final\<rparr>"
  obtain k e r where x: "x = (k, e, r)" by (rule prod_cases3)
  have ok: "gm_ok (asSessions s)" using b by (simp add: balanced_def)
  have get: "gm_get (asSessions s') j = (case gm_get (asSessions s) j of None \<Rightarrow> None
     | Some st \<Rightarrow> if j = k \<and> \<not> failed \<and> csRevision st = r
                 then (if SessionEndedObserved (csStats st) then None else Some (st\<lparr>csDirty := False\<rparr>)) else Some st)" for j
    using mark_flushed_get [OF ok] by (simp add: s'_def x)
  have fl: "in_flight j s' = in_flight j s" for j using w by (simp add: s'_def in_flight_def)
  have still: "in_flight k s = 0" if "gm_get (asSessions s) k = Some st" "csRevision st = r" for st
  proof -
    have "(k, e, r) \<in> set (snapshots (asWorker s))" by (simp add: w x)
    from freshD [OF f this] that have "quiescent st" by force
    then show ?thesis by (rule quiescent_empty [OF b that(1)])
  qed
  have "account j (gm_get (asSessions s') j) (in_flight j s')" for j
  proof (cases "j = k")
    case True
    then show ?thesis using accountD [OF b, of k] still by (cases "gm_get (asSessions s) k") (simp_all add: get fl account_def)
  next
    case False
    then have "gm_get (asSessions s') j = gm_get (asSessions s) j" by (simp add: get split: option.splits)
    then show ?thesis using accountD [OF b, of j] by (simp add: fl)
  qed
  moreover have "gm_ok (asSessions s')" using ok by (auto simp: s'_def mark_flushed_def x split: option.splits)
  moreover have "asQueue s' = asQueue s" "asCapacity s' = asCapacity s" "held_event (asWorker s') = []" "held_event (asWorker s) = []"
    by (simp_all add: s'_def w)
  ultimately have "balanced s'" using b by (simp add: balanced_def)
  moreover have "fresh s'"
  proof -
    have d: "distinct (map fst xs)" "k \<notin> fst ` set xs" using f w x by (auto simp: fresh_def)
    have "\<exists>st. gm_get (asSessions s') j = Some st \<and> r' \<le> csRevision st \<and> (csRevision st = r' \<longrightarrow> quiescent st)" if mem: "(j, e', r') \<in> set xs" for j e' r'
    proof -
      have "j \<noteq> k" using d(2) mem by force
      moreover obtain st where "gm_get (asSessions s) j = Some st" "r' \<le> csRevision st" "csRevision st = r' \<longrightarrow> quiescent st"
        by (rule freshD [OF f, of j e' r']) (use w mem in auto)
      ultimately show ?thesis using get by simp
    qed
    moreover have "snapshots (asWorker s') = xs" by (simp add: s'_def)
    ultimately show ?thesis using d(1) unfolding fresh_def by fast
  qed
  ultimately show ?thesis by (simp add: s'_def)
qed

lemma async_reachable_ok: "async_reachable s \<Longrightarrow> balanced s \<and> fresh s"
proof (induction rule: async_reachable.induct)
  case (Created n kinds redacted)
  then show ?case
    by (auto simp: balanced_def fresh_def account_def in_flight_def NewAsyncSink_def setCapturePolicy_def gomap_simps)
next
  case (Stepped s s')
  then have b: "balanced s" and f: "fresh s" by simp_all
  from Stepped(2) show ?case
  proof cases
    case (Recorded e)
    with async_Record_ok [OF b f] show ?thesis by simp
  next
    case (Lifecycle e)
    with observeLifecycle_ok [OF b f] show ?thesis by simp
  next
    case Closed
    then show ?thesis using b f by (simp add: async_Close_def balanced_def fresh_def in_flight_def)
  next
    case (Taken e es)
    show ?thesis by (rule untouched_ok [OF b f]) (use Taken b in \<open>auto simp: in_flight_def balanced_def\<close>)
  next
    case (Sunk e failed)
    with worker_recorded_ok [OF b f] show ?thesis by simp
  next
    case (Collected endedOnly final now)
    with collect_ok [OF b] show ?thesis by simp
  next
    case (Marked x xs final failed)
    with mark_flushed_ok [OF b f] show ?thesis by simp
  next
    case (Flushed final)
    show ?thesis by (rule untouched_ok [OF b f]) (use Flushed b in \<open>auto simp: in_flight_def balanced_def\<close>)
  qed (use b f in \<open>simp_all add: balanced_def fresh_def in_flight_def\<close>)
qed


text \<open>
  C33. Whatever the order of producers, the worker and lifecycle notices, the account of a session is exact: the events attempted
  are those the sink was given, those dropped because the queue was full, and those still in the queue or in the worker's hands;
  a session without an account has nothing in flight; the queue never exceeds its capacity; and a checkpoint is only collected,
  with the account at that moment, when nothing of its session is in flight, so a reader of the checkpoint knows of every event whether
  it was delivered or lost.
\<close>

theorem completeness_account:
  assumes "async_reachable s"
  shows "(case gm_get (asSessions s) k of
            None \<Rightarrow> in_flight k s = 0
          | Some st \<Rightarrow> AttemptedEvents (csStats st) = csProcessed st + QueueDroppedEvents (csStats st) + of_nat (in_flight k s)) \<and>
         in_flight k s < 2 ^ 64 \<and> length (asQueue s) \<le> asCapacity s \<and>
         (\<forall>e r now endedOnly. (k, e, r) \<in> set (collect now endedOnly s) \<longrightarrow>
            in_flight k s = 0 \<and> (\<exists>st. gm_get (asSessions s) k = Some st \<and> EvCompleteness e = Some (csStats st) \<and>
              AttemptedEvents (csStats st) = csProcessed st + QueueDroppedEvents (csStats st)))"
proof -
  have b: "balanced s" using async_reachable_ok [OF assms] by simp
  have "in_flight k s = 0 \<and> (\<exists>st. gm_get (asSessions s) k = Some st \<and> EvCompleteness e = Some (csStats st) \<and>
      AttemptedEvents (csStats st) = csProcessed st + QueueDroppedEvents (csStats st))"
    if mem: "(k, e, r) \<in> set (collect now endedOnly s)" for e r now endedOnly
  proof -
    have "gm_ok (asSessions s)" using b by (simp add: balanced_def)
    from collect_mem [OF this mem] obtain st where st: "gm_get (asSessions s) k = Some st" "EvCompleteness e = Some (csStats st)" "quiescent st"
      by blast
    then have "AttemptedEvents (csStats st) = csProcessed st + QueueDroppedEvents (csStats st)" by (simp add: quiescent_def)
    with st quiescent_empty [OF b st(1,3)] show ?thesis by blast
  qed
  moreover have "length (asQueue s) \<le> asCapacity s" using b by (simp add: balanced_def)
  moreover have "case gm_get (asSessions s) k of None \<Rightarrow> in_flight k s = 0
      | Some st \<Rightarrow> AttemptedEvents (csStats st) = csProcessed st + QueueDroppedEvents (csStats st) + of_nat (in_flight k s)"
    using accountD [OF b, of k] by (simp add: account_def split: option.splits)
  ultimately show ?thesis using in_flight_small [OF b, of k] by meson
qed

definition demo_event :: Event where
  "demo_event = emptyEvent\<lparr>EvSourceID := ''src'', EvSessionID := ''s1'', EvSequence := 1, EvKind := EventSessionEnded\<rparr>"

definition demo_queue :: AsyncSink where
  "demo_queue = worker_recorded True demo_event ((snd (async_Record demo_event (setCapturePolicy [] False (NewAsyncSink 1))))\<lparr>asQueue := [], asWorker := Holding demo_event\<rparr>)"

lemma demo_queue_reachable: "async_reachable demo_queue"
proof -
  let ?s0 = "setCapturePolicy [] False (NewAsyncSink 1)"
  let ?s1 = "snd (async_Record demo_event ?s0)"
  have "async_reachable ?s0" by (rule Created) simp
  moreover have "async_step ?s0 ?s1" by (rule Recorded) (simp add: demo_event_def)
  ultimately have r: "async_reachable ?s1" by (rule Stepped)
  have "async_step ?s1 (?s1\<lparr>asQueue := [], asWorker := Holding demo_event\<rparr>)"
    by (rule Taken) (auto simp: async_Record_def setCapturePolicy_def NewAsyncSink_def put_state_def Let_def split: option.splits)
  with r have "async_reachable (?s1\<lparr>asQueue := [], asWorker := Holding demo_event\<rparr>)" by (rule Stepped)
  moreover have "async_step (?s1\<lparr>asQueue := [], asWorker := Holding demo_event\<rparr>) demo_queue"
    unfolding demo_queue_def by (rule Sunk) simp
  ultimately show ?thesis by (rule Stepped)
qed

theorem completeness_account_witness:
  "in_flight (''src'', ''s1'') demo_queue = 0 \<and> map fst (collect 5 True demo_queue) = [(''src'', ''s1'')] \<and>
   map_option (\<lambda>st. (AttemptedEvents (csStats st), csProcessed st, SinkFailedEvents (csStats st))) (gm_get (asSessions demo_queue) (''src'', ''s1'')) = Some (1, 1, 1)"
proof -
  have c: "map fst (collect 5 True demo_queue) = [(''src'', ''s1'')]" by code_simp
  then obtain e r where "((''src'', ''s1''), e, r) \<in> set (collect 5 True demo_queue)" by (cases "collect 5 True demo_queue") auto
  with completeness_account [OF demo_queue_reachable, of "(''src'', ''s1'')"] have "in_flight (''src'', ''s1'') demo_queue = 0" by blast
  moreover have "map_option (\<lambda>st. (AttemptedEvents (csStats st), csProcessed st, SinkFailedEvents (csStats st)))
      (gm_get (asSessions demo_queue) (''src'', ''s1'')) = Some (1, 1, 1)" by code_simp
  ultimately show ?thesis using c by simp
qed

end
