(* ===== verification/Telemetry_Turns.thy ===== *)
theory Telemetry_Turns
  imports Telemetry_Queue "HOL-Library.Char_ord" "HOL-Library.List_Lexorder" "HOL-Library.Product_Lexorder"
begin

text \<open>
  Numbering and reconstruction of interactions in \<open>internal/telemetry\<close>: \<open>Analyzer.record\<close> (\<open>questions.go\<close>) numbers the events of a
  session, \<open>FilteredSink\<close> (\<open>filter.go\<close>) selects kinds and numbers what is left, and \<open>InteractionAnalyzer\<close> (\<open>analysis.go\<close>) puts
  the turns of a conversation together again from the events that arrived.
\<close>

declare map_of_eq_Some_iff [simp del] Some_eq_map_of_iff [simp del] split_paired_All [simp del] split_paired_Ex [simp del]

section \<open>Turns\<close>

record Turn =
  tnSourceID :: string
  tnSessionID :: string
  tnActorID :: string
  tnDirection :: string
  tnStream :: string
  tnSequenceStart :: u64
  tnSequenceEnd :: u64
  tnStartedAt :: go_time
  tnEndedAt :: go_time
  tnText :: string
  tnByteCount :: int
  tnRedactions :: int
  tnChunkIndex :: int
  tnContinues :: bool

text \<open>
  Byte counts and redactions come from the events and are added with the wrap-around of a Go \<open>int\<close>. The numbers of events, duplicates and
  events out of order grow by one with each event, cannot reach \<open>2 ^ 63\<close>, and are unbounded integers here.
\<close>

record DataQuality =
  dqEvents :: int
  dqDuplicates :: int
  dqOutOfOrder :: int
  dqMissingSequences :: int
  dqLegacyEvents :: int
  dqOmittedEvents :: int
  dqRedactions :: int

record sessionStart =
  ssSequence :: u64
  ssTimestamp :: go_time

record InteractionAnalyzer =
  lastSequence :: "(sessionIdentity, u64) gomap"
  iaPending :: "(sessionIdentity, Turn) gomap"
  starts :: "(sessionIdentity, sessionStart) gomap"
  quality :: DataQuality

definition NewInteractionAnalyzer :: InteractionAnalyzer where
  "NewInteractionAnalyzer =
     \<lparr>lastSequence = [], iaPending = [], starts = [],
      quality = \<lparr>dqEvents = 0, dqDuplicates = 0, dqOutOfOrder = 0, dqMissingSequences = 0, dqLegacyEvents = 0, dqOmittedEvents = 0, dqRedactions = 0\<rparr>\<rparr>"

text \<open>The arithmetic of Go's 64-bit \<open>int\<close>: results wrap around, and division truncates.\<close>

definition wrap64 :: "int \<Rightarrow> int" where
  "wrap64 x = (x + 2 ^ 63) mod 2 ^ 64 - 2 ^ 63"

definition quot64 :: "int \<Rightarrow> int \<Rightarrow> int" where
  "quot64 a b = sgn a * (\<bar>a\<bar> div b)"

abbreviation MaxTurnTextBytes :: nat where "MaxTurnTextBytes \<equiv> 65536"

definition startTurn :: "Event \<Rightarrow> Turn" where
  "startTurn e =
     \<lparr>tnSourceID = EvSourceID e, tnSessionID = EvSessionID e, tnActorID = EvActorID e, tnDirection = EvDirection e, tnStream = EvStream e,
      tnSequenceStart = EvSequence e, tnSequenceEnd = EvSequence e, tnStartedAt = EvTimestamp e, tnEndedAt = EvTimestamp e,
      tnText = '''', tnByteCount = 0, tnRedactions = 0, tnChunkIndex = 0, tnContinues = False\<rparr>"

fun back_to_start :: "string \<Rightarrow> nat \<Rightarrow> nat" where
  "back_to_start s 0 = 0"
| "back_to_start s (Suc n) = (if Suc n < length s \<and> \<not> rune_start (s ! Suc n) then back_to_start s n else Suc n)"

definition allocated_bytes :: "Event \<Rightarrow> nat \<Rightarrow> int" where
  "allocated_bytes e consumed =
     (if consumed < length (EvText e) then quot64 (wrap64 (EvByteCount e * int consumed)) (int (length (EvText e))) else EvByteCount e)"

text \<open>
  The loop of \<open>appendEvent\<close>, on the pending turn of the event's session. It need not end, so not returning is the value
  \<open>None\<close>.
\<close>

partial_function (option) append_loop ::
  "Event \<Rightarrow> string \<Rightarrow> nat \<Rightarrow> int \<Rightarrow> Turn list \<Rightarrow> Turn \<Rightarrow> (Turn list \<times> Turn) option" where
  "append_loop e remaining consumed allocated completed p =
     (let n = back_to_start remaining (min (length remaining) (MaxTurnTextBytes - length (tnText p)))
      in if n = 0 \<and> remaining \<noteq> ''''
         then append_loop e remaining consumed allocated (completed @ [p\<lparr>tnContinues := True\<rparr>]) ((startTurn e)\<lparr>tnChunkIndex := tnChunkIndex p + 1\<rparr>)
         else
           let bytes = allocated_bytes e (consumed + n); rest = drop n remaining;
               p' = p\<lparr>tnText := tnText p @ take n remaining, tnSequenceEnd := EvSequence e, tnEndedAt := EvTimestamp e,
                      tnByteCount := wrap64 (tnByteCount p + (bytes - allocated)),
                      tnRedactions := (if rest = '''' then wrap64 (tnRedactions p + EvRedactions e) else tnRedactions p)\<rparr>
           in if rest = '''' then Some (completed, p') else append_loop e rest (consumed + n) bytes completed p')"

definition appendEvent :: "Event \<Rightarrow> Turn \<Rightarrow> (Turn list \<times> Turn) option" where
  "appendEvent e p = append_loop e (EvText e) 0 0 [] p"

definition ia_flush :: "sessionIdentity \<Rightarrow> InteractionAnalyzer \<Rightarrow> Turn list \<times> InteractionAnalyzer" where
  "ia_flush k a = (case gm_get (iaPending a) k of None \<Rightarrow> ([], a) | Some t \<Rightarrow> ([t], a\<lparr>iaPending := gm_del k (iaPending a)\<rparr>))"

definition count_event :: "Event \<Rightarrow> InteractionAnalyzer \<Rightarrow> InteractionAnalyzer" where
  "count_event e a =
     (let q = quality a
      in a\<lparr>quality := q\<lparr>dqEvents := dqEvents q + 1, dqLegacyEvents := (if EvSchemaVersion e = 1 then dqLegacyEvents q + 1 else dqLegacyEvents q),
             dqRedactions := wrap64 (dqRedactions q + EvRedactions e),
             dqOmittedEvents := (if EvOmittedReason e \<noteq> '''' then dqOmittedEvents q + 1 else dqOmittedEvents q)\<rparr>\<rparr>)"

definition note_duplicate :: "InteractionAnalyzer \<Rightarrow> InteractionAnalyzer" where
  "note_duplicate a = a\<lparr>quality := (quality a)\<lparr>dqDuplicates := dqDuplicates (quality a) + 1\<rparr>\<rparr>"

definition note_out_of_order :: "InteractionAnalyzer \<Rightarrow> InteractionAnalyzer" where
  "note_out_of_order a = a\<lparr>quality := (quality a)\<lparr>dqOutOfOrder := dqOutOfOrder (quality a) + 1\<rparr>\<rparr>"

text \<open>\<open>Inl\<close>: \<open>Observe\<close> returns without a turn at this point.\<close>

definition observe_start :: "Event \<Rightarrow> InteractionAnalyzer \<Rightarrow> InteractionAnalyzer + (Turn list \<times> InteractionAnalyzer)" where
  "observe_start e a =
     (if EvKind e \<noteq> EventSessionStarted then Inr ([], a)
      else
        let k = eventKey e; previous = gm_get (starts a) k;
            restart = (case ia_flush k a of (ts, a') \<Rightarrow>
              Inr (ts, a'\<lparr>lastSequence := gm_del k (lastSequence a'), starts := gm_put k \<lparr>ssSequence = EvSequence e, ssTimestamp = EvTimestamp e\<rparr> (starts a')\<rparr>))
        in case previous of
             None \<Rightarrow> restart
           | Some p \<Rightarrow>
               if ssSequence p = EvSequence e \<and> ssTimestamp p = EvTimestamp e then Inl (note_duplicate a)
               else if EvTimestamp e \<noteq> 0 \<and> EvTimestamp e < ssTimestamp p then Inl (note_out_of_order a)
               else restart)"

definition observe_sequence :: "Event \<Rightarrow> Turn list \<Rightarrow> InteractionAnalyzer \<Rightarrow> InteractionAnalyzer + (Turn list \<times> InteractionAnalyzer)" where
  "observe_sequence e completed a =
     (let k = eventKey e; last = (case gm_get (lastSequence a) k of Some n \<Rightarrow> n | None \<Rightarrow> 0)
      in if 0 < EvSequence e \<and> 0 < last
         then (if EvSequence e = last then Inl (note_duplicate a)
               else if EvSequence e < last then Inl (note_out_of_order a)
               else if last + 1 < EvSequence e
               then (case ia_flush k (a\<lparr>quality := (quality a)\<lparr>dqMissingSequences :=
                         wrap64 (dqMissingSequences (quality a) + sint (EvSequence e - last - 1))\<rparr>\<rparr>) of
                       (ts, a') \<Rightarrow> Inr (completed @ ts, a'))
               else Inr (completed, a))
         else Inr (completed, a))"

definition observe_interaction :: "Event \<Rightarrow> Turn list \<Rightarrow> InteractionAnalyzer \<Rightarrow> (Turn list \<times> InteractionAnalyzer) option" where
  "observe_interaction e completed a =
     (let k = eventKey e;
          (completed1, a1, p) = (case gm_get (iaPending a) k of
             None \<Rightarrow> (completed, a, startTurn e)
           | Some p \<Rightarrow> if tnDirection p \<noteq> EvDirection e \<or> tnStream p \<noteq> EvStream e
                       then (case ia_flush k a of (ts, a') \<Rightarrow> (completed @ ts, a', startTurn e))
                       else (completed, a, p))
      in map_option (\<lambda>(ts, p'). (completed1 @ ts, a1\<lparr>iaPending := gm_put k p' (iaPending a1)\<rparr>)) (appendEvent e p))"

definition Observe :: "Event \<Rightarrow> InteractionAnalyzer \<Rightarrow> (Turn list \<times> InteractionAnalyzer) option" where
  "Observe e a =
     (case observe_start e (count_event e a) of
        Inl a1 \<Rightarrow> Some ([], a1)
      | Inr (ts1, a1) \<Rightarrow>
          (case observe_sequence e ts1 a1 of
             Inl a2 \<Rightarrow> Some ([], a2)
           | Inr (ts2, a2) \<Rightarrow>
               let a3 = (if 0 < EvSequence e then a2\<lparr>lastSequence := gm_put (eventKey e) (EvSequence e) (lastSequence a2)\<rparr> else a2)
               in if EvKind e = EventSessionEnded then (case ia_flush (eventKey e) a3 of (ts, a4) \<Rightarrow> Some (ts2 @ ts, a4))
                  else if EvKind e \<noteq> EventProviderOutput \<and> EvKind e \<noteq> EventUserInput then Some (ts2, a3)
                  else observe_interaction e ts2 a3))"

fun flush_keys :: "sessionIdentity list \<Rightarrow> InteractionAnalyzer \<Rightarrow> Turn list \<times> InteractionAnalyzer" where
  "flush_keys [] a = ([], a)"
| "flush_keys (k # ks) a = (case ia_flush k a of (ts, a1) \<Rightarrow> case flush_keys ks a1 of (us, a2) \<Rightarrow> (ts @ us, a2))"

definition Finish :: "InteractionAnalyzer \<Rightarrow> Turn list \<times> InteractionAnalyzer" where
  "Finish a = flush_keys (sort (map fst (iaPending a))) a"

fun observe_events :: "Event list \<Rightarrow> InteractionAnalyzer \<Rightarrow> (Turn list \<times> InteractionAnalyzer) option" where
  "observe_events [] a = Some ([], a)"
| "observe_events (e # es) a =
     (case Observe e a of
        None \<Rightarrow> None
      | Some (ts, a1) \<Rightarrow> map_option (\<lambda>(us, a2). (ts @ us, a2)) (observe_events es a1))"

section \<open>Cutting valid text between its characters\<close>

lemma back_to_start_le: "back_to_start s n \<le> n"
  by (induction n) auto

lemma back_to_start_stops: "n \<le> length s \<Longrightarrow> back_to_start s n = 0 \<or> back_to_start s n = length s \<or> rune_start (s ! back_to_start s n)"
  by (induction n) auto

lemma back_to_start_ge: "m \<le> n \<Longrightarrow> n \<le> length s \<Longrightarrow> m = length s \<or> rune_start (s ! m) \<Longrightarrow> m \<le> back_to_start s n"
proof (induction n)
  case (Suc n)
  show ?case
  proof (cases "m = Suc n")
    case True
    with Suc.prems show ?thesis by auto
  qed (use Suc in auto)
qed simp

lemma rune_start_code: "rune_start c \<longleftrightarrow> \<not> (128 \<le> (of_char c :: nat) \<and> (of_char c :: nat) \<le> 191)"
  by (auto simp: rune_start_def)

lemma decode_first: "decode_rune (b # bs) = (r, w, True) \<Longrightarrow> \<not> (128 \<le> b \<and> b \<le> 191) \<and> w \<le> 4"
  by (auto simp: decode_rune_def split: list.splits if_splits)

lemma decode_inner: "decode_rune s = (r, w, True) \<Longrightarrow> 0 < i \<Longrightarrow> i < w \<Longrightarrow> 128 \<le> s ! i \<and> s ! i \<le> 191"
  by (cases i) (auto simp: decode_rune_def cont_byte_def second_lo_def second_hi_def nth_Cons' split: list.splits if_splits)

lemma Valid_Nil [simp]: "Valid ''''"
  by (simp add: Valid_def codes_def)

lemma codes_simps [simp]: "length (codes s) = length s" "codes (take n s) = take n (codes s)" "codes (drop n s) = drop n (codes s)"
  by (simp_all add: codes_def take_map drop_map)

lemma codes_nth: "i < length s \<Longrightarrow> codes s ! i = of_char (s ! i)"
  by (simp add: codes_def)

lemma Valid_first:
  assumes "Valid s" and "s \<noteq> ''''"
  obtains w where "0 < w" "w \<le> 4" "w \<le> length s" "Valid (drop w s)" "\<And>i. 0 < i \<Longrightarrow> i < w \<Longrightarrow> \<not> rune_start (s ! i)"
    "\<And>x. Valid (take w s @ x) = Valid x"
proof -
  from assms have v: "valid_utf8 (codes s)" "codes s \<noteq> []" by (auto simp: Valid_def codes_def)
  then obtain r w where d: "decode_rune (codes s) = (r, w, True)" "valid_utf8 (drop w (codes s))" using valid_step by blast
  have w: "0 < w" "w \<le> length s" using decode_ok_take [OF d(1), of "[]"] by auto
  obtain b bs where b: "codes s = b # bs" using v(2) by (cases "codes s") auto
  have "w \<le> 4" using decode_first [of b bs r w] d(1) b by simp
  moreover have "\<not> rune_start (s ! i)" if "0 < i" "i < w" for i
    using decode_inner [OF d(1) that] that w(2) by (simp add: rune_start_code codes_nth)
  moreover have "Valid (take w s @ x) = Valid x" for x
  proof -
    have "decode_rune (take w (codes s) @ codes x) = (r, w, True)" using decode_ok_take [OF d(1)] by blast
    then show ?thesis using valid_step [of "take w (codes s) @ codes x"] w v(2) by (simp add: Valid_def codes_append)
  qed
  moreover have "Valid (drop w s)" using d(2) by (simp add: Valid_def)
  ultimately show ?thesis using that w by blast
qed

lemma Valid_head: "Valid s \<Longrightarrow> s \<noteq> '''' \<Longrightarrow> rune_start (s ! 0)"
proof -
  assume a: "Valid s" "s \<noteq> ''''"
  then obtain b bs where b: "codes s = b # bs" by (cases s) (auto simp: codes_def)
  with a valid_step [of "codes s"] obtain r w where "decode_rune (b # bs) = (r, w, True)" by (auto simp: Valid_def)
  from decode_first [OF this] b a(2) show "rune_start (s ! 0)" using codes_nth [of 0 s] by (simp add: rune_start_code)
qed

lemma Valid_cut:
  assumes "Valid s" and "n \<le> length s" and "n = 0 \<or> n = length s \<or> rune_start (s ! n)"
  shows "Valid (take n s) \<and> Valid (drop n s)"
  using assms
proof (induction "length s" arbitrary: s n rule: less_induct)
  case less
  show ?case
  proof (cases "s = '''' \<or> n = 0")
    case False
    from Valid_first [OF less.prems(1)] False obtain w where w: "0 < w" "w \<le> length s" "Valid (drop w s)"
        "\<And>i. 0 < i \<Longrightarrow> i < w \<Longrightarrow> \<not> rune_start (s ! i)" "\<And>x. Valid (take w s @ x) = Valid x" by metis
    have n: "w \<le> n" using w(2) w(4) [of n] less.prems(3) False by (cases "n < w") auto
    have "Valid (take (n - w) (drop w s)) \<and> Valid (drop (n - w) (drop w s))"
      using less.prems n w(1-3) False by (intro less.hyps) auto
    moreover have "take n s = take w s @ take (n - w) (drop w s)" using n by (metis add_diff_inverse_nat not_less take_add)
    ultimately show ?thesis using w(5) n by simp
  qed (use less.prems in auto)
qed

lemma back_to_start_pos:
  assumes "Valid s" and "s \<noteq> ''''" and "n \<le> length s" and "4 \<le> n \<or> n = length s"
  shows "0 < back_to_start s n"
proof -
  from Valid_first [OF assms(1,2)] obtain w where w: "0 < w" "w \<le> 4" "w \<le> length s" "Valid (drop w s)" by metis
  have "w \<le> n" using w assms(4) by auto
  moreover have "w = length s \<or> rune_start (s ! w)" using Valid_head [OF w(4)] w(3) by (cases "w = length s") auto
  ultimately have "w \<le> back_to_start s n" using back_to_start_ge assms(3) by blast
  with w(1) show ?thesis by simp
qed


section \<open>One event\<close>

text \<open>What a list of turns says: the text, and the two counters modulo \<open>2 ^ 64\<close>.\<close>

definition said :: "Turn list \<Rightarrow> string" where
  "said ts = concat (map tnText ts)"

definition bytes_of :: "Turn list \<Rightarrow> int" where
  "bytes_of ts = sum_list (map tnByteCount ts)"

definition redactions_of :: "Turn list \<Rightarrow> int" where
  "redactions_of ts = sum_list (map tnRedactions ts)"

definition turn_key :: "Turn \<Rightarrow> sessionIdentity" where
  "turn_key t = (tnSourceID t, tnSessionID t)"

definition turn_ok :: "sessionIdentity \<Rightarrow> Turn \<Rightarrow> bool" where
  "turn_ok k t \<longleftrightarrow> turn_key t = k \<and> length (tnText t) \<le> MaxTurnTextBytes \<and> Valid (tnText t)"

definition cong64 :: "int \<Rightarrow> int \<Rightarrow> bool" where
  "cong64 a b \<longleftrightarrow> a mod 2 ^ 64 = b mod 2 ^ 64"

lemma tally_simps [simp]:
  "said [] = ''''" "said (t # ts) = tnText t @ said ts" "said (ts @ us) = said ts @ said us"
  "bytes_of [] = 0" "bytes_of (t # ts) = tnByteCount t + bytes_of ts" "bytes_of (ts @ us) = bytes_of ts + bytes_of us"
  "redactions_of [] = 0" "redactions_of (t # ts) = tnRedactions t + redactions_of ts" "redactions_of (ts @ us) = redactions_of ts + redactions_of us"
  by (simp_all add: said_def bytes_of_def redactions_of_def)

lemma cong64_refl [simp]: "cong64 a a"
  by (simp add: cong64_def)

lemma cong64_trans: "cong64 a b \<Longrightarrow> cong64 b c \<Longrightarrow> cong64 a c"
  by (simp add: cong64_def)

lemma cong64_add: "cong64 a b \<Longrightarrow> cong64 c d \<Longrightarrow> cong64 (a + c) (b + d)"
  unfolding cong64_def by (rule mod_add_cong)

lemma cong64_wrap: "cong64 (wrap64 x) x"
proof -
  have "(wrap64 x) mod 2 ^ 64 = ((x + 2 ^ 63) - 2 ^ 63) mod 2 ^ 64" unfolding wrap64_def by (rule mod_diff_left_eq)
  then show ?thesis by (simp add: cong64_def)
qed

lemma Valid_append: "Valid a \<Longrightarrow> Valid (a @ b) = Valid b"
  by (simp add: Valid_def codes_append valid_append)

text \<open>The turns \<open>append_loop\<close> leaves behind.\<close>

definition appended :: "Event \<Rightarrow> string \<Rightarrow> int \<Rightarrow> Turn \<Rightarrow> Turn list \<Rightarrow> Turn \<Rightarrow> bool" where
  "appended e remaining allocated p cs p' \<longleftrightarrow>
     said (cs @ [p']) = tnText p @ remaining \<and> (\<forall>t \<in> set (cs @ [p']). turn_ok (eventKey e) t) \<and>
     cong64 (bytes_of (cs @ [p'])) (tnByteCount p + (EvByteCount e - allocated)) \<and>
     cong64 (redactions_of (cs @ [p'])) (tnRedactions p + EvRedactions e)"

lemma append_loop_returns:
  assumes "Valid remaining" and "turn_ok (eventKey e) p" and "consumed + length remaining = length (EvText e)"
  shows "\<exists>cs p'. append_loop e remaining consumed allocated completed p = Some (completed @ cs, p') \<and> appended e remaining allocated p cs p'"
  using assms
proof (induction "2 * length remaining + (if tnText p = '''' then 0 else 1)" arbitrary: remaining consumed allocated completed p rule: less_induct)
  case less
  define m where "m = min (length remaining) (MaxTurnTextBytes - length (tnText p))"
  define n where "n = back_to_start remaining m"
  have m: "m \<le> length remaining" by (simp add: m_def)
  have n: "n \<le> m" unfolding n_def by (rule back_to_start_le)
  have cut: "Valid (take n remaining) \<and> Valid (drop n remaining)"
    using Valid_cut [OF less.prems(1)] back_to_start_stops [OF m] m n by (simp add: n_def)
  have p: "length (tnText p) \<le> MaxTurnTextBytes" "Valid (tnText p)" "turn_key p = eventKey e" using less.prems(2) by (auto simp: turn_ok_def)
  show ?case
  proof (cases "n = 0 \<and> remaining \<noteq> ''''")
    case True
    have "tnText p \<noteq> ''''"
    proof
      assume "tnText p = ''''"
      then have "4 \<le> m \<or> m = length remaining" by (auto simp: m_def)
      with back_to_start_pos [OF less.prems(1) _ m] True show False by (simp add: n_def)
    qed
    let ?q = "(startTurn e)\<lparr>tnChunkIndex := tnChunkIndex p + 1\<rparr>" and ?c = "p\<lparr>tnContinues := True\<rparr>"
    have q: "turn_ok (eventKey e) ?q" "tnText ?q = ''''" "tnByteCount ?q = 0" "tnRedactions ?q = 0"
      by (simp_all add: turn_ok_def turn_key_def startTurn_def eventKey_def)
    from less.hyps [OF _ less.prems(1) q(1) less.prems(3), of allocated "completed @ [?c]"] q(2) \<open>tnText p \<noteq> ''''\<close>
    obtain cs p' where r: "append_loop e remaining consumed allocated (completed @ [?c]) ?q = Some ((completed @ [?c]) @ cs, p')"
        "appended e remaining allocated ?q cs p'" by auto
    have "append_loop e remaining consumed allocated completed p = Some (completed @ (?c # cs), p')"
      using r(1) by (simp add: append_loop.simps [of e remaining consumed allocated completed p] Let_def m_def [symmetric] n_def [symmetric] True)
    moreover have "appended e remaining allocated p (?c # cs) p'"
      using r(2) q p by (auto simp: appended_def turn_ok_def turn_key_def intro: cong64_add [OF cong64_refl])
    ultimately show ?thesis by blast
  next
    case False
    define bytes where "bytes = allocated_bytes e (consumed + n)"
    define rest where "rest = drop n remaining"
    define p1 where "p1 = p\<lparr>tnText := tnText p @ take n remaining, tnSequenceEnd := EvSequence e, tnEndedAt := EvTimestamp e,
                      tnByteCount := wrap64 (tnByteCount p + (bytes - allocated)),
                      tnRedactions := (if rest = '''' then wrap64 (tnRedactions p + EvRedactions e) else tnRedactions p)\<rparr>"
    have p1: "turn_ok (eventKey e) p1" "tnText p1 @ rest = tnText p @ remaining"
      using p cut n by (auto simp: p1_def rest_def turn_ok_def turn_key_def m_def Valid_append)
    have step: "append_loop e remaining consumed allocated completed p =
        (if rest = '''' then Some (completed, p1) else append_loop e rest (consumed + n) bytes completed p1)"
      by (simp only: append_loop.simps [of e remaining consumed allocated completed p] Let_def m_def [symmetric] n_def [symmetric]
          bytes_def [symmetric] rest_def [symmetric] p1_def [symmetric] False if_False)
    have by1: "cong64 (tnByteCount p1) (tnByteCount p + (bytes - allocated))" by (simp add: p1_def cong64_wrap)
    show ?thesis
    proof (cases "rest = ''''")
      case True
      have "bytes = EvByteCount e" using True n m less.prems(3) by (simp add: bytes_def allocated_bytes_def rest_def)
      then have "appended e remaining allocated p [] p1"
        using True p1 by1 by (simp add: appended_def) (simp add: p1_def cong64_wrap)
      then show ?thesis using step True by fastforce
    next
      case more: False
      have "0 < n" using False more by (auto simp: rest_def)
      then have "2 * length rest + (if tnText p1 = '''' then 0 else 1) < 2 * length remaining + (if tnText p = '''' then 0 else 1)"
        using more by (auto simp: rest_def)
      from less.hyps [OF this _ p1(1), of "consumed + n" bytes completed] cut less.prems(3) n m obtain cs p' where
        r: "append_loop e rest (consumed + n) bytes completed p1 = Some (completed @ cs, p')" "appended e rest bytes p1 cs p'"
        by (auto simp: rest_def)
      have "cong64 (bytes_of (cs @ [p'])) (tnByteCount p + (EvByteCount e - allocated))"
      proof -
        have "cong64 (bytes_of (cs @ [p'])) (tnByteCount p1 + (EvByteCount e - bytes))" using r(2) by (simp add: appended_def)
        moreover have "cong64 (tnByteCount p1 + (EvByteCount e - bytes)) (tnByteCount p + (bytes - allocated) + (EvByteCount e - bytes))"
          using by1 by (rule cong64_add) simp
        ultimately show ?thesis using cong64_trans by (metis (no_types, lifting) add.commute add_diff_eq diff_add_cancel)
      qed
      moreover have "tnRedactions p1 = tnRedactions p" using more by (simp add: p1_def)
      ultimately have "appended e remaining allocated p cs p'" using r(2) p1(2) by (simp add: appended_def)
      then show ?thesis using step more r(1) by auto
    qed
  qed
qed


section \<open>Which events count\<close>

text \<open>
  A reference for what \<open>Observe\<close> takes into account: an event numbered after the last one of its session, and a start of a session
  that is neither a repetition nor older than the last start. A new start begins the numbering anew.
\<close>

definition fate ::
  "(sessionIdentity \<rightharpoonup> u64) \<Rightarrow> (sessionIdentity \<rightharpoonup> sessionStart) \<Rightarrow> Event \<Rightarrow> bool \<times> (sessionIdentity \<rightharpoonup> u64) \<times> (sessionIdentity \<rightharpoonup> sessionStart)" where
  "fate L S e =
     (let k = eventKey e; stale = (case S k of Some p \<Rightarrow> ssSequence p = EvSequence e \<and> ssTimestamp p = EvTimestamp e \<or>
                                                   EvTimestamp e \<noteq> 0 \<and> EvTimestamp e < ssTimestamp p | None \<Rightarrow> False)
      in if EvKind e = EventSessionStarted
         then (if stale then (False, L, S)
               else (True, L(k := (if 0 < EvSequence e then Some (EvSequence e) else None)), S(k \<mapsto> \<lparr>ssSequence = EvSequence e, ssTimestamp = EvTimestamp e\<rparr>)))
         else if 0 < EvSequence e \<and> (case L k of Some l \<Rightarrow> EvSequence e \<le> l | None \<Rightarrow> False) then (False, L, S)
         else (True, if 0 < EvSequence e then L(k \<mapsto> EvSequence e) else L, S))"

fun kept :: "(sessionIdentity \<rightharpoonup> u64) \<Rightarrow> (sessionIdentity \<rightharpoonup> sessionStart) \<Rightarrow> Event list \<Rightarrow> Event list" where
  "kept L S [] = []"
| "kept L S (e # es) = (case fate L S e of (keep, L', S') \<Rightarrow> if keep then e # kept L' S' es else kept L' S' es)"

definition interaction :: "Event \<Rightarrow> bool" where
  "interaction e \<longleftrightarrow> EvKind e = EventProviderOutput \<or> EvKind e = EventUserInput"

definition of_key :: "sessionIdentity \<Rightarrow> Turn list \<Rightarrow> Turn list" where
  "of_key k ts = filter (\<lambda>t. turn_key t = k) ts"

definition texts :: "sessionIdentity \<Rightarrow> Event list \<Rightarrow> string" where
  "texts k es = concat (map EvText (filter (\<lambda>e. eventKey e = k) es))"

definition byte_counts :: "sessionIdentity \<Rightarrow> Event list \<Rightarrow> int" where
  "byte_counts k es = sum_list (map EvByteCount (filter (\<lambda>e. eventKey e = k) es))"

definition redaction_counts :: "sessionIdentity \<Rightarrow> Event list \<Rightarrow> int" where
  "redaction_counts k es = sum_list (map EvRedactions (filter (\<lambda>e. eventKey e = k) es))"

section \<open>The analyzer tells what it was told\<close>

definition ia_ok :: "InteractionAnalyzer \<Rightarrow> bool" where
  "ia_ok a \<longleftrightarrow> gm_ok (iaPending a) \<and> (\<forall>k t. gm_get (iaPending a) k = Some t \<longrightarrow> turn_ok k t) \<and> (\<forall>k l. gm_get (lastSequence a) k = Some l \<longrightarrow> 0 < l)"

definition pend :: "sessionIdentity \<Rightarrow> InteractionAnalyzer \<Rightarrow> Turn list" where
  "pend k a = (case gm_get (iaPending a) k of None \<Rightarrow> [] | Some t \<Rightarrow> [t])"

definition told :: "InteractionAnalyzer \<Rightarrow> Turn list \<Rightarrow> InteractionAnalyzer \<Rightarrow> Event list \<Rightarrow> bool" where
  "told a ts a' es \<longleftrightarrow> ia_ok a' \<and> (\<forall>t \<in> set ts. turn_ok (turn_key t) t) \<and>
     (\<forall>k. said (of_key k ts @ pend k a') = said (pend k a) @ texts k es \<and>
          cong64 (bytes_of (of_key k ts @ pend k a')) (bytes_of (pend k a) + byte_counts k es) \<and>
          cong64 (redactions_of (of_key k ts @ pend k a')) (redactions_of (pend k a) + redaction_counts k es))"

lemma of_key_simps [simp]:
  "of_key k [] = []" "of_key k (t # ts) = (if turn_key t = k then t # of_key k ts else of_key k ts)" "of_key k (ts @ us) = of_key k ts @ of_key k us"
  by (simp_all add: of_key_def)

lemma texts_simps [simp]:
  "texts k [] = ''''" "texts k (es @ fs) = texts k es @ texts k fs"
  "byte_counts k [] = 0" "byte_counts k (es @ fs) = byte_counts k es + byte_counts k fs"
  "redaction_counts k [] = 0" "redaction_counts k (es @ fs) = redaction_counts k es + redaction_counts k fs"
  by (simp_all add: texts_def byte_counts_def redaction_counts_def)

lemma texts_single:
  "texts k [e] = (if eventKey e = k then EvText e else '''')" "byte_counts k [e] = (if eventKey e = k then EvByteCount e else 0)"
  "redaction_counts k [e] = (if eventKey e = k then EvRedactions e else 0)"
  by (simp_all add: texts_def byte_counts_def redaction_counts_def)

lemma cong64_chain: "cong64 (a + x) (p + u) \<Longrightarrow> cong64 (b + y) (x + v) \<Longrightarrow> cong64 (a + b + y) (p + (u + v))"
proof -
  assume a: "cong64 (a + x) (p + u)" and b: "cong64 (b + y) (x + v)"
  have "cong64 (a + (b + y)) (a + (x + v))" by (rule cong64_add [OF cong64_refl b])
  moreover have "cong64 (a + x + v) (p + u + v)" using a by (rule cong64_add) simp
  ultimately show ?thesis using cong64_trans by (metis (no_types, lifting) add.assoc)
qed

lemma told_trans:
  assumes "told a ts a1 es" and "told a1 us a2 fs"
  shows "told a (ts @ us) a2 (es @ fs)"
  unfolding told_def
proof (intro conjI allI)
  fix k
  have t: "said (of_key k ts) @ said (pend k a1) = said (pend k a) @ texts k es" "said (of_key k us) @ said (pend k a2) = said (pend k a1) @ texts k fs"
    "cong64 (bytes_of (of_key k ts) + bytes_of (pend k a1)) (bytes_of (pend k a) + byte_counts k es)"
    "cong64 (bytes_of (of_key k us) + bytes_of (pend k a2)) (bytes_of (pend k a1) + byte_counts k fs)"
    "cong64 (redactions_of (of_key k ts) + redactions_of (pend k a1)) (redactions_of (pend k a) + redaction_counts k es)"
    "cong64 (redactions_of (of_key k us) + redactions_of (pend k a2)) (redactions_of (pend k a1) + redaction_counts k fs)"
    using assms by (simp_all add: told_def)
  show "said (of_key k (ts @ us) @ pend k a2) = said (pend k a) @ texts k (es @ fs)" using t(1,2) by (metis append.assoc of_key_simps(3) tally_simps(3) texts_simps(2))
  show "cong64 (bytes_of (of_key k (ts @ us) @ pend k a2)) (bytes_of (pend k a) + byte_counts k (es @ fs))" using cong64_chain [OF t(3,4)] by (simp add: add.assoc)
  show "cong64 (redactions_of (of_key k (ts @ us) @ pend k a2)) (redactions_of (pend k a) + redaction_counts k (es @ fs))" using cong64_chain [OF t(5,6)] by (simp add: add.assoc)
qed (use assms in \<open>auto simp: told_def\<close>)

lemma told_same:
  assumes "ia_ok a'" and "iaPending a' = iaPending a"
  shows "told a [] a' []"
  using assms by (simp add: told_def pend_def)

lemma flush_told:
  assumes "ia_ok a" and "ia_flush k a = (ts, a')"
  shows "told a ts a' [] \<and> gm_get (iaPending a') k = None \<and> lastSequence a' = lastSequence a \<and> starts a' = starts a \<and> quality a' = quality a"
proof (cases "gm_get (iaPending a) k")
  case None
  with assms show ?thesis by (auto simp: ia_flush_def told_same)
next
  case (Some t)
  then have r: "ts = [t]" "a' = a\<lparr>iaPending := gm_del k (iaPending a)\<rparr>" using assms(2) by (auto simp: ia_flush_def)
  have t: "turn_ok k t" using assms(1) Some by (simp add: ia_ok_def)
  have "ia_ok a'" using assms(1) by (auto simp: r ia_ok_def gomap_simps split: if_splits)
  moreover have "turn_key t = k" using t by (simp add: turn_ok_def)
  ultimately show ?thesis using t Some by (auto simp: r told_def pend_def gomap_simps)
qed

lemma interaction_told:
  assumes ok: "ia_ok a" and v: "Valid (EvText e)"
  shows "\<exists>ts a'. observe_interaction e completed a = Some (completed @ ts, a') \<and> told a ts a' [e] \<and>
           lastSequence a' = lastSequence a \<and> starts a' = starts a \<and> quality a' = quality a"
proof -
  let ?k = "eventKey e"
  obtain us a1 p where c: "(case gm_get (iaPending a) ?k of None \<Rightarrow> (completed, a, startTurn e)
           | Some p \<Rightarrow> if tnDirection p \<noteq> EvDirection e \<or> tnStream p \<noteq> EvStream e
                       then (case ia_flush ?k a of (ts, a') \<Rightarrow> (completed @ ts, a', startTurn e)) else (completed, a, p)) = (completed @ us, a1, p)"
      "told a us a1 []" "turn_ok ?k p" "said [p] = said (pend ?k a1) \<and> bytes_of [p] = bytes_of (pend ?k a1) \<and> redactions_of [p] = redactions_of (pend ?k a1)"
      "lastSequence a1 = lastSequence a" "starts a1 = starts a" "quality a1 = quality a"
  proof (cases "gm_get (iaPending a) ?k")
    case None
    with that [of "[]" a "startTurn e"] told_same [OF ok] show ?thesis
      by (simp add: turn_ok_def turn_key_def startTurn_def eventKey_def pend_def)
  next
    case (Some t)
    obtain ts a' where f: "ia_flush ?k a = (ts, a')" by (cases "ia_flush ?k a")
    show ?thesis
    proof (cases "tnDirection t \<noteq> EvDirection e \<or> tnStream t \<noteq> EvStream e")
      case True
      with that [of ts a' "startTurn e"] flush_told [OF ok f] f Some show ?thesis
        by (simp add: turn_ok_def turn_key_def startTurn_def eventKey_def pend_def)
    next
      case False
      with that [of "[]" a t] told_same [OF ok] Some ok show ?thesis by (simp add: pend_def ia_ok_def)
    qed
  qed
  from append_loop_returns [OF v c(3), of 0 0 "[]"] obtain cs p' where ap: "appendEvent e p = Some (cs, p')" "appended e (EvText e) 0 p cs p'"
    by (auto simp: appendEvent_def)
  define a' where "a' = a1\<lparr>iaPending := gm_put ?k p' (iaPending a1)\<rparr>"
  have keys: "\<forall>t \<in> set (cs @ [p']). turn_ok ?k t" using ap(2) by (simp add: appended_def)
  have of: "of_key k cs = (if k = ?k then cs else [])" for k
    using keys by (induction cs) (auto simp: turn_ok_def)
  have "ia_ok a1" using c(2) by (simp add: told_def)
  then have "ia_ok a'" using keys by (auto simp: a'_def ia_ok_def gomap_simps split: if_splits)
  moreover have "pend k a' = (if k = ?k then [p'] else pend k a1)" for k by (simp add: a'_def pend_def gomap_simps)
  moreover have "\<forall>t \<in> set cs. turn_ok (turn_key t) t" using keys by (auto simp: turn_ok_def)
  ultimately have "told a1 cs a' [e]" using ap(2) c(4) by (auto simp: told_def of texts_single appended_def)
  then have "told a (us @ cs) a' [e]" using told_trans [OF c(2)] by fastforce
  moreover have "observe_interaction e completed a = Some (completed @ (us @ cs), a')"
    using ap(1) c(1) by (simp add: observe_interaction_def Let_def a'_def)
  ultimately show ?thesis using c(5-7) by (auto simp: a'_def)
qed


lemma count_fields [simp]:
  "iaPending (count_event e a) = iaPending a" "lastSequence (count_event e a) = lastSequence a" "starts (count_event e a) = starts a"
  "dqEvents (quality (count_event e a)) = dqEvents (quality a) + 1" "dqDuplicates (quality (count_event e a)) = dqDuplicates (quality a)"
  "dqOutOfOrder (quality (count_event e a)) = dqOutOfOrder (quality a)" "ia_ok (count_event e a) = ia_ok a"
  by (simp_all add: count_event_def Let_def ia_ok_def)

definition rejected_count :: "InteractionAnalyzer \<Rightarrow> int" where
  "rejected_count a = dqDuplicates (quality a) + dqOutOfOrder (quality a)"

text \<open>How far one event takes the analyzer: what it told, what it remembers, and what it counted.\<close>

definition advanced :: "Event \<Rightarrow> InteractionAnalyzer \<Rightarrow> Turn list \<Rightarrow> InteractionAnalyzer \<Rightarrow> bool" where
  "advanced e a ts a' \<longleftrightarrow>
     (\<exists>keep. fate (gm_get (lastSequence a)) (gm_get (starts a)) e = (keep, gm_get (lastSequence a'), gm_get (starts a')) \<and>
        told a ts a' (if keep \<and> interaction e then [e] else []) \<and>
        dqEvents (quality a') = dqEvents (quality a) + 1 \<and> rejected_count a' = rejected_count a + (if keep then 0 else 1))"

lemma sequence_stale:
  assumes "ia_ok a" and "EvKind e \<noteq> EventSessionStarted" and "observe_sequence e [] (count_event e a) = Inl a'"
  shows "advanced e a [] a'"
proof -
  let ?b = "count_event e a"
  from assms(3) obtain l where l: "gm_get (lastSequence a) (eventKey e) = Some l" "0 < EvSequence e" "EvSequence e \<le> l" "a' \<in> {note_duplicate ?b, note_out_of_order ?b}"
    by (auto simp: observe_sequence_def Let_def split: if_splits option.splits prod.splits)
  then have "fate (gm_get (lastSequence a)) (gm_get (starts a)) e = (False, gm_get (lastSequence a), gm_get (starts a))"
    using assms(2) by (simp add: fate_def Let_def)
  moreover have "lastSequence a' = lastSequence a" "starts a' = starts a" "iaPending a' = iaPending a" "dqEvents (quality a') = dqEvents (quality a) + 1"
      "rejected_count a' = rejected_count a + 1"
    using l(4) by (auto simp: note_duplicate_def note_out_of_order_def rejected_count_def)
  moreover have "ia_ok a'" using assms(1) calculation(2-4) by (simp add: ia_ok_def)
  ultimately show ?thesis using told_same [of a' a] by (auto simp: advanced_def)
qed

lemma sequence_next:
  assumes "ia_ok b" and "observe_sequence e completed b = Inr (ts, b')"
  shows "\<exists>us. ts = completed @ us \<and> told b us b' [] \<and> lastSequence b' = lastSequence b \<and> starts b' = starts b \<and>
           dqEvents (quality b') = dqEvents (quality b) \<and> rejected_count b' = rejected_count b \<and>
           \<not> (0 < EvSequence e \<and> (case gm_get (lastSequence b) (eventKey e) of Some l \<Rightarrow> EvSequence e \<le> l | None \<Rightarrow> False))"
proof -
  define last where "last = (case gm_get (lastSequence b) (eventKey e) of Some n \<Rightarrow> n | None \<Rightarrow> 0)"
  have fresh: "\<not> (0 < EvSequence e \<and> (case gm_get (lastSequence b) (eventKey e) of Some l \<Rightarrow> EvSequence e \<le> l | None \<Rightarrow> False))"
    using assms by (auto simp: observe_sequence_def Let_def ia_ok_def split: if_splits option.splits)
  show ?thesis
  proof (cases "0 < EvSequence e \<and> 0 < last \<and> last + 1 < EvSequence e")
    case True
    let ?c = "b\<lparr>quality := (quality b)\<lparr>dqMissingSequences := wrap64 (dqMissingSequences (quality b) + sint (EvSequence e - last - 1))\<rparr>\<rparr>"
    obtain us c' where f: "ia_flush (eventKey e) ?c = (us, c')" by (cases "ia_flush (eventKey e) ?c")
    have ok: "ia_ok ?c" using assms(1) by (simp add: ia_ok_def)
    have "ts = completed @ us" "b' = c'" using True assms(2) f by (auto simp: observe_sequence_def Let_def last_def split: if_splits)
    moreover have "told b us c' []" using flush_told [OF ok f] told_trans [OF told_same [OF ok], of b us c' "[]"] by simp
    ultimately show ?thesis using flush_told [OF ok f] fresh by (auto simp: rejected_count_def)
  next
    case False
    then have "ts = completed" "b' = b" using assms(2) by (auto simp: observe_sequence_def Let_def last_def split: if_splits)
    then show ?thesis using told_same [OF assms(1)] fresh by auto
  qed
qed

lemma finish_step:
  assumes ok: "ia_ok b" and v: "interaction e \<Longrightarrow> Valid (EvText e)"
  shows "\<exists>us b'. (if EvKind e = EventSessionEnded then (case ia_flush (eventKey e) b of (ts, a4) \<Rightarrow> Some (completed @ ts, a4))
                  else if EvKind e \<noteq> EventProviderOutput \<and> EvKind e \<noteq> EventUserInput then Some (completed, b)
                  else observe_interaction e completed b) = Some (completed @ us, b') \<and>
           told b us b' (if interaction e then [e] else []) \<and> lastSequence b' = lastSequence b \<and> starts b' = starts b \<and> quality b' = quality b"
proof (cases "EvKind e = EventSessionEnded")
  case True
  obtain us b' where f: "ia_flush (eventKey e) b = (us, b')" by (cases "ia_flush (eventKey e) b")
  with flush_told [OF ok f] True show ?thesis by (auto simp: interaction_def)
next
  case False
  show ?thesis
  proof (cases "interaction e")
    case True
    with interaction_told [OF ok v [OF True], of completed] False show ?thesis by (auto simp: interaction_def)
  next
    case no: False
    with told_same [OF ok] False show ?thesis by (auto simp: interaction_def)
  qed
qed


lemma start_step:
  assumes ok: "ia_ok a" and k: "EvKind e = EventSessionStarted"
  shows "\<exists>ts a'. Observe e a = Some (ts, a') \<and> advanced e a ts a'"
proof -
  let ?b = "count_event e a" and ?k = "eventKey e"
  define stale where "stale \<longleftrightarrow> (case gm_get (starts a) ?k of Some p \<Rightarrow> ssSequence p = EvSequence e \<and> ssTimestamp p = EvTimestamp e \<or>
    EvTimestamp e \<noteq> 0 \<and> EvTimestamp e < ssTimestamp p | None \<Rightarrow> False)"
  show ?thesis
  proof (cases stale)
    case True
    then obtain a' where a': "observe_start e ?b = Inl a'" "a' \<in> {note_duplicate ?b, note_out_of_order ?b}"
      using k by (auto simp: stale_def observe_start_def Let_def split: option.splits)
    then have "ia_ok a'" "iaPending a' = iaPending a" "lastSequence a' = lastSequence a" "starts a' = starts a"
        "dqEvents (quality a') = dqEvents (quality a) + 1" "rejected_count a' = rejected_count a + 1"
      using ok by (auto simp: note_duplicate_def note_out_of_order_def rejected_count_def ia_ok_def)
    moreover have "fate (gm_get (lastSequence a)) (gm_get (starts a)) e = (False, gm_get (lastSequence a), gm_get (starts a))"
      using True k by (simp add: fate_def Let_def stale_def)
    ultimately have "advanced e a [] a'" using told_same [of a' a] by (auto simp: advanced_def)
    then show ?thesis using a'(1) by (auto simp: Observe_def)
  next
    case False
    obtain ts b where f: "ia_flush ?k ?b = (ts, b)" by (cases "ia_flush ?k ?b")
    define b1 where "b1 = b\<lparr>lastSequence := gm_del ?k (lastSequence b), starts := gm_put ?k \<lparr>ssSequence = EvSequence e, ssTimestamp = EvTimestamp e\<rparr> (starts b)\<rparr>"
    define b2 where "b2 = (if 0 < EvSequence e then b1\<lparr>lastSequence := gm_put ?k (EvSequence e) (lastSequence b1)\<rparr> else b1)"
    have okb: "ia_ok ?b" using ok by simp
    note fl = flush_told [OF okb f]
    have "observe_start e ?b = Inr (ts, b1)"
      using False k f by (auto simp: stale_def observe_start_def Let_def b1_def split: option.splits)
    moreover have "observe_sequence e ts b1 = Inr (ts, b1)" by (simp add: observe_sequence_def b1_def Let_def gomap_simps)
    ultimately have "Observe e a = Some (ts, b2)" using k by (simp add: Observe_def b2_def Let_def)
    moreover have "advanced e a ts b2"
    proof -
      have p: "iaPending b2 = iaPending b" by (simp add: b2_def b1_def)
      have "ia_ok b" using fl by (simp add: told_def)
      then have ok2: "ia_ok b2" using fl ok by (auto simp: b2_def b1_def ia_ok_def gomap_simps split: if_splits)
      have "told a ts b2 []"
        using told_trans [OF told_trans [OF told_same [OF okb, of a], of ts b "[]"] told_same [OF ok2 p]] fl by simp
      moreover have "fate (gm_get (lastSequence a)) (gm_get (starts a)) e = (True, gm_get (lastSequence b2), gm_get (starts b2))"
        using False k fl by (auto simp: fate_def Let_def stale_def b2_def b1_def update_conv' delete_conv' fun_eq_iff)
      moreover have "dqEvents (quality b2) = dqEvents (quality a) + 1" "rejected_count b2 = rejected_count a"
        using fl by (auto simp: b2_def b1_def rejected_count_def)
      ultimately show ?thesis using k by (auto simp: advanced_def interaction_def)
    qed
    ultimately show ?thesis by blast
  qed
qed

lemma Observe_advanced:
  assumes ok: "ia_ok a" and v: "interaction e \<Longrightarrow> Valid (EvText e)"
  shows "\<exists>ts a'. Observe e a = Some (ts, a') \<and> advanced e a ts a'"
proof (cases "EvKind e = EventSessionStarted")
  case True
  with start_step [OF ok] show ?thesis by blast
next
  case False
  let ?b = "count_event e a" and ?k = "eventKey e"
  have start: "observe_start e ?b = Inr ([], ?b)" using False by (simp add: observe_start_def)
  show ?thesis
  proof (cases "observe_sequence e [] ?b")
    case (Inl a')
    then have "Observe e a = Some ([], a')" using start by (simp add: Observe_def)
    with sequence_stale [OF ok False Inl] show ?thesis by blast
  next
    case (Inr r)
    then obtain ts b where r: "observe_sequence e [] ?b = Inr (ts, b)" by (cases r) auto
    have okb: "ia_ok ?b" using ok by simp
    note nx = sequence_next [OF okb r]
    define b2 where "b2 = (if 0 < EvSequence e then b\<lparr>lastSequence := gm_put ?k (EvSequence e) (lastSequence b)\<rparr> else b)"
    have told: "told a ts b []" using nx told_trans [OF told_same [OF okb, of a], of ts b "[]"] by auto
    then have ok2: "ia_ok b2" by (auto simp: b2_def told_def ia_ok_def gomap_simps split: if_splits)
    have p: "iaPending b2 = iaPending b" by (simp add: b2_def)
    from finish_step [OF ok2 v, of ts] obtain us a' where fin:
        "(if EvKind e = EventSessionEnded then (case ia_flush ?k b2 of (us, a4) \<Rightarrow> Some (ts @ us, a4))
          else if EvKind e \<noteq> EventProviderOutput \<and> EvKind e \<noteq> EventUserInput then Some (ts, b2) else observe_interaction e ts b2) = Some (ts @ us, a')"
        "told b2 us a' (if interaction e then [e] else [])" "lastSequence a' = lastSequence b2" "starts a' = starts b2" "quality a' = quality b2"
      by auto
    have "Observe e a = Some (ts @ us, a')" 
      unfolding Observe_def start r sum.case prod.case Let_def b2_def [symmetric] by (rule fin(1))
    moreover have "told a (ts @ us) a' (if interaction e then [e] else [])"
      using told_trans [OF told_trans [OF told told_same [OF ok2 p]] fin(2)] by simp
    moreover have "fate (gm_get (lastSequence a)) (gm_get (starts a)) e = (True, gm_get (lastSequence a'), gm_get (starts a'))"
      using False nx fin(3,4) by (auto simp: fate_def Let_def b2_def update_conv' fun_eq_iff)
    moreover have "dqEvents (quality a') = dqEvents (quality a) + 1" "rejected_count a' = rejected_count a"
      using nx fin(5) by (auto simp: b2_def rejected_count_def)
    ultimately show ?thesis by (auto simp: advanced_def)
  qed
qed


lemma events_told:
  assumes "ia_ok a" and "\<forall>e \<in> set es. interaction e \<longrightarrow> Valid (EvText e)"
  shows "\<exists>ts a'. observe_events es a = Some (ts, a') \<and>
           told a ts a' (filter interaction (kept (gm_get (lastSequence a)) (gm_get (starts a)) es)) \<and>
           dqEvents (quality a') = dqEvents (quality a) + int (length es) \<and>
           rejected_count a' = rejected_count a + int (length es) - int (length (kept (gm_get (lastSequence a)) (gm_get (starts a)) es))"
  using assms
proof (induction es arbitrary: a)
  case Nil
  then show ?case using told_same [of a a] by simp
next
  case (Cons e es)
  have v: "interaction e \<Longrightarrow> Valid (EvText e)" using Cons.prems(2) by simp
  from Observe_advanced [OF Cons.prems(1) v] obtain ts a1 keep where o: "Observe e a = Some (ts, a1)"
      "fate (gm_get (lastSequence a)) (gm_get (starts a)) e = (keep, gm_get (lastSequence a1), gm_get (starts a1))"
      "told a ts a1 (if keep \<and> interaction e then [e] else [])"
      "dqEvents (quality a1) = dqEvents (quality a) + 1" "rejected_count a1 = rejected_count a + (if keep then 0 else 1)"
    by (auto simp: advanced_def)
  have "ia_ok a1" using o(3) by (simp add: told_def)
  from Cons.IH [OF this] Cons.prems(2) obtain us a2 where r: "observe_events es a1 = Some (us, a2)"
      "told a1 us a2 (filter interaction (kept (gm_get (lastSequence a1)) (gm_get (starts a1)) es))"
      "dqEvents (quality a2) = dqEvents (quality a1) + int (length es)"
      "rejected_count a2 = rejected_count a1 + int (length es) - int (length (kept (gm_get (lastSequence a1)) (gm_get (starts a1)) es))"
    by auto
  show ?case using o r told_trans [OF o(3) r(2)] by (cases keep) (auto split: if_splits)
qed

lemma flush_keys_told:
  assumes "ia_ok a" and "flush_keys ks a = (ts, a')"
  shows "told a ts a' [] \<and> (\<forall>k \<in> set ks. pend k a' = []) \<and> (\<forall>k. pend k a = [] \<longrightarrow> pend k a' = [])"
  using assms
proof (induction ks arbitrary: a ts a')
  case Nil
  then show ?case using told_same [of a a] by simp
next
  case (Cons k ks)
  obtain us a1 where f: "ia_flush k a = (us, a1)" by (cases "ia_flush k a")
  obtain vs a2 where g: "flush_keys ks a1 = (vs, a2)" by (cases "flush_keys ks a1")
  note fl = flush_told [OF Cons.prems(1) f]
  have "ia_ok a1" using fl by (simp add: told_def)
  note IH = Cons.IH [OF this g]
  have none: "pend j a1 = []" if "pend j a = []" for j
    using f that by (auto simp: ia_flush_def pend_def gomap_simps split: option.splits)
  have "pend k a1 = []" using fl by (simp add: pend_def)
  moreover have "ts = us @ vs" "a' = a2" using Cons.prems(2) f g by auto
  ultimately show ?case using IH none told_trans [of a us a1 "[]" vs a2 "[]"] fl by auto
qed

lemma Finish_told:
  assumes "ia_ok a" and "Finish a = (ts, a')"
  shows "told a ts a' [] \<and> (\<forall>k. pend k a' = [])"
proof -
  have f: "flush_keys (sort (map fst (iaPending a))) a = (ts, a')" using assms(2) by (simp add: Finish_def)
  have "pend k a = []" if "k \<notin> set (map fst (iaPending a))" for k
    using that by (simp add: pend_def map_of_eq_None_iff [THEN iffD2])
  then have "pend k a' = []" for k using flush_keys_told [OF assms(1) f] by (cases "k \<in> set (map fst (iaPending a))") auto
  then show ?thesis using flush_keys_told [OF assms(1) f] by simp
qed

text \<open>
  C34. The loop of \<open>appendEvent\<close> ends for every event with valid UTF-8 text, and the turns are a faithful record: over any events,
  with repetitions, gaps and restarts among them, the turns of a session put together are exactly the texts of its interactions that
  were not repeated or out of order, in order; the byte counts and redactions add up; and every turn is valid text of at
  most 64 KiB. The counters of the data quality say how many events there were and how many were set aside.
\<close>

theorem turns_reassemble:
  assumes "\<forall>e \<in> set es. interaction e \<longrightarrow> Valid (EvText e)"
  shows "\<exists>ts a us a'. observe_events es NewInteractionAnalyzer = Some (ts, a) \<and> Finish a = (us, a') \<and>
           (\<forall>t \<in> set (ts @ us). length (tnText t) \<le> MaxTurnTextBytes \<and> Valid (tnText t)) \<and>
           (\<forall>k. let seen = filter interaction (kept Map.empty Map.empty es) in
              said (of_key k (ts @ us)) = texts k seen \<and>
              bytes_of (of_key k (ts @ us)) mod 2 ^ 64 = byte_counts k seen mod 2 ^ 64 \<and>
              redactions_of (of_key k (ts @ us)) mod 2 ^ 64 = redaction_counts k seen mod 2 ^ 64) \<and>
           dqEvents (quality a) = int (length es) \<and>
           dqDuplicates (quality a) + dqOutOfOrder (quality a) = int (length es) - int (length (kept Map.empty Map.empty es))"
proof -
  let ?n = NewInteractionAnalyzer and ?seen = "filter interaction (kept Map.empty Map.empty es)"
  have ok: "ia_ok ?n" by (simp add: ia_ok_def NewInteractionAnalyzer_def)
  have empty: "gm_get (lastSequence ?n) = Map.empty" "gm_get (starts ?n) = Map.empty" "pend k ?n = []" for k
    by (simp_all add: NewInteractionAnalyzer_def pend_def fun_eq_iff)
  from events_told [OF ok assms] obtain ts a where o: "observe_events es ?n = Some (ts, a)" "told ?n ts a ?seen"
      "dqEvents (quality a) = int (length es)" "rejected_count a = int (length es) - int (length (kept Map.empty Map.empty es))"
    by (auto simp: empty) (auto simp: NewInteractionAnalyzer_def rejected_count_def)
  obtain us a' where f: "Finish a = (us, a')" by (cases "Finish a")
  have oka: "ia_ok a" using o(2) by (simp add: told_def)
  note fin = Finish_told [OF oka f]
  have t: "told ?n (ts @ us) a' ?seen" using told_trans [OF o(2), of us a' "[]"] fin by simp
  have "\<forall>t \<in> set (ts @ us). length (tnText t) \<le> MaxTurnTextBytes \<and> Valid (tnText t)"
    using t by (auto simp: told_def turn_ok_def)
  moreover have "said (of_key k (ts @ us)) = texts k ?seen \<and> bytes_of (of_key k (ts @ us)) mod 2 ^ 64 = byte_counts k ?seen mod 2 ^ 64 \<and>
      redactions_of (of_key k (ts @ us)) mod 2 ^ 64 = redaction_counts k ?seen mod 2 ^ 64" for k
    using t fin by (simp add: told_def empty cong64_def)
  ultimately show ?thesis using o f by (auto simp: Let_def rejected_count_def)
qed


text \<open>A conversation with a repeated event and a gap.\<close>

definition demo_events :: "Event list" where
  "demo_events =
     (let ev = (\<lambda>n d t. emptyEvent\<lparr>EvSessionID := ''s1'', EvSequence := n, EvDirection := d, EvKind := (if d = DirectionAgent then EventProviderOutput else EventUserInput),
                 EvText := t, EvByteCount := int (length t)\<rparr>)
      in [ev 1 DirectionAgent ''ab'', ev 1 DirectionAgent ''ab'', ev 3 DirectionAgent ''cd'', ev 4 DirectionHuman ''y''])"

theorem turns_reassemble_witness:
  "\<exists>ts a us a'. observe_events demo_events NewInteractionAnalyzer = Some (ts, a) \<and> Finish a = (us, a') \<and>
     said (of_key ('''', ''s1'') (ts @ us)) = ''abcdy'' \<and> bytes_of (of_key ('''', ''s1'') (ts @ us)) mod 2 ^ 64 = 5 \<and>
     dqDuplicates (quality a) + dqOutOfOrder (quality a) = 1"
proof -
  let ?kept = "kept Map.empty Map.empty demo_events" and ?k = "('''', ''s1'')"
  have v: "\<forall>e \<in> set demo_events. interaction e \<longrightarrow> Valid (EvText e)" by code_simp
  have k: "length ?kept = 3" "texts ?k (filter interaction ?kept) = ''abcdy''" "byte_counts ?k (filter interaction ?kept) = 5" "length demo_events = 4"
    by code_simp+
  from turns_reassemble [OF v] obtain ts a us a' where r: "observe_events demo_events NewInteractionAnalyzer = Some (ts, a)" "Finish a = (us, a')"
      "said (of_key ?k (ts @ us)) = texts ?k (filter interaction ?kept)"
      "bytes_of (of_key ?k (ts @ us)) mod 2 ^ 64 = byte_counts ?k (filter interaction ?kept) mod 2 ^ 64"
      "dqDuplicates (quality a) + dqOutOfOrder (quality a) = int (length demo_events) - int (length ?kept)"
    unfolding Let_def by blast
  have "said (of_key ?k (ts @ us)) = ''abcdy''" "bytes_of (of_key ?k (ts @ us)) mod 2 ^ 64 = 5" "dqDuplicates (quality a) + dqOutOfOrder (quality a) = 1"
    using r(3-5) by (simp_all only: k) simp_all
  with r(1,2) show ?thesis by blast
qed

text \<open>
  Text that is not UTF-8 can keep the loop from ending: when more than 64 KiB follow in which no character begins, the
  cut moves back to the beginning of the text, an empty turn is completed, and the same happens again.
\<close>

lemma back_to_start_zero: "n < length s \<Longrightarrow> \<forall>i \<le> n. \<not> rune_start (s ! i) \<Longrightarrow> back_to_start s n = 0"
  by (induction n) auto

lemma append_loop_diverges:
  assumes "MaxTurnTextBytes < length remaining" and "\<forall>c \<in> set remaining. \<not> rune_start c"
  shows "append_loop e remaining consumed allocated completed p = None"
proof -
  have "\<not> (MaxTurnTextBytes < length remaining \<and> (\<forall>c \<in> set remaining. \<not> rune_start c))"
    if "append_loop e remaining consumed allocated completed p = Some r" for r
  proof (rule append_loop.raw_induct [where P = "\<lambda>e remaining consumed allocated completed p r.
      \<not> (MaxTurnTextBytes < length remaining \<and> (\<forall>c \<in> set remaining. \<not> rune_start c))", OF _ that], goal_cases)
    case (1 loop e remaining consumed allocated completed p r)
    show ?case
    proof
      assume long: "MaxTurnTextBytes < length remaining \<and> (\<forall>c \<in> set remaining. \<not> rune_start c)"
      have "min (length remaining) (MaxTurnTextBytes - length (tnText p)) < length remaining" using long by auto
      then have "back_to_start remaining (min (length remaining) (MaxTurnTextBytes - length (tnText p))) = 0"
        using long by (intro back_to_start_zero) auto
      moreover have "remaining \<noteq> ''''" using long by auto
      ultimately have "loop e remaining consumed allocated (completed @ [p\<lparr>tnContinues := True\<rparr>]) ((startTurn e)\<lparr>tnChunkIndex := tnChunkIndex p + 1\<rparr>) = Some r"
        using 1(2) by (simp add: Let_def)
      from 1(1) [OF this] long show False by blast
    qed
  qed
  with assms show ?thesis by (cases "append_loop e remaining consumed allocated completed p") auto
qed

theorem observe_diverges:
  assumes "EvKind e = EventProviderOutput" and "EvSequence e = 0" and "MaxTurnTextBytes < length (EvText e)" and "\<forall>c \<in> set (EvText e). \<not> rune_start c"
  shows "Observe e a = None"
proof -
  have "appendEvent e p = None" for p using append_loop_diverges [OF assms(3,4)] by (simp add: appendEvent_def)
  then have "observe_interaction e ts b = None" for ts b by (simp add: observe_interaction_def Let_def split: option.splits prod.splits)
  moreover have "observe_start e b = Inr ([], b)" "observe_sequence e ts b = Inr (ts, b)" for ts b
    using assms(1,2) by (simp_all add: observe_start_def observe_sequence_def Let_def)
  ultimately show ?thesis using assms(1,2) by (simp add: Observe_def)
qed


section \<open>Numbering and selection\<close>

text \<open>
  \<open>Analyzer.record\<close> numbers the events of a session from 1 and hands each to its sink, \<open>FilteredSink.Record\<close> passes on the allowed
  kinds under numbers of its own. The event handed on is \<open>Some\<close>; a lifecycle event that is not selected only reaches the account of
  the queue.
\<close>

definition number_event :: "Event \<Rightarrow> (sessionIdentity, u64) gomap \<Rightarrow> Event \<times> (sessionIdentity, u64) gomap" where
  "number_event e sequences =
     (let k = eventKey e; n = (case gm_get sequences k of Some n \<Rightarrow> n | None \<Rightarrow> 0) + 1; sequences' = gm_put k n sequences
      in (e\<lparr>EvSequence := n\<rparr>, sequences'))"

definition analyzer_record :: "Event \<Rightarrow> (sessionIdentity, u64) gomap \<Rightarrow> Event \<times> (sessionIdentity, u64) gomap" where
  "analyzer_record e sequences =
     (case number_event (e\<lparr>EvSchemaVersion := 2\<rparr>) sequences of
        (e', sequences') \<Rightarrow> (e', if EvKind e = EventSessionEnded then gm_del (eventKey e) sequences' else sequences'))"

definition validEventKind :: "EventKind \<Rightarrow> bool" where
  "validEventKind kind \<longleftrightarrow> kind \<in> {EventSessionStarted, EventSessionContext, EventProviderOutput, EventUserInput, EventQuestion, EventAnswer,
     EventSessionEnded, EventTelemetryCheckpoint}"

record FilteredSink =
  allowed :: "EventKind list"
  fsSequence :: "(sessionIdentity, u64) gomap"

definition NewFilteredSink :: "EventKind list \<Rightarrow> FilteredSink" where
  "NewFilteredSink kinds = \<lparr>allowed = kinds, fsSequence = []\<rparr>"

definition filtered_Record :: "Event \<Rightarrow> FilteredSink \<Rightarrow> Event option \<times> FilteredSink" where
  "filtered_Record e s =
     (if allowed s = [] then (Some e, s)
      else
        let k = eventKey e;
            s1 = (if EvKind e = EventSessionStarted then s\<lparr>fsSequence := gm_del k (fsSequence s)\<rparr> else s);
            ended = (\<lambda>s. if EvKind e = EventSessionEnded then s\<lparr>fsSequence := gm_del k (fsSequence s)\<rparr> else s)
        in if EvKind e \<notin> set (allowed s) then (None, ended s1)
           else (case number_event e (fsSequence s1) of (e', sequences') \<Rightarrow> (Some e', ended (s1\<lparr>fsSequence := sequences'\<rparr>))))"

text \<open>The sink behind the filter is the queue.\<close>

definition collector_Record :: "Event \<Rightarrow> FilteredSink \<times> AsyncSink \<Rightarrow> FilteredSink \<times> AsyncSink" where
  "collector_Record e st =
     (case filtered_Record e (fst st) of
        (Some e', s) \<Rightarrow> (s, snd (async_Record e' (snd st)))
      | (None, s) \<Rightarrow> (s, observeLifecycle e (snd st)))"

fun forwarded :: "Event list \<Rightarrow> FilteredSink \<Rightarrow> Event list" where
  "forwarded [] s = []"
| "forwarded (e # es) s = (case filtered_Record e s of (Some e', s') \<Rightarrow> e' # forwarded es s' | (None, s') \<Rightarrow> forwarded es s')"

definition last_number :: "sessionIdentity \<Rightarrow> FilteredSink \<Rightarrow> u64" where
  "last_number k s = (case gm_get (fsSequence s) k of Some n \<Rightarrow> n | None \<Rightarrow> 0)"

lemma filtered_numbers:
  assumes "allowed s \<noteq> []" and "filtered_Record e s = (r, s')"
  shows "allowed s' = allowed s \<and> (eventKey e \<noteq> k \<longrightarrow> last_number k s' = last_number k s) \<and>
    (case r of None \<Rightarrow> EvKind e \<notin> set (allowed s) | Some e' \<Rightarrow> EvKind e \<in> set (allowed s) \<and> eventKey e' = eventKey e) \<and>
    (eventKey e = k \<longrightarrow> EvKind e \<noteq> EventSessionEnded \<longrightarrow>
       (let n = (if EvKind e = EventSessionStarted then 0 else last_number k s)
        in case r of None \<Rightarrow> last_number k s' = n | Some e' \<Rightarrow> EvSequence e' = n + 1 \<and> last_number k s' = n + 1))"
  using assms by (auto simp: filtered_Record_def number_event_def Let_def last_number_def gomap_simps eventKey_def split: if_splits option.splits)

lemma numbers_shift: "map (\<lambda>i. n + 1 + of_nat i) [1..<Suc m] = map (\<lambda>i. (n :: u64) + of_nat i) [2..<Suc (Suc m)]"
proof -
  have "[2..<Suc (Suc m)] = map Suc [1..<Suc m]" by (simp only: map_Suc_upt numeral_2_eq_2 One_nat_def)
  then show ?thesis by (simp only: map_map comp_def of_nat_Suc add.assoc)
qed

lemma upt_first: "[1..<Suc (Suc m)] = 1 # [2..<Suc (Suc m)]"
  by (simp add: upt_conv_Cons numeral_2_eq_2)

lemma forwarded_numbers:
  assumes "allowed s \<noteq> []" and "\<forall>e \<in> set es. eventKey e = k \<longrightarrow> EvKind e \<noteq> EventSessionStarted \<and> EvKind e \<noteq> EventSessionEnded"
  shows "map EvSequence (filter (\<lambda>e. eventKey e = k) (forwarded es s)) =
    map (\<lambda>i. last_number k s + of_nat i) [1..<Suc (length (filter (\<lambda>e. eventKey e = k \<and> EvKind e \<in> set (allowed s)) es))]"
  using assms
proof (induction es arbitrary: s)
  case (Cons e es)
  obtain r s' where f: "filtered_Record e s = (r, s')" by (cases "filtered_Record e s")
  note n = filtered_numbers [OF Cons.prems(1) f, of k]
  have IH: "map EvSequence (filter (\<lambda>e. eventKey e = k) (forwarded es s')) =
      map (\<lambda>i. last_number k s' + of_nat i) [1..<Suc (length (filter (\<lambda>e. eventKey e = k \<and> EvKind e \<in> set (allowed s)) es))]"
    using Cons.IH [of s'] Cons.prems n by auto
  show ?case
  proof (cases "eventKey e = k \<and> EvKind e \<in> set (allowed s)")
    case True
    then obtain e' where e': "r = Some e'" "eventKey e' = k" "EvSequence e' = last_number k s + 1" "last_number k s' = last_number k s + 1"
      using n Cons.prems(2) by (cases r) (auto simp: Let_def)
    then show ?thesis using True f IH by (simp add: upt_first numbers_shift del: upt_Suc One_nat_def)
  next
    case False
    then show ?thesis using f n IH Cons.prems(2) by (cases r) (auto simp: Let_def split: if_splits)
  qed
qed simp

text \<open>
  Whatever other sessions do meanwhile, the selected events of one run of a session reach the queue numbered from 1 without a
  gap, counting the event that started it when that kind is selected. So a gap at the receiver means a lost event.
\<close>

theorem selection_numbered:
  assumes "allowed s \<noteq> []" and "eventKey e = k" and "EvKind e = EventSessionStarted"
    and "\<forall>e \<in> set es. eventKey e = k \<longrightarrow> EvKind e \<noteq> EventSessionStarted \<and> EvKind e \<noteq> EventSessionEnded"
  shows "map EvSequence (filter (\<lambda>e. eventKey e = k) (forwarded (e # es) s)) =
    map of_nat [1..<Suc (length (filter (\<lambda>e. eventKey e = k \<and> EvKind e \<in> set (allowed s)) (e # es)))]"
proof -
  obtain r s' where f: "filtered_Record e s = (r, s')" by (cases "filtered_Record e s")
  note n = filtered_numbers [OF assms(1) f, of k]
  have IH: "map EvSequence (filter (\<lambda>e. eventKey e = k) (forwarded es s')) =
      map (\<lambda>i. last_number k s' + of_nat i) [1..<Suc (length (filter (\<lambda>e. eventKey e = k \<and> EvKind e \<in> set (allowed s)) es))]"
    using forwarded_numbers [of s' es k] n assms by auto
  show ?thesis
  proof (cases r)
    case None
    then show ?thesis using f n IH assms(2,3) by (auto simp: Let_def)
  next
    case (Some e')
    then have "EvSequence e' = 1" "last_number k s' = 1" "eventKey e' = k" "EvKind e \<in> set (allowed s)"
      using n assms(2,3) by (auto simp: Let_def)
    then show ?thesis using Some f IH assms(2) numbers_shift [of 0] by (simp add: upt_first del: upt_Suc One_nat_def)
  qed
qed


theorem selection_numbered_witness:
  "let ev = (\<lambda>sid kind. emptyEvent\<lparr>EvSessionID := sid, EvKind := kind\<rparr>);
       es = [ev ''s1'' EventUserInput, ev ''s1'' EventQuestion, ev ''s2'' EventUserInput, ev ''s1'' EventProviderOutput]
   in map EvSequence (filter (\<lambda>e. eventKey e = ('''', ''s1''))
        (forwarded (ev ''s1'' EventSessionStarted # es) (NewFilteredSink [EventUserInput, EventProviderOutput]))) = [1, 2]"
proof -
  let ?ev = "\<lambda>sid kind. emptyEvent\<lparr>EvSessionID := sid, EvKind := kind\<rparr>" and ?s = "NewFilteredSink [EventUserInput, EventProviderOutput]"
  let ?es = "[?ev ''s1'' EventUserInput, ?ev ''s1'' EventQuestion, ?ev ''s2'' EventUserInput, ?ev ''s1'' EventProviderOutput]"
  have k: "eventKey (?ev sid kind) = ('''', sid)" "EvKind (?ev sid kind) = kind" for sid kind by (simp_all add: eventKey_def emptyEvent_def)
  have a: "allowed ?s = [EventUserInput, EventProviderOutput]" by (simp add: NewFilteredSink_def)
  have "map EvSequence (filter (\<lambda>e. eventKey e = ('''', ''s1'')) (forwarded (?ev ''s1'' EventSessionStarted # ?es) ?s)) =
      map of_nat [1..<Suc (length (filter (\<lambda>e. eventKey e = ('''', ''s1'') \<and> EvKind e \<in> set (allowed ?s)) (?ev ''s1'' EventSessionStarted # ?es)))]"
    by (rule selection_numbered) (simp_all add: k a)
  also have "\<dots> = [1, 2]" by (simp add: k a)
  finally show ?thesis by (simp only: Let_def)
qed

end
