(* ===== verification/Telemetry_Spool.thy ===== *)
theory Telemetry_Spool
  imports Telemetry_Turns
begin

text \<open>
  The spool of \<open>internal/telemetry\<close>: a directory of immutable JSONL segments with one active segment (\<open>spool.go\<close>), the sinks in
  front of it (\<open>local_spool.go\<close>, \<open>http_forwarder.go\<close>) and the uploaders behind it (\<open>uploader.go\<close>). Every call of the
  operating system may fail; each operation takes the first call that fails as an argument. The directory holds regular files only.
\<close>

declare map_of_eq_Some_iff [simp del] Some_eq_map_of_iff [simp del] split_paired_All [simp del] split_paired_Ex [simp del]

section \<open>The directory\<close>

type_synonym spool_files = "(string, string) gomap"

definition activeSegmentName :: string where "activeSegmentName = ''.active.jsonl''"

text \<open>\<open>filepath.Ext\<close> of a name without a slash, and the pattern of segment identifiers.\<close>

definition file_ext :: "string \<Rightarrow> string" where
  "file_ext name = (if CHR ''.'' \<in> set name then CHR ''.'' # rev (takeWhile (\<lambda>c. c \<noteq> CHR ''.'') (rev name)) else '''')"

definition alnum :: "char \<Rightarrow> bool" where
  "alnum c \<longleftrightarrow> (let n = (of_char c :: nat) in 48 \<le> n \<and> n \<le> 57 \<or> 65 \<le> n \<and> n \<le> 90 \<or> 97 \<le> n \<and> n \<le> 122)"

definition validSegmentID :: "string \<Rightarrow> bool" where
  "validSegmentID s \<longleftrightarrow> (case s of [] \<Rightarrow> False
     | c # cs \<Rightarrow> alnum c \<and> length cs \<le> 127 \<and> list_all (\<lambda>c. alnum c \<or> c \<in> {CHR ''.'', CHR ''_'', CHR ''-''}) cs)"

definition segmentName :: "string \<Rightarrow> string" where
  "segmentName sid = sid @ ''.jsonl''"

definition segment_id :: "string \<Rightarrow> string option" where
  "segment_id name =
     (let stem = take (length name - 6) name
      in if file_ext name \<noteq> ''.jsonl'' \<or> name = activeSegmentName \<or> \<not> validSegmentID stem then None else Some stem)"

record Segment =
  sgID :: string
  sgSize :: nat

definition entry_segment :: "string \<times> string \<Rightarrow> Segment list" where
  "entry_segment x = (case segment_id (fst x) of None \<Rightarrow> [] | Some sid \<Rightarrow> [\<lparr>sgID = sid, sgSize = length (snd x)\<rparr>])"

definition pendingSegments :: "spool_files \<Rightarrow> Segment list" where
  "pendingSegments fs = sort_key sgID (concat (map entry_segment fs))"

definition active_size :: "spool_files \<Rightarrow> nat" where
  "active_size fs = (case gm_get fs activeSegmentName of Some content \<Rightarrow> length content | None \<Rightarrow> 0)"

definition disk_bytes :: "spool_files \<Rightarrow> nat" where
  "disk_bytes fs = sum_list (map sgSize (pendingSegments fs)) + active_size fs"

section \<open>Operations\<close>

datatype enforce_fault = EnforceList | EnforceStat | EnforceRemove string | EnforceSync
datatype seal_fault = SealStat | SealRemove | SealRename | SealSync | SealEnforce enforce_fault
datatype append_fault = AppendStat | AppendSeal seal_fault | AppendOpen | AppendChmod | AppendWrite nat | AppendSync | AppendClose | AppendEnforce enforce_fault
datatype accept_fault = AcceptRead | AcceptTemp | AcceptWrite string nat bool | AcceptRename | AcceptSync | AcceptEnforce enforce_fault
datatype remove_fault = RemoveFile | RemoveSync
datatype open_fault = OpenDir | OpenClean | OpenStat | OpenRepair | OpenSeal seal_fault | OpenEnforce enforce_fault

datatype spool_error = ErrInvalidSegmentID | ErrSegmentConflict | ErrSegmentTooLarge | ErrLimits | ErrIO

text \<open>The loop of \<open>enforceLimitLocked\<close> and the directory sync after it: whether it failed, what was evicted, what is left.\<close>

fun evict_loop :: "enforce_fault option \<Rightarrow> nat \<Rightarrow> nat \<Rightarrow> Segment list \<Rightarrow> spool_files \<Rightarrow> bool \<times> Segment list \<times> spool_files" where
  "evict_loop fault maxDisk used [] fs = (fault = Some EnforceSync, [], fs)"
| "evict_loop fault maxDisk used (s # ss) fs =
     (if used \<le> maxDisk then (fault = Some EnforceSync, [], fs)
      else if fault = Some (EnforceRemove (sgID s)) then (True, [], fs)
      else case evict_loop fault maxDisk (used - sgSize s) ss (gm_del (segmentName (sgID s)) fs) of
             (failed, evicted, fs') \<Rightarrow> (failed, s # evicted, fs'))"

definition enforceLimitLocked :: "enforce_fault option \<Rightarrow> nat \<Rightarrow> spool_files \<Rightarrow> bool \<times> Segment list \<times> spool_files" where
  "enforceLimitLocked fault maxDisk fs =
     (if fault = Some EnforceList \<or> fault = Some EnforceStat then (True, [], fs)
      else evict_loop fault maxDisk (disk_bytes fs) (pendingSegments fs) fs)"

text \<open>What an operation did: its error, the segments it evicted and sealed, and the directory.\<close>

record spool_result =
  rsError :: "spool_error option"
  rsEvicted :: "Segment list"
  rsSealed :: "Segment option"
  rsFiles :: spool_files

definition failed_with :: "spool_error \<Rightarrow> spool_files \<Rightarrow> spool_result" where
  "failed_with e fs = \<lparr>rsError = Some e, rsEvicted = [], rsSealed = None, rsFiles = fs\<rparr>"

definition enforced :: "enforce_fault option \<Rightarrow> nat \<Rightarrow> Segment option \<Rightarrow> spool_files \<Rightarrow> spool_result" where
  "enforced fault maxDisk seal fs =
     (case enforceLimitLocked fault maxDisk fs of (failed, evicted, fs') \<Rightarrow>
        \<lparr>rsError = (if failed then Some ErrIO else None), rsEvicted = evicted, rsSealed = (if failed then None else seal), rsFiles = fs'\<rparr>)"

definition sealLocked :: "seal_fault option \<Rightarrow> nat \<Rightarrow> string \<Rightarrow> spool_files \<Rightarrow> spool_result" where
  "sealLocked fault maxDisk sid fs =
     (if fault = Some SealStat then failed_with ErrIO fs
      else case gm_get fs activeSegmentName of
             None \<Rightarrow> \<lparr>rsError = None, rsEvicted = [], rsSealed = None, rsFiles = fs\<rparr>
           | Some content \<Rightarrow>
               if content = ''''
               then (if fault = Some SealRemove then failed_with ErrIO fs
                     else \<lparr>rsError = None, rsEvicted = [], rsSealed = None, rsFiles = gm_del activeSegmentName fs\<rparr>)
               else if fault = Some SealRename then failed_with ErrIO fs
               else
                 let fs1 = gm_put (segmentName sid) content (gm_del activeSegmentName fs)
                 in if fault = Some SealSync then failed_with ErrIO fs1
                    else enforced (case fault of Some (SealEnforce f) \<Rightarrow> Some f | _ \<Rightarrow> None) maxDisk (Some \<lparr>sgID = sid, sgSize = length content\<rparr>) fs1)"

text \<open>The second half of \<open>Append\<close>: the write to the active segment.\<close>

definition append_write :: "append_fault option \<Rightarrow> nat \<Rightarrow> string \<Rightarrow> spool_files \<Rightarrow> spool_result" where
  "append_write fault maxDisk dat fs =
     (let old = (case gm_get fs activeSegmentName of Some content \<Rightarrow> content | None \<Rightarrow> '''')
      in case fault of
           Some AppendOpen \<Rightarrow> failed_with ErrIO fs
         | Some AppendChmod \<Rightarrow> failed_with ErrIO (gm_put activeSegmentName old fs)
         | Some (AppendWrite n) \<Rightarrow> failed_with ErrIO (gm_put activeSegmentName (old @ take n dat) fs)
         | Some AppendSync \<Rightarrow> failed_with ErrIO (gm_put activeSegmentName (old @ dat) fs)
         | Some AppendClose \<Rightarrow> failed_with ErrIO (gm_put activeSegmentName (old @ dat) fs)
         | _ \<Rightarrow> enforced (case fault of Some (AppendEnforce f) \<Rightarrow> Some f | _ \<Rightarrow> None) maxDisk None (gm_put activeSegmentName (old @ dat) fs))"

definition spool_Append :: "append_fault option \<Rightarrow> nat \<Rightarrow> nat \<Rightarrow> string \<Rightarrow> string \<Rightarrow> spool_files \<Rightarrow> spool_result" where
  "spool_Append fault maxSegment maxDisk sid dat fs =
     (if dat = '''' then \<lparr>rsError = None, rsEvicted = [], rsSealed = None, rsFiles = fs\<rparr>
      else if maxSegment < length dat then failed_with ErrSegmentTooLarge fs
      else if fault = Some AppendStat then failed_with ErrIO fs
      else if 0 < active_size fs \<and> maxSegment < active_size fs + length dat
      then (let r = sealLocked (case fault of Some (AppendSeal f) \<Rightarrow> Some f | _ \<Rightarrow> None) maxDisk sid fs
            in if rsError r \<noteq> None then r
               else let w = append_write fault maxDisk dat (rsFiles r)
                    in w\<lparr>rsEvicted := rsEvicted r @ rsEvicted w, rsSealed := rsSealed r\<rparr>)
      else append_write fault maxDisk dat fs)"

definition Seal :: "seal_fault option \<Rightarrow> nat \<Rightarrow> string \<Rightarrow> spool_files \<Rightarrow> spool_result" where
  "Seal fault maxDisk sid fs = sealLocked fault maxDisk sid fs"

text \<open>
  \<open>Accept\<close> also tells whether the segment was new. A failed write, sync or close of the temporary file leaves it behind when
  its removal fails too; a failed rename leaves nothing under the final name.
\<close>

definition Accept :: "accept_fault option \<Rightarrow> nat \<Rightarrow> nat \<Rightarrow> string \<Rightarrow> string \<Rightarrow> spool_files \<Rightarrow> bool \<times> spool_result" where
  "Accept fault maxSegment maxDisk sid dat fs =
     (if \<not> validSegmentID sid then (False, failed_with ErrInvalidSegmentID fs)
      else if maxSegment < length dat then (False, failed_with ErrSegmentTooLarge fs)
      else if fault = Some AcceptRead then (False, failed_with ErrIO fs)
      else case gm_get fs (segmentName sid) of
             Some existing \<Rightarrow>
               if existing = dat then (False, \<lparr>rsError = None, rsEvicted = [], rsSealed = None, rsFiles = fs\<rparr>)
               else (False, failed_with ErrSegmentConflict fs)
           | None \<Rightarrow>
               let fs1 = gm_put (segmentName sid) dat fs
               in case fault of
                    Some AcceptTemp \<Rightarrow> (False, failed_with ErrIO fs)
                  | Some (AcceptWrite tmp n left) \<Rightarrow>
                      (False, failed_with ErrIO (if left then gm_put (''.incoming-'' @ tmp @ ''.jsonl'') (take n dat) fs else fs))
                  | Some AcceptRename \<Rightarrow> (False, failed_with ErrIO fs)
                  | Some AcceptSync \<Rightarrow> (False, failed_with ErrIO fs1)
                  | _ \<Rightarrow> (let r = enforced (case fault of Some (AcceptEnforce f) \<Rightarrow> Some f | _ \<Rightarrow> None) maxDisk None fs1
                          in (rsError r = None, r)))"

definition spool_Read :: "string \<Rightarrow> spool_files \<Rightarrow> string option" where
  "spool_Read sid fs = (if validSegmentID sid then gm_get fs (segmentName sid) else None)"

text \<open>\<open>Remove\<close> has removed the file when the sync of the directory fails.\<close>

definition spool_Remove :: "remove_fault option \<Rightarrow> string \<Rightarrow> spool_files \<Rightarrow> spool_error option \<times> spool_files" where
  "spool_Remove fault sid fs =
     (if \<not> validSegmentID sid then (Some ErrInvalidSegmentID, fs)
      else case fault of
             Some RemoveFile \<Rightarrow> (Some ErrIO, fs)
           | Some RemoveSync \<Rightarrow> (Some ErrIO, gm_del (segmentName sid) fs)
           | None \<Rightarrow> (None, gm_del (segmentName sid) fs))"

section \<open>Recovery\<close>

definition incoming :: "string \<Rightarrow> bool" where
  "incoming name \<longleftrightarrow> has_prefix name ''.incoming-'' \<and> file_ext name = ''.jsonl''"

definition cleanupIncomingLocked :: "spool_files \<Rightarrow> spool_files" where
  "cleanupIncomingLocked fs = filter (\<lambda>(name, content). \<not> incoming name) fs"

text \<open>\<open>repairActiveLocked\<close>: the content up to the last line end; \<open>None\<close> removes the file.\<close>

definition repaired :: "string \<Rightarrow> string option" where
  "repaired content = (if LF \<notin> set content then None else Some (rev (dropWhile (\<lambda>c. c \<noteq> LF) (rev content))))"

definition repairActiveLocked :: "spool_files \<Rightarrow> spool_files" where
  "repairActiveLocked fs =
     (case gm_get fs activeSegmentName of
        None \<Rightarrow> fs
      | Some content \<Rightarrow> (case repaired content of None \<Rightarrow> gm_del activeSegmentName fs | Some c \<Rightarrow> gm_put activeSegmentName c fs))"

definition NewSegmentSpool :: "open_fault option \<Rightarrow> int \<Rightarrow> int \<Rightarrow> string \<Rightarrow> spool_files \<Rightarrow> spool_result" where
  "NewSegmentSpool fault maxSegment maxDisk sid fs =
     (if maxSegment < 1 \<or> maxDisk < maxSegment then failed_with ErrLimits fs
      else if fault = Some OpenDir \<or> fault = Some OpenClean then failed_with ErrIO fs
      else
        let fs1 = cleanupIncomingLocked fs
        in if fault = Some OpenStat then failed_with ErrIO fs1
           else if 0 < active_size fs1
           then (if fault = Some OpenRepair then failed_with ErrIO fs1
                 else let r = sealLocked (case fault of Some (OpenSeal f) \<Rightarrow> Some f | _ \<Rightarrow> None) (nat maxDisk) sid (repairActiveLocked fs1)
                      in if rsError r \<noteq> None then r
                         else let w = enforced (case fault of Some (OpenEnforce f) \<Rightarrow> Some f | _ \<Rightarrow> None) (nat maxDisk) None (rsFiles r)
                              in w\<lparr>rsEvicted := rsEvicted r @ rsEvicted w, rsSealed := rsSealed r\<rparr>)
           else enforced (case fault of Some (OpenEnforce f) \<Rightarrow> Some f | _ \<Rightarrow> None) (nat maxDisk) None fs1)"


section \<open>Sizes\<close>

lemma segmentName_inj [simp]: "segmentName a = segmentName b \<longleftrightarrow> a = b"
  by (simp add: segmentName_def)

lemma file_ext_dotless: "CHR ''.'' \<notin> set e \<Longrightarrow> file_ext (s @ CHR ''.'' # e) = CHR ''.'' # e"
  by (simp add: file_ext_def, subst takeWhile_append2) auto

lemma file_ext_jsonl: "file_ext name = ''.jsonl'' \<Longrightarrow> name = segmentName (take (length name - 6) name)"
proof -
  assume a: "file_ext name = ''.jsonl''"
  then have d: "CHR ''.'' \<in> set name" "rev (takeWhile (\<lambda>c. c \<noteq> CHR ''.'') (rev name)) = ''jsonl''" by (auto simp: file_ext_def split: if_splits)
  let ?P = "\<lambda>c. c \<noteq> CHR ''.''"
  have tw: "takeWhile ?P (rev name) = rev ''jsonl''" using d(2) by (metis rev_rev_ident)
  have "dropWhile ?P (rev name) \<noteq> []" using d(1) by simp
  then obtain r where dw: "dropWhile ?P (rev name) = CHR ''.'' # r" using hd_dropWhile [of ?P "rev name"] by (cases "dropWhile ?P (rev name)") auto
  have "rev name = rev ''jsonl'' @ CHR ''.'' # r" using takeWhile_dropWhile_id [of ?P "rev name"] tw dw by simp
  then have "name = rev r @ ''.jsonl''" by (metis append.assoc append_Cons append_Nil rev.simps(2) rev_append rev_rev_ident)
  then show ?thesis by (simp add: segmentName_def)
qed

lemma validSegmentID_first: "validSegmentID sid \<Longrightarrow> segmentName sid \<noteq> activeSegmentName \<and> \<not> incoming (segmentName sid)"
  by (auto simp: validSegmentID_def segmentName_def activeSegmentName_def incoming_def has_prefix_def alnum_def Let_def split: list.splits)

lemma segment_id_iff: "segment_id name = Some sid \<longleftrightarrow> validSegmentID sid \<and> name = segmentName sid"
proof
  assume "segment_id name = Some sid"
  then show "validSegmentID sid \<and> name = segmentName sid"
    using file_ext_jsonl [of name] by (auto simp: segment_id_def Let_def split: if_splits)
next
  assume a: "validSegmentID sid \<and> name = segmentName sid"
  have "file_ext (segmentName sid) = ''.jsonl''" using file_ext_dotless [of "''jsonl''" sid] by (simp add: segmentName_def)
  then show "segment_id name = Some sid" using a validSegmentID_first [of sid] by (simp add: segment_id_def Let_def segmentName_def)
qed

lemma entry_mem: "s \<in> set (entry_segment x) \<longleftrightarrow> validSegmentID (sgID s) \<and> fst x = segmentName (sgID s) \<and> sgSize s = length (snd x)"
proof (cases "segment_id (fst x)")
  case None
  then show ?thesis using segment_id_iff [of "fst x" "sgID s"] by (auto simp: entry_segment_def)
next
  case (Some sid)
  then show ?thesis using segment_id_iff [of "fst x" sid] by (cases s) (auto simp: entry_segment_def)
qed

lemma pending_mem:
  assumes "gm_ok fs"
  shows "s \<in> set (pendingSegments fs) \<longleftrightarrow> validSegmentID (sgID s) \<and> (\<exists>c. gm_get fs (segmentName (sgID s)) = Some c \<and> sgSize s = length c)"
proof -
  have "s \<in> set (pendingSegments fs) \<longleftrightarrow> (\<exists>x \<in> set fs. s \<in> set (entry_segment x))" by (simp add: pendingSegments_def)
  also have "\<dots> \<longleftrightarrow> validSegmentID (sgID s) \<and> (\<exists>c. (segmentName (sgID s), c) \<in> set fs \<and> sgSize s = length c)"
    by (auto simp: entry_mem) (metis fst_conv snd_conv)
  finally show ?thesis by (simp add: gm_mem_get [OF assms])
qed

lemma pending_distinct:
  assumes "gm_ok fs"
  shows "distinct (map sgID (pendingSegments fs))"
proof -
  have "distinct (map sgID (concat (map entry_segment fs)))"
    using assms
  proof (induction fs)
    case (Cons x fs)
    have "sgID s \<noteq> sgID t" if "s \<in> set (entry_segment x)" "y \<in> set fs" "t \<in> set (entry_segment y)" for s t y
    proof
      assume "sgID s = sgID t"
      then have "fst x = fst y" using that by (simp add: entry_mem)
      then show False using Cons.prems that(2) by (metis distinct.simps(2) image_eqI list.set_map list.simps(9))
    qed
    moreover have "distinct (map sgID (entry_segment x))" by (simp add: entry_segment_def split: option.splits)
    ultimately show ?case using Cons by (auto simp: image_iff)
  qed simp
  then show ?thesis by (simp add: pendingSegments_def distinct_map)
qed

text \<open>Removing a listed segment takes its size off the total.\<close>

lemma pending_del:
  assumes "gm_ok fs" and "pendingSegments fs = s # ss"
  shows "pendingSegments (gm_del (segmentName (sgID s)) fs) = ss"
proof -
  have e: "filter (\<lambda>t. sgID t \<noteq> sgID s) (entry_segment x) = (if fst x = segmentName (sgID s) then [] else entry_segment x)" for x
  proof (cases "segment_id (fst x)")
    case (Some sid)
    then have "fst x = segmentName sid" by (simp add: segment_id_iff)
    then show ?thesis using Some by (simp add: entry_segment_def)
  qed (simp add: entry_segment_def)
  have "concat (map entry_segment (gm_del (segmentName (sgID s)) fs)) = filter (\<lambda>t. sgID t \<noteq> sgID s) (concat (map entry_segment fs))"
  proof (induction fs)
    case (Cons x fs)
    then show ?case by (cases x) (simp add: e)
  qed simp
  then have "pendingSegments (gm_del (segmentName (sgID s)) fs) = filter (\<lambda>t. sgID t \<noteq> sgID s) (pendingSegments fs)"
    by (simp add: pendingSegments_def filter_sort)
  also have "\<dots> = ss"
    using pending_distinct [OF assms(1)] by (simp add: assms(2) filter_id_conv image_iff) metis
  finally show ?thesis .
qed

lemma active_size_del: "validSegmentID sid \<Longrightarrow> active_size (gm_del (segmentName sid) fs) = active_size fs"
  using validSegmentID_first [of sid] by (auto simp: active_size_def gomap_simps)

text \<open>A smaller directory: the active segment and the segments not evicted are as they were.\<close>

definition shrunk :: "spool_files \<Rightarrow> Segment list \<Rightarrow> spool_files \<Rightarrow> bool" where
  "shrunk fs evicted fs' \<longleftrightarrow> gm_ok fs' \<and> gm_get fs' activeSegmentName = gm_get fs activeSegmentName \<and>
     (\<forall>sid. gm_get fs' (segmentName sid) = gm_get fs (segmentName sid) \<or> gm_get fs' (segmentName sid) = None \<and> sid \<in> set (map sgID evicted))"

lemma shrunk_refl [simp]: "gm_ok fs \<Longrightarrow> shrunk fs [] fs"
  by (simp add: shrunk_def)

lemma shrunk_trans: "shrunk fs xs fs1 \<Longrightarrow> shrunk fs1 ys fs2 \<Longrightarrow> shrunk fs (xs @ ys) fs2"
  by (auto simp: shrunk_def) metis+

lemma shrunk_del: "gm_ok fs \<Longrightarrow> validSegmentID (sgID s) \<Longrightarrow> shrunk fs [s] (gm_del (segmentName (sgID s)) fs)"
  using validSegmentID_first [of "sgID s"] by (auto simp: shrunk_def gomap_simps)

lemma evict_loop_ok:
  assumes "evict_loop fault maxDisk (disk_bytes fs) (pendingSegments fs) fs = (failed, evicted, fs')" and "gm_ok fs"
  shows "shrunk fs evicted fs' \<and> (\<not> failed \<longrightarrow> active_size fs \<le> maxDisk \<longrightarrow> disk_bytes fs' \<le> maxDisk)"
  using assms
proof (induction "pendingSegments fs" arbitrary: fs evicted)
  case Nil
  then have "fs' = fs" by (simp flip: Nil.hyps)
  then show ?case using Nil by (simp add: disk_bytes_def flip: Nil.hyps)
next
  case (Cons s ss)
  have s: "validSegmentID (sgID s)" using pending_mem [OF Cons.prems(2), of s] Cons.hyps(2) by (metis list.set_intros(1))
  show ?case
  proof (cases "disk_bytes fs \<le> maxDisk \<or> fault = Some (EnforceRemove (sgID s))")
    case True
    then show ?thesis using Cons.prems by (auto simp flip: Cons.hyps(2) split: if_splits)
  next
    case False
    let ?fs = "gm_del (segmentName (sgID s)) fs"
    have p: "pendingSegments ?fs = ss" using pending_del [OF Cons.prems(2)] Cons.hyps(2) by metis
    have d: "disk_bytes ?fs = disk_bytes fs - sgSize s"
      using p active_size_del [OF s] by (simp add: disk_bytes_def flip: Cons.hyps(2))
    obtain ev where ev: "evict_loop fault maxDisk (disk_bytes ?fs) (pendingSegments ?fs) ?fs = (failed, ev, fs')" "evicted = s # ev"
      using Cons.prems(1) False by (auto simp: d p simp flip: Cons.hyps(2) split: prod.splits)
    have "gm_ok ?fs" using Cons.prems(2) by simp
    note IH = Cons.hyps(1) [OF p [symmetric] ev(1) this]
    then show ?thesis using shrunk_trans [OF shrunk_del [OF Cons.prems(2) s], of ev fs'] ev(2) active_size_del [OF s] by simp
  qed
qed

lemma enforceLimit_ok:
  assumes "enforceLimitLocked fault maxDisk fs = (failed, evicted, fs')" and "gm_ok fs"
  shows "shrunk fs evicted fs' \<and> (\<not> failed \<longrightarrow> active_size fs \<le> maxDisk \<longrightarrow> disk_bytes fs' \<le> maxDisk)"
  using assms evict_loop_ok [of fault maxDisk fs failed evicted fs'] by (auto simp: enforceLimitLocked_def split: if_splits)


lemma enforced_ok:
  assumes "gm_ok fs" and "r = enforced fault maxDisk seal fs"
  shows "shrunk fs (rsEvicted r) (rsFiles r) \<and> (rsError r = None \<longrightarrow> active_size fs \<le> maxDisk \<longrightarrow> disk_bytes (rsFiles r) \<le> maxDisk)"
proof -
  obtain failed evicted fs' where e: "enforceLimitLocked fault maxDisk fs = (failed, evicted, fs')" by (cases "enforceLimitLocked fault maxDisk fs")
  from enforceLimit_ok [OF e assms(1)] show ?thesis using assms(2) e by (simp add: enforced_def)
qed

text \<open>
  What every operation does to the directory: the content it moves under a segment name and the active segment it leaves, before
  the limit is enforced.
\<close>

definition moved :: "spool_files \<Rightarrow> string option \<Rightarrow> (string \<times> string) list \<Rightarrow> spool_result \<Rightarrow> bool" where
  "moved fs act news r \<longleftrightarrow> gm_ok (rsFiles r) \<and> gm_get (rsFiles r) activeSegmentName = act \<and>
     (\<forall>sid. validSegmentID sid \<longrightarrow>
        gm_get (rsFiles r) (segmentName sid) = (case map_of news sid of Some c \<Rightarrow> Some c | None \<Rightarrow> gm_get fs (segmentName sid)) \<or>
        gm_get (rsFiles r) (segmentName sid) = None \<and> sid \<in> set (map sgID (rsEvicted r)))"

lemma movedI:
  assumes "gm_get fs1 activeSegmentName = act" and "shrunk fs1 (rsEvicted r) (rsFiles r)"
    and "\<And>sid. validSegmentID sid \<Longrightarrow> gm_get fs1 (segmentName sid) = (case map_of news sid of Some c \<Rightarrow> Some c | None \<Rightarrow> gm_get fs (segmentName sid))"
  shows "moved fs act news r"
  using assms unfolding moved_def shrunk_def by metis

lemma seg_active [simp]: "validSegmentID sid \<Longrightarrow> segmentName sid \<noteq> activeSegmentName" "validSegmentID sid \<Longrightarrow> activeSegmentName \<noteq> segmentName sid"
  using validSegmentID_first [of sid] by auto

lemma failed_ok: "gm_ok fs \<Longrightarrow> shrunk fs (rsEvicted (failed_with e fs)) (rsFiles (failed_with e fs)) \<and> rsError (failed_with e fs) = Some e"
  by (simp add: failed_with_def)

lemma sealLocked_moved:
  assumes ok: "gm_ok fs" and sid: "validSegmentID sid" and r: "r = sealLocked fault maxDisk sid fs"
  shows "(moved fs (gm_get fs activeSegmentName) [] r \<and> rsError r \<noteq> None) \<or>
    (moved fs None [] r \<and> rsError r = None \<and> (\<forall>c. gm_get fs activeSegmentName = Some c \<longrightarrow> c = '''') \<and> rsEvicted r = []) \<or>
    (\<exists>c. gm_get fs activeSegmentName = Some c \<and> c \<noteq> '''' \<and> moved fs None [(sid, c)] r)"
proof (cases "gm_get fs activeSegmentName")
  case None
  then show ?thesis using ok r by (auto simp: sealLocked_def failed_with_def moved_def)
next
  case (Some c)
  define fs1 where "fs1 = gm_put (segmentName sid) c (gm_del activeSegmentName fs)"
  have fs1: "gm_ok fs1" "gm_get fs1 activeSegmentName = None"
    "\<And>s. validSegmentID s \<Longrightarrow> gm_get fs1 (segmentName s) = (case map_of [(sid, c)] s of Some c \<Rightarrow> Some c | None \<Rightarrow> gm_get fs (segmentName s))"
    using ok sid by (auto simp: fs1_def gomap_simps)
  consider (stat) "fault = Some SealStat" | (empty) "fault \<noteq> Some SealStat" "c = ''''" | (rename) "c \<noteq> ''''" "fault = Some SealRename"
    | (sync) "c \<noteq> ''''" "fault = Some SealSync" | (full) "c \<noteq> ''''" "fault \<notin> {Some SealStat, Some SealRename, Some SealSync}" by auto
  then show ?thesis
  proof cases
    case sync
    then have "r = failed_with ErrIO fs1" using r Some by (simp add: sealLocked_def fs1_def)
    then have "moved fs None [(sid, c)] r" using failed_ok [OF fs1(1), of ErrIO] fs1 by (intro movedI [of fs1]) auto
    with Some sync show ?thesis by blast
  next
    case full
    then have "r = enforced (case fault of Some (SealEnforce f) \<Rightarrow> Some f | _ \<Rightarrow> None) maxDisk (Some \<lparr>sgID = sid, sgSize = length c\<rparr>) fs1"
      using r Some by (simp add: sealLocked_def fs1_def Let_def)
    from enforced_ok [OF fs1(1) this] have "moved fs None [(sid, c)] r" using fs1 by (intro movedI [of fs1]) auto
    with Some full show ?thesis by blast
  qed (use Some ok r in \<open>auto simp: sealLocked_def failed_with_def moved_def gomap_simps\<close>)
qed


definition active_content :: "spool_files \<Rightarrow> string" where
  "active_content fs = (case gm_get fs activeSegmentName of Some c \<Rightarrow> c | None \<Rightarrow> '''')"

lemma active_size_content: "active_size fs = length (active_content fs)"
  by (simp add: active_size_def active_content_def split: option.splits)

lemma moved_trans:
  assumes "moved fs act1 news r1" and "moved (rsFiles r1) act2 [] r2" and "rsFiles r = rsFiles r2" and "rsEvicted r = rsEvicted r1 @ rsEvicted r2"
  shows "moved fs act2 news r"
  using assms unfolding moved_def by simp metis

text \<open>What a write may have left in the active segment: everything, nothing, or a part when the write itself failed.\<close>

definition written :: "append_fault option \<Rightarrow> string \<Rightarrow> spool_result \<Rightarrow> string \<Rightarrow> bool" where
  "written fault dat r w \<longleftrightarrow>
     w = dat \<or> rsError r \<noteq> None \<and> (w = '''' \<or> (\<exists>n. fault = Some (AppendWrite n) \<and> w = take n dat))"

lemma append_write_moved:
  assumes ok: "gm_ok fs" and r: "r = append_write fault maxDisk dat fs"
  shows "(moved fs (gm_get fs activeSegmentName) [] r \<and> rsError r \<noteq> None) \<or>
    (\<exists>w. moved fs (Some (active_content fs @ w)) [] r \<and> written fault dat r w \<and>
       (rsError r = None \<longrightarrow> w = dat \<and> (length (active_content fs @ dat) \<le> maxDisk \<longrightarrow> disk_bytes (rsFiles r) \<le> maxDisk)))"
proof -
  let ?put = "\<lambda>w. gm_put activeSegmentName (active_content fs @ w) fs"
  have put: "gm_ok (?put w)" "gm_get (?put w) activeSegmentName = Some (active_content fs @ w)"
    "\<And>s. validSegmentID s \<Longrightarrow> gm_get (?put w) (segmentName s) = (case map_of [] s of Some c \<Rightarrow> Some c | None \<Rightarrow> gm_get fs (segmentName s))" for w
    using ok by (auto simp: gomap_simps)
  have fail: "moved fs (Some (active_content fs @ w)) [] (failed_with ErrIO (?put w))" for w
    using failed_ok [OF put(1)] put by (intro movedI [of "?put w"]) auto
  have good: "moved fs (Some (active_content fs @ dat)) [] (enforced f maxDisk None (?put dat)) \<and>
      (rsError (enforced f maxDisk None (?put dat)) = None \<longrightarrow> length (active_content fs @ dat) \<le> maxDisk \<longrightarrow>
        disk_bytes (rsFiles (enforced f maxDisk None (?put dat))) \<le> maxDisk)" for f
    using enforced_ok [OF put(1) [of dat] refl, of f maxDisk None] put movedI [of "?put dat" _ "enforced f maxDisk None (?put dat)"]
    by (auto simp: active_size_def)
  have old: "(case gm_get fs activeSegmentName of Some content \<Rightarrow> content | None \<Rightarrow> '''') = active_content fs" by (simp add: active_content_def)
  show ?thesis
  proof (cases fault)
    case None
    then have "r = enforced None maxDisk None (?put dat)" using r by (simp add: append_write_def old)
    with good [of None] show ?thesis by (auto simp: written_def)
  next
    case (Some f)
    show ?thesis
    proof (cases f)
      case AppendOpen
      then have "r = failed_with ErrIO fs" using Some r by (simp add: append_write_def)
      then show ?thesis using ok by (auto simp: failed_with_def moved_def)
    next
      case AppendChmod
      then have "r = failed_with ErrIO (?put '''')" using Some r by (simp add: append_write_def old)
      with fail [of "''''"] show ?thesis by (fastforce simp: written_def failed_with_def)
    next
      case (AppendWrite n)
      then have "r = failed_with ErrIO (?put (take n dat))" using Some r by (simp add: append_write_def old)
      with fail [of "take n dat"] Some AppendWrite show ?thesis by (fastforce simp: written_def failed_with_def)
    next
      case AppendSync
      then have "r = failed_with ErrIO (?put dat)" using Some r by (simp add: append_write_def old)
      with fail [of dat] show ?thesis by (fastforce simp: written_def failed_with_def)
    next
      case AppendClose
      then have "r = failed_with ErrIO (?put dat)" using Some r by (simp add: append_write_def old)
      with fail [of dat] show ?thesis by (fastforce simp: written_def failed_with_def)
    next
      case (AppendEnforce g)
      then have "r = enforced (Some g) maxDisk None (?put dat)" using Some r by (simp add: append_write_def old)
      with good [of "Some g"] show ?thesis by (auto simp: written_def)
    next
      case AppendStat
      then have "r = enforced None maxDisk None (?put dat)" using Some r by (simp add: append_write_def old)
      with good [of None] show ?thesis by (auto simp: written_def)
    next
      case (AppendSeal g)
      then have "r = enforced None maxDisk None (?put dat)" using Some r by (simp add: append_write_def old)
      with good [of None] show ?thesis by (auto simp: written_def)
    qed
  qed
qed

text \<open>
  The outcomes of \<open>Append\<close>: nothing happened, the active segment was sealed and nothing written, or the data went behind the content
  \<open>old\<close>, which is empty when the active segment was sealed before.
\<close>

definition appends ::
  "append_fault option \<Rightarrow> nat \<Rightarrow> nat \<Rightarrow> string \<Rightarrow> string \<Rightarrow> spool_files \<Rightarrow> spool_result \<Rightarrow> string \<Rightarrow> (string \<times> string) list \<Rightarrow> string \<Rightarrow> bool" where
  "appends fault maxSegment maxDisk sid dat fs r old news w \<longleftrightarrow>
     (old = active_content fs \<and> news = [] \<or> old = [] \<and> (\<exists>c. gm_get fs activeSegmentName = Some c \<and> news = [(sid, c)])) \<and>
     moved fs (Some (old @ w)) news r \<and> written fault dat r w \<and>
     (length (active_content fs) \<le> maxSegment \<longrightarrow> length (old @ dat) \<le> maxSegment) \<and>
     (rsError r = None \<longrightarrow> w = dat \<and> (length (old @ dat) \<le> maxDisk \<longrightarrow> disk_bytes (rsFiles r) \<le> maxDisk))"

lemma Append_moved:
  assumes ok: "gm_ok fs" and sid: "validSegmentID sid" and dat: "dat \<noteq> ''''" and r: "r = spool_Append fault maxSegment maxDisk sid dat fs"
  shows "(moved fs (gm_get fs activeSegmentName) [] r \<and> rsError r \<noteq> None) \<or>
    (\<exists>c. gm_get fs activeSegmentName = Some c \<and> moved fs None [(sid, c)] r \<and> rsError r \<noteq> None) \<or>
    (\<exists>old news w. appends fault maxSegment maxDisk sid dat fs r old news w)"
proof -
  consider (refused) "maxSegment < length dat \<or> fault = Some AppendStat"
    | (fits) "\<not> (maxSegment < length dat \<or> fault = Some AppendStat)" "\<not> (0 < active_size fs \<and> maxSegment < active_size fs + length dat)"
    | (full) "\<not> (maxSegment < length dat \<or> fault = Some AppendStat)" "0 < active_size fs \<and> maxSegment < active_size fs + length dat" by blast
  then show ?thesis
  proof cases
    case refused
    then have "\<exists>e. r = failed_with e fs" using dat r by (auto simp: spool_Append_def)
    then show ?thesis using ok by (auto simp: failed_with_def moved_def)
  next
    case fits
    then have w: "r = append_write fault maxDisk dat fs" using dat r by (auto simp: spool_Append_def)
    have "length (active_content fs) \<le> maxSegment \<longrightarrow> length (active_content fs @ dat) \<le> maxSegment"
      using fits by (auto simp: active_size_content)
    then have "\<exists>w. appends fault maxSegment maxDisk sid dat fs r (active_content fs) [] w"
      if "\<exists>w. moved fs (Some (active_content fs @ w)) [] r \<and> written fault dat r w \<and>
       (rsError r = None \<longrightarrow> w = dat \<and> (length (active_content fs @ dat) \<le> maxDisk \<longrightarrow> disk_bytes (rsFiles r) \<le> maxDisk))"
      using that unfolding appends_def by metis
    with append_write_moved [OF ok w] show ?thesis by metis
  next
    case full
    define r0 where "r0 = sealLocked (case fault of Some (AppendSeal f) \<Rightarrow> Some f | _ \<Rightarrow> None) maxDisk sid fs"
    have ne: "\<not> (\<forall>c. gm_get fs activeSegmentName = Some c \<longrightarrow> c = '''')" using full by (auto simp: active_size_def split: option.splits)
    show ?thesis
    proof (cases "rsError r0 = None")
      case False
      then have "r = r0" using full dat r by (simp add: spool_Append_def r0_def Let_def)
      with sealLocked_moved [OF ok sid r0_def] False ne show ?thesis by metis
    next
      case True
      define w0 where "w0 = append_write fault maxDisk dat (rsFiles r0)"
      have r': "rsFiles r = rsFiles w0" "rsEvicted r = rsEvicted r0 @ rsEvicted w0" "rsError r = rsError w0"
        using full dat r True by (simp_all add: spool_Append_def r0_def w0_def Let_def)
      from sealLocked_moved [OF ok sid r0_def] True ne obtain c where c: "gm_get fs activeSegmentName = Some c" "moved fs None [(sid, c)] r0" by blast
      have ok0: "gm_ok (rsFiles r0)" and a0: "gm_get (rsFiles r0) activeSegmentName = None" using c(2) by (auto simp: moved_def)
      have ac: "active_content (rsFiles r0) = ''''" using a0 by (simp add: active_content_def)
      from append_write_moved [OF ok0 w0_def] show ?thesis
      proof (elim disjE exE conjE)
        assume "moved (rsFiles r0) (gm_get (rsFiles r0) activeSegmentName) [] w0" "rsError w0 \<noteq> None"
        then have "moved fs None [(sid, c)] r \<and> rsError r \<noteq> None" using moved_trans [OF c(2) _ r'(1,2)] a0 r'(3) by simp
        then show ?thesis using c(1) by metis
      next
        fix w
        assume m: "moved (rsFiles r0) (Some (active_content (rsFiles r0) @ w)) [] w0" and w: "written fault dat w0 w"
          and good: "rsError w0 = None \<longrightarrow> w = dat \<and> (length (active_content (rsFiles r0) @ dat) \<le> maxDisk \<longrightarrow> disk_bytes (rsFiles w0) \<le> maxDisk)"
        have "moved fs (Some ('''' @ w)) [(sid, c)] r" using moved_trans [OF c(2) m r'(1,2)] ac by simp
        moreover have "written fault dat r w" using w r'(3) by (simp add: written_def)
        moreover have "length ('''' @ dat) \<le> maxSegment" using full by simp
        moreover have "rsError r = None \<longrightarrow> w = dat \<and> (length ('''' @ dat) \<le> maxDisk \<longrightarrow> disk_bytes (rsFiles r) \<le> maxDisk)" using good r'(1,3) ac by simp
        ultimately have "appends fault maxSegment maxDisk sid dat fs r [] [(sid, c)] w" using c(1) unfolding appends_def by metis
        then show ?thesis by metis
      qed
    qed
  qed
qed


lemma incoming_jsonl: "incoming (''.incoming-'' @ tmp @ ''.jsonl'')"
  using file_ext_dotless [of "''jsonl''" "''.incoming-'' @ tmp"] by (simp add: incoming_def has_prefix_def)

lemma incoming_not_active: "\<not> incoming activeSegmentName"
  by (simp add: incoming_def activeSegmentName_def has_prefix_def)

lemma Accept_moved:
  assumes ok: "gm_ok fs" and r: "Accept fault maxSegment maxDisk sid dat fs = (new, r)"
  shows "(moved fs (gm_get fs activeSegmentName) [] r \<and> \<not> new \<and> (rsError r = None \<longrightarrow> validSegmentID sid \<and> gm_get fs (segmentName sid) = Some dat)) \<or>
    (validSegmentID sid \<and> moved fs (gm_get fs activeSegmentName) [(sid, dat)] r \<and> new = (rsError r = None) \<and> gm_get fs (segmentName sid) = None \<and>
       (new \<longrightarrow> active_size fs \<le> maxDisk \<longrightarrow> disk_bytes (rsFiles r) \<le> maxDisk))"
proof (cases "\<not> validSegmentID sid \<or> maxSegment < length dat \<or> fault = Some AcceptRead \<or> gm_get fs (segmentName sid) \<noteq> None")
  case True
  then show ?thesis using ok r by (auto simp: Accept_def moved_def failed_with_def split: if_splits)
next
  case False
  define fs1 where "fs1 = gm_put (segmentName sid) dat fs"
  have fs1: "gm_ok fs1" "gm_get fs1 activeSegmentName = gm_get fs activeSegmentName" "active_size fs1 = active_size fs"
    "\<And>s. validSegmentID s \<Longrightarrow> gm_get fs1 (segmentName s) = (case map_of [(sid, dat)] s of Some c \<Rightarrow> Some c | None \<Rightarrow> gm_get fs (segmentName s))"
    using ok False by (auto simp: fs1_def gomap_simps active_size_def)
  have stored: "moved fs (gm_get fs activeSegmentName) [(sid, dat)] x" if "shrunk fs1 (rsEvicted x) (rsFiles x)" for x
    using that fs1 by (intro movedI [of fs1]) auto
  have full: "new = (rsError r = None) \<and> moved fs (gm_get fs activeSegmentName) [(sid, dat)] r \<and> (new \<longrightarrow> active_size fs \<le> maxDisk \<longrightarrow> disk_bytes (rsFiles r) \<le> maxDisk)"
    if "(new, r) = (rsError (enforced f maxDisk None fs1) = None, enforced f maxDisk None fs1)" for f
    using that enforced_ok [OF fs1(1) refl, of f maxDisk None] stored [of r] fs1(3) by auto
  consider (early) "new = False" "r = failed_with ErrIO fs"
    | (left) tmp n where "new = False" "r = failed_with ErrIO (gm_put (''.incoming-'' @ tmp @ ''.jsonl'') (take n dat) fs)"
    | (sync) "new = False" "r = failed_with ErrIO fs1" | (done') f where "(new, r) = (rsError (enforced f maxDisk None fs1) = None, enforced f maxDisk None fs1)"
    using r False by (cases fault; cases "the fault") (auto simp: Accept_def fs1_def Let_def split: if_splits)
  then show ?thesis
  proof cases
    case early
    then show ?thesis using ok by (auto simp: moved_def failed_with_def)
  next
    case left
    have "''.incoming-'' @ tmp @ ''.jsonl'' \<noteq> activeSegmentName" using incoming_jsonl incoming_not_active by metis
    moreover have "''.incoming-'' @ tmp @ ''.jsonl'' \<noteq> segmentName s" if "validSegmentID s" for s
      using incoming_jsonl validSegmentID_first [OF that] by metis
    ultimately show ?thesis using ok left by (auto simp: moved_def failed_with_def gomap_simps)
  next
    case sync
    then show ?thesis using stored [of r] fs1(1) False by (auto simp: failed_with_def)
  next
    case (done' f)
    with full [OF done'] False show ?thesis by auto
  qed
qed


section \<open>Lines\<close>

text \<open>The lines of a file with their line ends; an unfinished last line is a line of its own.\<close>

fun lines_of :: "string \<Rightarrow> string list" where
  "lines_of [] = []"
| "lines_of (c # cs) = (if c = LF then [LF] # lines_of cs else case lines_of cs of [] \<Rightarrow> [[c]] | l # ls \<Rightarrow> (c # l) # ls)"

definition closed :: "string \<Rightarrow> bool" where
  "closed s \<longleftrightarrow> s = '''' \<or> last s = LF"

definition complete_part :: "string \<Rightarrow> string" where
  "complete_part s = rev (dropWhile (\<lambda>c. c \<noteq> LF) (rev s))"

lemma lines_append: "closed a \<Longrightarrow> lines_of (a @ b) = lines_of a @ lines_of b"
proof (induction a)
  case (Cons c a)
  then have "closed a" by (auto simp: closed_def split: if_splits)
  moreover have "lines_of a \<noteq> [] \<or> c = LF" using Cons.prems by (cases a) (auto simp: closed_def split: list.splits)
  ultimately show ?case using Cons.IH by (auto split: list.splits)
qed simp

lemma complete_closed [simp]: "closed (complete_part s)"
proof (cases "LF \<in> set s")
  case True
  then have "dropWhile (\<lambda>c. c \<noteq> LF) (rev s) \<noteq> []" by simp
  with hd_dropWhile [of "\<lambda>c. c \<noteq> LF" "rev s"] show ?thesis by (simp add: closed_def complete_part_def last_rev)
next
  case False
  then have "dropWhile (\<lambda>c. c \<noteq> LF) (rev s) = []" by (auto simp: dropWhile_eq_Nil_conv)
  then show ?thesis by (simp add: closed_def complete_part_def)
qed

lemma complete_split: "\<exists>t. s = complete_part s @ t \<and> LF \<notin> set t"
proof -
  have "s = complete_part s @ rev (takeWhile (\<lambda>c. c \<noteq> LF) (rev s))"
    unfolding complete_part_def by (metis rev_append rev_rev_ident takeWhile_dropWhile_id)
  moreover have "LF \<notin> set (rev (takeWhile (\<lambda>c. c \<noteq> LF) (rev s)))" by (auto dest: set_takeWhileD)
  ultimately show ?thesis by blast
qed

lemma complete_id: "closed s \<Longrightarrow> complete_part s = s"
  by (cases s rule: rev_cases) (auto simp: closed_def complete_part_def)

lemma complete_append: "LF \<notin> set t \<Longrightarrow> complete_part (s @ t) = complete_part s"
  unfolding complete_part_def by (subst rev_append, subst dropWhile_append2) auto

lemma complete_lines: "set (lines_of (complete_part s)) \<subseteq> set (lines_of s)"
  using complete_split [of s] lines_append [OF complete_closed [of s]] by (metis Un_upper1 set_append)

lemma repaired_complete: "repaired s = (if complete_part s = '''' then None else Some (complete_part s))"
proof (cases "LF \<in> set s")
  case True
  then have "dropWhile (\<lambda>c. c \<noteq> LF) (rev s) \<noteq> []" by simp
  then show ?thesis using True by (simp add: repaired_def complete_part_def)
next
  case False
  then have "dropWhile (\<lambda>c. c \<noteq> LF) (rev s) = []" by (auto simp: dropWhile_eq_Nil_conv)
  then show ?thesis using False by (simp add: repaired_def complete_part_def)
qed

definition record_line :: "string \<Rightarrow> bool" where
  "record_line dat \<longleftrightarrow> (\<exists>d. dat = d @ [LF] \<and> LF \<notin> set d)"

lemma record_lines: "record_line dat \<Longrightarrow> lines_of dat = [dat] \<and> closed dat"
proof -
  have "LF \<notin> set d \<Longrightarrow> lines_of (d @ [LF]) = [d @ [LF]]" for d by (induction d) (auto split: list.splits)
  then show "record_line dat \<Longrightarrow> ?thesis" by (auto simp: record_line_def closed_def)
qed

section \<open>A directory over time\<close>

lemma recover_moved:
  assumes ok: "gm_ok fs" and sid: "validSegmentID sid" and r: "r = NewSegmentSpool fault maxSegment maxDisk sid fs"
  shows "(moved fs (gm_get fs activeSegmentName) [] r \<and> (rsError r = None \<longrightarrow> active_content fs = '''')) \<or>
    (\<exists>act. (case act of None \<Rightarrow> complete_part (active_content fs) = '''' | Some c \<Rightarrow> c = complete_part (active_content fs)) \<and> moved fs act [] r \<and>
       (rsError r = None \<longrightarrow> act = None)) \<or>
    moved fs None [(sid, complete_part (active_content fs))] r"
proof -
  define fs1 where "fs1 = cleanupIncomingLocked fs"
  define fs2 where "fs2 = repairActiveLocked fs1"
  have get1: "gm_get fs1 name = (if incoming name then None else gm_get fs name)" for name
    unfolding fs1_def cleanupIncomingLocked_def by (induction fs) auto
  have ok1: "gm_ok fs1" using ok by (simp add: fs1_def cleanupIncomingLocked_def distinct_map_filter)
  have seg1: "gm_get fs1 (segmentName s) = gm_get fs (segmentName s)" if "validSegmentID s" for s using get1 validSegmentID_first [OF that] by simp
  have act1: "gm_get fs1 activeSegmentName = gm_get fs activeSegmentName" using get1 incoming_not_active by simp
  have size1: "active_size fs1 = length (active_content fs)" using act1 by (simp add: active_size_def active_content_def split: option.splits)
  have same: "moved fs (gm_get fs activeSegmentName) [] x" if "shrunk fs1 (rsEvicted x) (rsFiles x)" for x
    using that act1 seg1 by (intro movedI [of fs1]) auto
  show ?thesis
  proof (cases "maxSegment < 1 \<or> maxDisk < maxSegment \<or> fault \<in> {Some OpenDir, Some OpenClean, Some OpenStat} \<or> active_content fs = ''''")
    case True
    then consider e where "r = failed_with e fs" | e where "r = failed_with e fs1"
      | "active_content fs = ''''" "r = enforced (case fault of Some (OpenEnforce f) \<Rightarrow> Some f | _ \<Rightarrow> None) (nat maxDisk) None fs1"
      using r size1 by (auto simp: NewSegmentSpool_def fs1_def [symmetric] Let_def split: if_splits)
    then show ?thesis
    proof cases
      case 1
      then show ?thesis using ok by (auto simp: moved_def failed_with_def)
    next
      case 2
      then show ?thesis using same [of r] ok1 by (auto simp: failed_with_def)
    next
      case 3
      with enforced_ok [OF ok1 3(2)] same [of r] show ?thesis by blast
    qed
  next
    case False
    let ?c = "active_content fs"
    have c: "gm_get fs1 activeSegmentName = Some ?c" using False act1 by (auto simp: active_content_def split: option.splits)
    have ok2: "gm_ok fs2" using ok1 by (auto simp: fs2_def repairActiveLocked_def split: option.splits)
    have act2: "gm_get fs2 activeSegmentName = repaired ?c" using c by (auto simp: fs2_def repairActiveLocked_def gomap_simps split: option.splits)
    have seg2: "gm_get fs2 (segmentName s) = gm_get fs (segmentName s)" if "validSegmentID s" for s
      using seg1 [OF that] that c by (auto simp: fs2_def repairActiveLocked_def gomap_simps split: option.splits)
    have via: "moved fs act news x" if "moved fs2 act news x" for act news x using that seg2 unfolding moved_def by (auto split: option.splits)
    define r0 where "r0 = sealLocked (case fault of Some (OpenSeal f) \<Rightarrow> Some f | _ \<Rightarrow> None) (nat maxDisk) sid fs2"
    define w where "w = enforced (case fault of Some (OpenEnforce f) \<Rightarrow> Some f | _ \<Rightarrow> None) (nat maxDisk) None (rsFiles r0)"
    have split: "r = failed_with ErrIO fs1 \<or> r = r0 \<and> rsError r0 \<noteq> None \<or>
        rsError r0 = None \<and> rsFiles r = rsFiles w \<and> rsEvicted r = rsEvicted r0 @ rsEvicted w \<and> rsError r = rsError w"
      using r False size1 by (auto simp: NewSegmentSpool_def fs1_def [symmetric] fs2_def [symmetric] r0_def [symmetric] w_def [symmetric] Let_def split: if_splits)
    have later: "moved fs act news r" if "moved fs act news r0" "rsError r0 = None" "rsFiles r = rsFiles w" "rsEvicted r = rsEvicted r0 @ rsEvicted w" for act news
    proof -
      have "gm_ok (rsFiles r0)" "gm_get (rsFiles r0) activeSegmentName = act" using that(1) by (simp_all add: moved_def)
      with enforced_ok [OF _ w_def] have "moved (rsFiles r0) act [] w" by (intro movedI [of "rsFiles r0"]) auto
      from moved_trans [OF that(1) this that(3,4)] show ?thesis .
    qed
    have rep: "repaired ?c = (if complete_part ?c = '''' then None else Some (complete_part ?c))" by (rule repaired_complete)
    from split show ?thesis
    proof (elim disjE conjE)
      assume "r = failed_with ErrIO fs1"
      then show ?thesis using same [of r] ok1 by (auto simp: failed_with_def)
    next
      assume f: "r = r0" "rsError r0 \<noteq> None"
      from sealLocked_moved [OF ok2 sid r0_def] f(2) consider "moved fs2 (repaired ?c) [] r0"
        | d where "repaired ?c = Some d" "moved fs2 None [(sid, d)] r0" by (auto simp: act2)
      then show ?thesis
      proof cases
        case 1
        then have "moved fs (repaired ?c) [] r" using via f(1) by simp
        moreover have "case repaired ?c of None \<Rightarrow> complete_part (active_content fs) = [] | Some d \<Rightarrow> d = complete_part (active_content fs)"
          using rep by simp
        moreover have "rsError r = None \<longrightarrow> repaired ?c = None" using f by auto
        ultimately show ?thesis by - (rule disjI2, rule disjI1, rule exI [of _ "repaired ?c"], intro conjI)
      next
        case 2
        then have "d = complete_part ?c" using rep by (simp split: if_splits)
        then show ?thesis using via [OF 2(2)] f(1) by simp
      qed
    next
      assume g: "rsError r0 = None" "rsFiles r = rsFiles w" "rsEvicted r = rsEvicted r0 @ rsEvicted w" "rsError r = rsError w"
      from sealLocked_moved [OF ok2 sid r0_def] g(1) consider "moved fs2 None [] r0" "\<forall>d. repaired ?c = Some d \<longrightarrow> d = ''''"
        | d where "repaired ?c = Some d" "moved fs2 None [(sid, d)] r0" by (auto simp: act2)
      then show ?thesis
      proof cases
        case 1
        have "moved fs None [] r" by (rule later [OF via [OF 1(1)] g(1-3)])
        moreover have "complete_part ?c = []"
        proof (rule ccontr)
          assume ne: "complete_part ?c \<noteq> []"
          then have "repaired ?c = Some (complete_part ?c)" by (simp add: repaired_complete)
          with 1(2) ne show False by blast
        qed
        ultimately show ?thesis by - (rule disjI2, rule disjI1, rule exI [of _ None], simp)
      next
        case 2
        then have "d = complete_part ?c" using rep by (simp split: if_splits)
        then show ?thesis using later [OF via [OF 2(2)] g(1-3)] by simp
      qed
    qed
  qed
qed


section \<open>Delivery\<close>

text \<open>
  A spool with its users: the recorder appends, a timer seals, remote clients hand over segments, an uploader reads, puts and
  removes, and the daemon may stop anywhere and start again. \<open>swNames\<close> remembers which content an identifier was first used for:
  identifiers of sealed segments are new, and a remote client uses an identifier for one content only. A write that fails part way leaves an
  unfinished line in the active segment, and later appends go behind it. \<open>swAcked\<close> collects what \<open>Append\<close> and \<open>Accept\<close> confirmed, each
  record with whether it starts a line of its own. The uploader may go on to the next segment after an error, as the HTTP forwarder does, or
  stop, as \<open>UploadPending\<close> does.
\<close>

definition whole_record :: "string \<Rightarrow> spool_files \<Rightarrow> bool" where
  "whole_record dat fs = closed (take (length (active_content fs) - length dat) (active_content fs))"

datatype up_state = UpIdle | UpListed "string list" | UpRead string string "string list" | UpPut string "string list"

record spool_world =
  swFiles :: spool_files
  swNames :: "string \<rightharpoonup> string"
  swAcked :: "(bool \<times> string) list"
  swDelivered :: "(string \<times> string) list"
  swEvicted :: "string list"
  swUp :: up_state

definition after :: "spool_result \<Rightarrow> spool_world \<Rightarrow> spool_world" where
  "after r w = w\<lparr>swFiles := rsFiles r, swEvicted := swEvicted w @ map sgID (rsEvicted r)\<rparr>"

inductive spool_step :: "nat \<Rightarrow> nat \<Rightarrow> spool_world \<Rightarrow> spool_world \<Rightarrow> bool" for maxSegment maxDisk where
  Appended: "record_line dat \<Longrightarrow> validSegmentID sid \<Longrightarrow> swNames w sid = None \<Longrightarrow>
    r = spool_Append fault maxSegment maxDisk sid dat (swFiles w) \<Longrightarrow>
    spool_step maxSegment maxDisk w ((after r w)\<lparr>swNames := (swNames w)(sid \<mapsto> active_content (swFiles w)),
      swAcked := (if rsError r = None then swAcked w @ [(whole_record dat (rsFiles r), dat)] else swAcked w)\<rparr>)"
| Sealed: "validSegmentID sid \<Longrightarrow> swNames w sid = None \<Longrightarrow> r = Seal fault maxDisk sid (swFiles w) \<Longrightarrow>
    spool_step maxSegment maxDisk w ((after r w)\<lparr>swNames := (swNames w)(sid \<mapsto> active_content (swFiles w))\<rparr>)"
| Accepted: "swNames w sid = None \<or> swNames w sid = Some dat \<Longrightarrow> Accept fault maxSegment maxDisk sid dat (swFiles w) = (new, r) \<Longrightarrow>
    spool_step maxSegment maxDisk w ((after r w)\<lparr>swNames := (swNames w)(sid \<mapsto> dat),
      swAcked := (if rsError r = None then swAcked w @ map (Pair True) (lines_of dat) else swAcked w)\<rparr>)"
| Listed: "swUp w = UpIdle \<Longrightarrow> spool_step maxSegment maxDisk w (w\<lparr>swUp := UpListed (map sgID (pendingSegments (swFiles w)))\<rparr>)"
| ReadIt: "swUp w = UpListed (sid # sids) \<Longrightarrow> spool_Read sid (swFiles w) = Some c \<Longrightarrow> spool_step maxSegment maxDisk w (w\<lparr>swUp := UpRead sid c sids\<rparr>)"
| Skipped: "swUp w = UpListed (sid # sids) \<Longrightarrow> spool_step maxSegment maxDisk w (w\<lparr>swUp := UpListed sids\<rparr>)"
| PutIt: "swUp w = UpRead sid c sids \<Longrightarrow>
    spool_step maxSegment maxDisk w (w\<lparr>swUp := UpPut sid sids, swDelivered := swDelivered w @ [(sid, c)]\<rparr>)"
| PutFailed: "swUp w = UpRead sid c sids \<Longrightarrow> spool_step maxSegment maxDisk w (w\<lparr>swUp := UpListed sids\<rparr>)"
| RemovedIt: "swUp w = UpPut sid sids \<Longrightarrow>
    spool_step maxSegment maxDisk w (w\<lparr>swUp := UpListed sids, swFiles := snd (spool_Remove fault sid (swFiles w))\<rparr>)"
| Stopped: "spool_step maxSegment maxDisk w (w\<lparr>swUp := UpIdle\<rparr>)"
| Restarted: "validSegmentID sid \<Longrightarrow> swNames w sid = None \<Longrightarrow> r = NewSegmentSpool fault (int maxSegment) (int maxDisk) sid (swFiles w) \<Longrightarrow>
    spool_step maxSegment maxDisk w ((after r w)\<lparr>swUp := UpIdle,
      swNames := (swNames w)(sid \<mapsto> complete_part (active_content (swFiles w)))\<rparr>)"

inductive spool_reachable :: "nat \<Rightarrow> nat \<Rightarrow> spool_world \<Rightarrow> bool" for maxSegment maxDisk where
  Empty: "spool_reachable maxSegment maxDisk \<lparr>swFiles = [], swNames = Map.empty, swAcked = [], swDelivered = [], swEvicted = [], swUp = UpIdle\<rparr>"
| Later: "spool_reachable maxSegment maxDisk w \<Longrightarrow> spool_step maxSegment maxDisk w w' \<Longrightarrow> spool_reachable maxSegment maxDisk w'"

text \<open>Where a confirmed record can be: in the active segment, or in a segment that is stored, was put, or was evicted.\<close>

definition sheltered :: "spool_world \<Rightarrow> string \<Rightarrow> bool" where
  "sheltered w sid \<longleftrightarrow> (\<exists>c. swNames w sid = Some c \<and> (gm_get (swFiles w) (segmentName sid) = Some c \<or> (sid, c) \<in> set (swDelivered w)) \<or> sid \<in> set (swEvicted w))"

definition kept_line :: "spool_world \<Rightarrow> string \<Rightarrow> bool" where
  "kept_line w l \<longleftrightarrow> l \<in> set (lines_of (complete_part (active_content (swFiles w)))) \<or>
     (\<exists>sid c. validSegmentID sid \<and> swNames w sid = Some c \<and> l \<in> set (lines_of c) \<and> sheltered w sid)"

definition kept_record :: "spool_world \<Rightarrow> bool \<times> string \<Rightarrow> bool" where
  "kept_record w a \<longleftrightarrow> (\<exists>t. (fst a \<longrightarrow> t = []) \<and> kept_line w (t @ snd a))"

fun up_ok :: "spool_world \<Rightarrow> up_state \<Rightarrow> bool" where
  "up_ok w (UpRead sid c sids) \<longleftrightarrow> swNames w sid = Some c"
| "up_ok w (UpPut sid sids) \<longleftrightarrow> (\<exists>c. swNames w sid = Some c \<and> (sid, c) \<in> set (swDelivered w))"
| "up_ok w _ \<longleftrightarrow> True"

definition spool_ok :: "nat \<Rightarrow> spool_world \<Rightarrow> bool" where
  "spool_ok maxSegment w \<longleftrightarrow> gm_ok (swFiles w) \<and> length (active_content (swFiles w)) \<le> maxSegment \<and>
     (\<forall>sid c. validSegmentID sid \<longrightarrow> gm_get (swFiles w) (segmentName sid) = Some c \<longrightarrow> swNames w sid = Some c) \<and>
     (\<forall>a \<in> set (swAcked w). kept_record w a) \<and> up_ok w (swUp w)"


definition content_of :: "string option \<Rightarrow> string" where
  "content_of act = (case act of Some c \<Rightarrow> c | None \<Rightarrow> '''')"

lemma active_content_of: "active_content fs = content_of (gm_get fs activeSegmentName)"
  by (simp add: active_content_def content_of_def)

lemma moved_active: "moved fs act news r \<Longrightarrow> active_content (rsFiles r) = content_of act"
  by (simp add: moved_def active_content_of)

text \<open>An operation of the spool keeps every line: the one shared step of the invariant.\<close>

lemma moved_keeps:
  assumes ok: "spool_ok maxSegment w" and m: "moved (swFiles w) act news r" and name: "swNames w sid = None \<or> swNames w sid = Some c"
    and news: "news = [] \<or> news = [(sid, c)] \<and> validSegmentID sid"
    and lines: "\<And>l. l \<in> set (lines_of (complete_part (active_content (swFiles w)))) \<Longrightarrow>
      l \<in> set (lines_of (complete_part (content_of act))) \<or> news = [(sid, c)] \<and> l \<in> set (lines_of c)"
    and w': "swFiles w' = rsFiles r" "swNames w' = (swNames w)(sid \<mapsto> c)" "swEvicted w' = swEvicted w @ map sgID (rsEvicted r)" "swDelivered w' = swDelivered w"
  shows "gm_ok (swFiles w') \<and> (\<forall>s d. validSegmentID s \<longrightarrow> gm_get (swFiles w') (segmentName s) = Some d \<longrightarrow> swNames w' s = Some d) \<and>
    (\<forall>l. kept_line w l \<longrightarrow> kept_line w' l) \<and> (\<forall>u. up_ok w u \<longrightarrow> up_ok w' u)"
proof -
  have get: "gm_get (swFiles w') (segmentName s) = (case map_of news s of Some c \<Rightarrow> Some c | None \<Rightarrow> gm_get (swFiles w) (segmentName s)) \<or>
      gm_get (swFiles w') (segmentName s) = None \<and> s \<in> set (map sgID (rsEvicted r))" if "validSegmentID s" for s
    using m that w'(1) by (simp add: moved_def)
  have named: "swNames w' s = Some d" if "swNames w s = Some d" for s d using that name w'(2) by auto
  have files: "swNames w' s = Some d" if "validSegmentID s" "gm_get (swFiles w') (segmentName s) = Some d" for s d
  proof (cases "map_of news s")
    case None
    then have "gm_get (swFiles w) (segmentName s) = Some d" using get [OF that(1)] that(2) by simp
    then show ?thesis using ok that(1) named by (simp add: spool_ok_def)
  next
    case (Some e)
    then have "s = sid" "e = c" using news by (auto split: if_splits)
    then show ?thesis using get [OF that(1)] that(2) Some w'(2) by simp
  qed
  have stay: "sheltered w' s" if "validSegmentID s" and sh: "sheltered w s" for s
  proof (cases "s \<in> set (swEvicted w')")
    case False
    then obtain d where d: "swNames w s = Some d" "gm_get (swFiles w) (segmentName s) = Some d \<or> (s, d) \<in> set (swDelivered w)"
      using sh w'(3) by (auto simp: sheltered_def)
    have "gm_get (swFiles w') (segmentName s) = Some d" if "gm_get (swFiles w) (segmentName s) = Some d"
    proof (cases "map_of news s")
      case None
      then show ?thesis using get [OF \<open>validSegmentID s\<close>] that False w'(3) by auto
    next
      case (Some e)
      then have "e = d" using news name d(1) by (auto split: if_splits)
      then show ?thesis using get [OF \<open>validSegmentID s\<close>] Some False w'(3) by auto
    qed
    then show ?thesis using d named w'(4) unfolding sheltered_def by metis
  qed (simp add: sheltered_def)
  have "kept_line w' l" if k: "kept_line w l" for l
  proof (cases "l \<in> set (lines_of (complete_part (active_content (swFiles w))))")
    case True
    from lines [OF True] show ?thesis
    proof
      assume "l \<in> set (lines_of (complete_part (content_of act)))"
      then show ?thesis using moved_active [OF m] w'(1) by (simp add: kept_line_def)
    next
      assume n: "news = [(sid, c)] \<and> l \<in> set (lines_of c)"
      then have v: "validSegmentID sid" using news by auto
      have "gm_get (swFiles w') (segmentName sid) = Some c \<or> sid \<in> set (swEvicted w')" using get [OF v] n w'(3) by auto
      then have "sheltered w' sid" using w'(2) by (auto simp: sheltered_def)
      then show ?thesis using n v w'(2) by (auto simp: kept_line_def)
    qed
  next
    case False
    then obtain s d where "validSegmentID s" "swNames w s = Some d" "l \<in> set (lines_of d)" "sheltered w s" using k by (auto simp: kept_line_def)
    then show ?thesis using stay named unfolding kept_line_def by blast
  qed
  moreover have "up_ok w' u" if "up_ok w u" for u using that named w'(4) by (cases u) auto
  moreover have "gm_ok (swFiles w')" using m w'(1) by (simp add: moved_def)
  ultimately show ?thesis using files by blast
qed

lemma kept_weaken:
  assumes "kept_line w l" and "swFiles w' = swFiles w" "swNames w' = swNames w" "swEvicted w' = swEvicted w" "set (swDelivered w) \<subseteq> set (swDelivered w')"
  shows "kept_line w' l"
  using assms by (auto simp: kept_line_def sheltered_def)

lemma spool_okI:
  assumes k: "gm_ok (swFiles w') \<and> (\<forall>s d. validSegmentID s \<longrightarrow> gm_get (swFiles w') (segmentName s) = Some d \<longrightarrow> swNames w' s = Some d) \<and>
      (\<forall>l. kept_line w l \<longrightarrow> kept_line w' l) \<and> (\<forall>u. up_ok w u \<longrightarrow> up_ok w' u)"
    and ok: "spool_ok maxSegment w" and "length (active_content (swFiles w')) \<le> maxSegment"
    and "\<forall>a \<in> set (swAcked w'). a \<in> set (swAcked w) \<or> kept_record w' a" and "swUp w' = swUp w \<or> swUp w' = UpIdle"
  shows "spool_ok maxSegment w'"
proof -
  have "kept_record w' a" if "kept_record w a" for a using that k unfolding kept_record_def by blast
  then show ?thesis using assms unfolding spool_ok_def by (metis up_ok.simps(3))
qed


lemma take_record: "LF \<notin> set d \<Longrightarrow> take n (d @ [LF]) = d @ [LF] \<or> LF \<notin> set (take n (d @ [LF]))"
  by (cases "n \<le> length d") (auto dest: in_set_takeD)

text \<open>Behind an unfinished line a record ends that line; behind a finished one it is a line of its own.\<close>

lemma record_behind:
  assumes "record_line dat"
  obtains t where "LF \<notin> set t" "closed old \<longrightarrow> t = ''''" "lines_of (old @ dat) = lines_of (complete_part old) @ [t @ dat]" "closed (old @ dat)"
proof -
  obtain t where t: "old = complete_part old @ t" "LF \<notin> set t" using complete_split by blast
  have r: "record_line (t @ dat)" using assms t(2) by (auto simp: record_line_def)
  have "lines_of (old @ dat) = lines_of (complete_part old @ (t @ dat))" using t(1) by (metis append_assoc)
  also have "\<dots> = lines_of (complete_part old) @ [t @ dat]" using lines_append [OF complete_closed] record_lines [OF r] by simp
  finally have "lines_of (old @ dat) = lines_of (complete_part old) @ [t @ dat]" .
  moreover have "closed old \<longrightarrow> t = ''''" using t(1) complete_id [of old] by (metis append_self_conv)
  moreover have "closed (old @ dat)" using assms by (auto simp: record_line_def closed_def)
  ultimately show thesis using t(2) that by blast
qed

lemma append_step_ok:
  assumes ok: "spool_ok maxSegment w" and dat: "record_line dat" and sid: "validSegmentID sid" "swNames w sid = None"
    and r: "r = spool_Append fault maxSegment maxDisk sid dat (swFiles w)"
    and w': "w' = (after r w)\<lparr>swNames := (swNames w)(sid \<mapsto> active_content (swFiles w)),
      swAcked := (if rsError r = None then swAcked w @ [(whole_record dat (rsFiles r), dat)] else swAcked w)\<rparr>"
  shows "spool_ok maxSegment w'"
proof -
  let ?fs = "swFiles w" and ?c = "active_content (swFiles w)"
  have gm: "gm_ok ?fs" and len: "length ?c \<le> maxSegment" using ok by (auto simp: spool_ok_def)
  obtain d where d: "dat = d @ [LF]" "LF \<notin> set d" using dat by (auto simp: record_line_def)
  have f: "swFiles w' = rsFiles r" "swNames w' = (swNames w)(sid \<mapsto> ?c)" "swEvicted w' = swEvicted w @ map sgID (rsEvicted r)"
      "swDelivered w' = swDelivered w" "swUp w' = swUp w"
    by (simp_all add: w' after_def)
  have ac: "?c = content_of (gm_get ?fs activeSegmentName)" by (rule active_content_of)
  have "dat \<noteq> ''''" using d(1) by simp
  from Append_moved [OF gm sid(1) this r] show ?thesis
  proof (elim disjE exE conjE)
    assume m: "moved ?fs (gm_get ?fs activeSegmentName) [] r" and e: "rsError r \<noteq> None"
    have k: "gm_ok (swFiles w') \<and> (\<forall>s d. validSegmentID s \<longrightarrow> gm_get (swFiles w') (segmentName s) = Some d \<longrightarrow> swNames w' s = Some d) \<and>
        (\<forall>l. kept_line w l \<longrightarrow> kept_line w' l) \<and> (\<forall>u. up_ok w u \<longrightarrow> up_ok w' u)"
      by (rule moved_keeps [OF ok m _ _ _ f(1-4)]) (use sid ac in auto)
    show ?thesis
      by (rule spool_okI [OF k ok]) (use moved_active [OF m] len f e w' ac in auto)
  next
    fix c
    assume c: "gm_get ?fs activeSegmentName = Some c" and m: "moved ?fs None [(sid, c)] r" and e: "rsError r \<noteq> None"
    have "c = ?c" using c by (simp add: active_content_def)
    then have k: "gm_ok (swFiles w') \<and> (\<forall>s d. validSegmentID s \<longrightarrow> gm_get (swFiles w') (segmentName s) = Some d \<longrightarrow> swNames w' s = Some d) \<and>
        (\<forall>l. kept_line w l \<longrightarrow> kept_line w' l) \<and> (\<forall>u. up_ok w u \<longrightarrow> up_ok w' u)"
      by (intro moved_keeps [OF ok m _ _ _ f(1-4)]) (use sid complete_lines [of ?c] in auto)
    show ?thesis
      by (rule spool_okI [OF k ok]) (use moved_active [OF m] f e w' in \<open>auto simp: content_of_def\<close>)
  next
    fix old news x
    assume "appends fault maxSegment maxDisk sid dat ?fs r old news x"
    then have old: "old = ?c \<and> news = [] \<or> old = [] \<and> news = [(sid, ?c)]" and m: "moved ?fs (Some (old @ x)) news r" and wr: "written fault dat r x"
        and fits: "length (old @ dat) \<le> maxSegment" and good: "rsError r = None \<longrightarrow> x = dat"
      using len by (auto simp: appends_def active_content_def)
    obtain t where t: "closed old \<longrightarrow> t = ''''" "lines_of (old @ dat) = lines_of (complete_part old) @ [t @ dat]" "closed (old @ dat)"
      by (rule record_behind [OF dat])
    have part: "x = dat \<or> LF \<notin> set x"
    proof (cases "\<exists>n. x = take n dat")
      case True
      then show ?thesis using take_record [OF d(2)] d(1) by blast
    qed (use wr in \<open>auto simp: written_def\<close>)
    have cx: "set (lines_of (complete_part old)) \<subseteq> set (lines_of (complete_part (old @ x)))"
      using part complete_append [of x old] complete_id [OF t(3)] t(2) by auto
    have act: "active_content (rsFiles r) = old @ x" using moved_active [OF m] by (simp add: content_of_def)
    have k: "gm_ok (swFiles w') \<and> (\<forall>s d. validSegmentID s \<longrightarrow> gm_get (swFiles w') (segmentName s) = Some d \<longrightarrow> swNames w' s = Some d) \<and>
        (\<forall>l. kept_line w l \<longrightarrow> kept_line w' l) \<and> (\<forall>u. up_ok w u \<longrightarrow> up_ok w' u)"
      by (rule moved_keeps [OF ok m _ _ _ f(1-4)]) (use sid old cx complete_lines [of ?c] in \<open>auto simp: content_of_def\<close>)
    have "length x \<le> length dat" using wr by (auto simp: written_def)
    then have 1: "length (active_content (swFiles w')) \<le> maxSegment" using fits act f(1) by simp
    have "kept_record w' (whole_record dat (rsFiles r), dat)" if "rsError r = None"
    proof -
      have a: "active_content (rsFiles r) = old @ dat" using that good act by simp
      then have "kept_line w' (t @ dat)" using f(1) complete_id [OF t(3)] t(2) by (simp add: kept_line_def)
      moreover have "whole_record dat (rsFiles r) \<longrightarrow> t = ''''" using a t(1) by (simp add: whole_record_def)
      ultimately show ?thesis by (auto simp: kept_record_def)
    qed
    then have 3: "\<forall>a \<in> set (swAcked w'). a \<in> set (swAcked w) \<or> kept_record w' a" using w' by auto
    show ?thesis by (rule spool_okI [OF k ok 1 3]) (simp add: f(5))
  qed
qed


lemma seal_step_ok:
  assumes ok: "spool_ok maxSegment w" and sid: "validSegmentID sid" "swNames w sid = None" and r: "r = Seal fault maxDisk sid (swFiles w)"
    and w': "w' = (after r w)\<lparr>swNames := (swNames w)(sid \<mapsto> active_content (swFiles w))\<rparr>"
  shows "spool_ok maxSegment w'"
proof -
  let ?fs = "swFiles w" and ?c = "active_content (swFiles w)"
  have gm: "gm_ok ?fs" and len: "length ?c \<le> maxSegment" using ok by (auto simp: spool_ok_def)
  have f: "swFiles w' = rsFiles r" "swNames w' = (swNames w)(sid \<mapsto> ?c)" "swEvicted w' = swEvicted w @ map sgID (rsEvicted r)"
      "swDelivered w' = swDelivered w" "swUp w' = swUp w" "swAcked w' = swAcked w"
    by (simp_all add: w' after_def)
  have keep: "spool_ok maxSegment w'" if m: "moved ?fs act news r" and "news = [] \<or> news = [(sid, ?c)]" and "act = gm_get ?fs activeSegmentName \<or> act = None \<and> (news \<noteq> [] \<or> ?c = '''')" for act news
  proof -
    have a: "content_of act = ?c \<or> content_of act = '''' \<and> (news = [(sid, ?c)] \<or> ?c = '''')" using that by (auto simp: content_of_def active_content_def)
    have k: "gm_ok (swFiles w') \<and> (\<forall>s d. validSegmentID s \<longrightarrow> gm_get (swFiles w') (segmentName s) = Some d \<longrightarrow> swNames w' s = Some d) \<and>
        (\<forall>l. kept_line w l \<longrightarrow> kept_line w' l) \<and> (\<forall>u. up_ok w u \<longrightarrow> up_ok w' u)"
      by (rule moved_keeps [OF ok m _ _ _ f(1-4)]) (use sid a that complete_lines [of ?c] in auto)
    show ?thesis
      by (rule spool_okI [OF k ok]) (use moved_active [OF m] a len f in auto)
  qed
  have "r = sealLocked fault maxDisk sid ?fs" using r by (simp add: Seal_def)
  from sealLocked_moved [OF gm sid(1) this] show ?thesis
  proof (elim disjE exE conjE)
    assume "moved ?fs None [] r" "\<forall>c. gm_get ?fs activeSegmentName = Some c \<longrightarrow> c = ''''"
    then show ?thesis using keep by (auto simp: active_content_def split: option.splits)
  qed (use keep in \<open>auto simp: active_content_def\<close>)
qed

lemma accept_step_ok:
  assumes ok: "spool_ok maxSegment w" and name: "swNames w sid = None \<or> swNames w sid = Some dat"
    and r: "Accept fault maxSegment maxDisk sid dat (swFiles w) = (new, r)"
    and w': "w' = (after r w)\<lparr>swNames := (swNames w)(sid \<mapsto> dat), swAcked := (if rsError r = None then swAcked w @ map (Pair True) (lines_of dat) else swAcked w)\<rparr>"
  shows "spool_ok maxSegment w'"
proof -
  let ?fs = "swFiles w" and ?a = "gm_get (swFiles w) activeSegmentName"
  have gm: "gm_ok ?fs" and len: "length (active_content ?fs) \<le> maxSegment" using ok by (auto simp: spool_ok_def)
  have f: "swFiles w' = rsFiles r" "swNames w' = (swNames w)(sid \<mapsto> dat)" "swEvicted w' = swEvicted w @ map sgID (rsEvicted r)"
      "swDelivered w' = swDelivered w" "swUp w' = swUp w"
    by (simp_all add: w' after_def)
  obtain news where n: "moved ?fs ?a news r" "news = [] \<or> news = [(sid, dat)] \<and> validSegmentID sid"
      "rsError r = None \<longrightarrow> validSegmentID sid \<and> (gm_get ?fs (segmentName sid) = Some dat \<or> news = [(sid, dat)])"
    using Accept_moved [OF gm r] by auto
  have k: "gm_ok (swFiles w') \<and> (\<forall>s d. validSegmentID s \<longrightarrow> gm_get (swFiles w') (segmentName s) = Some d \<longrightarrow> swNames w' s = Some d) \<and>
      (\<forall>l. kept_line w l \<longrightarrow> kept_line w' l) \<and> (\<forall>u. up_ok w u \<longrightarrow> up_ok w' u)"
    by (rule moved_keeps [OF ok n(1) name n(2) _ f(1-4)]) (use active_content_of in auto)
  have act: "active_content (swFiles w') = active_content ?fs" using moved_active [OF n(1)] f(1) active_content_of by simp
  have "kept_line w' l" if "rsError r = None" "l \<in> set (lines_of dat)" for l
  proof -
    have v: "validSegmentID sid" using n(3) that(1) by simp
    have "gm_get (swFiles w') (segmentName sid) = Some dat \<or> sid \<in> set (swEvicted w')"
      using n that(1) v f(1,3) by (auto simp: moved_def)
    then show ?thesis using that(2) v f(2) by (auto simp: kept_line_def sheltered_def)
  qed
  then have 3: "\<forall>a \<in> set (swAcked w'). a \<in> set (swAcked w) \<or> kept_record w' a" using w' by (auto simp: kept_record_def)
  show ?thesis by (rule spool_okI [OF k ok _ 3]) (use act len f in auto)
qed

lemma restart_step_ok:
  assumes ok: "spool_ok maxSegment w" and sid: "validSegmentID sid" "swNames w sid = None"
    and r: "r = NewSegmentSpool fault (int maxSegment) (int maxDisk) sid (swFiles w)"
    and w': "w' = (after r w)\<lparr>swUp := UpIdle,
      swNames := (swNames w)(sid \<mapsto> complete_part (active_content (swFiles w)))\<rparr>"
  shows "spool_ok maxSegment w'"
proof -
  let ?fs = "swFiles w" and ?c = "active_content (swFiles w)" and ?p = "complete_part (active_content (swFiles w))"
  have gm: "gm_ok ?fs" and len: "length ?c \<le> maxSegment" using ok by (auto simp: spool_ok_def)
  have f: "swFiles w' = rsFiles r" "swNames w' = (swNames w)(sid \<mapsto> ?p)" "swEvicted w' = swEvicted w @ map sgID (rsEvicted r)"
      "swDelivered w' = swDelivered w" "swUp w' = UpIdle" "swAcked w' = swAcked w"
    by (simp_all add: w' after_def)
  have short: "length ?p \<le> length ?c" using complete_split [of ?c] by (metis length_append le_add1)
  have keep: "spool_ok maxSegment w'"
    if m: "moved ?fs act news r" and n: "news = [] \<or> news = [(sid, ?p)]" and a: "content_of act = ?c \<or> content_of act = ?p \<or> content_of act = '''' \<and> news = [(sid, ?p)]"
    for act news
  proof -
    have k: "gm_ok (swFiles w') \<and> (\<forall>s d. validSegmentID s \<longrightarrow> gm_get (swFiles w') (segmentName s) = Some d \<longrightarrow> swNames w' s = Some d) \<and>
        (\<forall>l. kept_line w l \<longrightarrow> kept_line w' l) \<and> (\<forall>u. up_ok w u \<longrightarrow> up_ok w' u)"
      by (rule moved_keeps [OF ok m _ _ _ f(1-4)]) (use sid a n complete_id [OF complete_closed] in auto)
    have "length (active_content (swFiles w')) \<le> maxSegment" using moved_active [OF m] a len short f(1) by auto
    then show ?thesis by (rule spool_okI [OF k ok]) (use f in auto)
  qed
  have ac: "content_of (gm_get ?fs activeSegmentName) = ?c" by (simp add: active_content_of)
  from recover_moved [OF gm sid(1) r] show ?thesis
  proof (elim disjE exE conjE)
    fix act
    assume a: "case act of None \<Rightarrow> ?p = '''' | Some c \<Rightarrow> c = ?p" and m: "moved ?fs act [] r"
    have c: "content_of act = ?p" using a by (auto simp: content_of_def split: option.splits)
    show ?thesis by (rule keep [OF m]) (use c in auto)
  next
    assume "moved ?fs None [(sid, ?p)] r"
    then show ?thesis by (rule keep) (auto simp: content_of_def)
  qed (use keep ac in auto)
qed


lemma remove_files: "snd (spool_Remove fault sid fs) = (if validSegmentID sid \<and> fault \<noteq> Some RemoveFile then gm_del (segmentName sid) fs else fs)"
  by (auto simp: spool_Remove_def split: option.splits remove_fault.splits)

lemma remove_step_ok:
  assumes ok: "spool_ok maxSegment w" and up: "swUp w = UpPut sid sids"
  shows "spool_ok maxSegment (w\<lparr>swUp := UpListed sids, swFiles := snd (spool_Remove fault sid (swFiles w))\<rparr>)"
proof -
  define fs' where "fs' = snd (spool_Remove fault sid (swFiles w))"
  have fs: "fs' = gm_del (segmentName sid) (swFiles w) \<and> validSegmentID sid \<or> fs' = swFiles w" by (simp add: fs'_def remove_files)
  let ?w = "w\<lparr>swUp := UpListed sids, swFiles := fs'\<rparr>"
  obtain c where c: "swNames w sid = Some c" "(sid, c) \<in> set (swDelivered w)" using ok up by (auto simp: spool_ok_def)
  have act: "active_content (swFiles ?w) = active_content (swFiles w)" using fs by (auto simp: active_content_def gomap_simps)
  have "sheltered ?w s" if "sheltered w s" for s
    using that c fs by (cases "s = sid") (auto simp: sheltered_def gomap_simps)
  then have "kept_line ?w l" if "kept_line w l" for l
    using that act unfolding kept_line_def by auto
  then have "kept_record ?w a" if "kept_record w a" for a using that unfolding kept_record_def by blast
  then have "spool_ok maxSegment ?w" using ok act fs by (auto simp: spool_ok_def gomap_simps split: if_splits)
  then show ?thesis by (simp add: fs'_def)
qed

lemma up_step_ok:
  assumes "spool_ok maxSegment w" and "up_ok w u"
  shows "spool_ok maxSegment (w\<lparr>swUp := u\<rparr>)"
proof -
  have "kept_line (w\<lparr>swUp := u\<rparr>) l = kept_line w l" for l by (simp add: kept_line_def sheltered_def)
  then have "kept_record (w\<lparr>swUp := u\<rparr>) a = kept_record w a" for a by (simp add: kept_record_def)
  moreover have "up_ok (w\<lparr>swUp := u\<rparr>) u = up_ok w u" by (cases u) simp_all
  ultimately show ?thesis using assms by (simp add: spool_ok_def)
qed

lemma put_step_ok:
  assumes "spool_ok maxSegment w" and "swNames w sid = Some c"
  shows "spool_ok maxSegment (w\<lparr>swUp := UpPut sid sids, swDelivered := swDelivered w @ [(sid, c)]\<rparr>)"
proof -
  let ?w = "w\<lparr>swUp := UpPut sid sids, swDelivered := swDelivered w @ [(sid, c)]\<rparr>"
  have "kept_line ?w l" if "kept_line w l" for l by (rule kept_weaken [OF that]) auto
  then have "kept_record ?w a" if "kept_record w a" for a using that unfolding kept_record_def by blast
  then show ?thesis using assms by (simp add: spool_ok_def)
qed

lemma spool_step_ok:
  assumes "spool_step maxSegment maxDisk w w'" and ok: "spool_ok maxSegment w"
  shows "spool_ok maxSegment w'"
  using assms(1)
proof cases
  case (Appended dat sid r fault)
  show ?thesis by (rule append_step_ok [OF ok Appended(2-5,1)])
next
  case (Sealed sid r fault)
  show ?thesis by (rule seal_step_ok [OF ok Sealed(2-4,1)])
next
  case (Accepted sid dat fault new r)
  show ?thesis by (rule accept_step_ok [OF ok Accepted(2,3,1)])
next
  case (ReadIt sid sids c)
  have "validSegmentID sid \<and> gm_get (swFiles w) (segmentName sid) = Some c" using ReadIt(3) by (simp add: spool_Read_def split: if_splits)
  then have "up_ok w (UpRead sid c sids)" using ok by (simp add: spool_ok_def)
  then show ?thesis unfolding ReadIt(1) by (rule up_step_ok [OF ok])
next
  case (PutIt sid c sids)
  have "swNames w sid = Some c" using ok PutIt(2) by (simp add: spool_ok_def)
  then show ?thesis unfolding PutIt(1) by (rule put_step_ok [OF ok])
next
  case (RemovedIt sid sids fault)
  show ?thesis unfolding RemovedIt(1) by (rule remove_step_ok [OF ok RemovedIt(2)])
next
  case (Restarted sid r fault)
  show ?thesis by (rule restart_step_ok [OF ok Restarted(2-4,1)])
qed (simp_all add: up_step_ok [OF ok])

lemma spool_reachable_ok: "spool_reachable maxSegment maxDisk w \<Longrightarrow> spool_ok maxSegment w"
proof (induction rule: spool_reachable.induct)
  case Empty
  then show ?case by (simp add: spool_ok_def active_content_def closed_def)
next
  case (Later w w')
  then show ?case using spool_step_ok by blast
qed

text \<open>
  C30. Nothing that was confirmed disappears unnoticed. Through failing calls of the operating system, short writes, stops and restarts
  at any point, evictions and uploads, every record that \<open>Append\<close> confirmed, and every line of a segment that \<open>Accept\<close> confirmed, ends a
  line of the active segment or of a segment that is still stored, was put into the object store with this content, or was reported as
  evicted. The record is the whole line unless it was appended behind the rest of a short write, which then precedes it in its line. The
  uploader removes only what it put.
\<close>

theorem spool_conserves:
  assumes "spool_reachable maxSegment maxDisk w" and "(whole, dat) \<in> set (swAcked w)"
  shows "\<exists>rest l. l = rest @ dat \<and> (whole \<longrightarrow> rest = '''') \<and>
    (l \<in> set (lines_of (active_content (swFiles w))) \<or>
     (\<exists>sid c. swNames w sid = Some c \<and> l \<in> set (lines_of c) \<and>
       (gm_get (swFiles w) (segmentName sid) = Some c \<or> (sid, c) \<in> set (swDelivered w) \<or> sid \<in> set (swEvicted w))))"
proof -
  have "kept_record w (whole, dat)" using spool_reachable_ok [OF assms(1)] assms(2) by (simp add: spool_ok_def)
  then obtain rest where r: "whole \<longrightarrow> rest = ''''" "kept_line w (rest @ dat)" by (auto simp: kept_record_def)
  from r(2) have "rest @ dat \<in> set (lines_of (active_content (swFiles w))) \<or>
     (\<exists>sid c. swNames w sid = Some c \<and> rest @ dat \<in> set (lines_of c) \<and>
       (gm_get (swFiles w) (segmentName sid) = Some c \<or> (sid, c) \<in> set (swDelivered w) \<or> sid \<in> set (swEvicted w)))"
    using complete_lines [of "active_content (swFiles w)"] unfolding kept_line_def sheltered_def by (metis option.inject subsetD)
  with r(1) show ?thesis by blast
qed

text \<open>
  C35. The spool stays within its disk budget: the active segment never exceeds the segment size, and when an \<open>Append\<close> or a first
  \<open>Accept\<close> returns without an error the segments and the active segment together fit the budget.
\<close>

theorem spool_bounded:
  assumes "spool_reachable maxSegment maxDisk w" and "maxSegment \<le> maxDisk" and "dat \<noteq> ''''" and "validSegmentID sid"
  shows "length (active_content (swFiles w)) \<le> maxSegment \<and>
    (rsError (spool_Append fault maxSegment maxDisk sid dat (swFiles w)) = None \<longrightarrow>
       disk_bytes (rsFiles (spool_Append fault maxSegment maxDisk sid dat (swFiles w))) \<le> maxDisk) \<and>
    (fst (Accept afault maxSegment maxDisk sid dat (swFiles w)) \<longrightarrow>
       disk_bytes (rsFiles (snd (Accept afault maxSegment maxDisk sid dat (swFiles w)))) \<le> maxDisk)"
proof (intro conjI impI)
  have ok: "spool_ok maxSegment w" by (rule spool_reachable_ok [OF assms(1)])
  then have gm: "gm_ok (swFiles w)" and len: "length (active_content (swFiles w)) \<le> maxSegment" by (auto simp: spool_ok_def)
  then show "length (active_content (swFiles w)) \<le> maxSegment" by simp
  show "disk_bytes (rsFiles (spool_Append fault maxSegment maxDisk sid dat (swFiles w))) \<le> maxDisk"
    if e: "rsError (spool_Append fault maxSegment maxDisk sid dat (swFiles w)) = None"
    using Append_moved [OF gm assms(4,3) refl, of fault maxSegment maxDisk] e len assms(2) by (auto simp: appends_def)
  show "disk_bytes (rsFiles (snd (Accept afault maxSegment maxDisk sid dat (swFiles w)))) \<le> maxDisk"
    if n: "fst (Accept afault maxSegment maxDisk sid dat (swFiles w))"
    using Accept_moved [OF gm prod.collapse [symmetric], of afault maxSegment maxDisk sid dat] n len assms(2) by (auto simp: active_size_content)
qed

text \<open>
  A write that fails part way and is followed by another record without a restart runs the two together: the second record is confirmed,
  but it is not a line of any file, and the segment holds a line that is no record.
\<close>

theorem torn_append_glues:
  assumes "record_line a" and "record_line b" and "0 < n" and "n < length a" and "length a + length b \<le> maxSegment" and "maxSegment \<le> maxDisk"
    and fs_def: "fs = rsFiles (spool_Append (Some (AppendWrite n)) maxSegment maxDisk sid a [])"
  shows "rsError (spool_Append None maxSegment maxDisk sid b fs) = None \<and>
    lines_of (active_content (rsFiles (spool_Append None maxSegment maxDisk sid b fs))) = [take n a @ b] \<and> b \<noteq> take n a @ b"
proof -
  obtain c where c: "a = c @ [LF]" "LF \<notin> set c" using assms(1) by (auto simp: record_line_def)
  obtain d where d: "b = d @ [LF]" "LF \<notin> set d" using assms(2) by (auto simp: record_line_def)
  have t: "LF \<notin> set (take n a)" using c assms(4) by (auto dest: in_set_takeD)
  have fs: "fs = [(activeSegmentName, take n a)]"
    using assms(4,5) c by (auto simp: fs_def spool_Append_def append_write_def failed_with_def active_size_def)
  have p: "pendingSegments [(activeSegmentName, x)] = []" for x by (simp add: pendingSegments_def entry_segment_def segment_id_def activeSegmentName_def)
  have e: "enforceLimitLocked None maxDisk [(activeSegmentName, x)] = (False, [], [(activeSegmentName, x)])" for x
    by (simp add: enforceLimitLocked_def p)
  have "spool_Append None maxSegment maxDisk sid b fs = append_write None maxDisk b fs"
    using d(1) assms(4,5) by (auto simp: spool_Append_def fs active_size_def)
  also have "\<dots> = \<lparr>rsError = None, rsEvicted = [], rsSealed = None, rsFiles = [(activeSegmentName, take n a @ b)]\<rparr>"
    by (simp add: append_write_def fs enforced_def e)
  finally have r: "spool_Append None maxSegment maxDisk sid b fs = \<lparr>rsError = None, rsEvicted = [], rsSealed = None, rsFiles = [(activeSegmentName, take n a @ b)]\<rparr>" .
  have "record_line (take n a @ b)" using t d by (auto simp: record_line_def)
  from record_lines [OF this] show ?thesis using r assms(3,4) by (auto simp: active_content_def)
qed


text \<open>A run: two records, the second of which fills the segment, the first segment is put and removed.\<close>

definition demo_record :: string where "demo_record = ''{}'' @ [LF]"

definition demo_spool :: spool_world where
  "demo_spool = \<lparr>swFiles = [(''.active.jsonl'', demo_record)], swNames = [''a1'' \<mapsto> '''', ''a2'' \<mapsto> demo_record],
     swAcked = [(True, demo_record), (True, demo_record)], swDelivered = [(''a2'', demo_record)], swEvicted = [], swUp = UpListed []\<rparr>"

lemma demo_ids: "validSegmentID ''a1''" "validSegmentID ''a2''"
  by (simp_all add: validSegmentID_def alnum_def Let_def)

lemma demo_append1:
  "spool_Append None 4 10 ''a1'' demo_record [] = \<lparr>rsError = None, rsEvicted = [], rsSealed = None, rsFiles = [(''.active.jsonl'', demo_record)]\<rparr>"
  by code_simp

lemma demo_append2:
  "spool_Append None 4 10 ''a2'' demo_record [(''.active.jsonl'', demo_record)] =
     \<lparr>rsError = None, rsEvicted = [], rsSealed = Some \<lparr>sgID = ''a2'', sgSize = 3\<rparr>, rsFiles = [(''a2.jsonl'', demo_record), (''.active.jsonl'', demo_record)]\<rparr>"
  by code_simp

lemma whole_demo:
  "whole_record demo_record [(''.active.jsonl'', demo_record)]"
  "whole_record demo_record [(''a2.jsonl'', demo_record), (''.active.jsonl'', demo_record)]"
  by code_simp+

lemma demo_spool_reachable: "spool_reachable 4 10 demo_spool"
proof -
  have rec: "record_line demo_record" by (auto simp: record_line_def demo_record_def)
  let ?w0 = "\<lparr>swFiles = [], swNames = Map.empty, swAcked = [], swDelivered = [], swEvicted = [], swUp = UpIdle\<rparr> :: spool_world"
  let ?w1 = "?w0\<lparr>swFiles := [(''.active.jsonl'', demo_record)], swNames := [''a1'' \<mapsto> ''''], swAcked := [(True, demo_record)]\<rparr>"
  let ?w2 = "?w1\<lparr>swFiles := [(''a2.jsonl'', demo_record), (''.active.jsonl'', demo_record)], swNames := [''a1'' \<mapsto> '''', ''a2'' \<mapsto> demo_record],
    swAcked := [(True, demo_record), (True, demo_record)]\<rparr>"
  let ?w3 = "?w2\<lparr>swUp := UpListed [''a2'']\<rparr>"
  let ?w4 = "?w2\<lparr>swUp := UpRead ''a2'' demo_record []\<rparr>"
  let ?w5 = "?w2\<lparr>swUp := UpPut ''a2'' [], swDelivered := [(''a2'', demo_record)]\<rparr>"
  have "spool_reachable 4 10 ?w0" by (rule Empty)
  moreover have "spool_step 4 10 ?w0 ?w1"
    using Appended [of demo_record "''a1''" ?w0 _ None 4 10, OF rec demo_ids(1) _ refl] by (simp add: demo_append1 after_def active_content_def whole_demo activeSegmentName_def)
  ultimately have "spool_reachable 4 10 ?w1" by (rule Later)
  moreover have "spool_step 4 10 ?w1 ?w2"
    using Appended [of demo_record "''a2''" ?w1 _ None 4 10, OF rec demo_ids(2) _ refl]
    by (simp add: demo_append2 after_def active_content_def activeSegmentName_def whole_demo)
  ultimately have "spool_reachable 4 10 ?w2" by (rule Later)
  moreover have "map sgID (pendingSegments [(''a2.jsonl'', demo_record), (''.active.jsonl'', demo_record)]) = [''a2'']" by code_simp
  then have "spool_step 4 10 ?w2 ?w3" using Listed [of ?w2 4 10] by simp
  ultimately have "spool_reachable 4 10 ?w3" by (rule Later)
  moreover have "spool_step 4 10 ?w3 ?w4" using ReadIt [of ?w3 "''a2''" "[]" demo_record 4 10] demo_ids by (simp add: spool_Read_def segmentName_def)
  ultimately have "spool_reachable 4 10 ?w4" by (rule Later)
  moreover have "spool_step 4 10 ?w4 ?w5" using PutIt [of ?w4 "''a2''" demo_record "[]" 4 10] by simp
  ultimately have "spool_reachable 4 10 ?w5" by (rule Later)
  moreover have "spool_step 4 10 ?w5 demo_spool"
    using RemovedIt [of ?w5 "''a2''" "[]" 4 10 None] demo_ids by (simp add: spool_Remove_def segmentName_def demo_spool_def)
  ultimately show ?thesis by (rule Later)
qed

theorem spool_conserves_witness:
  "(True, demo_record) \<in> set (swAcked demo_spool) \<and>
   (demo_record \<in> set (lines_of (active_content (swFiles demo_spool))) \<or>
    (\<exists>sid c. swNames demo_spool sid = Some c \<and> demo_record \<in> set (lines_of c) \<and>
       (gm_get (swFiles demo_spool) (segmentName sid) = Some c \<or> (sid, c) \<in> set (swDelivered demo_spool) \<or> sid \<in> set (swEvicted demo_spool))))"
proof -
  have m: "(True, demo_record) \<in> set (swAcked demo_spool)" by (simp add: demo_spool_def)
  from spool_conserves [OF demo_spool_reachable m] m show ?thesis by (metis append_Nil)
qed

theorem spool_bounded_witness:
  "length (active_content (swFiles demo_spool)) \<le> 4 \<and>
   disk_bytes (rsFiles (spool_Append None 4 10 ''a1'' demo_record (swFiles demo_spool))) \<le> 10"
proof -
  have e: "rsError (spool_Append None 4 10 ''a1'' demo_record (swFiles demo_spool)) = None" by code_simp
  have "demo_record \<noteq> ''''" by (simp add: demo_record_def)
  from spool_bounded [OF demo_spool_reachable _ this demo_ids(1), of None] e show ?thesis by simp
qed

end
