(* ===== verification/Telemetry_Upload.thy ===== *)
theory Telemetry_Upload
  imports Telemetry_Spool
begin

text \<open>
  Delivery of spooled segments over HTTPS (\<open>http_batches.go\<close>, \<open>http_forwarder.go\<close>): cutting a segment into requests, judging the
  answer to a request, and one pass over the pending segments. The encodings of \<open>encoding/json\<close> and the answers of the collector are
  parameters.
\<close>

declare map_of_eq_Some_iff [simp del] Some_eq_map_of_iff [simp del]

section \<open>Batches\<close>

abbreviation bridgeMaxRequestBytes :: nat where "bridgeMaxRequestBytes \<equiv> 1048576"
abbreviation bridgeMaxEvents :: nat where "bridgeMaxEvents \<equiv> 1000"
abbreviation bridgeFragmentBytes :: nat where "bridgeFragmentBytes \<equiv> 196608"

text \<open>
  The pieces \<open>fragmentBridgeEvent\<close> cuts an event into, by its index and the number of pieces; \<open>fragment raw i count data\<close> is the
  encoded fragment that carries \<open>data\<close>, \<open>None\<close> when it cannot be encoded.
\<close>

definition fragment_count :: "string \<Rightarrow> nat" where
  "fragment_count raw = (length raw + bridgeFragmentBytes - 1) div bridgeFragmentBytes"

definition fragment_data :: "string \<Rightarrow> nat \<Rightarrow> string" where
  "fragment_data raw i = take (min ((i + 1) * bridgeFragmentBytes) (length raw) - i * bridgeFragmentBytes) (drop (i * bridgeFragmentBytes) raw)"

fun all_some :: "'a option list \<Rightarrow> 'a list option" where
  "all_some [] = Some []"
| "all_some (x # xs) = (case x of None \<Rightarrow> None | Some y \<Rightarrow> map_option (Cons y) (all_some xs))"

definition fragmentBridgeEvent :: "(string \<Rightarrow> nat \<Rightarrow> nat \<Rightarrow> string \<Rightarrow> string option) \<Rightarrow> string \<Rightarrow> string list option" where
  "fragmentBridgeEvent fragment raw =
     all_some (map (\<lambda>i. fragment raw i (fragment_count raw) (fragment_data raw i)) [0..<fragment_count raw])"

fun wire_events :: "(string \<Rightarrow> nat \<Rightarrow> nat \<Rightarrow> string \<Rightarrow> string option) \<Rightarrow> string list \<Rightarrow> string list option" where
  "wire_events fragment [] = Some []"
| "wire_events fragment (raw # raws) =
     (if length raw < bridgeMaxRequestBytes - 4096 then map_option (Cons raw) (wire_events fragment raws)
      else case fragmentBridgeEvent fragment raw of
             None \<Rightarrow> None
           | Some fs \<Rightarrow> map_option (append fs) (wire_events fragment raws))"

text \<open>
  The loop over the events. \<open>encode\<close> gives the request with these events, \<open>None\<close> when it cannot be encoded; \<open>Inl\<close> is the error of
  \<open>flush\<close>. The state is the running size and the events of the current request.
\<close>

record bridgeBatch =
  batchID :: string
  batchBody :: string

datatype batch_error = BatchTooLarge | BatchEncoding

definition flush_batch :: "(string list \<Rightarrow> bridgeBatch option) \<Rightarrow> string list \<Rightarrow> batch_error + bridgeBatch list" where
  "flush_batch encode cur =
     (if cur = [] then Inr []
      else case encode cur of
             None \<Rightarrow> Inl BatchEncoding
           | Some b \<Rightarrow> if bridgeMaxRequestBytes < length (batchBody b) then Inl BatchTooLarge else Inr [b])"

fun pack_loop :: "(string list \<Rightarrow> bridgeBatch option) \<Rightarrow> nat \<Rightarrow> nat \<Rightarrow> string list \<Rightarrow> string list \<Rightarrow> batch_error + bridgeBatch list" where
  "pack_loop encode overhead used cur [] = flush_batch encode cur"
| "pack_loop encode overhead used cur (raw # raws) =
     (let extra = (if cur = [] then length raw else length raw + 1)
      in if length cur = bridgeMaxEvents \<or> bridgeMaxRequestBytes < used + extra
         then (case flush_batch encode cur of
                 Inl e \<Rightarrow> Inl e
               | Inr bs \<Rightarrow> map_sum id (append bs) (pack_loop encode overhead ((if cur = [] then used else overhead) + length raw) [raw] raws))
         else pack_loop encode overhead (used + extra) (cur @ [raw]) raws)"

definition bridgeBatches ::
  "(string \<Rightarrow> nat \<Rightarrow> nat \<Rightarrow> string \<Rightarrow> string option) \<Rightarrow> (string list \<Rightarrow> bridgeBatch option) \<Rightarrow> string list \<Rightarrow> batch_error + bridgeBatch list" where
  "bridgeBatches fragment encode raws =
     (case wire_events fragment raws of
        None \<Rightarrow> Inl BatchEncoding
      | Some events \<Rightarrow>
          (case encode [] of
             None \<Rightarrow> Inl BatchEncoding
           | Some e \<Rightarrow> pack_loop encode (length (batchBody e)) (length (batchBody e)) [] events))"

section \<open>One pass\<close>

record receipt =
  rcSegmentID :: string
  rcStatus :: string
  rcStorage :: string
  rcObjectKey :: string

datatype http_result = TransportError | Response int "receipt option"

datatype batch_outcome = BatchAccepted | BatchRejected | BatchFailed

definition uploadBatch :: "http_result \<Rightarrow> string \<Rightarrow> batch_outcome" where
  "uploadBatch res bid =
     (case res of
        TransportError \<Rightarrow> BatchFailed
      | Response status body \<Rightarrow>
          if status < 200 \<or> 300 \<le> status
          then (if 400 \<le> status \<and> status < 500 \<and> status \<notin> {401, 403, 408, 429} then BatchRejected else BatchFailed)
          else (case body of
                  None \<Rightarrow> BatchFailed
                | Some r \<Rightarrow>
                    if rcSegmentID r \<noteq> bid \<or> rcStatus r \<noteq> ''accepted'' \<and> rcStatus r \<noteq> ''already_accepted'' \<or> rcStorage r \<noteq> ''s3'' \<or> rcObjectKey r = ''''
                    then BatchFailed else BatchAccepted))"

text \<open>The loop over the batches of a segment: whether all were accepted, and whether the pass stops.\<close>

fun send_batches :: "(string \<Rightarrow> http_result) \<Rightarrow> bool \<Rightarrow> bridgeBatch list \<Rightarrow> bool \<times> bool" where
  "send_batches net accepted [] = (accepted, False)"
| "send_batches net accepted (b # bs) =
     (case uploadBatch (net (batchID b)) (batchID b) of
        BatchAccepted \<Rightarrow> send_batches net accepted bs
      | BatchRejected \<Rightarrow> send_batches net False bs
      | BatchFailed \<Rightarrow> (False, True))"

text \<open>
  What a pass meets: the answers to the batches, the segments before which the caller's context ended, how a segment is cut into
  batches, and the removals that fail.
\<close>

record upload_env =
  ueNet :: "string \<Rightarrow> http_result"
  ueCancelled :: "string \<Rightarrow> bool"
  ueBatches :: "string \<Rightarrow> string \<Rightarrow> batch_error + bridgeBatch list"
  ueRemove :: "string \<Rightarrow> remove_fault option"

text \<open>The loop of \<open>upload\<close> over the pending segments: whether an error is reported, and the directory.\<close>

fun upload_loop :: "upload_env \<Rightarrow> string list \<Rightarrow> spool_files \<Rightarrow> bool \<times> spool_files" where
  "upload_loop env [] fs = (False, fs)"
| "upload_loop env (sid # sids) fs =
     (if ueCancelled env sid then (True, fs)
      else case spool_Read sid fs of
             None \<Rightarrow> (True, snd (upload_loop env sids fs))
           | Some dat \<Rightarrow>
               (case ueBatches env sid dat of
                  Inl e \<Rightarrow> (True, snd (upload_loop env sids fs))
                | Inr batches \<Rightarrow>
                    (case send_batches (ueNet env) True batches of
                       (accepted, stop) \<Rightarrow>
                         if stop then (True, fs)
                         else if accepted
                         then (case spool_Remove (ueRemove env sid) sid fs of (err, fs1) \<Rightarrow>
                                 (case upload_loop env sids fs1 of (e, fs') \<Rightarrow> (e \<or> err \<noteq> None, fs')))
                         else (True, snd (upload_loop env sids fs)))))"

definition http_upload :: "upload_env \<Rightarrow> seal_fault option \<Rightarrow> nat \<Rightarrow> string \<Rightarrow> spool_files \<Rightarrow> bool \<times> spool_files" where
  "http_upload env fault maxDisk sid fs =
     (let r = Seal fault maxDisk sid fs
      in if rsError r \<noteq> None then (True, rsFiles r)
         else upload_loop env (map sgID (pendingSegments (rsFiles r))) (rsFiles r))"

text \<open>The schedule of the worker: the next delay and the backoff after a pass.\<close>

abbreviation httpForwarderMaxBackoff :: int where "httpForwarderMaxBackoff \<equiv> 30000000000"

definition forwarder_delay :: "int \<Rightarrow> int \<Rightarrow> bool \<Rightarrow> int \<Rightarrow> int \<times> int" where
  "forwarder_delay flushInterval retryInterval failed backoff =
     (if failed then (backoff, min (backoff * 2) httpForwarderMaxBackoff) else (flushInterval, retryInterval))"

section \<open>Fragments carry the whole event\<close>

lemma fragment_data_slice: "fragment_data raw i = take bridgeFragmentBytes (drop (i * bridgeFragmentBytes) raw)"
  unfolding fragment_data_def by (simp add: min_def algebra_simps)

lemma slices_concat: "0 < k \<Longrightarrow> length xs \<le> n * k \<Longrightarrow> concat (map (\<lambda>i. take k (drop (i * k) xs)) [0..<n]) = xs"
proof (induction n arbitrary: xs)
  case (Suc n)
  have "concat (map (\<lambda>i. take k (drop (i * k) xs)) [0..<Suc n]) = take k xs @ concat (map (\<lambda>i. take k (drop (i * k) (drop k xs))) [0..<n])"
    by (simp add: upt_conv_Cons map_Suc_upt [symmetric] comp_def add.commute del: upt_Suc)
  also have "concat (map (\<lambda>i. take k (drop (i * k) (drop k xs))) [0..<n]) = drop k xs" using Suc by (intro Suc.IH) auto
  finally show ?case by simp
qed simp

text \<open>
  An event that is too large for one request is cut into pieces of at most 192 KiB that put together in the order of their index
  are the event.
\<close>

theorem fragments_reassemble:
  "concat (map (fragment_data raw) [0..<fragment_count raw]) = raw \<and> (\<forall>i. length (fragment_data raw i) \<le> bridgeFragmentBytes)"
proof
  have "length raw \<le> fragment_count raw * bridgeFragmentBytes" unfolding fragment_count_def by simp
  then show "concat (map (fragment_data raw) [0..<fragment_count raw]) = raw"
    using slices_concat [of bridgeFragmentBytes raw "fragment_count raw"] by (simp add: fragment_data_slice [abs_def])
qed (simp add: fragment_data_slice)

section \<open>Requests stay within their limits\<close>

definition encode_lawful :: "(string list \<Rightarrow> bridgeBatch option) \<Rightarrow> nat \<Rightarrow> bool" where
  "encode_lawful encode overhead \<longleftrightarrow>
     (\<forall>es. \<exists>b. encode es = Some b \<and> length (batchBody b) = overhead + sum_list (map length es) + (length es - 1))"

lemma pack_loop_packs:
  assumes law: "encode_lawful encode overhead" and fit: "\<forall>raw \<in> set raws. overhead + length raw \<le> bridgeMaxRequestBytes"
    and used: "used = overhead + sum_list (map length cur) + (length cur - 1)" "used \<le> bridgeMaxRequestBytes" "length cur \<le> bridgeMaxEvents"
  shows "\<exists>groups. pack_loop encode overhead used cur raws = Inr (map (\<lambda>g. the (encode g)) groups) \<and> concat groups = cur @ raws \<and>
    (\<forall>g \<in> set groups. g \<noteq> [] \<and> length g \<le> bridgeMaxEvents \<and> length (batchBody (the (encode g))) \<le> bridgeMaxRequestBytes)"
  using fit used
proof (induction raws arbitrary: used cur)
  case Nil
  obtain b where b: "encode cur = Some b" "length (batchBody b) = used" using law Nil.prems(2) by (auto simp: encode_lawful_def)
  show ?case
  proof (cases "cur = []")
    case True
    then show ?thesis by (intro exI [of _ "[]"]) (simp add: flush_batch_def)
  next
    case False
    then show ?thesis using b Nil.prems by (intro exI [of _ "[cur]"]) (simp add: flush_batch_def)
  qed
next
  case (Cons raw raws)
  define extra where "extra = (if cur = [] then length raw else length raw + 1)"
  show ?case
  proof (cases "length cur = bridgeMaxEvents \<or> bridgeMaxRequestBytes < used + extra")
    case False
    have "used + extra = overhead + sum_list (map length (cur @ [raw])) + (length (cur @ [raw]) - 1)" using Cons.prems(2) by (cases cur) (auto simp: extra_def)
    with Cons.IH [of "used + extra" "cur @ [raw]"] Cons.prems False show ?thesis by (simp add: Let_def extra_def)
  next
    case True
    have ne: "cur \<noteq> []" using True Cons.prems by (auto simp: extra_def)
    obtain b where b: "encode cur = Some b" "length (batchBody b) = used" using law Cons.prems(2) by (auto simp: encode_lawful_def)
    have f: "flush_batch encode cur = Inr [b]" using ne b Cons.prems(3) by (simp add: flush_batch_def)
    from Cons.IH [of "overhead + length raw" "[raw]"] Cons.prems obtain groups where g:
        "pack_loop encode overhead (overhead + length raw) [raw] raws = Inr (map (\<lambda>g. the (encode g)) groups)" "concat groups = raw # raws"
        "\<forall>g \<in> set groups. g \<noteq> [] \<and> length g \<le> bridgeMaxEvents \<and> length (batchBody (the (encode g))) \<le> bridgeMaxRequestBytes" by auto
    have "pack_loop encode overhead used cur (raw # raws) = Inr (map (\<lambda>g. the (encode g)) (cur # groups))"
      using True f ne g(1) b(1) by (simp add: Let_def extra_def)
    moreover have "concat (cur # groups) = cur @ raw # raws" using g(2) by simp
    ultimately show ?thesis using g(3) ne b Cons.prems(3,4) by (intro exI [of _ "cur # groups"]) auto
  qed
qed

text \<open>
  When the events of a segment fit a request one by one, cutting it into requests succeeds; the requests carry the events
  completely and in order, none is empty, and each has at most 1000 events and at most 1 MiB.
\<close>

theorem batches_within_limits:
  assumes "encode_lawful encode overhead" and "wire_events fragment raws = Some events" and "\<forall>e \<in> set events. overhead + length e \<le> bridgeMaxRequestBytes"
    and "overhead \<le> bridgeMaxRequestBytes"
  shows "\<exists>groups. bridgeBatches fragment encode raws = Inr (map (\<lambda>g. the (encode g)) groups) \<and> concat groups = events \<and>
    (\<forall>g \<in> set groups. g \<noteq> [] \<and> length g \<le> bridgeMaxEvents \<and> length (batchBody (the (encode g))) \<le> bridgeMaxRequestBytes)"
proof -
  obtain e where e: "encode [] = Some e" "length (batchBody e) = overhead" using assms(1) by (force simp: encode_lawful_def)
  from pack_loop_packs [OF assms(1,3), of overhead "[]"] assms(4) show ?thesis using assms(2) e by (simp add: bridgeBatches_def)
qed


definition plain_encode :: "string list \<Rightarrow> bridgeBatch option" where
  "plain_encode es = Some \<lparr>batchID = ''batch'', batchBody = ''{}'' @ concat es @ replicate (length es - 1) CHR '',''\<rparr>"

theorem batches_within_limits_witness:
  "encode_lawful plain_encode 2 \<and>
   (\<exists>groups. bridgeBatches (\<lambda>_ _ _ _. None) plain_encode [''a'', ''bc''] = Inr (map (\<lambda>g. the (plain_encode g)) groups) \<and> concat groups = [''a'', ''bc''])"
proof -
  have law: "encode_lawful plain_encode 2" by (simp add: encode_lawful_def plain_encode_def length_concat)
  have w: "wire_events (\<lambda>_ _ _ _. None) [''a'', ''bc''] = Some [''a'', ''bc'']" by simp
  from batches_within_limits [OF law w] law show ?thesis by auto
qed

section \<open>Only acknowledged segments are removed\<close>

lemma send_accepted: "send_batches net a bs = (True, stop) \<Longrightarrow> a \<and> (\<forall>b \<in> set bs. uploadBatch (net (batchID b)) (batchID b) = BatchAccepted)"
  by (induction net a bs rule: send_batches.induct) (auto split: batch_outcome.splits)

lemma send_no_failure:
  "\<forall>b \<in> set bs. uploadBatch (net (batchID b)) (batchID b) \<noteq> BatchFailed \<Longrightarrow>
   send_batches net a bs = (a \<and> (\<forall>b \<in> set bs. uploadBatch (net (batchID b)) (batchID b) = BatchAccepted), False)"
  by (induction net a bs rule: send_batches.induct) (auto split: batch_outcome.splits)

lemma remove_get:
  "gm_get (snd (spool_Remove fault sid fs)) name = (if validSegmentID sid \<and> fault \<noteq> Some RemoveFile \<and> name = segmentName sid then None else gm_get fs name)"
  by (auto simp: remove_files gomap_simps)

lemma upload_loop_cases:
  "snd (upload_loop env (s # ss) fs) \<in> {fs, snd (upload_loop env ss fs), snd (upload_loop env ss (snd (spool_Remove (ueRemove env s) s fs)))}"
  by (auto split: option.splits sum.splits prod.splits)

lemma upload_loop_gone: "gm_get fs name = None \<Longrightarrow> gm_get (snd (upload_loop env sids fs)) name = None"
proof (induction sids arbitrary: fs)
  case (Cons s ss)
  have "gm_get (snd (spool_Remove f s fs)) name = None" for f using Cons.prems by (simp add: remove_get)
  then show ?case using upload_loop_cases [of env s ss fs] Cons by fastforce
qed simp

lemma upload_loop_removes:
  assumes "gm_get fs name = Some c" and "gm_get (snd (upload_loop env sids fs)) name \<noteq> Some c"
  shows "\<exists>sid bs. sid \<in> set sids \<and> name = segmentName sid \<and> gm_get (snd (upload_loop env sids fs)) name = None \<and> ueBatches env sid c = Inr bs \<and>
    (\<forall>b \<in> set bs. uploadBatch (ueNet env (batchID b)) (batchID b) = BatchAccepted)"
  using assms
proof (induction sids arbitrary: fs)
  case (Cons sid sids)
  show ?case
  proof (cases "ueCancelled env sid")
    case True
    then show ?thesis using Cons.prems by simp
  next
    case False
    show ?thesis
    proof (cases "snd (upload_loop env (sid # sids) fs) = snd (upload_loop env sids fs)")
      case True
      with Cons.IH [of fs] Cons.prems show ?thesis by auto
    next
      case other: False
      obtain dat bs where d: "spool_Read sid fs = Some dat" "ueBatches env sid dat = Inr bs"
        using False other by (auto split: option.splits sum.splits)
      show ?thesis
      proof (cases "fst (send_batches (ueNet env) True bs) \<and> \<not> snd (send_batches (ueNet env) True bs)")
        case False
        then have "snd (upload_loop env (sid # sids) fs) = fs \<or> snd (upload_loop env (sid # sids) fs) = snd (upload_loop env sids fs)"
          using \<open>\<not> ueCancelled env sid\<close> d by (auto split: prod.splits)
        then show ?thesis using other Cons.prems by auto
      next
        case acc: True
        let ?fs = "snd (spool_Remove (ueRemove env sid) sid fs)"
        have step: "snd (upload_loop env (sid # sids) fs) = snd (upload_loop env sids ?fs)"
          using False d acc by (auto split: prod.splits)
        have all: "\<forall>b \<in> set bs. uploadBatch (ueNet env (batchID b)) (batchID b) = BatchAccepted"
          using send_accepted [of "ueNet env" True bs] acc by (cases "send_batches (ueNet env) True bs") auto
        show ?thesis
        proof (cases "gm_get ?fs name = Some c")
          case True
          with Cons.IH [of ?fs] Cons.prems step show ?thesis by auto
        next
          case False
          then have n: "name = segmentName sid" "gm_get ?fs name = None" using Cons.prems(1) by (auto simp: remove_get split: if_splits)
          moreover have "dat = c" using d(1) n(1) Cons.prems(1) by (simp add: spool_Read_def split: if_splits)
          ultimately show ?thesis using d(2) all upload_loop_gone [OF n(2)] step by auto
        qed
      qed
    qed
  qed
qed simp

text \<open>
  C31. A pass over the spool takes a segment away only when it was cut into requests and every single request was answered with a
  matching receipt of the object store; everything else stays for the next pass.
\<close>

theorem upload_removes_acknowledged:
  assumes "gm_get fs (segmentName sid) = Some c" and "gm_get (snd (upload_loop env sids fs)) (segmentName sid) \<noteq> Some c"
  shows "\<exists>bs. ueBatches env sid c = Inr bs \<and>
    (\<forall>b \<in> set bs. \<exists>status r. ueNet env (batchID b) = Response status (Some r) \<and> 200 \<le> status \<and> status < 300 \<and> rcSegmentID r = batchID b \<and>
       rcStorage r = ''s3'' \<and> rcObjectKey r \<noteq> '''' \<and> rcStatus r \<in> {''accepted'', ''already_accepted''})"
proof -
  obtain sid' bs where b: "segmentName sid = segmentName sid'" "ueBatches env sid' c = Inr bs"
      "\<forall>b \<in> set bs. uploadBatch (ueNet env (batchID b)) (batchID b) = BatchAccepted"
    using upload_loop_removes [OF assms] by blast
  have "\<exists>status r. ueNet env (batchID b) = Response status (Some r) \<and> 200 \<le> status \<and> status < 300 \<and> rcSegmentID r = batchID b \<and>
      rcStorage r = ''s3'' \<and> rcObjectKey r \<noteq> '''' \<and> rcStatus r \<in> {''accepted'', ''already_accepted''}"
    if "uploadBatch (ueNet env (batchID b)) (batchID b) = BatchAccepted" for b
    using that by (auto simp: uploadBatch_def split: http_result.splits if_splits option.splits)
  then show ?thesis using b by auto
qed

text \<open>
  C36. A segment whose data the collector rejects does not hold up the others: as long as no request fails for another reason,
  every pending segment whose requests are accepted is gone after the pass.
\<close>

theorem rejection_does_not_block:
  assumes "distinct sids" and "\<forall>s \<in> set sids. validSegmentID s \<and> \<not> ueCancelled env s \<and> ueRemove env s \<noteq> Some RemoveFile"
    and "\<forall>s \<in> set sids. \<forall>c bs. gm_get fs (segmentName s) = Some c \<longrightarrow> ueBatches env s c = Inr bs \<longrightarrow>
      (\<forall>b \<in> set bs. uploadBatch (ueNet env (batchID b)) (batchID b) \<noteq> BatchFailed)"
    and "sid \<in> set sids" and "gm_get fs (segmentName sid) = Some c" and "ueBatches env sid c = Inr bs"
    and "\<forall>b \<in> set bs. uploadBatch (ueNet env (batchID b)) (batchID b) = BatchAccepted"
  shows "gm_get (snd (upload_loop env sids fs)) (segmentName sid) = None"
  using assms
proof (induction sids arbitrary: fs)
  case (Cons s ss)
  have v: "validSegmentID s" "\<not> ueCancelled env s" "ueRemove env s \<noteq> Some RemoveFile" using Cons.prems(2) by auto
  have rest: "gm_get (snd (upload_loop env ss fs')) (segmentName sid) = None"
    if "s \<noteq> sid" and same: "\<And>n. n \<noteq> segmentName s \<Longrightarrow> gm_get fs' n = gm_get fs n" for fs'
  proof (rule Cons.IH)
    have "segmentName x \<noteq> segmentName s" if "x \<in> set ss" for x using that Cons.prems(1) by auto
    then show "\<forall>x \<in> set ss. \<forall>c bs. gm_get fs' (segmentName x) = Some c \<longrightarrow> ueBatches env x c = Inr bs \<longrightarrow>
        (\<forall>b \<in> set bs. uploadBatch (ueNet env (batchID b)) (batchID b) \<noteq> BatchFailed)" using Cons.prems(3) same by simp
    show "gm_get fs' (segmentName sid) = Some c" using same [of "segmentName sid"] \<open>s \<noteq> sid\<close> Cons.prems(5) by simp
  qed (use Cons.prems \<open>s \<noteq> sid\<close> in auto)
  show ?case
  proof (cases "s = sid")
    case True
    have "send_batches (ueNet env) True bs = (True, False)" using send_no_failure [of bs "ueNet env" True] Cons.prems(7) by auto
    then have "snd (upload_loop env (s # ss) fs) = snd (upload_loop env ss (snd (spool_Remove (ueRemove env s) s fs)))"
      using True v Cons.prems(5,6) by (auto simp: spool_Read_def split: prod.splits)
    moreover have "gm_get (snd (spool_Remove (ueRemove env s) s fs)) (segmentName sid) = None" using True v by (simp add: remove_get)
    ultimately show ?thesis using upload_loop_gone by simp
  next
    case False
    have "snd (upload_loop env (s # ss) fs) = snd (upload_loop env ss fs) \<or> snd (upload_loop env (s # ss) fs) = snd (upload_loop env ss (snd (spool_Remove (ueRemove env s) s fs)))"
    proof (cases "gm_get fs (segmentName s)")
      case None
      then show ?thesis using v by (simp add: spool_Read_def)
    next
      case (Some d)
      have "\<not> snd (send_batches (ueNet env) True bs')" if "ueBatches env s d = Inr bs'" for bs'
        using send_no_failure [of bs' "ueNet env" True] Cons.prems(3) Some that by auto
      then show ?thesis using v Some by (auto simp: spool_Read_def split: prod.splits sum.splits)
    qed
    then show ?thesis using rest [of fs] rest [of "snd (spool_Remove (ueRemove env s) s fs)"] False by (auto simp: remove_get)
  qed
qed simp


text \<open>Two segments; the collector rejects the first one.\<close>

definition demo_env :: upload_env where
  "demo_env = \<lparr>ueNet = (\<lambda>b. if b = ''a'' then Response 400 None
       else Response 200 (Some \<lparr>rcSegmentID = b, rcStatus = ''accepted'', rcStorage = ''s3'', rcObjectKey = ''k''\<rparr>)),
     ueCancelled = (\<lambda>_. False), ueBatches = (\<lambda>sid c. Inr [\<lparr>batchID = sid, batchBody = c\<rparr>]), ueRemove = (\<lambda>_. Some RemoveSync)\<rparr>"

definition demo_segments :: spool_files where
  "demo_segments = [(''a.jsonl'', ''x''), (''b.jsonl'', ''y'')]"

lemma demo_outcomes:
  "uploadBatch (ueNet demo_env ''a'') ''a'' = BatchRejected" "uploadBatch (ueNet demo_env ''b'') ''b'' = BatchAccepted"
  "gm_get demo_segments (segmentName ''a'') = Some ''x''" "gm_get demo_segments (segmentName ''b'') = Some ''y''"
  "validSegmentID ''a''" "validSegmentID ''b''"
  by (simp_all add: uploadBatch_def demo_env_def demo_segments_def segmentName_def validSegmentID_def alnum_def Let_def)

theorem rejection_does_not_block_witness:
  "gm_get (snd (upload_loop demo_env [''a'', ''b''] demo_segments)) (segmentName ''b'') = None"
proof (rule rejection_does_not_block)
  show "\<forall>s \<in> set [''a'', ''b'']. validSegmentID s \<and> \<not> ueCancelled demo_env s \<and> ueRemove demo_env s \<noteq> Some RemoveFile"
    using demo_outcomes by (simp add: demo_env_def)
  show "\<forall>s \<in> set [''a'', ''b'']. \<forall>c bs. gm_get demo_segments (segmentName s) = Some c \<longrightarrow> ueBatches demo_env s c = Inr bs \<longrightarrow>
      (\<forall>b \<in> set bs. uploadBatch (ueNet demo_env (batchID b)) (batchID b) \<noteq> BatchFailed)"
  proof (intro ballI allI impI)
    fix s c bs b
    assume "s \<in> set [''a'', ''b'']" "ueBatches demo_env s c = Inr bs" "b \<in> set bs"
    then have "batchID b = ''a'' \<or> batchID b = ''b''" by (auto simp: demo_env_def)
    then show "uploadBatch (ueNet demo_env (batchID b)) (batchID b) \<noteq> BatchFailed" using demo_outcomes(1,2) by auto
  qed
  show "ueBatches demo_env ''b'' ''y'' = Inr [\<lparr>batchID = ''b'', batchBody = ''y''\<rparr>]" by (simp add: demo_env_def)
qed (use demo_outcomes in auto)

theorem upload_removes_acknowledged_witness:
  "\<exists>bs. ueBatches demo_env ''b'' ''y'' = Inr bs \<and> (\<forall>b \<in> set bs. \<exists>status r. ueNet demo_env (batchID b) = Response status (Some r) \<and> rcSegmentID r = batchID b)"
proof -
  have "gm_get (snd (upload_loop demo_env [''a'', ''b''] demo_segments)) (segmentName ''b'') \<noteq> Some ''y''" by code_simp
  from upload_removes_acknowledged [OF demo_outcomes(4) this] show ?thesis by blast
qed

end
