(* ===== verification/Go_Text.thy ===== *)
theory Go_Text
  imports Telemetry_Framing
begin

text \<open>
  More of Go's \<open>strings\<close> and \<open>unicode\<close>: conversion between strings and runes, \<open>strings.Fields\<close>, and cutting a string after a number of
  runes.
\<close>

section \<open>Runes and strings\<close>

text \<open>The UTF-8 encoding of a code point; a surrogate or a number beyond the last code point is encoded as U+FFFD.\<close>

definition scalar :: "nat \<Rightarrow> bool" where
  "scalar r \<longleftrightarrow> r < 55296 \<or> 57343 < r \<and> r \<le> 1114111"

definition encode_scalar :: "nat \<Rightarrow> nat list" where
  "encode_scalar r =
     (if r < 128 then [r]
      else if r < 2048 then [192 + r div 64, 128 + r mod 64]
      else if r < 65536 then [224 + r div 4096, 128 + (r div 64) mod 64, 128 + r mod 64]
      else [240 + r div 262144, 128 + (r div 4096) mod 64, 128 + (r div 64) mod 64, 128 + r mod 64])"

definition encode_rune :: "nat \<Rightarrow> nat list" where
  "encode_rune r = encode_scalar (if scalar r then r else rune_error)"

definition string_of_runes :: "nat list \<Rightarrow> string" where
  "string_of_runes rs = map char_of (concat (map encode_rune rs))"

definition truncate_runes :: "string \<Rightarrow> nat \<Rightarrow> string" where
  "truncate_runes s n = (if length (runes (codes s)) \<le> n then s else string_of_runes (take n (runes (codes s))))"

text \<open>\<open>unicode.IsControl\<close>.\<close>

definition is_control :: "nat \<Rightarrow> bool" where
  "is_control r \<longleftrightarrow> r < 32 \<or> 127 \<le> r \<and> r \<le> 159"

section \<open>Fields\<close>

lemma rune_width_pos: "s \<noteq> [] \<Longrightarrow> 0 < fst (snd (decode_rune (codes s)))"
  using decode_codes_pos [of s] by (cases "decode_rune (codes s)") auto

function fields_loop :: "string \<Rightarrow> string \<Rightarrow> string list" where
  "fields_loop cur s =
     (if s = '''' then (if cur = '''' then [] else [cur])
      else
        let w = fst (snd (decode_rune (codes s)))
        in if is_space (fst (decode_rune (codes s)))
           then (if cur = '''' then fields_loop '''' (drop w s) else cur # fields_loop '''' (drop w s))
           else fields_loop (cur @ take w s) (drop w s))"
  by pat_completeness auto
termination
  by (relation "measure (\<lambda>(cur, s). length s)") (auto dest: rune_width_pos intro!: diff_less)

declare fields_loop.simps [simp del]

definition Fields :: "string \<Rightarrow> string list" where
  "Fields s = fields_loop '''' s"

fun join_space :: "string list \<Rightarrow> string" where
  "join_space [] = ''''"
| "join_space [w] = w"
| "join_space (w # ws) = w @ '' '' @ join_space ws"

section \<open>Decoding what was encoded\<close>

lemma three_digits: "(r :: nat) = r div 4096 * 4096 + r div 64 mod 64 * 64 + r mod 64"
proof -
  have q: "r div 4096 = r div 64 div 64" using div_mult2_eq [of r 64 64] by simp
  have "r = r div 64 * 64 + r mod 64" "r div 64 = r div 64 div 64 * 64 + r div 64 mod 64" by (rule div_mult_mod_eq [symmetric])+
  then show ?thesis unfolding q by linarith
qed

lemma four_digits: "(r :: nat) = r div 262144 * 262144 + r div 4096 mod 64 * 4096 + r div 64 mod 64 * 64 + r mod 64"
proof -
  have q: "r div 262144 = r div 4096 div 64" using div_mult2_eq [of r 4096 64] by simp
  have "r div 4096 = r div 4096 div 64 * 64 + r div 4096 mod 64" by (rule div_mult_mod_eq [symmetric])
  then show ?thesis using three_digits [of r] unfolding q by linarith
qed

lemma decode_encode:
  assumes "scalar r"
  shows "decode_rune (encode_scalar r @ s) = (r, length (encode_scalar r), True)"
proof -
  consider "r < 128" | "128 \<le> r" "r < 2048" | "2048 \<le> r" "r < 65536" | "65536 \<le> r" "r \<le> 1114111" using assms by (fastforce simp: scalar_def)
  then show ?thesis
  proof cases
    case 1
    then show ?thesis by (simp add: encode_scalar_def decode_rune_def)
  next
    case 2
    define q m where "q = r div 64" and "m = r mod 64"
    have r: "r = q * 64 + m" "m < 64" by (simp_all add: q_def m_def)
    have q: "2 \<le> q" "q < 32" using 2 r by auto
    have "encode_scalar r = [192 + q, 128 + m]" using 2 by (simp add: encode_scalar_def q_def m_def)
    then show ?thesis using q r by (simp add: decode_rune_def cont_byte_def second_lo_def second_hi_def)
  next
    case 3
    define a b c where "a = r div 4096" and "b = (r div 64) mod 64" and "c = r mod 64"
    have r: "r = a * 4096 + b * 64 + c" "b < 64" "c < 64" unfolding a_def b_def c_def by (rule three_digits) simp_all
    have e: "encode_scalar r = [224 + a, 128 + b, 128 + c]" using 3 by (simp add: encode_scalar_def a_def b_def c_def)
    have a: "a < 16" "a = 0 \<longrightarrow> 32 \<le> b" using 3 r by auto
    have s: "a = 13 \<longrightarrow> b < 32" using assms 3 r by (auto simp: scalar_def)
    show ?thesis using a s r(2,3) unfolding e by (auto simp: decode_rune_def cont_byte_def second_lo_def second_hi_def r(1))
  next
    case 4
    define a b c d where "a = r div 262144" and "b = (r div 4096) mod 64" and "c = (r div 64) mod 64" and "d = r mod 64"
    have r: "r = a * 262144 + b * 4096 + c * 64 + d" "b < 64" "c < 64" "d < 64" 
      unfolding a_def b_def c_def d_def by (rule four_digits) simp_all
    have e: "encode_scalar r = [240 + a, 128 + b, 128 + c, 128 + d]" using 4 by (simp add: encode_scalar_def a_def b_def c_def d_def)
    have a: "a \<le> 4" "a = 0 \<longrightarrow> 16 \<le> b" "a = 4 \<longrightarrow> b < 16" using 4 r by auto
    show ?thesis using a r(2-4) unfolding e by (auto simp: decode_rune_def cont_byte_def second_lo_def second_hi_def r(1))
  qed
qed


lemma encode_bytes: "scalar r \<Longrightarrow> b \<in> set (encode_scalar r) \<Longrightarrow> b < 256"
  by (auto simp: encode_scalar_def scalar_def split: if_splits)

lemma encode_nonempty: "encode_scalar r = b # bs \<Longrightarrow> fst (snd (decode_rune (encode_scalar r @ s))) - 1 = length bs" if "scalar r"
  using decode_encode [OF that, of s] by simp

lemma codes_of_bytes: "\<forall>b \<in> set bs. b < 256 \<Longrightarrow> codes (map char_of bs) = bs"
  by (induction bs) (auto simp: codes_def)

lemma runes_encode: "\<forall>r \<in> set rs. scalar r \<Longrightarrow> runes (concat (map encode_rune rs)) = rs"
proof (induction rs)
  case (Cons r rs)
  then have sc: "scalar r" and e: "encode_rune r = encode_scalar r" by (simp_all add: encode_rune_def)
  obtain b bs where b: "encode_scalar r = b # bs" by (cases "encode_scalar r") (auto simp: encode_scalar_def split: if_splits)
  have d: "decode_rune (b # bs @ concat (map encode_rune rs)) = (r, Suc (length bs), True)"
    using decode_encode [OF sc, of "concat (map encode_rune rs)"] by (simp add: b)
  show ?case using Cons by (simp add: e b d)
qed simp

lemma string_of_runes_runes: "\<forall>r \<in> set rs. scalar r \<Longrightarrow> runes (codes (string_of_runes rs)) = rs"
proof -
  assume sc: "\<forall>r \<in> set rs. scalar r"
  then have "\<forall>b \<in> set (concat (map encode_rune rs)). b < 256" using encode_bytes by (auto simp: encode_rune_def)
  then show ?thesis using runes_encode [OF sc] by (simp add: string_of_runes_def codes_of_bytes)
qed

lemma four_bytes:
  assumes "240 < b" "b < 244" "128 \<le> c" "c \<le> 191" "128 \<le> d" "d \<le> 191" "128 \<le> e" "e \<le> (191 :: nat)"
  shows "57343 < (b - 240) * 262144 + (c - 128) * 4096 + (d - 128) * 64 + e - 128" "(b - 240) * 262144 + (c - 128) * 4096 + (d - 128) * 64 + e - 128 \<le> 1114111"
proof -
  define b' c' d' e' where "b' = b - 240" and "c' = c - 128" and "d' = d - 128" and "e' = e - 128"
  have "1 \<le> b'" "b' \<le> 3" "c' \<le> 63" "d' \<le> 63" "e' \<le> 63" and s: "(b - 240) * 262144 + (c - 128) * 4096 + (d - 128) * 64 + e - 128 = b' * 262144 + c' * 4096 + d' * 64 + e'"
    using assms by (auto simp: b'_def c'_def d'_def e'_def)
  then show "57343 < (b - 240) * 262144 + (c - 128) * 4096 + (d - 128) * 64 + e - 128" "(b - 240) * 262144 + (c - 128) * 4096 + (d - 128) * 64 + e - 128 \<le> 1114111"
    unfolding s by linarith+
qed

lemma decode_scalar: "scalar (fst (decode_rune s))"
proof -
  have "scalar r" if "decode_rune s = (r, w, ok)" for r w ok
  proof (cases ok)
    case False
    then have "r = rune_error" using that by (auto simp: decode_rune_def split: list.splits if_splits)
    then show ?thesis by (simp add: scalar_def)
  next
    case True
    then show ?thesis using that
      by (auto simp: decode_rune_def scalar_def cont_byte_def second_lo_def second_hi_def split: list.splits if_splits) (rule four_bytes; simp)+
  qed
  then show ?thesis by (cases "decode_rune s") auto
qed

lemma runes_scalar: "\<forall>r \<in> set (runes bs). scalar r"
  by (induction bs rule: runes.induct) (use decode_scalar in auto)

text \<open>Cutting a string leaves at most that many runes, all of them runes of the string.\<close>

lemma truncate_bounds: "length (runes (codes (truncate_runes s n))) \<le> n \<and> runes (codes (truncate_runes s n)) = take n (runes (codes s))"
proof (cases "length (runes (codes s)) \<le> n")
  case False
  have "\<forall>r \<in> set (take n (runes (codes s))). scalar r" using runes_scalar by (auto dest: in_set_takeD)
  then show ?thesis using False by (simp add: truncate_runes_def string_of_runes_runes)
qed (simp add: truncate_runes_def)

end
