(* ===== verification/Spec2Isabelle.thy ===== *)
theory Spec2Isabelle
  imports Server_Properties Control_Sync Telemetry_Upload Go_Text
begin

text \<open>
  \<^bold>\<open>bridgectl\<close>: a daemon that runs coding agents as sessions, keeps their terminal output, and lets clients attach
  to them over gRPC. This development models \<open>internal/bridge\<close> (sessions and the supervisor), \<open>internal/auth\<close>,
  \<open>internal/enrollment\<close>, \<open>internal/server\<close> (the request handlers), \<open>internal/bridgecontrol\<close> (the connection to the Bridge
  service) and the collection and delivery of events in \<open>internal/telemetry\<close>.

  \<^bold>\<open>How the parts interact.\<close> A request passes the interceptors of \<open>internal/auth\<close>, which put the claims of its
  token into the context, and reaches a handler of \<open>internal/server\<close>. The handler asks the rate limiter, validates
  the fields, checks that the token's project owns the session, and calls the supervisor. The supervisor keeps the
  table of sessions and the history, checks limits and paths with the policy, finds a provider in the registry, and
  runs one critical section of the session. A session owns the output buffer, the live screen and the channels of its
  attached clients; its chunks and metadata go to the session store, from which a restarted daemon loads its history.
  The supervisor notifies the control client of changes, which tells Bridge and carries out its commands; and it hands
  input and output to the telemetry collector, whose events pass a queue and a spool on disk to an uploader.

  \<^bold>\<open>Theories.\<close>

  \<^item> \<open>Bridge_Prelude\<close>: named collections, machine words, times, results, Go maps with their laws; \<open>Output_Log\<close>: the
    locale \<open>output_log\<close> of a numbered output with a cursor; \<open>Go_Std\<close>: \<open>filepath.Clean\<close>, \<open>filepath.Match\<close>, UTF-8, runes;
    \<open>Go_Text\<close>: encoding of runes, \<open>strings.Fields\<close>, truncation to a number of runes;
    \<open>Go_Float\<close>: \<open>float64\<close> rounding to nearest even, with the laws of rounding as the locale \<open>rounding\<close>.
  \<^item> \<open>Byte_Buffer\<close> (\<open>bytebuf.go\<close>): the bounded buffer. The retained chunks are the longest suffix of everything
    appended that fits; resuming from a cursor loses nothing; a subscriber is woken by the next append.
  \<^item> \<open>Session_Types\<close> (\<open>errors.go\<close>, \<open>provider.go\<close>, \<open>interaction.go\<close>): data and the test of a visible change.
  \<^item> \<open>Policy\<close>, \<open>Provider_Registry\<close>, \<open>Session_Store\<close>, \<open>Pending_Input\<close>, \<open>Live_Screen\<close>, \<open>Activity_Buffer\<close>: the files of
    these names in \<open>internal/bridge\<close>. Path patterns, journal round trip and paging, resumption of a partial escape
    sequence, the exact content of a checkpoint for any output, maximal hole-free activity windows.
  \<^item> \<open>Managed_Session\<close> (\<open>supervisor.go\<close>, \<open>respond.go\<close>, \<open>activity.go\<close>): the state of a session and every critical
    section under its lock, one definition each. \<open>Session_Invariants\<close> has the step relation of a session, its
    reachable states and invariant; \<open>Session_Properties\<close> the single writer, the attach stream, who may write, which
    channel operations can panic, and what happens to sessions that ended.
  \<^item> \<open>Supervisor\<close> (\<open>supervisor.go\<close>): the table of sessions, history, recovery, \<open>Start\<close> split at the points where it
    releases the lock, the per-session operations, reaping and shutdown. \<open>Supervisor_Properties\<close>: durability of the
    output across a restart, limits, shutdown, and the races of \<open>Start\<close>.
  \<^item> \<open>Terminal\<close> (\<open>terminal.go\<close>): polled windows of the output.
  \<^item> \<open>Rate_Limit\<close> (\<open>ratelimit.go\<close>): token buckets in \<open>float64\<close> arithmetic with a circuit breaker; \<open>Auth\<close>
    (\<open>internal/auth\<close>): tokens, interceptors, audit records, certificate reloading; \<open>Enrollment\<close>
    (\<open>internal/enrollment\<close>): one-time tokens and their file with every fault of its replacement.
  \<^item> \<open>Attach_Stream\<close> (\<open>AttachSession\<close> of \<open>server.go\<close>): what an attached client is sent. \<open>Server\<close> (\<open>internal/server\<close>):
    every handler, with its guards in the order of the code. \<open>Server_Properties\<close>: isolation of projects (live sessions, history and
    database), scope of reads, key registration and enrollment.
  \<^item> \<open>Control_Client\<close> (\<open>client.go\<close>, \<open>observer.go\<close>, \<open>revision.go\<close>, \<open>status.go\<close>, \<open>protocol.go\<close>): the queue of notifications, revision
    files, messages and snapshots; \<open>Control_Command\<close> (\<open>command.go\<close>): remote commands with their durable ledger, each dispatched at most
    once; \<open>Control_Terminal\<close> (\<open>terminal.go\<close>): leases of remote writers; \<open>Control_Loop\<close>: connecting, serving and reading;
    \<open>Control_Sync\<close>: all interleavings of the client with the daemon. What Bridge knows converges to what was last reported, every
    run of the writer ends there, and revisions are numbered without gaps.
  \<^item> \<open>Telemetry_Framing\<close> (\<open>framing.go\<close>), \<open>Telemetry_Live\<close> (\<open>live.go\<close>): frames and interaction records of terminal text, found
    independently of how the text was split and without losing a byte; \<open>Telemetry_Queue\<close> (\<open>async.go\<close>, \<open>completeness.go\<close>): the bounded
    queue and its exact account; \<open>Telemetry_Turns\<close> (\<open>analysis.go\<close>, \<open>filter.go\<close>): selection, numbering and reassembly of events;
    \<open>Telemetry_Spool\<close> (\<open>spool.go\<close>, \<open>uploader.go\<close>): the spool directory under faults, crashes and restarts; \<open>Telemetry_Upload\<close>
    (\<open>http_batches.go\<close>, \<open>http_forwarder.go\<close>): requests within their limits, and removal of acknowledged segments only.

  \<^bold>\<open>Interfaces.\<close> Each locale states what a client relies on and is interpreted on the definitions of the model:
  \<open>output_log\<close>, \<open>rounding\<close> (by \<open>f64\<close>), \<open>metered\<close> (a potential that bounds admissions, by the keyed limiter), \<open>one_time\<close>
  (by the token store, the enrollment handler and the command ledger), \<open>project_scoped\<close> (by the handlers of the server) and
  \<open>published\<close> (what the control client relies on of the daemon, by the supervisor).

  \<^bold>\<open>Modelling choices.\<close>

  \<^item> A critical section is a function on the state of the session that also returns its effects (writes to the
    process, telemetry, notifications); a Go panic is the outcome \<open>Panic\<close>. Interleavings are sequences of sections.
  \<^item> Sequence numbers are 64-bit words, sizes 32-bit words, times integers in nanoseconds, \<open>float64\<close> rationals rounded
    after each operation (overflow to infinity does not occur for configured rates and is left out). Counters that grow by one
    per event and are only counted or compared within one call (\<open>csRevision\<close>, the numbers of events) are unbounded.
  \<^item> A Go map is an association list, so that the order in which a range visits it is some order.
  \<^item> An error keeps its sentinel or status code, not the text of its message.
  \<^item> bbolt, the JWT library, X.509, the terminal emulator, the file system, HTTP and WebSocket connections, JSON encoders, credential
    patterns and process creation are parameters (records of functions, or faults chosen per call), with their documented
    behaviour as named hypotheses where a property needs it; witnesses instantiate them.
  \<^item> Loops are structural recursions or have a termination proof; the repair loop of \<open>AttachSession\<close> and the loop of
    \<open>appendEvent\<close> are \<open>partial_function\<close>s, and \<open>live_no_holes\<close> and \<open>turns_reassemble\<close> prove that they return.
  \<^item> In \<open>Control_Sync\<close> the daemon changes in any way at any time and notifications of any state arrive at any time, because the
    supervisor notifies after releasing its locks and some changes are not notified; \<open>syReported\<close> and \<open>syStale\<close> record what was
    reported and what the reports miss. The clock does not go backwards.
  \<^item> The spool is modelled through stops of the process; loss of power is not. A pass of the HTTP forwarder runs without
    other operations of the spool in between; the uploader of \<open>Telemetry_Spool\<close> interleaves with them.
  \<^item> Sending to a client succeeds; a failed send ends the handler, which leaves a prefix of the events described here.
  \<^item> The registry of the server is the one of its supervisor, as the daemon sets it up.

  \<^bold>\<open>Not modelled.\<close> \<open>cmd/\<close> (flags and terminal I/O), \<open>internal/localserver\<close> apart from the configuration of the control client,
  \<open>internal/pki\<close>, \<open>internal/certprovider\<close> (files and X.509 calls), \<open>internal/config\<close> (YAML), \<open>internal/provider\<close> and
  \<open>internal/codexapp\<close> (adapters of third-party agents), \<open>internal/diagnose\<close> (the report of a snapshot, a parameter of the handler), in
  \<open>internal/telemetry\<close> the question classifier and redaction (regular expressions), the terminal capture (emulator), the gRPC and
  S3 clients and the printed report, generated protobuf code, and the text of log lines and messages.
\<close>

end
